(* ===== verification/MC_Prelude.thy ===== *)
theory MC_Prelude imports Main "HOL-Library.Word" "HOL-Library.Multiset"
begin

text \<open>
  Shared vocabulary of the development: the machine-word types of the DPU (a 32-bit
  machine), little-endian multi-word values, the counted and strided loops of the C code
  as higher-order functions, and the generic lemmas on lists, words and permutations that
  the component theories use.
\<close>

named_theorems limb_simps \<open>facts about the length and value of multi-word numbers\<close>
named_theorems dma_simps \<open>facts about reads after MRAM writes\<close>

unbundle bit_operations_syntax

type_synonym u16 = "16 word"
type_synonym u32 = "32 word"
type_synonym u64 = "64 word"

section \<open>Little-endian multi-word numbers\<close>

text \<open>The number that a list of 32-bit words denotes, least significant word first.\<close>

fun val32 :: "u32 list \<Rightarrow> nat" where
  "val32 [] = 0"
| "val32 (x # xs) = unat x + 2 ^ 32 * val32 xs"

lemma u32_bound [simp]: "unat (x :: u32) < 4294967296"
  using unsigned_less [of x, where ?'a = nat] by simp

lemma val32_bound: "val32 xs < 2 ^ (32 * length xs)"
proof (induction xs)
  case Nil
  show ?case by simp
next
  case (Cons x xs)
  have "unat x + 2 ^ 32 * val32 xs < 2 ^ 32 * (1 + val32 xs)"
    using u32_bound [of x] by simp
  also have "\<dots> \<le> 2 ^ 32 * 2 ^ (32 * length xs)"
    using Cons.IH by (intro mult_le_mono2) simp
  finally show ?case by (simp add: power_add)
qed

lemma val32_append [limb_simps]:
  "val32 (xs @ ys) = val32 xs + 2 ^ (32 * length xs) * val32 ys"
  by (induction xs) (simp_all add: power_add algebra_simps)

lemma val32_replicate_0 [simp]: "val32 (replicate n 0) = 0"
  by (induction n) simp_all

lemma val32_inj:
  "length xs = length ys \<Longrightarrow> val32 xs = val32 ys \<Longrightarrow> xs = ys"
proof (induction xs ys rule: list_induct2)
  case Nil
  show ?case by simp
next
  case (Cons x xs y ys)
  have eq: "unat x + 2 ^ 32 * val32 xs = unat y + 2 ^ 32 * val32 ys"
    using Cons.prems by simp
  have "unat x mod 2 ^ 32 = unat y mod 2 ^ 32"
    using arg_cong [OF eq, of "\<lambda>n. n mod 2 ^ 32"] by simp
  then have xy: "unat x = unat y"
    by simp
  then have "val32 xs = val32 ys"
    using eq by simp
  with Cons.IH xy show ?case by (simp add: word_unat_eq_iff)
qed

text \<open>
  The DPU's \<open>add\<close>/\<open>addc\<close> pair: a 32-bit addition that also consumes and
  produces the carry flag, and the chain of one \<open>add\<close> and several \<open>addc\<close>
  that adds two multi-word numbers.
\<close>

definition addc :: "bool \<Rightarrow> u32 \<Rightarrow> u32 \<Rightarrow> u32 \<times> bool" where
  "addc c a b = (a + b + of_bool c, 2 ^ 32 \<le> unat a + unat b + of_bool c)"

fun addc_chain :: "bool \<Rightarrow> u32 list \<Rightarrow> u32 list \<Rightarrow> u32 list \<times> bool" where
  "addc_chain c (a # as) (b # bs) =
     (let (r, c') = addc c a b; (rs, c'') = addc_chain c' as bs in (r # rs, c''))"
| "addc_chain c _ _ = ([], c)"

definition add_chain :: "u32 list \<Rightarrow> u32 list \<Rightarrow> u32 list" where
  "add_chain as bs = fst (addc_chain False as bs)"

lemma addc_value:
  "unat (fst (addc c a b)) + 2 ^ 32 * of_bool (snd (addc c a b)) = unat a + unat b + of_bool c"
proof -
  have s: "unat (a + b + of_bool c) = (unat a + unat b + of_bool c) mod 2 ^ 32"
    by (simp add: unat_word_ariths mod_simps)
  have lt: "unat a + unat b + of_bool c < 2 * 2 ^ 32"
    using u32_bound [of a] u32_bound [of b] by (cases c) (simp_all del: u32_bound)
  show ?thesis
  proof (cases "2 ^ 32 \<le> unat a + unat b + of_bool c")
    case True
    then have "(unat a + unat b + of_bool c) mod 2 ^ 32 = unat a + unat b + of_bool c - 2 ^ 32"
      using lt by (simp add: mod_if)
    with True s show ?thesis by (simp add: addc_def)
  next
    case False
    with s show ?thesis by (simp add: addc_def)
  qed
qed

lemma addc_chain_value:
  "length as = length bs \<Longrightarrow>
   val32 (fst (addc_chain c as bs)) + 2 ^ (32 * length as) * of_bool (snd (addc_chain c as bs))
     = val32 as + val32 bs + of_bool c"
proof (induction as bs arbitrary: c rule: list_induct2)
  case Nil
  show ?case by simp
next
  case (Cons a as b bs)
  obtain r c' where rc: "addc c a b = (r, c')" by (cases "addc c a b")
  obtain rs c'' where rs: "addc_chain c' as bs = (rs, c'')" by (cases "addc_chain c' as bs")
  have 1: "unat r + 2 ^ 32 * of_bool c' = unat a + unat b + of_bool c"
    using addc_value [of c a b] rc by simp
  have 2: "val32 rs + 2 ^ (32 * length as) * of_bool c'' = val32 as + val32 bs + of_bool c'"
    using Cons.IH [of c'] rs by simp
  have "2 ^ 32 * (val32 rs + 2 ^ (32 * length as) * of_bool c'')
      = 2 ^ 32 * (val32 as + val32 bs + of_bool c')"
    using 2 by simp
  with 1 show ?case
    by (simp add: rc rs power_add algebra_simps)
qed

lemma length_addc_chain [simp]:
  "length (fst (addc_chain c as bs)) = min (length as) (length bs)"
  by (induction c as bs rule: addc_chain.induct) (auto simp: Let_def split: prod.split)

lemma length_add_chain [simp]: "length (add_chain as bs) = min (length as) (length bs)"
  by (simp add: add_chain_def)

lemma val32_add_chain:
  assumes "length as = length bs"
  shows "val32 (add_chain as bs) = (val32 as + val32 bs) mod 2 ^ (32 * length as)"
proof -
  let ?r = "addc_chain False as bs"
  have eq: "val32 (fst ?r) + 2 ^ (32 * length as) * of_bool (snd ?r) = val32 as + val32 bs"
    using addc_chain_value [OF assms, of False] by simp
  have "val32 (fst ?r) < 2 ^ (32 * length as)"
    using val32_bound [of "fst ?r"] assms by simp
  then have "(val32 (fst ?r) + 2 ^ (32 * length as) * of_bool (snd ?r)) mod 2 ^ (32 * length as)
      = val32 (fst ?r)"
    by simp
  with eq show ?thesis by (simp add: add_chain_def)
qed

section \<open>Loops of the C code\<close>

text \<open>
  \<open>for (i = b; i < n; i += step) body\<close>: the loop threads its state through the body.
  A step of 0 with \<open>b < n\<close> would not end in C; no loop of the code has one, and the
  guard makes the function total.
\<close>

function for_stride :: "nat \<Rightarrow> nat \<Rightarrow> nat \<Rightarrow> (nat \<Rightarrow> 's \<Rightarrow> 's) \<Rightarrow> 's \<Rightarrow> 's" where
  "for_stride step b n body s =
     (if 0 < step \<and> b < n then for_stride step (b + step) n body (body b s) else s)"
  by pat_completeness auto
termination
  by (relation "measure (\<lambda>(step, b, n, body, s). n - b)") auto

declare for_stride.simps [simp del]

text \<open>The indices the loop visits, and the loop as a fold over them.\<close>

function stride_list :: "nat \<Rightarrow> nat \<Rightarrow> nat \<Rightarrow> nat list" where
  "stride_list step b n = (if 0 < step \<and> b < n then b # stride_list step (b + step) n else [])"
  by pat_completeness auto
termination
  by (relation "measure (\<lambda>(step, b, n). n - b)") auto

declare stride_list.simps [simp del]

lemma for_stride_fold: "for_stride step b n body s = fold body (stride_list step b n) s"
proof (induction step b n body s rule: for_stride.induct)
  case (1 step b n body s)
  show ?case
  proof (cases "0 < step \<and> b < n")
    case True
    with 1 [OF True] show ?thesis
      by (simp add: for_stride.simps [of step b n] stride_list.simps [of step b n])
  next
    case False
    then show ?thesis
      by (auto simp: for_stride.simps [of step b n] stride_list.simps [of step b n])
  qed
qed

lemma set_stride_list:
  "0 < step \<Longrightarrow> i \<in> set (stride_list step b n) \<longleftrightarrow> (\<exists>k. i = b + k * step \<and> i < n)"
proof (induction step b n rule: stride_list.induct)
  case (1 step b n)
  show ?case
  proof (cases "b < n")
    case False
    then show ?thesis by (auto simp: stride_list.simps [of step b n])
  next
    case True
    have IH: "i \<in> set (stride_list step (b + step) n) \<longleftrightarrow> (\<exists>k. i = b + step + k * step \<and> i < n)"
      using 1 True by simp
    have "(\<exists>k. i = b + k * step \<and> i < n)
        \<longleftrightarrow> i = b \<or> (\<exists>k. i = b + step + k * step \<and> i < n)"
      (is "?L \<longleftrightarrow> ?R")
    proof
      assume ?L
      then obtain k where k: "i = b + k * step" "i < n" by blast
      then show ?R by (cases k) (auto simp: algebra_simps)
    next
      assume ?R
      then show ?L
      proof
        assume "i = b"
        with True show ?L by (intro exI [of _ 0]) simp
      next
        assume "\<exists>k. i = b + step + k * step \<and> i < n"
        then obtain k where "i = b + step + k * step" "i < n" by blast
        then show ?L by (intro exI [of _ "Suc k"]) simp
      qed
    qed
    with True "1.prems" IH show ?thesis
      by (simp add: stride_list.simps [of step b n])
  qed
qed

lemma distinct_stride_list: "distinct (stride_list step b n)"
proof (induction step b n rule: stride_list.induct)
  case (1 step b n)
  show ?case
  proof (cases "0 < step \<and> b < n")
    case True
    with 1 [OF True] show ?thesis
      by (auto simp: stride_list.simps [of step b n] set_stride_list)
  next
    case False
    then show ?thesis by (auto simp: stride_list.simps [of step b n])
  qed
qed

text \<open>
  Folding steps that commute pairwise gives the same result for every order of the
  items: what makes the order in which tasklets run irrelevant.
\<close>

lemma fold_mset_eq:
  assumes "\<And>x y. x \<in> set xs \<Longrightarrow> y \<in> set xs \<Longrightarrow> f x \<circ> f y = f y \<circ> f x"
    and "mset xs = mset ys"
  shows "fold f xs = fold f ys"
  using assms by (rule fold_multiset_equiv)

text \<open>The strided loops of \<open>nr\<close> tasklets together visit each block once.\<close>

lemma in_tasklet_stride:
  assumes "0 < nr" "0 < blk" "t < nr"
  shows "i \<in> set (stride_list (blk * nr) (blk * t) n)
     \<longleftrightarrow> (\<exists>k. i = blk * k \<and> i < n \<and> k mod nr = t)"
proof -
  have "(\<exists>k. i = blk * t + k * (blk * nr) \<and> i < n) \<longleftrightarrow> (\<exists>k. i = blk * k \<and> i < n \<and> k mod nr = t)"
    (is "?L \<longleftrightarrow> ?R")
  proof
    assume ?L
    then obtain k where "i = blk * t + k * (blk * nr)" "i < n" by blast
    then have "i = blk * (t + k * nr) \<and> i < n \<and> (t + k * nr) mod nr = t"
      using assms by (simp add: algebra_simps)
    then show ?R by blast
  next
    assume ?R
    then obtain k where k: "i = blk * k" "i < n" "k mod nr = t" by blast
    define q where "q = k div nr"
    have "k = q * nr + t"
      unfolding k(3) [symmetric] q_def by (rule div_mult_mod_eq [symmetric])
    with k(1) have "i = blk * t + q * (blk * nr)" by (simp add: algebra_simps)
    with k(2) show ?L by blast
  qed
  moreover have "0 < blk * nr" using assms by simp
  ultimately show ?thesis by (simp add: set_stride_list)
qed

lemma distinct_tasklet_strides:
  assumes "0 < nr" "0 < blk" "distinct ts" "set ts \<subseteq> {..<nr}"
  shows "distinct (concat (map (\<lambda>t. stride_list (blk * nr) (blk * t) n) ts))"
  using assms(3,4)
proof (induction ts)
  case Nil
  show ?case by simp
next
  case (Cons t ts)
  have "i \<notin> set (stride_list (blk * nr) (blk * u) n)"
    if i: "i \<in> set (stride_list (blk * nr) (blk * t) n)" and u: "u \<in> set ts" for i u
  proof
    assume i': "i \<in> set (stride_list (blk * nr) (blk * u) n)"
    have "t < nr" "u < nr" using Cons.prems u by auto
    then obtain k l where kl: "i = blk * k" "k mod nr = t" "i = blk * l" "l mod nr = u"
      using i i' in_tasklet_stride [OF assms(1,2)] by meson
    then have "k = l" using assms(2) by simp
    with kl have "t = u" by simp
    with Cons.prems u show False by simp
  qed
  with Cons show ?case by (auto simp: distinct_stride_list)
qed

lemma stride_partition:
  assumes "0 < nr" "0 < blk" "distinct ts" "set ts = {..<nr}"
  shows "mset (concat (map (\<lambda>t. stride_list (blk * nr) (blk * t) n) ts))
       = mset (stride_list blk 0 n)"
proof -
  have "i \<in> set (concat (map (\<lambda>t. stride_list (blk * nr) (blk * t) n) ts))
      \<longleftrightarrow> i \<in> set (stride_list blk 0 n)" for i
  proof -
    have "i \<in> set (concat (map (\<lambda>t. stride_list (blk * nr) (blk * t) n) ts))
        \<longleftrightarrow> (\<exists>t<nr. \<exists>k. i = blk * k \<and> i < n \<and> k mod nr = t)"
      using assms(4) in_tasklet_stride [OF assms(1,2), of _ i n] by auto
    also have "\<dots> \<longleftrightarrow> (\<exists>k. i = blk * k \<and> i < n)"
      using assms(1) mod_less_divisor by blast
    also have "\<dots> \<longleftrightarrow> i \<in> set (stride_list blk 0 n)"
      using assms(2) by (simp add: set_stride_list mult.commute)
    finally show ?thesis .
  qed
  then have "set (concat (map (\<lambda>t. stride_list (blk * nr) (blk * t) n) ts))
      = set (stride_list blk 0 n)" by blast
  moreover have "distinct (concat (map (\<lambda>t. stride_list (blk * nr) (blk * t) n) ts))"
    using assms by (intro distinct_tasklet_strides) auto
  ultimately show ?thesis
    by (simp only: set_eq_iff_mset_eq_distinct distinct_stride_list)
qed

section \<open>Words and natural numbers\<close>

lemma of_nat_ucast: "n < 2 ^ 32 \<Longrightarrow> ucast (of_nat n :: u32) = (of_nat n :: u64)"
  by (simp add: unsigned_of_nat take_bit_nat_eq_self)

lemma unat_of_nat32: "n < 2 ^ 32 \<Longrightarrow> unat (of_nat n :: u32) = n"
  by (simp add: unsigned_of_nat take_bit_nat_eq_self)

lemma ucast_of_nat64: "ucast (of_nat n :: u64) = (of_nat n :: u32)"
  by (rule bit_eqI) (auto simp: bit_simps)

end
