(* ===== verification/ChaCha20.thy ===== *)
theory ChaCha20 imports MC_Prelude
begin

text \<open>
  The ChaCha20 block function of the trusted loader, \<^verbatim>\<open>src/src/core/chacha.S\<close>:
  the quarter round macro on the register file, the loop that counts its ten double rounds
  in spare run bits, and the two entry paths. The system path hands its arguments to the
  key-storage thread 22 through the thread I/O page and runs with the key in that thread's
  registers; the user path keeps the caller's registers on the stack and loads the key from
  WRAM. Registers are a list of sixteen words; WRAM is a map from byte addresses (of
  words) to words.
\<close>

unbundle bit_operations_syntax

type_synonym wram = "nat \<Rightarrow> u32"
type_synonym runbits = "nat \<Rightarrow> bool"

section \<open>The code\<close>

text \<open>A run of \<open>sw\<close> instructions to consecutive words.\<close>

fun store_words :: "nat \<Rightarrow> u32 list \<Rightarrow> wram \<Rightarrow> wram" where
  "store_words a [] w = w"
| "store_words a (x # xs) w = store_words (a + 4) xs (w(a := x))"

definition QUARTERROUND :: "nat \<Rightarrow> nat \<Rightarrow> nat \<Rightarrow> nat \<Rightarrow> u32 list \<Rightarrow> u32 list" where
  "QUARTERROUND r0 r1 r2 r3 s =
     (let s = s[r0 := s ! r0 + s ! r1];
          s = s[r3 := s ! r3 XOR s ! r0];
          s = s[r3 := word_rotl 16 (s ! r3)];
          s = s[r2 := s ! r2 + s ! r3];
          s = s[r1 := s ! r1 XOR s ! r2];
          s = s[r1 := word_rotl 12 (s ! r1)];
          s = s[r0 := s ! r0 + s ! r1];
          s = s[r3 := s ! r3 XOR s ! r0];
          s = s[r3 := word_rotl 8 (s ! r3)];
          s = s[r2 := s ! r2 + s ! r3];
          s = s[r1 := s ! r1 XOR s ! r2];
          s = s[r1 := word_rotl 7 (s ! r1)]
      in s)"

text \<open>The body of \<open>chacha_loop\<close>: four column rounds and four diagonal rounds.\<close>

definition chacha_rounds :: "u32 list \<Rightarrow> u32 list" where
  "chacha_rounds s =
     (let s = QUARTERROUND 0 4 8 12 s;
          s = QUARTERROUND 1 5 9 13 s;
          s = QUARTERROUND 2 6 10 14 s;
          s = QUARTERROUND 3 7 11 15 s;
          s = QUARTERROUND 0 5 10 15 s;
          s = QUARTERROUND 1 6 11 12 s;
          s = QUARTERROUND 2 7 8 13 s
      in QUARTERROUND 3 4 9 14 s)"

text \<open>
  What follows the eight macros: whether to go round again, with the user counter
  \<open>r16\<close> and the run bits 24 to 27. \<open>boot\<close> sets a run bit and \<open>clr_run\<close> clears one;
  both yield the bit's previous value, which the jump condition tests. Thread 22 skips the
  decrement of \<open>r16\<close>.
\<close>

definition chacha_again :: "bool \<Rightarrow> u32 \<Rightarrow> runbits \<Rightarrow> bool \<times> u32 \<times> runbits" where
  "chacha_again id22 r16 rb =
     (if \<not> id22 \<and> r16 - 1 \<noteq> 0 then (True, r16 - 1, rb)
      else
        let r16 = (if id22 then r16 else r16 - 1) in
        if rb 27 then (\<not> rb 24, r16, rb(27 := True, 24 := True))
        else if \<not> rb 24 then (True, r16, rb(27 := False, 24 := True))
        else if \<not> rb 25 then (True, r16, rb(27 := False, 24 := False, 25 := True))
        else if \<not> rb 26 then (True, r16, rb(27 := False, 24 := False, 25 := False, 26 := True))
        else (True, r16, rb(24 := False, 25 := False, 26 := False, 27 := True)))"

partial_function (option) chacha_loop ::
  "bool \<Rightarrow> u32 list \<Rightarrow> u32 \<Rightarrow> runbits \<Rightarrow> (u32 list \<times> runbits) option" where
  "chacha_loop id22 s r16 rb =
     (let s = chacha_rounds s; (again, r16, rb) = chacha_again id22 r16 rb
      in if again then chacha_loop id22 s r16 rb else Some (s, rb))"

definition chacha_consts :: "u32 list" where
  "chacha_consts = [0x61707865, 0x3320646e, 0x79622d32, 0x6b206574]"

text \<open>
  Thread 22: arguments in the thread I/O page at \<open>tio\<close> (unused key pointer, counter,
  three IV words, output address), key in the immutable registers. Cell 0 of WRAM serves as
  scratch and is put back.
\<close>

definition chacha_thread_row0 :: "nat \<Rightarrow> u32 list \<Rightarrow> wram \<Rightarrow> wram" where
  "chacha_thread_row0 tio s w =
     (let w = w(0 := s ! 0);
          out = unat (w (tio + 0x14));
          w = store_words (out + 0x4) [s ! 1, s ! 2, s ! 3] w;
          w = w(out := w 0)
      in w(0 := w (tio + 0x18)))"

definition chacha_thread_rows :: "u32 list \<Rightarrow> nat \<Rightarrow> u32 list \<Rightarrow> wram \<Rightarrow> wram" where
  "chacha_thread_rows sys_key tio s w =
     (let s12 = s ! 12 + w (tio + 0x4);
          s13 = s ! 13 + w (tio + 0x8);
          s14 = s ! 14 + w (tio + 0xC);
          s15 = s ! 15 + w (tio + 0x10);
          s4 = map2 (+) (take 8 (drop 4 s)) sys_key;
          out = unat (w (tio + 20))
      in store_words (out + 16) (s4 @ [s12, s13, s14, s15]) w)"

definition ime_chacha_thread ::
  "u32 list \<Rightarrow> nat \<Rightarrow> wram \<times> runbits \<Rightarrow> (wram \<times> runbits) option" where
  "ime_chacha_thread sys_key tio wr =
     (let w = fst wr; rb = snd wr;
          w = w(tio + 0x18 := w 0);
          r15 = w (tio + 0x10); r14 = w (tio + 0x0C); r13 = w (tio + 0x08); r12 = w (tio + 0x04);
          rb = rb(24 := False, 25 := False, 26 := False, 27 := False)
      in Option.bind (chacha_loop True (chacha_consts @ sys_key @ [r12, r13, r14, r15]) 0 rb)
        (\<lambda>(s, rb).
          let s = map2 (+) (take 4 s) chacha_consts @ drop 4 s;
              w = chacha_thread_row0 tio s w;
              w = chacha_thread_rows sys_key tio s w
          in Some (w(tio + 60 := 0), rb)))"

text \<open>
  The system path of \<open>ime_chacha_blk\<close> on thread 0: the arguments and a non-zero flag go
  to the I/O page, thread 22 is booted, and the caller spins until the flag is cleared.
\<close>

definition ime_chacha_sys_key ::
  "u32 list \<Rightarrow> nat \<Rightarrow> u32 \<Rightarrow> u32 \<Rightarrow> u32 \<Rightarrow> u32 \<Rightarrow> nat \<Rightarrow> wram \<times> runbits
     \<Rightarrow> (wram \<times> runbits) option" where
  "ime_chacha_sys_key sys_key tio c iv_a iv_b iv_c out wr =
     (let w = fst wr;
          w = w(tio + 60 := 0xFFFFFFFF);
          w = store_words tio [0, c, iv_a, iv_b, iv_c, of_nat out] w
      in ime_chacha_thread sys_key tio (w, snd wr))"

text \<open>
  The user path: the six arguments and \<open>r14\<close> to \<open>r16\<close> are saved at the stack
  pointer \<open>r22\<close>, the key is read at \<open>key\<close>, and the sum with the initial state
  reads it again after the first stores of the result.
\<close>

definition ime_chacha_user_key ::
  "nat \<Rightarrow> u32 \<times> u32 \<times> u32 \<Rightarrow> nat \<Rightarrow> u32 \<Rightarrow> u32 \<Rightarrow> u32 \<Rightarrow> u32 \<Rightarrow> nat \<Rightarrow> wram \<times> runbits
     \<Rightarrow> (wram \<times> runbits) option" where
  "ime_chacha_user_key r22 saved key c iv_a iv_b iv_c out wr =
     (let w = fst wr; rb = snd wr;
          w = store_words r22 [of_nat key, c, iv_a, iv_b, iv_c, of_nat out,
                               fst saved, fst (snd saved), snd (snd saved)] w;
          k = map (\<lambda>i. w (key + 4 * i)) [0..<8]
      in Option.bind (chacha_loop False (chacha_consts @ k @ [c, iv_a, iv_b, iv_c]) 10 rb)
        (\<lambda>(s, rb).
          let s = map2 (+) (take 4 s) chacha_consts @ drop 4 s;
              r12 = s ! 12 + w (r22 + 0x4);
              r13 = s ! 13 + w (r22 + 0x8);
              r14 = s ! 14 + w (r22 + 0xC);
              r15 = s ! 15 + w (r22 + 0x10);
              r16 = unat (w (r22 + 0x14));
              w = store_words (r16 + 0x30) [r12, r13, r14, r15] w;
              r14 = unat (w r22);
              s4 = map2 (+) (take 8 (drop 4 s)) (map (\<lambda>i. w (r14 + 4 * i)) [0..<8]);
              w = store_words r16 (take 4 s @ s4) w
          in Some (w, rb)))"

section \<open>The block function of RFC 8439\<close>

fun quarter_round :: "u32 \<times> u32 \<times> u32 \<times> u32 \<Rightarrow> u32 \<times> u32 \<times> u32 \<times> u32" where
  "quarter_round (a, b, c, d) =
     (let a = a + b; d = word_rotl 16 (d XOR a);
          c = c + d; b = word_rotl 12 (b XOR c);
          a = a + b; d = word_rotl 8 (d XOR a);
          c = c + d; b = word_rotl 7 (b XOR c)
      in (a, b, c, d))"

definition qround :: "nat \<times> nat \<times> nat \<times> nat \<Rightarrow> u32 list \<Rightarrow> u32 list" where
  "qround ijkl s =
     (case ijkl of (i, j, k, l) \<Rightarrow>
        case quarter_round (s ! i, s ! j, s ! k, s ! l) of (a, b, c, d) \<Rightarrow>
          s[i := a, j := b, k := c, l := d])"

definition inner_block :: "u32 list \<Rightarrow> u32 list" where
  "inner_block = fold qround
     ([(i, i + 4, i + 8, i + 12). i \<leftarrow> [0..<4]] @
      [(i, 4 + (i + 1) mod 4, 8 + (i + 2) mod 4, 12 + (i + 3) mod 4). i \<leftarrow> [0..<4]])"

definition chacha20_block :: "u32 list \<Rightarrow> u32 \<Rightarrow> u32 list \<Rightarrow> u32 list" where
  "chacha20_block key c nonce =
     (let init = chacha_consts @ key @ [c] @ nonce
      in map2 (+) ((inner_block ^^ 10) init) init)"

section \<open>Lemmas\<close>

lemma length_QUARTERROUND [simp]: "length (QUARTERROUND i j k l s) = length s"
  by (simp only: QUARTERROUND_def Let_def length_list_update)

lemma length_chacha_rounds [simp]: "length (chacha_rounds s) = length s"
  by (simp add: chacha_rounds_def Let_def)

text \<open>Three instructions of the macro (add, xor, rotate) as one step.\<close>

definition arx :: "nat \<Rightarrow> nat \<Rightarrow> nat \<Rightarrow> nat \<Rightarrow> u32 list \<Rightarrow> u32 list" where
  "arx n x y z s = (s[x := s ! x + s ! y])[z := word_rotl n (s ! z XOR (s ! x + s ! y))]"

lemma length_arx [simp]: "length (arx n x y z s) = length s"
  by (simp add: arx_def)

lemma nth_arx:
  "x < length s \<Longrightarrow> z < length s \<Longrightarrow> x \<noteq> z \<Longrightarrow>
   arx n x y z s ! m = (if m = z then word_rotl n (s ! z XOR (s ! x + s ! y))
                        else if m = x then s ! x + s ! y else s ! m)"
  by (simp add: arx_def nth_list_update)

lemma arx_fold:
  assumes "x < length s" "z < length s" "x \<noteq> z"
  shows "(let s = s[x := s ! x + s ! y]; s = s[z := s ! z XOR s ! x]; s = s[z := word_rotl n (s ! z)] in f s)
       = f (arx n x y z s)"
  using assms by (simp add: arx_def Let_def)

lemma QUARTERROUND_eq:
  assumes "distinct [i, j, k, l]" "{i, j, k, l} \<subseteq> {..<length s}"
  shows "QUARTERROUND i j k l s = qround (i, j, k, l) s"
proof -
  have b: "i < length s" "j < length s" "k < length s" "l < length s"
    and d: "i \<noteq> j" "i \<noteq> k" "i \<noteq> l" "j \<noteq> k" "j \<noteq> l" "k \<noteq> l"
    "j \<noteq> i" "k \<noteq> i" "l \<noteq> i" "k \<noteq> j" "l \<noteq> j" "l \<noteq> k"
    using assms by auto
  have "QUARTERROUND i j k l s = arx 7 k l j (arx 8 i j l (arx 12 k l j (arx 16 i j l s)))"
    unfolding QUARTERROUND_def by (simp only: arx_fold b d length_arx not_False_eq_True)
  also have "\<dots> = qround (i, j, k, l) s"
  proof (rule nth_equalityI)
    show "length (arx 7 k l j (arx 8 i j l (arx 12 k l j (arx 16 i j l s)))) = length (qround (i, j, k, l) s)"
      by (simp add: qround_def Let_def)
    fix m
    assume "m < length (arx 7 k l j (arx 8 i j l (arx 12 k l j (arx 16 i j l s))))"
    then have m: "m < length s" by simp
    consider "m = i" | "m = j" | "m = k" | "m = l" | "m \<noteq> i" "m \<noteq> j" "m \<noteq> k" "m \<noteq> l" by blast
    then show "arx 7 k l j (arx 8 i j l (arx 12 k l j (arx 16 i j l s))) ! m = qround (i, j, k, l) s ! m"
      by cases (simp_all add: qround_def Let_def nth_arx b d m)
  qed
  finally show ?thesis .
qed

lemma chacha_rounds_eq: "length s = 16 \<Longrightarrow> chacha_rounds s = inner_block s"
proof -
  assume len: "length s = 16"
  have q: "QUARTERROUND i j k l t = qround (i, j, k, l) t" "length (qround (i, j, k, l) t) = 16"
    if "length t = 16" "distinct [i, j, k, l]" "{i, j, k, l} \<subseteq> {..<16}" for i j k l t
    using that QUARTERROUND_eq [of i j k l t] length_QUARTERROUND [of i j k l t] by simp_all
  have idx: "[(i, i + 4, i + 8, i + 12). i \<leftarrow> [0..<4]] @
      [(i, 4 + (i + 1) mod 4, 8 + (i + 2) mod 4, 12 + (i + 3) mod 4). i \<leftarrow> [0..<4]]
    = [(0, 4, 8, 12), (1, 5, 9, 13), (2, 6, 10, 14), (3, 7, 11, 15),
       (0, 5, 10, 15), (1, 6, 11, 12), (2, 7, 8, 13), (3, 4, 9, 14 :: nat)]"
    by (simp add: upt_rec [of _ 4])
  show ?thesis
    unfolding inner_block_def idx chacha_rounds_def by (simp add: q len)
qed

lemma length_inner_block [simp]: "length s = 16 \<Longrightarrow> length (inner_block s) = 16"
  by (metis chacha_rounds_eq length_chacha_rounds)

lemma length_inner_block_pow [simp]: "length s = 16 \<Longrightarrow> length ((inner_block ^^ n) s) = 16"
  by (induction n) simp_all

section \<open>The loop counter\<close>

text \<open>
  One unfolding of the loop, as two rewrite rules: the jump back and the exit.
\<close>

lemma chacha_loop_go:
  "chacha_again id22 r16 rb = (True, r16', rb') \<Longrightarrow>
   chacha_loop id22 s r16 rb = chacha_loop id22 (chacha_rounds s) r16' rb'"
  by (subst chacha_loop.simps) simp

lemma chacha_loop_exit:
  "chacha_again id22 r16 rb = (False, r16', rb') \<Longrightarrow>
   chacha_loop id22 s r16 rb = Some (chacha_rounds s, rb')"
  by (subst chacha_loop.simps) simp

text \<open>
  The four run bits as a number: the system path counts upwards in binary from zero and
  leaves after the round in which it finds bits 27 and 24 set.
\<close>

definition bits_set :: "nat set \<Rightarrow> runbits \<Rightarrow> runbits" where
  "bits_set S rb = (\<lambda>i. if i \<in> {24, 25, 26, 27} then i \<in> S else rb i)"

lemma chacha_again_system:
  "chacha_again True c (bits_set {} rb) = (True, c, bits_set {24} rb)"
  "chacha_again True c (bits_set {24} rb) = (True, c, bits_set {25} rb)"
  "chacha_again True c (bits_set {25} rb) = (True, c, bits_set {24, 25} rb)"
  "chacha_again True c (bits_set {24, 25} rb) = (True, c, bits_set {26} rb)"
  "chacha_again True c (bits_set {26} rb) = (True, c, bits_set {24, 26} rb)"
  "chacha_again True c (bits_set {24, 26} rb) = (True, c, bits_set {25, 26} rb)"
  "chacha_again True c (bits_set {25, 26} rb) = (True, c, bits_set {24, 25, 26} rb)"
  "chacha_again True c (bits_set {24, 25, 26} rb) = (True, c, bits_set {27} rb)"
  "chacha_again True c (bits_set {27} rb) = (True, c, bits_set {24, 27} rb)"
  "chacha_again True c (bits_set {24, 27} rb) = (False, c, bits_set {24, 27} rb)"
  by (simp_all add: chacha_again_def bits_set_def Let_def fun_eq_iff)

lemma chacha_loop_system:
  "chacha_loop True s c (bits_set {} rb) = Some ((chacha_rounds ^^ 10) s, bits_set {24, 27} rb)"
proof -
  have p: "(chacha_rounds ^^ 10) s
    = chacha_rounds (chacha_rounds (chacha_rounds (chacha_rounds (chacha_rounds
       (chacha_rounds (chacha_rounds (chacha_rounds (chacha_rounds (chacha_rounds s)))))))))"
    by (simp add: numeral_eq_Suc)
  show ?thesis
    unfolding p by (simp only: chacha_again_system chacha_loop_go chacha_loop_exit)
qed

text \<open>
  The user path counts \<open>r16\<close> down and consults the run bits only when it reaches zero:
  with bits 24 and 27 left set by the system path it leaves with them still set.
\<close>

lemma chacha_loop_user:
  assumes "rb 24" "rb 27" "n < 2 ^ 32 - 1"
  shows "chacha_loop False s (of_nat (Suc n)) rb = Some ((chacha_rounds ^^ Suc n) s, rb)"
  using assms(3)
proof (induction n arbitrary: s)
  case 0
  have "chacha_again False (of_nat (Suc 0)) rb = (False, 0, rb)"
    using assms by (auto simp: chacha_again_def Let_def fun_eq_iff)
  then show ?case by (simp add: chacha_loop_exit)
next
  case (Suc n)
  have nz: "(of_nat (Suc n) :: u32) \<noteq> 0"
    using Suc.prems by (simp only: word_unat_eq_iff unat_of_nat unsigned_0) (simp add: take_bit_nat_eq_self)
  have "chacha_again False (of_nat (Suc (Suc n))) rb = (True, of_nat (Suc n), rb)"
    using nz by (simp add: chacha_again_def)
  then have "chacha_loop False s (of_nat (Suc (Suc n))) rb
    = chacha_loop False (chacha_rounds s) (of_nat (Suc n)) rb"
    by (rule chacha_loop_go)
  also have "\<dots> = Some ((chacha_rounds ^^ Suc n) (chacha_rounds s), rb)"
    using Suc by simp
  finally show ?case by (simp add: funpow_swap1)
qed

lemma chacha_loop_user_10:
  "rb 24 \<Longrightarrow> rb 27 \<Longrightarrow> chacha_loop False s 10 rb = Some ((chacha_rounds ^^ 10) s, rb)"
  using chacha_loop_user [of rb 9 s] by simp

section \<open>The two entry paths\<close>

lemma chacha_rounds_pow: "length s = 16 \<Longrightarrow> (chacha_rounds ^^ n) s = (inner_block ^^ n) s"
  by (induction n) (simp_all add: chacha_rounds_eq)

lemma length_8_conv: "length xs = 8 \<longleftrightarrow>
  (\<exists>a b c d e f g h. xs = [a, b, c, d, e, f, g, h])"
  by (auto simp: numeral_eq_Suc length_Suc_conv)

lemma length_16_conv: "length xs = 16 \<longleftrightarrow>
  (\<exists>a b c d e f g h i j k l m n p q. xs = [a, b, c, d, e, f, g, h, i, j, k, l, m, n, p, q])"
  by (auto simp: numeral_eq_Suc length_Suc_conv)

lemma length_chacha20_block [simp]:
  "length key = 8 \<Longrightarrow> length iv = 3 \<Longrightarrow> length (chacha20_block key c iv) = 16"
  by (simp add: chacha20_block_def Let_def chacha_consts_def)

lemma store_words_below: "b < a \<Longrightarrow> store_words a xs w b = w b"
  by (induction xs arbitrary: a w) auto

lemma store_words_outside:
  "b < a \<or> a + 4 * length xs \<le> b \<Longrightarrow> store_words a xs w b = w b"
  by (induction xs arbitrary: a w) auto

lemma store_words_inside:
  "i < length xs \<Longrightarrow> store_words a xs w (a + 4 * i) = xs ! i"
proof (induction xs arbitrary: a w i)
  case (Cons x xs)
  show ?case
  proof (cases i)
    case 0
    then show ?thesis by (simp add: store_words_below)
  next
    case (Suc j)
    have "store_words (a + 4) xs (w(a := x)) ((a + 4) + 4 * j) = xs ! j"
      using Cons.prems Suc by (intro Cons.IH) simp
    then show ?thesis using Suc by (simp add: algebra_simps)
  qed
qed simp

lemma store_words_append:
  "store_words a (xs @ ys) w = store_words (a + 4 * length xs) ys (store_words a xs w)"
  by (induction xs arbitrary: a w) (simp_all add: algebra_simps)

lemma store_words_cong: "w b = v b \<Longrightarrow> store_words a xs w b = store_words a xs v b"
proof (induction xs arbitrary: a w v)
  case (Cons x xs)
  have "(w(a := x)) b = (v(a := x)) b" using Cons.prems by simp
  then have "store_words (a + 4) xs (w(a := x)) b = store_words (a + 4) xs (v(a := x)) b" by (rule Cons.IH)
  then show ?case by simp
qed simp

lemma store_words_swap:
  assumes "a + 4 * length xs \<le> b \<or> b + 4 * length ys \<le> a"
  shows "store_words a xs (store_words b ys w) = store_words b ys (store_words a xs w)"
proof
  fix c
  show "store_words a xs (store_words b ys w) c = store_words b ys (store_words a xs w) c"
  proof (cases "c < a \<or> a + 4 * length xs \<le> c")
    case True
    then have "store_words a xs (store_words b ys w) c = store_words b ys w c"
      by (rule store_words_outside)
    also have "\<dots> = store_words b ys (store_words a xs w) c"
      using True by (intro store_words_cong store_words_outside [symmetric])
    finally show ?thesis .
  next
    case False
    then have c: "c < b \<or> b + 4 * length ys \<le> c" using assms by auto
    have "store_words a xs (store_words b ys w) c = store_words a xs w c"
      using c by (intro store_words_cong store_words_outside)
    also have "\<dots> = store_words b ys (store_words a xs w) c"
      using c by (simp add: store_words_outside)
    finally show ?thesis .
  qed
qed

definition io_page :: "nat \<Rightarrow> nat set" where
  "io_page tio = {tio..<tio + 64}"

lemma ime_chacha_sys_key_store:
  assumes "length key = 8" "0 < tio" "0 < out" "out + 64 \<le> tio \<or> tio + 64 \<le> out" "out < 2 ^ 32"
  shows "\<exists>w'. ime_chacha_sys_key key tio c iv_a iv_b iv_c out (w, rb)
      = Some (w', bits_set {24, 27} rb)
    \<and> w' (tio + 60) = 0
    \<and> (\<forall>a. a \<notin> io_page tio \<longrightarrow>
         w' a = store_words out (chacha20_block key c [iv_a, iv_b, iv_c]) w a)"
proof -
  have clr: "rb(24 := False, 25 := False, 26 := False, 27 := False) = bits_set {} rb"
    by (auto simp: bits_set_def)
  have out: "unat (of_nat out :: u32) = out"
    using assms by (simp add: unat_of_nat take_bit_nat_eq_self)
  let ?i = "chacha_consts @ key @ [c, iv_a, iv_b, iv_c]"
  define S where "S = (inner_block ^^ 10) ?i"
  have li: "length ?i = 16" using assms by (simp add: chacha_consts_def)
  obtain k0 k1 k2 k3 k4 k5 k6 k7 where k: "key = [k0, k1, k2, k3, k4, k5, k6, k7]"
    using assms(1) unfolding length_8_conv by blast
  have "length S = 16" using li by (simp add: S_def)
  then obtain s0 s1 s2 s3 s4 s5 s6 s7 s8 s9 s10 s11 s12 s13 s14 s15 where
    s: "S = [s0, s1, s2, s3, s4, s5, s6, s7, s8, s9, s10, s11, s12, s13, s14, s15]"
    unfolding length_16_conv by blast
  have loop: "chacha_loop True ?i 0 (bits_set {} rb) = Some (S, bits_set {24, 27} rb)"
    using li by (simp add: chacha_loop_system chacha_rounds_pow S_def)
  have nz: "0 \<noteq> tio" "tio \<noteq> 0" "out \<noteq> 0" using assms by auto
  have blk: "chacha20_block key c [iv_a, iv_b, iv_c] = [s0 + 0x61707865, s1 + 0x3320646e,
      s2 + 0x79622d32, s3 + 0x6b206574, s4 + k0, s5 + k1, s6 + k2, s7 + k3, s8 + k4, s9 + k5,
      s10 + k6, s11 + k7, s12 + c, s13 + iv_a, s14 + iv_b, s15 + iv_c]"
    using s unfolding S_def k by (simp add: chacha20_block_def chacha_consts_def Let_def)
  define w1 where "w1 = (store_words tio [0, c, iv_a, iv_b, iv_c, of_nat out] (w(tio + 60 := 0xFFFFFFFF)))
     (tio + 0x18 := w 0)"
  have w1: "w1 (tio + 4) = c" "w1 (tio + 8) = iv_a" "w1 (tio + 12) = iv_b" "w1 (tio + 16) = iv_c"
    "w1 (tio + 20) = of_nat out" "w1 (tio + 24) = w 0" "w1 0 = w 0"
    using nz by (simp_all add: w1_def store_words_below)
  define w2 where "w2 = (store_words (out + 4) [s1 + 0x3320646e, s2 + 0x79622d32, s3 + 0x6b206574]
     (w1(0 := s0 + 0x61707865)))(out := s0 + 0x61707865, 0 := w 0)"
  have w2t: "w2 (tio + n) = w1 (tio + n)" if "n < 64" for n
    using nz that assms(4) by (auto simp add: w2_def store_words_outside)
  have w2: "w2 (tio + 4) = c" "w2 (tio + 8) = iv_a" "w2 (tio + 12) = iv_b" "w2 (tio + 16) = iv_c"
    "w2 (tio + 20) = of_nat out"
    by (simp_all add: w2t w1)
  define w3 where "w3 = (store_words (out + 16) (map2 (+) [s4, s5, s6, s7, s8, s9, s10, s11] key
     @ [s12 + c, s13 + iv_a, s14 + iv_b, s15 + iv_c]) w2)(tio + 60 := 0)"
  have run: "ime_chacha_sys_key key tio c iv_a iv_b iv_c out (w, rb)
    = Some (w3, bits_set {24, 27} rb)"
  proof -
    have 1: "ime_chacha_sys_key key tio c iv_a iv_b iv_c out (w, rb)
      = ime_chacha_thread key tio (store_words tio [0, c, iv_a, iv_b, iv_c, of_nat out] (w(tio + 60 := 0xFFFFFFFF)), rb)"
      by (simp add: ime_chacha_sys_key_def)
    also have "\<dots> = Some (w3, bits_set {24, 27} rb)"
    proof -
      let ?w0 = "store_words tio [0, c, iv_a, iv_b, iv_c, of_nat out] (w(tio + 60 := 0xFFFFFFFF))"
      let ?S = "[s0 + 0x61707865, s1 + 0x3320646e, s2 + 0x79622d32, s3 + 0x6b206574,
        s4, s5, s6, s7, s8, s9, s10, s11, s12, s13, s14, s15]"
      have "?w0 0 = w 0" using nz by (simp add: store_words_below)
      then have e: "?w0(tio + 0x18 := ?w0 0) = w1" by (simp only: w1_def)
      have row0: "chacha_thread_row0 tio ?S w1 = w2"
      proof -
        have "tio + 24 \<noteq> out" "tio + 24 \<noteq> out + 4" "tio + 24 \<noteq> 8 + out" "tio + 24 \<noteq> 12 + out"
          using assms(4) by auto
        then show ?thesis using w1 nz by (simp add: chacha_thread_row0_def Let_def out w2_def)
      qed
      have rows: "(chacha_thread_rows key tio ?S w2)(tio + 60 := 0) = w3"
        using w2 by (simp add: chacha_thread_rows_def out w3_def k)
      have t: "map2 (+) (take 4 S) chacha_consts @ drop 4 S = ?S"
        by (simp add: s chacha_consts_def)
      show ?thesis
        by (simp only: ime_chacha_thread_def fst_conv snd_conv Let_def clr e w1 loop bind.simps prod.case t row0 rows)
    qed
    finally show ?thesis .
  qed
  show ?thesis
  proof (intro exI conjI allI impI)
    show "ime_chacha_sys_key key tio c iv_a iv_b iv_c out (w, rb) = Some (w3, bits_set {24, 27} rb)"
      by (rule run)
    show "w3 (tio + 60) = 0" by (simp add: w3_def)
    fix a
    assume a: "a \<notin> io_page tio"
    have "w1 a = w a" using a by (auto simp: w1_def io_page_def store_words_outside)
    then have w2: "w2 a = store_words out [s0 + 0x61707865, s1 + 0x3320646e, s2 + 0x79622d32, s3 + 0x6b206574] w a"
      using nz by (auto simp: w2_def store_words_below)
    have "w3 a = store_words (out + 16) (map2 (+) [s4, s5, s6, s7, s8, s9, s10, s11] key
     @ [s12 + c, s13 + iv_a, s14 + iv_b, s15 + iv_c]) w2 a"
      using a by (auto simp: w3_def io_page_def)
    also have "\<dots> = store_words (out + 16) (map2 (+) [s4, s5, s6, s7, s8, s9, s10, s11] key
     @ [s12 + c, s13 + iv_a, s14 + iv_b, s15 + iv_c])
       (store_words out [s0 + 0x61707865, s1 + 0x3320646e, s2 + 0x79622d32, s3 + 0x6b206574] w) a"
      using w2 by (rule store_words_cong)
    also have "\<dots> = store_words out (chacha20_block key c [iv_a, iv_b, iv_c]) w a"
      unfolding blk by (simp add: k add.commute add.left_commute)
    finally show "w3 a = store_words out (chacha20_block key c [iv_a, iv_b, iv_c]) w a" .
  qed
qed


text \<open>
  The user path needs the frame clear of the key and of the result, and the last row of the
  result, which is stored first, clear of the key.
\<close>

lemma map_load_cong:
  "(\<And>i. i < n \<Longrightarrow> w (a + 4 * i) = v (a + 4 * i)) \<Longrightarrow> map (\<lambda>i. w (a + 4 * i)) [0..<n] = map (\<lambda>i. v (a + 4 * i)) [0..<n]"
  by simp

lemma ime_chacha_user_key_store:
  assumes key: "k = map (\<lambda>i. w (key + 4 * i)) [0..<8]" "key < 2 ^ 32"
    and out: "out < 2 ^ 32" "out + 64 \<le> sp \<or> sp + 36 \<le> out"
    and sep: "key + 32 \<le> sp \<or> sp + 36 \<le> key" "key + 32 \<le> out + 48 \<or> out + 64 \<le> key"
    and rb: "rb 24" "rb 27"
  shows "\<exists>w'. ime_chacha_user_key sp saved key c iv_a iv_b iv_c out (w, rb) = Some (w', rb)
    \<and> (\<forall>a. a \<notin> {sp..<sp + 36} \<longrightarrow>
         w' a = store_words out (chacha20_block k c [iv_a, iv_b, iv_c]) w a)"
proof -
  have uk: "unat (of_nat key :: u32) = key" "unat (of_nat out :: u32) = out"
    using assms by (simp_all add: unat_of_nat take_bit_nat_eq_self)
  let ?i = "chacha_consts @ k @ [c, iv_a, iv_b, iv_c]"
  define S where "S = (inner_block ^^ 10) ?i"
  have lk: "length k = 8" using key by simp
  then have li: "length ?i = 16" by (simp add: chacha_consts_def)
  then have lS: "length S = 16" by (simp add: S_def)
  then obtain s0 s1 s2 s3 s4 s5 s6 s7 s8 s9 s10 s11 s12 s13 s14 s15 where
    s: "S = [s0, s1, s2, s3, s4, s5, s6, s7, s8, s9, s10, s11, s12, s13, s14, s15]"
    unfolding length_16_conv by blast
  have loop: "chacha_loop False ?i 10 rb = Some (S, rb)"
    using li rb by (simp add: chacha_loop_user_10 chacha_rounds_pow S_def)
  define w1 where "w1 = store_words sp [of_nat key, c, iv_a, iv_b, iv_c, of_nat out,
    fst saved, fst (snd saved), snd (snd saved)] w"
  have w1: "w1 sp = of_nat key" "w1 (sp + 4) = c" "w1 (sp + 8) = iv_a" "w1 (sp + 12) = iv_b"
    "w1 (sp + 16) = iv_c" "w1 (sp + 20) = of_nat out"
    by (simp_all add: w1_def)
  have k1: "map (\<lambda>i. w1 (key + 4 * i)) [0..<8] = k"
    unfolding key(1) w1_def using sep by (intro map_load_cong store_words_outside) auto
  define w2 where "w2 = store_words (out + 48) [s12 + c, s13 + iv_a, s14 + iv_b, s15 + iv_c] w1"
  have w2sp: "w2 sp = of_nat key"
    using w1(1) out(2) by (subst w2_def, subst store_words_outside) auto
  have k2: "map (\<lambda>i. w2 (key + 4 * i)) [0..<8] = k"
    unfolding k1 [symmetric] w2_def using sep by (intro map_load_cong store_words_outside) auto
  define w3 where "w3 = store_words out (map2 (+) (take 4 S) chacha_consts @ map2 (+) (take 8 (drop 4 S)) k) w2"
  let ?S = "map2 (+) (take 4 S) chacha_consts @ drop 4 S"
  have t: "?S ! 12 = s12" "?S ! 13 = s13" "?S ! 14 = s14" "?S ! 15 = s15"
    "take 4 ?S = map2 (+) (take 4 S) chacha_consts" "drop 4 ?S = drop 4 S"
    by (simp_all add: s chacha_consts_def)
  have run: "ime_chacha_user_key sp saved key c iv_a iv_b iv_c out (w, rb) = Some (w3, rb)"
    unfolding ime_chacha_user_key_def fst_conv snd_conv Let_def w1_def [symmetric] k1 loop bind.simps prod.case
    by (simp only: w1 t uk w2_def [symmetric] w2sp k2 w3_def [symmetric])
  have blk: "chacha20_block k c [iv_a, iv_b, iv_c]
    = (map2 (+) (take 4 S) chacha_consts @ map2 (+) (take 8 (drop 4 S)) k)
      @ [s12 + c, s13 + iv_a, s14 + iv_b, s15 + iv_c]"
  proof -
    have "chacha20_block k c [iv_a, iv_b, iv_c] = map2 (+) S (chacha_consts @ k @ [c, iv_a, iv_b, iv_c])"
      by (simp add: chacha20_block_def S_def Let_def)
    moreover obtain k0 k1 k2 k3 k4 k5 k6 k7 where "k = [k0, k1, k2, k3, k4, k5, k6, k7]"
      using lk unfolding length_8_conv by blast
    ultimately show ?thesis by (simp add: s chacha_consts_def)
  qed
  show ?thesis
  proof (intro exI conjI allI impI)
    show "ime_chacha_user_key sp saved key c iv_a iv_b iv_c out (w, rb) = Some (w3, rb)"
      by (rule run)
    fix a
    assume a: "a \<notin> {sp..<sp + 36}"
    have w: "w1 a = w a" unfolding w1_def using a by (intro store_words_outside) auto
    let ?A = "map2 (+) (take 4 S) chacha_consts @ map2 (+) (take 8 (drop 4 S)) k"
    let ?B = "[s12 + c, s13 + iv_a, s14 + iv_b, s15 + iv_c]"
    have lA: "length ?A = 12" using lk lS by (simp add: chacha_consts_def)
    have "w3 a = store_words (out + 48) ?B (store_words out ?A w1) a"
      unfolding w3_def w2_def by (rule fun_cong [OF store_words_swap]) (simp only: lA, simp)
    also have "\<dots> = store_words (out + 48) ?B (store_words out ?A w) a"
      by (intro store_words_cong w)
    also have "\<dots> = store_words out (chacha20_block k c [iv_a, iv_b, iv_c]) w a"
      unfolding blk store_words_append lA by simp
    finally show "w3 a = store_words out (chacha20_block k c [iv_a, iv_b, iv_c]) w a" .
  qed
qed

text \<open>The user counter alone, down to one.\<close>

lemma chacha_loop_down:
  "n < 2 ^ 32 - 1 \<Longrightarrow> chacha_loop False s (of_nat (Suc n)) rb = chacha_loop False ((chacha_rounds ^^ n) s) 1 rb"
proof (induction n arbitrary: s)
  case (Suc n)
  have nz: "(of_nat (Suc n) :: u32) \<noteq> 0"
    using Suc.prems by (simp only: word_unat_eq_iff unat_of_nat unsigned_0) (simp add: take_bit_nat_eq_self)
  have "chacha_again False (of_nat (Suc (Suc n))) rb = (True, of_nat (Suc n), rb)"
    using nz by (simp add: chacha_again_def)
  then show ?case
    using Suc by (simp add: chacha_loop_go funpow_swap1 del: of_nat_Suc)
qed simp

section \<open>Properties\<close>



text \<open>
  C9: On the user path, entered with run bits 24 and 27 as a system call leaves them, the
  block of RFC 8439 for the key at \<open>key\<close> is stored at \<open>out\<close>, the run bits are unchanged and
  only the result and the nine saved words at the stack pointer are written.
\<close>

theorem ime_chacha_user_key_block:
  assumes "key < 2 ^ 32" "out < 2 ^ 32" "out + 64 \<le> sp \<or> sp + 36 \<le> out"
    and "key + 32 \<le> sp \<or> sp + 36 \<le> key" "key + 32 \<le> out + 48 \<or> out + 64 \<le> key"
    and "rb 24" "rb 27"
  shows "\<exists>w'. ime_chacha_user_key sp saved key c iv_a iv_b iv_c out (w, rb) = Some (w', rb)
    \<and> map (\<lambda>i. w' (out + 4 * i)) [0..<16]
        = chacha20_block (map (\<lambda>i. w (key + 4 * i)) [0..<8]) c [iv_a, iv_b, iv_c]
    \<and> (\<forall>a. (a < out \<or> out + 64 \<le> a) \<longrightarrow> (a < sp \<or> sp + 36 \<le> a) \<longrightarrow> w' a = w a)"
proof -
  let ?b = "chacha20_block (map (\<lambda>i. w (key + 4 * i)) [0..<8]) c [iv_a, iv_b, iv_c]"
  obtain w' where w': "ime_chacha_user_key sp saved key c iv_a iv_b iv_c out (w, rb) = Some (w', rb)"
    and st: "\<And>a. a \<notin> {sp..<sp + 36} \<Longrightarrow> w' a = store_words out ?b w a"
    using ime_chacha_user_key_store [OF refl assms] by blast
  have "map (\<lambda>i. w' (out + 4 * i)) [0..<16] = ?b"
  proof (rule nth_equalityI)
    fix i
    assume "i < length (map (\<lambda>i. w' (out + 4 * i)) [0..<16])"
    then have i: "i < 16" by simp
    then have "out + 4 * i \<notin> {sp..<sp + 36}" using assms(3) by auto
    then show "map (\<lambda>i. w' (out + 4 * i)) [0..<16] ! i = ?b ! i"
      using i by (simp only: nth_map nth_upt st store_words_inside length_chacha20_block length_upt
          length_map length_Cons list.size) (simp add: st store_words_inside)
  qed simp
  moreover have "w' a = w a" if "a < out \<or> out + 64 \<le> a" "a < sp \<or> sp + 36 \<le> a" for a
    using that by (subst st) (auto intro: store_words_outside)
  ultimately show ?thesis using w' by blast
qed

theorem ime_chacha_user_key_block_witness:
  "\<exists>w'. ime_chacha_user_key 3072 (0, 0, 0) 512 1 7 8 9 2048 (\<lambda>a. of_nat a, \<lambda>b. True) = Some (w', \<lambda>b. True)
    \<and> map (\<lambda>i. w' (2048 + 4 * i)) [0..<16]
        = chacha20_block (map (\<lambda>i. of_nat (512 + 4 * i)) [0..<8]) 1 [7, 8, 9]
    \<and> (\<forall>a. (a < 2048 \<or> 2048 + 64 \<le> a) \<longrightarrow> (a < 3072 \<or> 3072 + 36 \<le> a) \<longrightarrow> w' a = of_nat a)"
  by (rule ime_chacha_user_key_block) simp_all

text \<open>
  Without a system call before it the user path does not leave after its ten double
  rounds: with the four run bits clear the loop is entered an eleventh time with \<open>r16\<close> at
  zero, which the next pass decrements to the largest word.
\<close>

lemma chacha_loop_user_fresh:
  "chacha_loop False s 10 (bits_set {} rb)
   = chacha_loop False ((chacha_rounds ^^ 11) s) 0xFFFFFFFF (bits_set {24} rb)"
proof -
  have last: "chacha_again False 1 (bits_set {} rb) = (True, 0, bits_set {24} rb)"
    by (simp add: chacha_again_def bits_set_def fun_eq_iff)
  have wrap: "chacha_again False 0 (bits_set {24} rb) = (True, 0xFFFFFFFF, bits_set {24} rb)"
    by (simp add: chacha_again_def)
  have "chacha_loop False s 10 (bits_set {} rb) = chacha_loop False ((chacha_rounds ^^ 9) s) 1 (bits_set {} rb)"
    using chacha_loop_down [of 9 s "bits_set {} rb"] by simp
  also have "\<dots> = chacha_loop False ((chacha_rounds ^^ 11) s) 0xFFFFFFFF (bits_set {24} rb)"
    unfolding chacha_loop_go [OF last] chacha_loop_go [OF wrap]
    by (simp add: numeral_eq_Suc)
  finally show ?thesis .
qed

section \<open>The entry point as a function of its operands\<close>

text \<open>
  \<^verbatim>\<open>ime_chacha_blk\<close> decides by its key pointer: null for the key in thread 22's registers,
  otherwise a key in WRAM. Seen by its C callers it maps the operands to the sixteen words of
  the result; the operands and the result are placed on an otherwise empty WRAM, with the run
  bits the loader's own calls leave.
\<close>

datatype chacha_key = System_Key "u32 list" | User_Key "u32 list"

primrec key_words :: "chacha_key \<Rightarrow> u32 list" where
  "key_words (System_Key k) = k"
| "key_words (User_Key k) = k"

definition ime_chacha_blk :: "chacha_key \<Rightarrow> u32 \<Rightarrow> u32 \<Rightarrow> u32 \<Rightarrow> u32 \<Rightarrow> u32 list" where
  "ime_chacha_blk key c iv_a iv_b iv_c =
     (case (case key of
              System_Key k \<Rightarrow>
                ime_chacha_sys_key k 0x1000 c iv_a iv_b iv_c 0x2000 (\<lambda>_. 0, \<lambda>_. False)
            | User_Key k \<Rightarrow>
                ime_chacha_user_key 0x1000 (0, 0, 0) 0x3000 c iv_a iv_b iv_c 0x2000
                  (store_words 0x3000 k (\<lambda>_. 0), \<lambda>_. True)) of
        None \<Rightarrow> []
      | Some (w, rb) \<Rightarrow> map (\<lambda>i. w (0x2000 + 4 * i)) [0..<16])"

lemma map_store_words:
  "map (\<lambda>i. store_words a xs w (a + 4 * i)) [0..<length xs] = xs"
  by (rule nth_equalityI) (simp_all add: store_words_inside)

lemma load_store_words:
  assumes "length xs = n" "\<And>b. b < n \<Longrightarrow> w' (a + 4 * b) = store_words a xs w (a + 4 * b)"
  shows "map (\<lambda>i. w' (a + 4 * i)) [0..<n] = xs"
  using assms by (intro nth_equalityI) (simp_all add: store_words_inside)

lemma ime_chacha_blk_eq:
  assumes "length (key_words key) = 8"
  shows "ime_chacha_blk key c iv_a iv_b iv_c = chacha20_block (key_words key) c [iv_a, iv_b, iv_c]"
proof (cases key)
  case (System_Key k)
  let ?b = "chacha20_block k c [iv_a, iv_b, iv_c]"
  obtain w' where run: "ime_chacha_sys_key k 0x1000 c iv_a iv_b iv_c 0x2000 (\<lambda>_. 0, \<lambda>_. False)
      = Some (w', bits_set {24, 27} (\<lambda>_. False))"
    and st: "\<And>a. a \<notin> io_page 0x1000 \<Longrightarrow> w' a = store_words 0x2000 ?b (\<lambda>_. 0) a"
    using ime_chacha_sys_key_store [of k "0x1000" "0x2000" c iv_a iv_b iv_c "\<lambda>_. 0" "\<lambda>_. False"] assms System_Key
    by auto
  have "map (\<lambda>i. w' (0x2000 + 4 * i)) [0..<16] = ?b"
    using assms System_Key by (intro load_store_words [where w = "\<lambda>_. 0"] st) (simp_all add: io_page_def)
  then show ?thesis using System_Key run by (simp add: ime_chacha_blk_def)
next
  case (User_Key k)
  let ?b = "chacha20_block k c [iv_a, iv_b, iv_c]"
  let ?w = "store_words 0x3000 k (\<lambda>_. 0)"
  have k: "k = map (\<lambda>i. ?w (0x3000 + 4 * i)) [0..<8]"
    using map_store_words [of "0x3000" k "\<lambda>_. 0"] assms User_Key by simp
  obtain w' where run: "ime_chacha_user_key 0x1000 (0, 0, 0) 0x3000 c iv_a iv_b iv_c 0x2000 (?w, \<lambda>_. True)
      = Some (w', \<lambda>_. True)"
    and st: "\<And>a. a \<notin> {0x1000..<0x1000 + 36} \<Longrightarrow> w' a = store_words 0x2000 ?b ?w a"
    using ime_chacha_user_key_store [of k ?w "0x3000" "0x2000" "0x1000" "\<lambda>_. True" "(0, 0, 0)" c iv_a iv_b iv_c] k
    by auto
  have "map (\<lambda>i. w' (0x2000 + 4 * i)) [0..<16] = ?b"
    using assms User_Key by (intro load_store_words [where w = ?w] st) simp_all
  then show ?thesis using User_Key run by (simp add: ime_chacha_blk_def)
qed

lemma length_ime_chacha_blk [simp]:
  "length (key_words key) = 8 \<Longrightarrow> length (ime_chacha_blk key c iv_a iv_b iv_c) = 16"
  by (simp add: ime_chacha_blk_eq)

end
