(* ===== verification/Poly1305.thy ===== *)
theory Poly1305 imports MC_Prelude
begin

text \<open>
  The Poly1305 implementation the trusted loader exports to user code: the assembly
  routines of \<^verbatim>\<open>src/src/poly/poly.S\<close> (five-limb modular addition, the
  double-and-add multiplication by the key, the masked subtraction of the modulus, the
  final 128-bit addition) and the C functions of \<^verbatim>\<open>src/src/poly/poly.c\<close> on top.
  Against them stands the arithmetic definition of RFC 8439 over the natural numbers.
\<close>

unbundle bit_operations_syntax

section \<open>The assembly routines\<close>

text \<open>
  \<open>sub n1, a, b, gts\<close> leaves 1 in \<open>n1\<close> when \<open>b\<close> is below \<open>a\<close> as signed
  words, 0 otherwise.
\<close>

definition sub_gts :: "u32 \<Rightarrow> u32 \<Rightarrow> u32" where
  "sub_gts a b = (if sint b < sint a then 1 else 0)"

text \<open>The macro \<open>POLY_ADD_REDUCE\<close> on two five-limb numbers.\<close>

definition POLY_ADD_REDUCE :: "u32 list \<Rightarrow> u32 list \<Rightarrow> u32 list" where
  "POLY_ADD_REDUCE t s =
     (let t' = add_chain t s;
          n1 = (sub_gts (t' ! 4) 3 XOR 1) + (- 1);
          n2 = n1 AND 0xFFFFFFFC;
          n1' = n1 AND 5
      in add_chain t' [n1', 0, 0, 0, n2])"

definition poly_add_128 :: "u32 list \<Rightarrow> u32 list \<Rightarrow> u32 list" where
  "poly_add_128 a b = add_chain (take 4 a) (take 4 b)"

definition poly_masked_reduce :: "u32 list \<Rightarrow> u32 \<Rightarrow> u32 list" where
  "poly_masked_reduce t msk =
     (let r7 = msk AND 5; r8 = msk AND 0; r9 = msk AND 0xFFFFFFFC
      in add_chain t [r7, r8, r8, r8, r9])"

definition poly_add_reduce :: "u32 list \<Rightarrow> u32 list \<Rightarrow> u32 list" where
  "poly_add_reduce t block = POLY_ADD_REDUCE t (take 4 block @ [1])"

text \<open>
  One of the four loops of \<open>poly_mul_assign\<close>: \<open>n\<close> rounds over the bits of one key
  word, lowest bit first, with the product in \<open>p\<close> and the doubled operand in \<open>x\<close>.
\<close>

fun poly_mul_assign_loop :: "nat \<Rightarrow> u32 \<Rightarrow> u32 list \<times> u32 list \<Rightarrow> u32 list \<times> u32 list" where
  "poly_mul_assign_loop 0 r3 (p, x) = (p, x)"
| "poly_mul_assign_loop (Suc n) r3 (p, x) =
     (let p' = (if r3 AND 1 = 0 then p else POLY_ADD_REDUCE p x);
          x' = POLY_ADD_REDUCE x x
      in poly_mul_assign_loop n (drop_bit 1 r3) (p', x'))"

definition poly_mul_assign :: "u32 list \<Rightarrow> u32 list \<Rightarrow> u32 list" where
  "poly_mul_assign a r =
     fst (fold (poly_mul_assign_loop 32) [r ! 0, r ! 1, r ! 2, r ! 3] ([0, 0, 0, 0, 0], a))"

section \<open>The C functions\<close>

record poly_context =
  ctx_r :: "u32 list"
  ctx_s :: "u32 list"
  ctx_a :: "u32 list"

definition poly_reduction_req :: "u32 list \<Rightarrow> u32" where
  "poly_reduction_req n =
     (let b = (n ! 4 = 3);
          c = (n ! 3 = 0xFFFFFFFF \<and> n ! 2 = 0xFFFFFFFF \<and> n ! 1 = 0xFFFFFFFF);
          d = (0xFFFFFFFB \<le> n ! 0)
      in 0 - of_bool (b \<and> c \<and> d))"

definition poly_mul_key :: "poly_context \<Rightarrow> poly_context" where
  "poly_mul_key ctx =
     (let a = poly_mul_assign (ctx_a ctx) (ctx_r ctx);
          msk = poly_reduction_req a
      in ctx\<lparr>ctx_a := poly_masked_reduce a msk\<rparr>)"

definition poly_feed_block :: "poly_context \<Rightarrow> u32 list \<Rightarrow> poly_context" where
  "poly_feed_block ctx block =
     poly_mul_key (ctx\<lparr>ctx_a := poly_add_reduce (ctx_a ctx) block\<rparr>)"

definition poly_init :: "u32 list \<Rightarrow> poly_context" where
  "poly_init key =
     \<lparr>ctx_r = [key ! 0 AND 0x0FFFFFFF, key ! 1 AND 0x0FFFFFFC,
               key ! 2 AND 0x0FFFFFFC, key ! 3 AND 0x0FFFFFFC],
      ctx_s = [key ! 4, key ! 5, key ! 6, key ! 7],
      ctx_a = [0, 0, 0, 0, 0]\<rparr>"

text \<open>The tag, and the context zeroed afterwards.\<close>

definition poly_finalize :: "poly_context \<Rightarrow> u32 list \<times> poly_context" where
  "poly_finalize ctx =
     (poly_add_128 (ctx_a ctx) (ctx_s ctx),
      \<lparr>ctx_r = replicate 4 0, ctx_s = replicate 4 0, ctx_a = replicate 5 0\<rparr>)"

text \<open>A whole message of 16-byte blocks, the sequence of calls every client makes.\<close>

definition poly_feed_all :: "poly_context \<Rightarrow> u32 list list \<Rightarrow> poly_context" where
  "poly_feed_all ctx blocks = fold (\<lambda>b c. poly_feed_block c b) blocks ctx"

definition poly_tag :: "u32 list \<Rightarrow> u32 list list \<Rightarrow> u32 list" where
  "poly_tag key blocks = fst (poly_finalize (poly_feed_all (poly_init key) blocks))"

section \<open>Poly1305 over the natural numbers\<close>

definition poly_p :: nat where
  "poly_p = 2 ^ 130 - 5"

fun poly1305_acc :: "nat \<Rightarrow> nat \<Rightarrow> u32 list list \<Rightarrow> nat" where
  "poly1305_acc r a [] = a"
| "poly1305_acc r a (b # bs) = poly1305_acc r ((a + val32 b + 2 ^ 128) * r mod poly_p) bs"

text \<open>The clamped first half of the key, as the number RFC 8439 masks it to.\<close>

definition poly1305_r :: "u32 list \<Rightarrow> nat" where
  "poly1305_r key = val32 [key ! 0 AND 0x0FFFFFFF, key ! 1 AND 0x0FFFFFFC,
                           key ! 2 AND 0x0FFFFFFC, key ! 3 AND 0x0FFFFFFC]"

definition poly1305_s :: "u32 list \<Rightarrow> nat" where
  "poly1305_s key = val32 [key ! 4, key ! 5, key ! 6, key ! 7]"

definition poly1305_mac :: "u32 list \<Rightarrow> u32 list list \<Rightarrow> nat" where
  "poly1305_mac key blocks =
     (poly1305_acc (poly1305_r key) 0 blocks + poly1305_s key) mod 2 ^ 128"

section \<open>Lemmas\<close>

lemma length_POLY_ADD_REDUCE [limb_simps]:
  "length t = 5 \<Longrightarrow> length s = 5 \<Longrightarrow> length (POLY_ADD_REDUCE t s) = 5"
  by (simp add: POLY_ADD_REDUCE_def Let_def)

lemma length_poly_masked_reduce [limb_simps]:
  "length t = 5 \<Longrightarrow> length (poly_masked_reduce t m) = 5"
  by (simp add: poly_masked_reduce_def Let_def)

lemma five_limbs:
  assumes "length (t :: u32 list) = 5"
  obtains a b c d e where "t = [a, b, c, d, e]"
  using assms by (auto simp: numeral_eq_Suc length_Suc_conv)

lemma top_limb:
  assumes "length t = 5"
  shows "unat (t ! 4) = val32 t div 2 ^ 128"
proof -
  obtain a b c d e where t: "t = [a, b, c, d, e]" using assms by (rule five_limbs)
  have "val32 [a, b, c, d] < 2 ^ 128" using val32_bound [of "[a, b, c, d]"] by simp
  moreover have "val32 t = val32 [a, b, c, d] + 2 ^ 128 * unat e"
    by (simp add: t)
  ultimately show ?thesis by (simp add: t)
qed

lemma sub_gts_small:
  assumes "unat a < 2 ^ 31"
  shows "sub_gts a 3 = (if 3 < unat a then 1 else 0)"
proof -
  have "int (unat a) < int (2 ^ 31)" using assms by (simp only: of_nat_less_iff)
  then have "int (unat a) < 2 ^ 31" by simp
  then have "uint a < 2 ^ 31" by simp
  then have "signed_take_bit 31 (uint a) = uint a"
    by (intro signed_take_bit_int_eq_self) (auto intro: order_trans [OF _ uint_ge_0])
  then have "sint a = int (unat a)"
    by (simp add: sint_uint)
  moreover have "sint (3 :: u32) = int 3" by simp
  ultimately have "sint (3 :: u32) < sint a \<longleftrightarrow> 3 < unat a"
    by (simp only: of_nat_less_iff)
  then show ?thesis by (simp only: sub_gts_def)
qed

lemma val32_sub_p: "val32 [5, 0, 0, 0, 0xFFFFFFFC] = 2 ^ 160 - 2 ^ 130 + 5"
  by simp

lemma POLY_ADD_REDUCE_value:
  assumes "length t = 5" "length s = 5" "val32 t + val32 s < 2 ^ 132"
  shows "val32 (POLY_ADD_REDUCE t s) =
    (if 2 ^ 130 \<le> val32 t + val32 s then val32 t + val32 s + 5 - 2 ^ 130 else val32 t + val32 s)"
proof -
  let ?u = "val32 t + val32 s"
  let ?t = "add_chain t s"
  have len: "length ?t = 5" using assms by simp
  have v: "val32 ?t = ?u" using assms by (simp add: val32_add_chain)
  have top: "unat (?t ! 4) = ?u div 2 ^ 128" using top_limb [OF len] v by simp
  then have "unat (?t ! 4) < 2 ^ 31" using assms(3) by simp
  then have g: "sub_gts (?t ! 4) 3 = (if 3 < unat (?t ! 4) then 1 else 0)" by (rule sub_gts_small)
  show ?thesis
  proof (cases "2 ^ 130 \<le> ?u")
    case True
    then have "3 < unat (?t ! 4)" using top by simp
    then have "POLY_ADD_REDUCE t s = add_chain ?t [5, 0, 0, 0, 0xFFFFFFFC]"
      using g by (simp add: POLY_ADD_REDUCE_def Let_def)
    then have "val32 (POLY_ADD_REDUCE t s) = (?u + (2 ^ 160 - 2 ^ 130 + 5)) mod 2 ^ 160"
      using len v val32_sub_p by (simp add: val32_add_chain)
    also have "\<dots> = ?u + 5 - 2 ^ 130"
      using True assms(3) by (simp add: mod_if)
    finally show ?thesis using True by simp
  next
    case False
    then have "\<not> 3 < unat (?t ! 4)" using top by simp
    then have "POLY_ADD_REDUCE t s = add_chain ?t [0, 0, 0, 0, 0]"
      using g by (simp add: POLY_ADD_REDUCE_def Let_def)
    then show ?thesis
      using False len v assms(3) by (simp add: val32_add_chain)
  qed
qed

lemma poly_p_val: "poly_p = 1361129467683753853853498429727072845819"
  by (simp add: poly_p_def)

lemma POLY_ADD_REDUCE_mod:
  assumes "length t = 5" "length s = 5" "val32 t + val32 s < 2 ^ 132"
  shows "val32 (POLY_ADD_REDUCE t s) mod poly_p = (val32 t + val32 s) mod poly_p"
proof (cases "2 ^ 130 \<le> val32 t + val32 s")
  case True
  then have "val32 t + val32 s = val32 (POLY_ADD_REDUCE t s) + poly_p"
    using POLY_ADD_REDUCE_value [OF assms] by (simp add: poly_p_def)
  then show ?thesis by simp
next
  case False
  then show ?thesis using POLY_ADD_REDUCE_value [OF assms] by simp
qed

text \<open>
  The multiplication loops. With an operand below \<open>2\<^sup>1\<^sup>3\<^sup>0\<close> that is not reduced below the
  modulus, doubling can leave the range: after \<open>k\<close> doublings the operand is at most
  \<open>2\<^sup>1\<^sup>3\<^sup>0 + 2\<^sup>k\<^sup>+\<^sup>2 - 5\<close>, and the product exceeds \<open>2\<^sup>1\<^sup>3\<^sup>0\<close> by at most four times the part
  of the key consumed so far. The invariant carries both bounds.
\<close>

definition mul_inv :: "nat \<Rightarrow> nat \<Rightarrow> nat \<Rightarrow> u32 list \<times> u32 list \<Rightarrow> bool" where
  "mul_inv a0 k rk px \<longleftrightarrow>
     length (fst px) = 5 \<and> length (snd px) = 5 \<and>
     val32 (snd px) mod poly_p = (a0 * 2 ^ k) mod poly_p \<and>
     val32 (fst px) mod poly_p = (a0 * rk) mod poly_p \<and>
     val32 (snd px) + 5 \<le> 2 ^ 130 + 2 ^ (k + 2) \<and>
     val32 (fst px) < 2 ^ 130 + 4 * rk \<and> rk < 2 ^ k"

lemma mul_inv_double:
  assumes "length x = 5" "val32 x + 5 \<le> 2 ^ 130 + 2 ^ (k + 2)" "k < 128"
    "val32 x mod poly_p = (a0 * 2 ^ k) mod poly_p"
  shows "val32 (POLY_ADD_REDUCE x x) + 5 \<le> 2 ^ 130 + 2 ^ (Suc k + 2)"
    and "val32 (POLY_ADD_REDUCE x x) mod poly_p = (a0 * 2 ^ Suc k) mod poly_p"
proof -
  have k: "(2::nat) ^ (k + 2) \<le> 2 ^ 129"
    using assms(3) by (intro power_increasing) auto
  then have small: "val32 x + val32 x < 2 ^ 132" using assms(2) by simp
  define q where "q = (2::nat) ^ (k + 2)"
  have q: "2 ^ (Suc k + 2) = 2 * q" "4 \<le> q"
    using power_increasing [of 2 "k + 2" "2::nat"] by (simp_all add: q_def)
  show "val32 (POLY_ADD_REDUCE x x) + 5 \<le> 2 ^ 130 + 2 ^ (Suc k + 2)"
    using POLY_ADD_REDUCE_value [OF assms(1,1) small] assms(2) q(2)
    unfolding q(1) q_def [symmetric] by (simp split: if_splits)
  have "val32 (POLY_ADD_REDUCE x x) mod poly_p = (2 * val32 x) mod poly_p"
    using POLY_ADD_REDUCE_mod [OF assms(1,1) small] by (simp add: mult_2)
  also have "\<dots> = (2 * (a0 * 2 ^ k)) mod poly_p"
    using assms(4) by (rule mod_mult_cong [OF refl])
  finally show "val32 (POLY_ADD_REDUCE x x) mod poly_p = (a0 * 2 ^ Suc k) mod poly_p"
    by (simp add: ac_simps)
qed

lemma mul_inv_add:
  assumes "length p = 5" "length x = 5" "val32 x + 5 \<le> 2 ^ 130 + 2 ^ (k + 2)" "k < 128"
    "val32 x mod poly_p = (a0 * 2 ^ k) mod poly_p"
    "val32 p mod poly_p = (a0 * rk) mod poly_p" "val32 p < 2 ^ 130 + 4 * rk" "rk < 2 ^ k"
  shows "val32 (POLY_ADD_REDUCE p x) < 2 ^ 130 + 4 * (rk + 2 ^ k)"
    and "val32 (POLY_ADD_REDUCE p x) mod poly_p = (a0 * (rk + 2 ^ k)) mod poly_p"
proof -
  have "(2::nat) ^ k \<le> 2 ^ 127" using assms(4) by (intro power_increasing) auto
  moreover have k4: "(2::nat) ^ (k + 2) = 4 * 2 ^ k" by simp
  ultimately have small: "val32 p + val32 x < 2 ^ 132" using assms(3,7,8) by simp
  show "val32 (POLY_ADD_REDUCE p x) < 2 ^ 130 + 4 * (rk + 2 ^ k)"
    using POLY_ADD_REDUCE_value [OF assms(1,2) small] assms(3,7) k4 by (simp split: if_splits)
  have "val32 (POLY_ADD_REDUCE p x) mod poly_p = (val32 p + val32 x) mod poly_p"
    using POLY_ADD_REDUCE_mod [OF assms(1,2) small] .
  also have "\<dots> = (a0 * rk + a0 * 2 ^ k) mod poly_p"
    using assms(5,6) by (rule mod_add_cong [rotated])
  finally show "val32 (POLY_ADD_REDUCE p x) mod poly_p = (a0 * (rk + 2 ^ k)) mod poly_p"
    by (simp add: algebra_simps)
qed

lemma low_bit_split: "unat (w :: u32) = of_bool (w AND 1 \<noteq> 0) + 2 * unat (drop_bit 1 w)"
proof -
  have "unat (w AND 1) = unat w mod 2"
    by (simp add: and_one_eq unat_mod)
  then have "w AND 1 \<noteq> 0 \<longleftrightarrow> odd (unat w)"
    by (metis odd_iff_mod_2_eq_one even_iff_mod_2_eq_zero unat_eq_0)
  moreover have "unat (drop_bit 1 w) = unat w div 2"
    by (simp add: drop_bit_eq_div unat_div_distrib)
  ultimately show ?thesis by (cases "odd (unat w)") (simp_all add: odd_two_times_div_two_succ)
qed

lemma poly_mul_assign_loop_inv:
  assumes "mul_inv a0 k rk px" "k + n \<le> 128" "unat w < 2 ^ n"
  shows "mul_inv a0 (k + n) (rk + 2 ^ k * unat w) (poly_mul_assign_loop n w px)"
  using assms
proof (induction n arbitrary: k rk w px)
  case 0
  then have "w = 0" by (simp add: unat_eq_0)
  with 0 show ?case by (cases px) simp
next
  case (Suc n)
  obtain p x where px: "px = (p, x)" by (cases px)
  let ?b = "w AND 1 \<noteq> 0"
  let ?p = "if w AND 1 = 0 then p else POLY_ADD_REDUCE p x"
  let ?rk = "rk + (if ?b then 2 ^ k else 0)"
  have inv: "length p = 5" "length x = 5"
      "val32 x mod poly_p = (a0 * 2 ^ k) mod poly_p" "val32 p mod poly_p = (a0 * rk) mod poly_p"
      "val32 x + 5 \<le> 2 ^ 130 + 2 ^ (k + 2)" "val32 p < 2 ^ 130 + 4 * rk" "rk < 2 ^ k"
    using Suc.prems(1) by (simp_all add: mul_inv_def px)
  have k: "k < 128" using Suc.prems(2) by simp
  have "mul_inv a0 (Suc k) ?rk (?p, POLY_ADD_REDUCE x x)"
    using inv k mul_inv_double [OF inv(2,5) k inv(3)]
      mul_inv_add [OF inv(1,2,5) k inv(3,4,6,7)]
    by (auto simp: mul_inv_def limb_simps)
  moreover have "unat (drop_bit 1 w) < 2 ^ n"
    using Suc.prems(3) low_bit_split [of w] by simp
  ultimately have "mul_inv a0 (Suc k + n) (?rk + 2 ^ Suc k * unat (drop_bit 1 w))
      (poly_mul_assign_loop n (drop_bit 1 w) (?p, POLY_ADD_REDUCE x x))"
    using Suc.prems(2) by (intro Suc.IH) simp_all
  moreover have "?rk + 2 ^ Suc k * unat (drop_bit 1 w) = rk + 2 ^ k * unat w"
    using low_bit_split [of w] by (simp add: algebra_simps)
  ultimately show ?case
    by (simp only: px poly_mul_assign_loop.simps Let_def add_Suc_right add_Suc)
qed

lemma poly_mul_assign_value:
  assumes "length a = 5" "length r = 4" "val32 a < 2 ^ 130"
  shows "length (poly_mul_assign a r) = 5"
    and "val32 (poly_mul_assign a r) mod poly_p = (val32 a * val32 r) mod poly_p"
    and "val32 (poly_mul_assign a r) < 2 ^ 130 + 4 * val32 r"
proof -
  obtain r0 r1 r2 r3 where r: "r = [r0, r1, r2, r3]"
    using assms(2) by (auto simp: numeral_eq_Suc length_Suc_conv)
  let ?L = "poly_mul_assign_loop 32"
  have "mul_inv (val32 a) 0 0 ([0, 0, 0, 0, 0], a)"
    using assms by (simp add: mul_inv_def)
  then have "mul_inv (val32 a) (0 + 32) (0 + 2 ^ 0 * unat r0) (?L r0 ([0, 0, 0, 0, 0], a))"
    by (rule poly_mul_assign_loop_inv) simp_all
  from poly_mul_assign_loop_inv [OF this, of 32 r1]
  have "mul_inv (val32 a) 64 (unat r0 + 2 ^ 32 * unat r1) (?L r1 (?L r0 ([0, 0, 0, 0, 0], a)))"
    by simp
  from poly_mul_assign_loop_inv [OF this, of 32 r2]
  have "mul_inv (val32 a) 96 (unat r0 + 2 ^ 32 * unat r1 + 2 ^ 64 * unat r2)
      (?L r2 (?L r1 (?L r0 ([0, 0, 0, 0, 0], a))))"
    by simp
  from poly_mul_assign_loop_inv [OF this, of 32 r3]
  have "mul_inv (val32 a) 128 (val32 r) (?L r3 (?L r2 (?L r1 (?L r0 ([0, 0, 0, 0, 0], a)))))"
    by (simp add: r algebra_simps)
  then have "mul_inv (val32 a) 128 (val32 r)
      (fold ?L [r ! 0, r ! 1, r ! 2, r ! 3] ([0, 0, 0, 0, 0], a))"
    by (simp add: r)
  then show "length (poly_mul_assign a r) = 5"
    and "val32 (poly_mul_assign a r) mod poly_p = (val32 a * val32 r) mod poly_p"
    and "val32 (poly_mul_assign a r) < 2 ^ 130 + 4 * val32 r"
    unfolding poly_mul_assign_def mul_inv_def by blast+
qed


text \<open>The comparison with the modulus, which the code makes limb by limb.\<close>

lemma poly_reduction_req_value:
  assumes "length a = 5"
  shows "poly_reduction_req a = (if poly_p \<le> val32 a \<and> val32 a < 2 ^ 130 then - 1 else 0)"
proof -
  obtain l0 l1 l2 l3 l4 where a: "a = [l0, l1, l2, l3, l4]" using assms by (rule five_limbs)
  have b: "unat l0 \<le> 4294967295" "unat l1 \<le> 4294967295" "unat l2 \<le> 4294967295"
      "unat l3 \<le> 4294967295" "unat l4 \<le> 4294967295"
    using u32_bound [of l0] u32_bound [of l1] u32_bound [of l2] u32_bound [of l3]
      u32_bound [of l4] by linarith+
  have v: "val32 a = unat l0 + 4294967296 * unat l1 + 18446744073709551616 * unat l2
      + 79228162514264337593543950336 * unat l3
      + 340282366920938463463374607431768211456 * unat l4"
    by (simp add: a algebra_simps)
  have eq: "(l = 0xFFFFFFFF) = (unat l = 4294967295)" "(l = 3) = (unat l = 3)"
    "(0xFFFFFFFB \<le> l) = (4294967291 \<le> unat l)" for l :: u32
    by (simp_all add: word_unat_eq_iff word_le_nat_alt)
  have "(l4 = 3 \<and> (l3 = 0xFFFFFFFF \<and> l2 = 0xFFFFFFFF \<and> l1 = 0xFFFFFFFF) \<and> 0xFFFFFFFB \<le> l0)
      \<longleftrightarrow> poly_p \<le> val32 a \<and> val32 a < 2 ^ 130"
    (is "?limbs \<longleftrightarrow> ?range")
  proof
    assume ?limbs
    then show ?range unfolding eq poly_p_val v by simp
  next
    assume ?range
    then have r: "poly_p \<le> val32 a" "val32 a < 2 ^ 130" by blast+
    have 4: "unat l4 = 3" using r b unfolding poly_p_val v by simp
    have "unat l3 = 4294967295" "unat l2 = 4294967295" "unat l1 = 4294967295"
      "4294967291 \<le> unat l0"
      using r b 4 unfolding poly_p_val v by simp_all
    with 4 show ?limbs unfolding eq by blast
  qed
  then show ?thesis
    by (simp add: poly_reduction_req_def a)
qed

lemma poly_masked_reduce_value:
  assumes "length a = 5" "val32 a < 2 ^ 132"
  shows "val32 (poly_masked_reduce a (poly_reduction_req a)) =
    (if poly_p \<le> val32 a \<and> val32 a < 2 ^ 130 then val32 a - poly_p else val32 a)"
proof (cases "poly_p \<le> val32 a \<and> val32 a < 2 ^ 130")
  case True
  then have "poly_masked_reduce a (poly_reduction_req a) = add_chain a [5, 0, 0, 0, 0xFFFFFFFC]"
    using assms by (simp add: poly_reduction_req_value poly_masked_reduce_def Let_def)
  then have "val32 (poly_masked_reduce a (poly_reduction_req a))
      = (val32 a + (2 ^ 160 - 2 ^ 130 + 5)) mod 2 ^ 160"
    using assms val32_sub_p by (simp add: val32_add_chain)
  also have "\<dots> = val32 a - poly_p"
  proof -
    define d where "d = val32 a - poly_p"
    have "val32 a = poly_p + d" "d < 5" using True by (auto simp: d_def poly_p_val)
    then show ?thesis by (simp add: poly_p_val)
  qed
  finally show ?thesis using True by simp
next
  case False
  then have "poly_reduction_req a = 0" using assms by (simp add: poly_reduction_req_value)
  then have "poly_masked_reduce a (poly_reduction_req a) = add_chain a [0, 0, 0, 0, 0]"
    by (simp add: poly_masked_reduce_def Let_def)
  then show ?thesis
    using False assms by (auto simp: val32_add_chain)
qed

text \<open>
  The context invariant: the accumulator is either fully reduced or at least
  \<open>2\<^sup>1\<^sup>3\<^sup>0\<close>, the range the comparison misses.
\<close>

definition ctx_inv :: "poly_context \<Rightarrow> bool" where
  "ctx_inv ctx \<longleftrightarrow>
     length (ctx_r ctx) = 4 \<and> length (ctx_s ctx) = 4 \<and> length (ctx_a ctx) = 5 \<and>
     val32 (ctx_r ctx) < 2 ^ 124 \<and> val32 (ctx_a ctx) < 2 ^ 130 + 2 ^ 126 \<and>
     (val32 (ctx_a ctx) < poly_p \<or> 2 ^ 130 \<le> val32 (ctx_a ctx))"

lemma poly_feed_block_keeps [simp]:
  "ctx_r (poly_feed_block ctx b) = ctx_r ctx" "ctx_s (poly_feed_block ctx b) = ctx_s ctx"
  by (simp_all add: poly_feed_block_def poly_mul_key_def Let_def)

lemma poly_feed_block_value:
  assumes inv: "ctx_inv ctx" and b: "length b = 4"
  shows "ctx_inv (poly_feed_block ctx b)"
    and "val32 (ctx_a (poly_feed_block ctx b)) mod poly_p
       = ((val32 (ctx_a ctx) + val32 b + 2 ^ 128) * val32 (ctx_r ctx)) mod poly_p"
proof -
  let ?a = "ctx_a ctx" and ?r = "ctx_r ctx"
  have i: "length ?r = 4" "length ?a = 5" "val32 ?r < 2 ^ 124" "val32 ?a < 2 ^ 130 + 2 ^ 126"
    using inv by (simp_all add: ctx_inv_def)
  let ?s = "b @ [1]"
  have s: "length ?s = 5" "val32 ?s = val32 b + 2 ^ 128" "val32 b < 2 ^ 128"
    using b val32_bound [of b] by (simp_all add: val32_append)
  have add: "poly_add_reduce ?a b = POLY_ADD_REDUCE ?a ?s"
    using b by (simp add: poly_add_reduce_def)
  let ?x = "POLY_ADD_REDUCE ?a ?s"
  have x: "length ?x = 5" using i s by (simp add: limb_simps)
  have small: "val32 ?a + val32 ?s < 2 ^ 132" using i s by simp
  have xv: "val32 ?x < 2 ^ 130"
    using POLY_ADD_REDUCE_value [OF i(2) s(1) small] i s by (simp split: if_splits)
  let ?m = "poly_mul_assign ?x ?r"
  note m = poly_mul_assign_value [OF x i(1) xv]
  have mb: "val32 ?m < 2 ^ 130 + 2 ^ 126" using m(3) i(3) by simp
  then have mb': "val32 ?m < 2 ^ 132" by simp
  have fa: "ctx_a (poly_feed_block ctx b) = poly_masked_reduce ?m (poly_reduction_req ?m)"
    by (simp add: poly_feed_block_def poly_mul_key_def add Let_def)
  note fv = poly_masked_reduce_value [OF m(1) mb']
  have "val32 (ctx_a (poly_feed_block ctx b)) < 2 ^ 130 + 2 ^ 126 \<and>
     (val32 (ctx_a (poly_feed_block ctx b)) < poly_p \<or> 2 ^ 130 \<le> val32 (ctx_a (poly_feed_block ctx b)))"
    unfolding fa fv using mb by (cases "poly_p \<le> val32 ?m \<and> val32 ?m < 2 ^ 130") (auto simp: poly_p_val)
  then show "ctx_inv (poly_feed_block ctx b)"
    using inv m(1) by (simp add: ctx_inv_def fa limb_simps)
  have "val32 (ctx_a (poly_feed_block ctx b)) mod poly_p = val32 ?m mod poly_p"
    unfolding fa fv by (simp add: le_mod_geq)
  also have "\<dots> = (val32 ?x mod poly_p * val32 ?r) mod poly_p"
    using m(2) by (simp add: mod_mult_left_eq)
  also have "\<dots> = ((val32 ?a + val32 b + 2 ^ 128) * val32 ?r) mod poly_p"
    using POLY_ADD_REDUCE_mod [OF i(2) s(1) small] s(2)
    by (simp only: mod_mult_left_eq add.assoc)
  finally show "val32 (ctx_a (poly_feed_block ctx b)) mod poly_p
       = ((val32 ?a + val32 b + 2 ^ 128) * val32 ?r) mod poly_p" .
qed

lemma poly_feed_all_value:
  assumes "ctx_inv ctx" "\<forall>b \<in> set blocks. length b = 4"
  shows "ctx_inv (poly_feed_all ctx blocks)"
    and "val32 (ctx_a (poly_feed_all ctx blocks)) mod poly_p
       = poly1305_acc (val32 (ctx_r ctx)) (val32 (ctx_a ctx)) blocks mod poly_p"
    and "ctx_s (poly_feed_all ctx blocks) = ctx_s ctx"
  using assms
proof (induction blocks arbitrary: ctx)
  case Nil
  { case 1 then show ?case by (simp add: poly_feed_all_def) }
  { case 2 then show ?case by (simp add: poly_feed_all_def) }
  { case 3 then show ?case by (simp add: poly_feed_all_def) }
next
  case (Cons b bs)
  have step: "poly_feed_all ctx (b # bs) = poly_feed_all (poly_feed_block ctx b) bs"
    for ctx by (simp add: poly_feed_all_def)
  have "(x mod poly_p + c) * r mod poly_p = (x + c) * r mod poly_p" for x c r
    by (metis mod_add_left_eq mod_mult_left_eq)
  then have acc_mod: "poly1305_acc r (x mod poly_p) bs mod poly_p = poly1305_acc r x bs mod poly_p" for r x
    by (cases bs) (simp_all add: add.assoc)
  { case 1
    then show ?case using Cons.IH(1) [OF poly_feed_block_value(1)] by (simp add: step) }
  { case 2
    let ?c = "poly_feed_block ctx b"
    have "val32 (ctx_a (poly_feed_all ?c bs)) mod poly_p
        = poly1305_acc (val32 (ctx_r ctx)) (val32 (ctx_a ?c)) bs mod poly_p"
      using 2 Cons.IH(2) [OF poly_feed_block_value(1)] by simp
    also have "\<dots> = poly1305_acc (val32 (ctx_r ctx)) (val32 (ctx_a ?c) mod poly_p) bs mod poly_p"
      by (simp add: acc_mod)
    also have "\<dots> = poly1305_acc (val32 (ctx_r ctx)) (val32 (ctx_a ctx)) (b # bs) mod poly_p"
      using 2 poly_feed_block_value(2) [of ctx b] by simp
    finally show ?case by (simp add: step) }
  { case 3
    then show ?case using Cons.IH(3) [OF poly_feed_block_value(1)] by (simp add: step) }
qed

lemma val32_clamped:
  "poly1305_r key < 2 ^ 124"
proof -
  have "unat (key ! 3 AND 0x0FFFFFFC) \<le> unat (0x0FFFFFFC :: u32)"
    by (rule word_and_le1 [THEN word_le_nat_alt [THEN iffD1]])
  then have top: "unat (key ! 3 AND 0x0FFFFFFC) \<le> 268435452" by simp
  let ?l = "[key ! 0 AND 0x0FFFFFFF, key ! 1 AND 0x0FFFFFFC, key ! 2 AND 0x0FFFFFFC]"
  have "poly1305_r key = val32 (?l @ [key ! 3 AND 0x0FFFFFFC])"
    by (simp add: poly1305_r_def)
  also have "\<dots> = val32 ?l + 2 ^ 96 * unat (key ! 3 AND 0x0FFFFFFC)"
    by (simp only: val32_append) simp
  finally show ?thesis using top val32_bound [of ?l] by simp
qed

lemma ctx_inv_init: "ctx_inv (poly_init key)"
  using val32_clamped [of key]
  by (simp add: ctx_inv_def poly_init_def poly1305_r_def poly_p_val)

lemma length_poly_tag:
  assumes "\<forall>b \<in> set blocks. length b = 4"
  shows "length (poly_tag key blocks) = 4"
  using poly_feed_all_value(1) [OF ctx_inv_init assms, of key]
  by (simp add: poly_tag_def poly_finalize_def poly_add_128_def ctx_inv_def)

lemma poly1305_acc_reduced: "a < poly_p \<Longrightarrow> poly1305_acc r a bs < poly_p"
  by (induction bs arbitrary: a) (simp_all add: poly_p_val)

section \<open>Correctness of the tag\<close>

text \<open>The last accumulator: its residue, when it fits, and how the tag is read off it.\<close>

lemma poly_tag_accumulator:
  assumes "\<forall>b \<in> set blocks. length b = 4"
  shows "ctx_inv (poly_feed_all (poly_init key) blocks)"
    "val32 (ctx_a (poly_feed_all (poly_init key) blocks)) mod poly_p = poly1305_acc (poly1305_r key) 0 blocks"
    "val32 (poly_tag key blocks) = (val32 (ctx_a (poly_feed_all (poly_init key) blocks)) + poly1305_s key) mod 2 ^ 128"
    "ctx_a (poly_feed_all (poly_init key) blocks) ! 4 \<le> 3 \<longleftrightarrow> val32 (ctx_a (poly_feed_all (poly_init key) blocks)) < 2 ^ 130"
proof -
  let ?c = "poly_feed_all (poly_init key) blocks"
  let ?a = "ctx_a ?c" and ?acc = "poly1305_acc (poly1305_r key) 0 blocks"
  note f = poly_feed_all_value [OF ctx_inv_init assms, of key]
  have inv: "ctx_inv ?c" using f(1) .
  then have len: "length ?a = 5" by (simp add: ctx_inv_def)
  have acc: "?acc < poly_p" by (rule poly1305_acc_reduced) (simp add: poly_p_val)
  have md: "val32 ?a mod poly_p = ?acc"
    using f(2) acc by (simp add: poly_init_def poly1305_r_def)
  have low: "val32 (take 4 ?a) = val32 ?a mod 2 ^ 128"
  proof -
    have "val32 ?a = val32 (take 4 ?a) + 2 ^ 128 * val32 (drop 4 ?a)"
      using val32_append [of "take 4 ?a" "drop 4 ?a"] len by simp
    moreover have "val32 (take 4 ?a) < 2 ^ 128" using val32_bound [of "take 4 ?a"] len by simp
    ultimately show ?thesis by simp
  qed
  have s: "take 4 (ctx_s ?c) = [key ! 4, key ! 5, key ! 6, key ! 7]"
    using f(3) by (simp add: poly_init_def)
  have tag: "val32 (poly_tag key blocks) = (val32 ?a + poly1305_s key) mod 2 ^ 128"
    using len low s
    by (simp add: poly_tag_def poly_finalize_def poly_add_128_def val32_add_chain
        poly1305_s_def mod_add_left_eq)
  have "4 \<le> val32 ?a div 2 ^ 128 \<longleftrightarrow> 4 * 2 ^ 128 \<le> val32 ?a"
    by (rule less_eq_div_iff_mult_less_eq) simp
  then have top: "?a ! 4 \<le> 3 \<longleftrightarrow> val32 ?a < 2 ^ 130"
    using top_limb [OF len] by (simp add: word_le_nat_alt) linarith
  show "ctx_inv ?c" "val32 ?a mod poly_p = ?acc" "val32 (poly_tag key blocks) = (val32 ?a + poly1305_s key) mod 2 ^ 128"
    "?a ! 4 \<le> 3 \<longleftrightarrow> val32 ?a < 2 ^ 130" by (fact inv md tag top)+
qed

lemma poly_tag_exact:
  assumes "\<forall>b \<in> set blocks. length b = 4" "ctx_a (poly_feed_all (poly_init key) blocks) ! 4 \<le> 3"
  shows "val32 (poly_tag key blocks) = poly1305_mac key blocks"
proof -
  note acc = poly_tag_accumulator [OF assms(1), of key]
  have "val32 (ctx_a (poly_feed_all (poly_init key) blocks)) < poly_p" using acc(1,4) assms(2) by (auto simp: ctx_inv_def)
  then show ?thesis using acc(2,3) by (simp add: poly1305_mac_def)
qed

text \<open>
  C7: for every key of eight words and every list of 16-byte blocks, the tag the code
  computes is the RFC 8439 Poly1305 tag when the last accumulator fits in 130 bits, and is
  that tag minus 5 (modulo \<open>2\<^sup>1\<^sup>2\<^sup>8\<close>) when its top limb exceeds 3.
\<close>

theorem poly_tag_correct:
  assumes "length key = 8" "\<forall>b \<in> set blocks. length b = 4"
  shows "val32 (poly_tag key blocks) =
    (if ctx_a (poly_feed_all (poly_init key) blocks) ! 4 \<le> 3
     then poly1305_mac key blocks
     else (poly1305_mac key blocks + (2 ^ 128 - 5)) mod 2 ^ 128)"
proof -
  let ?a = "ctx_a (poly_feed_all (poly_init key) blocks)" and ?acc = "poly1305_acc (poly1305_r key) 0 blocks"
  note inv = poly_tag_accumulator(1) [OF assms(2), of key] and md = poly_tag_accumulator(2) [OF assms(2), of key]
    and tag = poly_tag_accumulator(3) [OF assms(2), of key] and top = poly_tag_accumulator(4) [OF assms(2), of key]
  show ?thesis
  proof (cases "val32 ?a < 2 ^ 130")
    case True
    then have "val32 ?a < poly_p" using inv by (auto simp: ctx_inv_def)
    then have "val32 ?a = ?acc" using md by simp
    then show ?thesis using True top tag by (simp add: poly1305_mac_def)
  next
    case False
    have "val32 ?a < 2 * poly_p" "poly_p \<le> val32 ?a"
      using inv False by (simp_all add: ctx_inv_def poly_p_val)
    moreover from this have "val32 ?a mod poly_p = val32 ?a - poly_p"
      by (simp add: le_mod_geq)
    ultimately have "val32 ?a = ?acc + poly_p" using md by simp
    then have "val32 (poly_tag key blocks) = (?acc + poly1305_s key + poly_p) mod 2 ^ 128"
      using tag by (simp add: ac_simps)
    also have "\<dots> = (?acc + poly1305_s key + (2 ^ 128 - 5)) mod 2 ^ 128"
    proof -
      have "poly_p = (2 ^ 128 - 5) + 3 * 2 ^ 128" by (simp add: poly_p_val)
      then show ?thesis by (metis add.assoc mod_mult_self1)
    qed
    finally show ?thesis using False top by (simp add: poly1305_mac_def mod_add_left_eq)
  qed
qed


section \<open>The range the final comparison misses\<close>

text \<open>
  A single block of sixteen bytes 0xFF makes the operand of the multiplication
  \<open>2\<^sup>1\<^sup>2\<^sup>9 - 1\<close>, whose double \<open>2\<^sup>1\<^sup>3\<^sup>0 - 2\<close> is not reduced. When the lowest set bit of the
  key is bit 1, the product starts from that double and from then on stays above the
  modulus by three halves of the key consumed so far.
\<close>

definition drift_inv :: "nat \<Rightarrow> nat \<Rightarrow> u32 list \<times> u32 list \<Rightarrow> bool" where
  "drift_inv k rk px \<longleftrightarrow>
     length (fst px) = 5 \<and> length (snd px) = 5 \<and> 2 \<le> k \<and> 2 \<le> rk \<and> rk < 2 ^ k \<and>
     2 * val32 (snd px) = 2 * poly_p + 3 * 2 ^ k \<and> 2 * val32 (fst px) = 2 * poly_p + 3 * rk"

lemma drift_step:
  assumes "length p = 5" "length x = 5" "2 * val32 x = 2 * poly_p + 3 * 2 ^ k"
    "2 * val32 p = 2 * poly_p + 3 * c" "2 \<le> c" "c \<le> 2 ^ k" "2 \<le> k" "k < 128"
  shows "2 * val32 (POLY_ADD_REDUCE p x) = 2 * poly_p + 3 * (c + 2 ^ k)"
proof -
  define q where "q = (2::nat) ^ k"
  have q: "q \<le> 2 ^ 127" "4 \<le> q"
    using power_increasing [of k 127 "2::nat"] power_increasing [of 2 k "2::nat"] assms(7,8)
    by (simp_all add: q_def)
  have small: "val32 p + val32 x < 2 ^ 132"
    using assms(3,4,6) q unfolding q_def [symmetric] by (simp add: poly_p_val)
  have "2 ^ 130 \<le> val32 p + val32 x"
    using assms(3,4,5) q unfolding q_def [symmetric] by (simp add: poly_p_val)
  then have "val32 (POLY_ADD_REDUCE p x) = val32 p + val32 x - poly_p"
    using POLY_ADD_REDUCE_value [OF assms(1,2) small] by (simp add: poly_p_val)
  then show ?thesis using assms(3,4) by simp
qed

lemma drift_loop:
  assumes "drift_inv k rk px" "k + n \<le> 128" "unat w < 2 ^ n"
  shows "drift_inv (k + n) (rk + 2 ^ k * unat w) (poly_mul_assign_loop n w px)"
  using assms
proof (induction n arbitrary: k rk w px)
  case 0
  then have "w = 0" by (simp add: unat_eq_0)
  with 0 show ?case by (cases px) simp
next
  case (Suc n)
  obtain p x where px: "px = (p, x)" by (cases px)
  let ?b = "w AND 1 \<noteq> 0"
  let ?p = "if w AND 1 = 0 then p else POLY_ADD_REDUCE p x"
  let ?rk = "rk + (if ?b then 2 ^ k else 0)"
  have inv: "length p = 5" "length x = 5" "2 * val32 x = 2 * poly_p + 3 * 2 ^ k"
      "2 * val32 p = 2 * poly_p + 3 * rk" "2 \<le> rk" "rk < 2 ^ k" "2 \<le> k"
    using Suc.prems(1) by (simp_all add: drift_inv_def px)
  have k: "k < 128" "rk \<le> 2 ^ k" "2 \<le> (2::nat) ^ k" using Suc.prems(2) inv(5,6) by simp_all
  have "2 * val32 (POLY_ADD_REDUCE x x) = 2 * poly_p + 3 * 2 ^ Suc k"
    using drift_step [OF inv(2,2,3,3) k(3) order_refl inv(7) k(1)] by simp
  moreover have "2 * val32 (POLY_ADD_REDUCE p x) = 2 * poly_p + 3 * (rk + 2 ^ k)"
    using drift_step [OF inv(1,2,3,4,5) k(2) inv(7) k(1)] .
  ultimately have "drift_inv (Suc k) ?rk (?p, POLY_ADD_REDUCE x x)"
    using inv by (simp add: drift_inv_def limb_simps)
  moreover have "unat (drop_bit 1 w) < 2 ^ n"
    using Suc.prems(3) low_bit_split [of w] by simp
  ultimately have "drift_inv (Suc k + n) (?rk + 2 ^ Suc k * unat (drop_bit 1 w))
      (poly_mul_assign_loop n (drop_bit 1 w) (?p, POLY_ADD_REDUCE x x))"
    using Suc.prems(2) by (intro Suc.IH) simp_all
  moreover have "?rk + 2 ^ Suc k * unat (drop_bit 1 w) = rk + 2 ^ k * unat w"
    using low_bit_split [of w] by (simp add: algebra_simps)
  ultimately show ?case
    by (simp only: px poly_mul_assign_loop.simps Let_def add_Suc_right add_Suc)
qed

lemma drift_start:
  assumes "length x = 5" "val32 x = 2 ^ 129 - 1" "w AND 1 = 0" "drop_bit 1 w AND 1 \<noteq> 0"
  shows "drift_inv 32 (unat w) (poly_mul_assign_loop 32 w ([0, 0, 0, 0, 0], x))"
proof -
  let ?z = "[0, 0, 0, 0, 0] :: u32 list"
  let ?x1 = "POLY_ADD_REDUCE x x" and ?w2 = "drop_bit 1 (drop_bit 1 w)"
  let ?x2 = "POLY_ADD_REDUCE ?x1 ?x1" and ?p2 = "POLY_ADD_REDUCE ?z ?x1"
  have x1: "length ?x1 = 5" "val32 ?x1 = 2 ^ 130 - 2"
    using POLY_ADD_REDUCE_value [OF assms(1,1)] assms(1,2) by (simp_all add: limb_simps)
  have x2: "length ?x2 = 5" "val32 ?x2 = poly_p + 6"
    using POLY_ADD_REDUCE_value [OF x1(1,1)] x1 by (simp_all add: limb_simps poly_p_val)
  have p2: "length ?p2 = 5" "val32 ?p2 = poly_p + 3"
    using POLY_ADD_REDUCE_value [of ?z ?x1] x1 by (simp_all add: limb_simps poly_p_val)
  have inv: "drift_inv 2 2 (?p2, ?x2)"
    using x2 p2 by (simp add: drift_inv_def)
  have w: "unat w = 2 + 4 * unat ?w2"
    using low_bit_split [of w] low_bit_split [of "drop_bit 1 w"] assms(3,4) by simp
  then have "unat ?w2 < 2 ^ 30" using u32_bound [of w] by simp
  with inv have "drift_inv (2 + 30) (2 + 2 ^ 2 * unat ?w2) (poly_mul_assign_loop 30 ?w2 (?p2, ?x2))"
    by (intro drift_loop) simp_all
  moreover have "poly_mul_assign_loop 32 w (?z, x) = poly_mul_assign_loop 30 ?w2 (?p2, ?x2)"
  proof -
    have "(32::nat) = Suc (Suc 30)" by simp
    then show ?thesis using assms(3,4) by (simp only: poly_mul_assign_loop.simps Let_def simp_thms if_True if_False)
  qed
  ultimately show ?thesis using w by simp
qed

lemma drift_mul:
  assumes "length x = 5" "val32 x = 2 ^ 129 - 1" "length r = 4"
    "r ! 0 AND 1 = 0" "drop_bit 1 (r ! 0) AND 1 \<noteq> 0"
  shows "2 * val32 (poly_mul_assign x r) = 2 * poly_p + 3 * val32 r \<and> 2 \<le> val32 r"
proof -
  obtain r0 r1 r2 r3 where r: "r = [r0, r1, r2, r3]"
    using assms(3) by (auto simp: numeral_eq_Suc length_Suc_conv)
  let ?L = "poly_mul_assign_loop 32"
  have "drift_inv 32 (unat r0) (?L r0 ([0, 0, 0, 0, 0], x))"
    using assms by (intro drift_start) (simp_all add: r)
  from drift_loop [OF this, of 32 r1]
  have "drift_inv 64 (unat r0 + 2 ^ 32 * unat r1) (?L r1 (?L r0 ([0, 0, 0, 0, 0], x)))"
    by simp
  from drift_loop [OF this, of 32 r2]
  have "drift_inv 96 (unat r0 + 2 ^ 32 * unat r1 + 2 ^ 64 * unat r2)
      (?L r2 (?L r1 (?L r0 ([0, 0, 0, 0, 0], x))))"
    by simp
  from drift_loop [OF this, of 32 r3]
  have "drift_inv 128 (val32 r) (?L r3 (?L r2 (?L r1 (?L r0 ([0, 0, 0, 0, 0], x)))))"
    by (simp add: r algebra_simps)
  then show ?thesis by (simp add: poly_mul_assign_def r drift_inv_def)
qed


lemma and3_is_2:
  assumes "(w :: u32) AND 3 = 2"
  shows "(w AND 0x0FFFFFFF) AND 1 = 0" "drop_bit 1 (w AND 0x0FFFFFFF) AND 1 \<noteq> 0"
proof -
  have "(w AND 0x0FFFFFFF) AND 1 = (w AND 3) AND 1" by (simp add: and.assoc)
  then show "(w AND 0x0FFFFFFF) AND 1 = 0" using assms by simp
  have "drop_bit 1 (w AND 0x0FFFFFFF) AND 1 = drop_bit 1 ((w AND 0x0FFFFFFF) AND 2)"
    by (simp add: drop_bit_and del: drop_bit_Suc)
  also have "(w AND 0x0FFFFFFF) AND 2 = (w AND 3) AND 2" by (simp add: and.assoc)
  also have "\<dots> = 2" using assms by simp
  finally show "drop_bit 1 (w AND 0x0FFFFFFF) AND 1 \<noteq> 0" by simp
qed

text \<open>
  C13: for every key whose first word is 2 modulo 4 and whose clamped half is not 2 (a
  quarter of all keys), the tag of the one-block message of sixteen bytes 0xFF is 5 below
  the RFC 8439 tag, so never equal to it.
\<close>

theorem poly_tag_all_ones:
  assumes "length key = 8" "key ! 0 AND 3 = 2" "poly1305_r key \<noteq> 2"
  shows "val32 (poly_tag key [replicate 4 0xFFFFFFFF])
       = (poly1305_mac key [replicate 4 0xFFFFFFFF] + (2 ^ 128 - 5)) mod 2 ^ 128
    \<and> val32 (poly_tag key [replicate 4 0xFFFFFFFF])
       \<noteq> poly1305_mac key [replicate 4 0xFFFFFFFF]"
proof -
  let ?b = "replicate 4 0xFFFFFFFF :: u32 list"
  let ?c = "poly_init key"
  let ?r = "ctx_r ?c"
  let ?x = "POLY_ADD_REDUCE [0, 0, 0, 0, 0] (?b @ [1])"
  have b: "?b = [0xFFFFFFFF, 0xFFFFFFFF, 0xFFFFFFFF, 0xFFFFFFFF]" by (simp add: numeral_eq_Suc)
  have x: "length ?x = 5" "val32 ?x = 2 ^ 129 - 1"
    using POLY_ADD_REDUCE_value [of "[0, 0, 0, 0, 0]" "?b @ [1]"] by (simp_all add: b limb_simps)
  have r: "length ?r = 4" "val32 ?r = poly1305_r key" "?r ! 0 = key ! 0 AND 0x0FFFFFFF"
    by (simp_all add: poly_init_def poly1305_r_def)
  let ?m = "poly_mul_assign ?x ?r"
  have m: "2 * val32 ?m = 2 * poly_p + 3 * poly1305_r key" "2 \<le> poly1305_r key"
    using drift_mul [OF x r(1)] and3_is_2 [OF assms(2)] r(2,3) by simp_all
  then have big: "2 ^ 130 \<le> val32 ?m" "val32 ?m < 2 ^ 132" "length ?m = 5"
    using assms(3) val32_clamped [of key] poly_mul_assign_value(1) [OF x(1) r(1)] x(2)
    by (simp_all add: poly_p_val, presburger?)
  have "ctx_a (poly_feed_block ?c ?b) = poly_masked_reduce ?m (poly_reduction_req ?m)"
    by (simp add: poly_feed_block_def poly_mul_key_def poly_add_reduce_def Let_def poly_init_def)
  moreover have "poly_reduction_req ?m = 0"
    using big by (simp add: poly_reduction_req_value)
  ultimately have a: "val32 (ctx_a (poly_feed_block ?c ?b)) = val32 ?m"
    "length (ctx_a (poly_feed_block ?c ?b)) = 5"
    using poly_masked_reduce_value [OF big(3,2)] big by (simp_all add: limb_simps)
  have "\<not> ctx_a (poly_feed_all ?c [?b]) ! 4 \<le> 3"
    using top_limb [OF a(2)] a(1) big(1)
      less_eq_div_iff_mult_less_eq [of "2 ^ 128" 4 "val32 ?m"]
    by (simp add: poly_feed_all_def word_le_nat_alt)
  then have eq: "val32 (poly_tag key [?b]) = (poly1305_mac key [?b] + (2 ^ 128 - 5)) mod 2 ^ 128"
    using poly_tag_correct [OF assms(1), of "[?b]"] by (simp del: replicate.simps)
  define M where "M = poly1305_mac key [?b]"
  have "M < 2 ^ 128" by (simp add: M_def poly1305_mac_def)
  then have "(M + (2 ^ 128 - 5)) mod 2 ^ 128 \<noteq> M" by (auto simp: mod_if)
  then show ?thesis using eq unfolding M_def by simp
qed

text \<open>The key with first word 6 and all other words 0 satisfies the hypotheses.\<close>

theorem poly_tag_all_ones_witness:
  "val32 (poly_tag [6, 0, 0, 0, 0, 0, 0, 0] [replicate 4 0xFFFFFFFF]) = 4
   \<and> poly1305_mac [6, 0, 0, 0, 0, 0, 0, 0] [replicate 4 0xFFFFFFFF] = 9"
proof -
  let ?k = "[6, 0, 0, 0, 0, 0, 0, 0] :: u32 list"
  have b: "replicate 4 0xFFFFFFFF = [0xFFFFFFFF, 0xFFFFFFFF, 0xFFFFFFFF, 0xFFFFFFFF :: u32]"
    by (simp add: numeral_eq_Suc)
  have mac: "poly1305_mac ?k [replicate 4 0xFFFFFFFF] = 9"
    unfolding b by (simp add: poly1305_mac_def poly1305_r_def poly1305_s_def poly_p_val)
  have "length ?k = 8" "?k ! 0 AND 3 = 2" "poly1305_r ?k \<noteq> 2" by (simp_all add: poly1305_r_def)
  from poly_tag_all_ones [OF this] mac show ?thesis by simp
qed

theorem poly_tag_correct_witness:
  "val32 (poly_tag [1, 0, 0, 0, 1, 1, 1, 1] []) = 79228162532711081671548469249"
proof -
  let ?k = "[1, 0, 0, 0, 1, 1, 1, 1] :: u32 list"
  have "ctx_a (poly_feed_all (poly_init ?k) []) ! 4 \<le> 3"
    by (simp add: poly_feed_all_def poly_init_def)
  moreover have "length ?k = 8" "\<forall>b \<in> set ([] :: u32 list list). length b = 4" by simp_all
  ultimately have "val32 (poly_tag ?k []) = poly1305_mac ?k []"
    using poly_tag_correct [of ?k "[]"] by simp
  also have "\<dots> = 79228162532711081671548469249"
    by (simp add: poly1305_mac_def poly1305_s_def)
  finally show ?thesis .
qed

end
