(* ===== verification/DPU_Memory.thy ===== *)
theory DPU_Memory imports MC_Prelude
begin

text \<open>
  The two data memories of a DPU and the ways the C code reaches them: the DMA engine
  (\<^verbatim>\<open>mram_read\<close>, \<^verbatim>\<open>mram_write\<close>, \<^verbatim>\<open>ldma\<close>, \<^verbatim>\<open>sdma\<close>) for MRAM, which ignores the low
  three bits of the address and moves cells of eight bytes, and plain loads, stores and
  \<^verbatim>\<open>memcpy\<close> for WRAM. Both memories are maps from word indices (byte address divided by four)
  to words. \<open>t_ptr_32\<close> is the tagged pointer of \<^verbatim>\<open>src/src/ime-rt/aead.c\<close>: bit 31 selects
  MRAM. The locale \<open>word_buffer\<close> states what code generic in the memory may rely on; DMA,
  the WRAM copy and the tagged accesses are its instances.
\<close>

unbundle bit_operations_syntax

section \<open>State and accesses\<close>

type_synonym cells = "nat \<Rightarrow> u32"

record dpu =
  mram :: cells
  wram_cells :: cells

definition mram_read :: "cells \<Rightarrow> nat \<Rightarrow> nat \<Rightarrow> u32 list" where
  "mram_read m a n = map (\<lambda>i. m (2 * (a div 8) + i)) [0..<2 * (n div 8)]"

definition mram_write :: "u32 list \<Rightarrow> nat \<Rightarrow> nat \<Rightarrow> cells \<Rightarrow> cells" where
  "mram_write xs a n m =
     (\<lambda>j. let b = 2 * (a div 8) in if b \<le> j \<and> j < b + 2 * (n div 8) then xs ! (j - b) else m j)"

text \<open>Loads and stores of words in WRAM, and \<open>memcpy\<close> of whole words.\<close>

definition wram_load :: "cells \<Rightarrow> nat \<Rightarrow> nat \<Rightarrow> u32 list" where
  "wram_load m a n = map (\<lambda>i. m (a div 4 + i)) [0..<n div 4]"

definition wram_store :: "u32 list \<Rightarrow> nat \<Rightarrow> nat \<Rightarrow> cells \<Rightarrow> cells" where
  "wram_store xs a n m =
     (\<lambda>j. let b = a div 4 in if b \<le> j \<and> j < b + n div 4 then xs ! (j - b) else m j)"

section \<open>Tagged pointers\<close>

type_synonym t_ptr_32 = u32

definition PTR_32_IS_MRAM :: "t_ptr_32 \<Rightarrow> bool" where
  "PTR_32_IS_MRAM ptr \<longleftrightarrow> drop_bit 31 ptr AND 1 = 1"

definition PTR_32_MRAM :: "t_ptr_32 \<Rightarrow> nat" where
  "PTR_32_MRAM ptr = unat (ptr AND NOT 0x80000000)"

definition PTR_32_of_wram :: "nat \<Rightarrow> t_ptr_32" where
  "PTR_32_of_wram a = of_nat a"

definition PTR_32_of_mram :: "nat \<Rightarrow> t_ptr_32" where
  "PTR_32_of_mram a = of_nat a OR push_bit 31 1"

definition ptr_32_read :: "t_ptr_32 \<Rightarrow> nat \<Rightarrow> dpu \<Rightarrow> u32 list" where
  "ptr_32_read src sz s =
     (if PTR_32_IS_MRAM src then mram_read (mram s) (PTR_32_MRAM src) sz
      else wram_load (wram_cells s) (unat src) sz)"

definition ptr_32_write :: "u32 list \<Rightarrow> t_ptr_32 \<Rightarrow> nat \<Rightarrow> dpu \<Rightarrow> dpu" where
  "ptr_32_write src tgt sz s =
     (if PTR_32_IS_MRAM tgt then s\<lparr>mram := mram_write src (PTR_32_MRAM tgt) sz (mram s)\<rparr>
      else s\<lparr>wram_cells := wram_store src (unat tgt) sz (wram_cells s)\<rparr>)"

lemma drop_bit_31_and_1: "drop_bit 31 (p :: u32) AND 1 = 1 \<longleftrightarrow> bit p 31"
proof -
  have "drop_bit 31 p AND 1 = of_bool (bit p 31)"
    by (simp add: and_one_eq bit_iff_odd_drop_bit odd_iff_mod_2_eq_one)
  then show ?thesis by simp
qed

text \<open>Addresses below \<open>2 ^ 31\<close> survive both tags, and pointer arithmetic stays in its memory.\<close>

lemma low_address:
  assumes "a < 2 ^ 31"
  shows "unat (of_nat a :: u32) = a" "\<not> bit (of_nat a :: u32) 31"
proof -
  show u: "unat (of_nat a :: u32) = a"
    using assms by (simp add: unat_of_nat take_bit_nat_eq_self)
  have "bit (of_nat a :: u32) 31 = bit a 31" by (simp add: bit_simps)
  then show "\<not> bit (of_nat a :: u32) 31"
    using assms by (simp add: bit_iff_odd div_less)
qed

lemma bit_tag_31: "bit (push_bit 31 1 :: u32) n \<longleftrightarrow> n = 31"
  by (subst bit_push_bit_iff) (auto simp: bit_1_iff)

lemma tag_bit_31:
  fixes p :: u32
  assumes "\<not> bit p 31"
  shows "p AND push_bit 31 1 = 0" "(p OR push_bit 31 1) AND NOT (push_bit 31 1) = p"
proof -
  show "p AND push_bit 31 1 = 0"
    by (rule bit_eqI) (use assms in \<open>simp only: bit_and_iff bit_tag_31, auto\<close>)
  have "bit ((p OR push_bit 31 1) AND NOT (push_bit 31 1)) n = bit p n" if "n < 32" for n
    by (simp only: bit_and_iff bit_or_iff bit_not_iff bit_tag_31) (use assms that in auto)
  then show "(p OR push_bit 31 1) AND NOT (push_bit 31 1) = p"
    by (intro bit_eqI) simp_all
qed

lemma PTR_32_of_mram_eq:
  assumes "a < 2 ^ 31"
  shows "PTR_32_of_mram a = of_nat (2 ^ 31 + a)"
proof -
  have "PTR_32_of_mram a = of_nat a + push_bit 31 1"
    unfolding PTR_32_of_mram_def
    by (rule disjunctive_add_eq_or [OF tag_bit_31(1), symmetric]) (rule low_address(2) [OF assms])
  then show ?thesis by (simp add: push_bit_eq_mult)
qed

lemma PTR_32_of_mram_add [simp]:
  "a + n < 2 ^ 31 \<Longrightarrow> PTR_32_of_mram a + of_nat n = PTR_32_of_mram (a + n)"
  by (simp add: PTR_32_of_mram_eq)

lemma PTR_32_of_wram_add [simp]: "PTR_32_of_wram a + of_nat n = PTR_32_of_wram (a + n)"
  by (simp add: PTR_32_of_wram_def)

lemma PTR_32_mram [simp]:
  assumes "a < 2 ^ 31"
  shows "PTR_32_IS_MRAM (PTR_32_of_mram a)" "PTR_32_MRAM (PTR_32_of_mram a) = a"
proof -
  have c: "(0x80000000 :: u32) = push_bit 31 1" by simp
  show "PTR_32_IS_MRAM (PTR_32_of_mram a)"
    by (simp add: PTR_32_IS_MRAM_def drop_bit_31_and_1 PTR_32_of_mram_def bit_or_iff bit_tag_31)
  have "PTR_32_of_mram a AND NOT 0x80000000 = of_nat a"
    unfolding c PTR_32_of_mram_def by (rule tag_bit_31(2) [OF low_address(2) [OF assms]])
  then show "PTR_32_MRAM (PTR_32_of_mram a) = a"
    unfolding PTR_32_MRAM_def using low_address(1) [OF assms] by simp
qed

lemma PTR_32_wram [simp]:
  assumes "a < 2 ^ 31"
  shows "\<not> PTR_32_IS_MRAM (PTR_32_of_wram a)" "unat (PTR_32_of_wram a) = a"
  using low_address [OF assms] by (simp_all add: PTR_32_IS_MRAM_def drop_bit_31_and_1 PTR_32_of_wram_def)

section \<open>What generic code may rely on\<close>

text \<open>
  A buffer memory: \<open>cell\<close> reads a word, \<open>rd\<close> and \<open>wr\<close> move runs of bytes whose address and
  size are multiples of eight, within an address limit.
\<close>

locale word_buffer =
  fixes cell :: "'m \<Rightarrow> nat \<Rightarrow> u32"
    and rd :: "nat \<Rightarrow> nat \<Rightarrow> 'm \<Rightarrow> u32 list"
    and wr :: "u32 list \<Rightarrow> nat \<Rightarrow> nat \<Rightarrow> 'm \<Rightarrow> 'm"
    and lim :: nat
  assumes rd_cells: "a mod 8 = 0 \<Longrightarrow> n mod 8 = 0 \<Longrightarrow> a + n \<le> lim \<Longrightarrow>
      rd a n m = map (\<lambda>i. cell m (a div 4 + i)) [0..<n div 4]"
    and wr_cells: "a mod 8 = 0 \<Longrightarrow> n mod 8 = 0 \<Longrightarrow> a + n \<le> lim \<Longrightarrow>
      cell (wr xs a n m) j = (if a div 4 \<le> j \<and> j < a div 4 + n div 4 then xs ! (j - a div 4) else cell m j)"
begin

lemma length_rd: "a mod 8 = 0 \<Longrightarrow> n mod 8 = 0 \<Longrightarrow> a + n \<le> lim \<Longrightarrow> length (rd a n m) = n div 4"
  by (simp add: rd_cells)

lemma nth_rd:
  "a mod 8 = 0 \<Longrightarrow> n mod 8 = 0 \<Longrightarrow> a + n \<le> lim \<Longrightarrow> i < n div 4 \<Longrightarrow> rd a n m ! i = cell m (a div 4 + i)"
  by (simp add: rd_cells)

text \<open>Reading back what was written, and reading elsewhere.\<close>

lemma rd_wr_same:
  assumes "a mod 8 = 0" "n mod 8 = 0" "a + n \<le> lim" "length xs = n div 4"
  shows "rd a n (wr xs a n m) = xs"
  using assms by (intro nth_equalityI) (simp_all add: length_rd nth_rd wr_cells)

lemma rd_wr_other:
  assumes "a mod 8 = 0" "n mod 8 = 0" "a + n \<le> lim" "b mod 8 = 0" "k mod 8 = 0" "b + k \<le> lim"
    and sep: "a + n \<le> b \<or> b + k \<le> a"
  shows "rd b k (wr xs a n m) = rd b k m"
proof (rule nth_equalityI)
  fix i
  assume "i < length (rd b k (wr xs a n m))"
  then have i: "i < k div 4" using assms by (simp add: length_rd)
  have "\<not> (a div 4 \<le> b div 4 + i \<and> b div 4 + i < a div 4 + n div 4)"
  proof -
    obtain a' b' k' n' where "a = 8 * a'" "b = 8 * b'" "k = 8 * k'" "n = 8 * n'"
      using assms by (auto simp: mod_eq_0_iff_dvd dvd_def)
    then show ?thesis using i sep by auto
  qed
  then have "cell (wr xs a n m) (b div 4 + i) = cell m (b div 4 + i)"
    using assms(1-3) by (simp only: wr_cells if_False)
  then show "rd b k (wr xs a n m) ! i = rd b k m ! i"
    using assms i by (simp add: nth_rd)
qed (use assms in \<open>simp add: length_rd\<close>)

end

lemma dma_index: "a mod 8 = 0 \<Longrightarrow> 2 * (a div 8) = (a :: nat) div 4"
  by presburger

interpretation mram_dma: word_buffer "\<lambda>m. m" "\<lambda>a n m. mram_read m a n" mram_write N for N
  by unfold_locales (simp_all add: mram_read_def mram_write_def Let_def dma_index)

interpretation wram_copy: word_buffer "\<lambda>m. m" "\<lambda>a n m. wram_load m a n" wram_store N for N
  by unfold_locales (simp_all add: wram_load_def wram_store_def Let_def)

interpretation tagged_mram: word_buffer mram
  "\<lambda>a n s. ptr_32_read (PTR_32_of_mram a) n s" "\<lambda>xs a n s. ptr_32_write xs (PTR_32_of_mram a) n s" "2 ^ 31 - 1"
  by unfold_locales
    (simp_all add: ptr_32_read_def ptr_32_write_def mram_dma.rd_cells [of _ _ "2 ^ 31 - 1"]
      mram_dma.wr_cells [of _ _ "2 ^ 31 - 1"])

interpretation tagged_wram: word_buffer wram_cells
  "\<lambda>a n s. ptr_32_read (PTR_32_of_wram a) n s" "\<lambda>xs a n s. ptr_32_write xs (PTR_32_of_wram a) n s" "2 ^ 31 - 1"
  by unfold_locales
    (simp_all add: ptr_32_read_def ptr_32_write_def wram_copy.rd_cells [of _ _ "2 ^ 31 - 1"]
      wram_copy.wr_cells [of _ _ "2 ^ 31 - 1"])

end
