(* ===== verification/IV_Counter.thy ===== *)
theory IV_Counter imports MC_Prelude
begin

text \<open>
  The global IV counter: the first-stage loader's \<^verbatim>\<open>main\<close> (\<^verbatim>\<open>src/src/fsl/main.c\<close>) derives a
  start value from the index of the DPU, \<^verbatim>\<open>install_keys\<close> (\<^verbatim>\<open>src/src/fsl/boot.S\<close>) leaves it
  in the registers of thread 23, and the trusted loader's \<^verbatim>\<open>core_on_counter\<close>
  (\<^verbatim>\<open>src/src/core/core.s\<close>) steps it once per request. The IV of a message is the counter's
  low 96 bits.
\<close>

unbundle bit_operations_syntax

section \<open>The code\<close>

text \<open>The two faults the trusted loader raises; a result is \<open>Inl\<close> the fault or \<open>Inr\<close> a value.\<close>

datatype ime_fault = ime_sec_fault | ime_sanity_fault

definition dpu_index_seed :: "u32 \<Rightarrow> u32" where
  "dpu_index_seed dpu_index = ((push_bit 1 dpu_index) AND 0xFFFE) OR 1"

definition on_thread_23 :: "u32 \<Rightarrow> u32 list" where
  "on_thread_23 dpu_index = [dpu_index, 0, 0, 0]"

text \<open>
  The counter thread: four words, an increment of the 112-bit part above the DPU's sixteen
  bits, and a fault when the carry leaves the fourth word.
\<close>

definition core_on_ctr_thread :: "u32 list \<Rightarrow> ime_fault + u32 list" where
  "core_on_ctr_thread r =
     (let s = addc_chain False r [0x10000, 0, 0, 0]
      in if snd s then Inl ime_sec_fault else Inr (fst s))"

text \<open>
  The request: only thread 0 may make one, and it gets the registers that the counter
  thread leaves in the I/O page. The result is the counter's new value and the words stored
  in the caller's buffer.
\<close>

definition core_on_counter :: "nat \<Rightarrow> u32 list \<Rightarrow> ime_fault + (u32 list \<times> u32 list)" where
  "core_on_counter me r =
     (if me \<noteq> 0 then Inl ime_sanity_fault
      else case core_on_ctr_thread r of
             Inl f \<Rightarrow> Inl f
           | Inr r' \<Rightarrow> Inr (r', r'))"

text \<open>The outputs of a run of \<open>n\<close> requests of thread 0.\<close>

fun counter_run :: "nat \<Rightarrow> u32 list \<Rightarrow> ime_fault + (u32 list \<times> u32 list list)" where
  "counter_run 0 r = Inr (r, [])"
| "counter_run (Suc n) r =
     (case counter_run n r of
        Inl f \<Rightarrow> Inl f
      | Inr (r', outs) \<Rightarrow>
          (case core_on_counter 0 r' of
             Inl f \<Rightarrow> Inl f
           | Inr (r'', out) \<Rightarrow> Inr (r'', outs @ [out])))"

definition iv_of :: "u32 list \<Rightarrow> u32 list" where
  "iv_of out = take 3 out"

section \<open>Lemmas\<close>

lemma core_on_ctr_thread_value:
  assumes "length r = 4"
  shows "core_on_ctr_thread r =
    (if val32 r + 2 ^ 16 < 2 ^ 128 then Inr (fst (addc_chain False r [0x10000, 0, 0, 0]))
     else Inl ime_sec_fault)"
    and "val32 r + 2 ^ 16 < 2 ^ 128 \<Longrightarrow> val32 (fst (addc_chain False r [0x10000, 0, 0, 0])) = val32 r + 2 ^ 16"
    and "length (fst (addc_chain False r [0x10000, 0, 0, 0])) = 4"
proof -
  let ?s = "addc_chain False r [0x10000, 0, 0, 0]"
  have v: "val32 (fst ?s) + 2 ^ (32 * length r) * of_bool (snd ?s) = val32 r + val32 [0x10000, 0, 0, 0]"
    using addc_chain_value [of r "[0x10000, 0, 0, 0]" False] assms by simp
  show l: "length (fst ?s) = 4" using assms by simp
  have b: "val32 (fst ?s) < 2 ^ 128" using val32_bound [of "fst ?s"] l by simp
  show "core_on_ctr_thread r = (if val32 r + 2 ^ 16 < 2 ^ 128 then Inr (fst ?s) else Inl ime_sec_fault)"
    using v b assms by (auto simp: core_on_ctr_thread_def Let_def)
  show "val32 (fst ?s) = val32 r + 2 ^ 16" if "val32 r + 2 ^ 16 < 2 ^ 128"
    using v b assms that by (cases "snd ?s") auto
qed

lemma unat_dpu_index_seed: "unat (dpu_index_seed d) = 2 * (unat d mod 2 ^ 15) + 1"
proof -
  have "dpu_index_seed d = push_bit 1 (take_bit 15 d) + 1"
  proof -
    have "dpu_index_seed d = push_bit 1 (take_bit 15 d) OR 1"
      unfolding dpu_index_seed_def
    proof (rule bit_word_eqI)
      fix n
      have m: "(0xFFFE :: u32) = push_bit 1 (mask 15)" by (simp add: mask_eq_exp_minus_1)
      show "bit (push_bit 1 d AND 0xFFFE OR 1) n = bit (push_bit 1 (take_bit 15 d) OR 1) n"
        unfolding m by (auto simp only: bit_or_iff bit_and_iff bit_push_bit_iff bit_mask_iff bit_take_bit_iff bit_1_iff possible_bit_word)
    qed
    also have "\<dots> = push_bit 1 (take_bit 15 d) + 1"
      by (rule disjunctive_add_eq_or [symmetric], rule bit_word_eqI)
        (simp only: bit_and_iff bit_push_bit_iff bit_1_iff, auto)
    finally show ?thesis .
  qed
  moreover have "unat (take_bit 15 d) = take_bit 15 (unat d)" by (rule unsigned_take_bit_eq)
  then have "unat (take_bit 15 d) = unat d mod 2 ^ 15"
    by (simp only: take_bit_eq_mod)
  moreover have "unat d mod 2 ^ 15 < 2 ^ 15" by simp
  moreover have "take_bit 15 d = of_nat (unat d mod 2 ^ 15)"
    using calculation(2) by (metis of_nat_unat ucast_id)
  ultimately have "unat (dpu_index_seed d) = unat (of_nat (2 * (unat d mod 2 ^ 15) + 1) :: u32)"
    by (simp only: push_bit_eq_mult of_nat_add of_nat_mult) (simp add: mult.commute)
  also have "\<dots> = 2 * (unat d mod 2 ^ 15) + 1"
    using \<open>unat d mod 2 ^ 15 < 2 ^ 15\<close> by (simp only: unat_of_nat) (simp add: take_bit_nat_eq_self)
  finally show ?thesis .
qed

lemma counter_run_value:
  "length r = 4 \<Longrightarrow> val32 r + n * 2 ^ 16 < 2 ^ 128 \<Longrightarrow>
   \<exists>r' outs. counter_run n r = Inr (r', outs) \<and> length r' = 4 \<and> val32 r' = val32 r + n * 2 ^ 16
     \<and> length outs = n
     \<and> (\<forall>i < n. length (outs ! i) = 4 \<and> val32 (outs ! i) = val32 r + Suc i * 2 ^ 16)"
proof (induction n)
  case (Suc n)
  then obtain r' outs where IH: "counter_run n r = Inr (r', outs)" "length r' = 4"
    "val32 r' = val32 r + n * 2 ^ 16" "length outs = n"
    "\<And>i. i < n \<Longrightarrow> length (outs ! i) = 4 \<and> val32 (outs ! i) = val32 r + Suc i * 2 ^ 16"
    by force
  have lt: "val32 r' + 2 ^ 16 < 2 ^ 128" using IH(3) Suc.prems(2) by simp
  note st = core_on_ctr_thread_value [OF IH(2)]
  let ?r = "fst (addc_chain False r' [0x10000, 0, 0, 0])"
  have "counter_run (Suc n) r = Inr (?r, outs @ [?r])"
    using lt by (simp add: IH(1) core_on_counter_def st(1))
  moreover have "val32 ?r = val32 r + Suc n * 2 ^ 16"
    using st(2) [OF lt] IH(3) by simp
  ultimately show ?case
    using IH(4,5) st(3) by (intro exI [of _ ?r] exI [of _ "outs @ [?r]"]) (auto simp: nth_append less_Suc_eq)
qed simp

lemma val32_take: "val32 (take k xs) = val32 xs mod 2 ^ (32 * k)"
proof (cases "k \<le> length xs")
  case True
  have "val32 xs = val32 (take k xs) + 2 ^ (32 * length (take k xs)) * val32 (drop k xs)"
    by (metis append_take_drop_id val32_append)
  moreover have "val32 (take k xs) < 2 ^ (32 * k)"
    using val32_bound [of "take k xs"] True by simp
  ultimately show ?thesis using True by simp
next
  case False
  have "val32 xs < 2 ^ (32 * length xs)" by (rule val32_bound)
  also have "\<dots> \<le> 2 ^ (32 * k)" using False by (intro power_increasing) auto
  finally show ?thesis using False by simp
qed

text \<open>The messages' IVs on the DPU of a given index, in order.\<close>

definition counter_outs :: "u32 \<Rightarrow> nat \<Rightarrow> u32 list list" where
  "counter_outs dpu_index n =
     (case counter_run n (on_thread_23 (dpu_index_seed dpu_index)) of
        Inl f \<Rightarrow> [] | Inr (r, outs) \<Rightarrow> outs)"

lemma counter_outs_value:
  assumes "n \<le> 2 ^ 80" "i < n"
  shows "length (counter_outs d n) = n" "length (counter_outs d n ! i) = 4"
    "val32 (iv_of (counter_outs d n ! i)) = unat (dpu_index_seed d) + 2 ^ 16 * (Suc i mod 2 ^ 80)"
proof -
  let ?r = "on_thread_23 (dpu_index_seed d)"
  have s: "unat (dpu_index_seed d) < 2 ^ 16"
    using mod_less_divisor [of "2 ^ 15" "unat d"] unfolding unat_dpu_index_seed by simp
  have v: "val32 ?r = unat (dpu_index_seed d)" by (simp add: on_thread_23_def)
  have "length ?r = 4" "val32 ?r + n * 2 ^ 16 < 2 ^ 128"
    using s assms by (simp_all add: v on_thread_23_def)
  from counter_run_value [OF this] obtain r' outs where
    c: "counter_run n ?r = Inr (r', outs)" "length outs = n"
      "length (outs ! i) = 4" "val32 (outs ! i) = val32 ?r + Suc i * 2 ^ 16"
    using assms by blast
  then show "length (counter_outs d n) = n" "length (counter_outs d n ! i) = 4"
    by (simp_all add: counter_outs_def)
  have "val32 (iv_of (counter_outs d n ! i)) = (unat (dpu_index_seed d) + Suc i * 2 ^ 16) mod 2 ^ 96"
    using c by (simp add: counter_outs_def iv_of_def val32_take v)
  also have "\<dots> = unat (dpu_index_seed d) + 2 ^ 16 * (Suc i mod 2 ^ 80)"
  proof -
    let ?s = "unat (dpu_index_seed d)"
    have "(2 :: nat) ^ 96 = 2 ^ 16 * 2 ^ 80" by simp
    moreover have "(?s + Suc i * 2 ^ 16) mod (2 ^ 16 * 2 ^ 80) = ?s + 2 ^ 16 * (Suc i mod 2 ^ 80)"
    proof -
      have "(?s + Suc i * 2 ^ 16) mod 2 ^ 16 = ?s" using s by (simp only: mod_mult_self1 mod_less)
      moreover have "(?s + Suc i * 2 ^ 16) div 2 ^ 16 = Suc i"
        using s by (subst div_mult_self1) (simp_all add: div_less)
      ultimately show ?thesis by (simp only: mod_mult2_eq add.commute)
    qed
    ultimately show ?thesis by (simp only:)
  qed
  finally show "val32 (iv_of (counter_outs d n ! i)) = unat (dpu_index_seed d) + 2 ^ 16 * (Suc i mod 2 ^ 80)" .
qed

section \<open>Properties\<close>

text \<open>
  A request on thread 0 advances the 128-bit counter by \<open>2 ^ 16\<close> and hands out the new value;
  at the end of its range it faults instead of wrapping round, and any other thread faults.
\<close>

lemma core_on_counter_step:
  assumes "length r = 4"
  shows "core_on_counter me r =
    (if me \<noteq> 0 then Inl ime_sanity_fault
     else if 2 ^ 128 \<le> val32 r + 2 ^ 16 then Inl ime_sec_fault
     else Inr (fst (addc_chain False r [0x10000, 0, 0, 0]), fst (addc_chain False r [0x10000, 0, 0, 0])))
    \<and> (val32 r + 2 ^ 16 < 2 ^ 128 \<longrightarrow> val32 (fst (addc_chain False r [0x10000, 0, 0, 0])) = val32 r + 2 ^ 16)"
  using core_on_ctr_thread_value [OF assms] by (auto simp: core_on_counter_def)

lemma core_on_counter_step_witness:
  "core_on_counter 0 [0xFFFF0003, 0xFFFFFFFF, 0xFFFFFFFF, 0xFFFFFFFF] = Inl ime_sec_fault"
  using core_on_counter_step [of "[0xFFFF0003, 0xFFFFFFFF, 0xFFFFFFFF, 0xFFFFFFFF]" 0] by simp

text \<open>
  C6: No IV repeats: among the first \<open>2 ^ 80\<close> requests on any two DPUs whose indices differ in their
  low fifteen bits, and on one DPU among requests of different positions, the 96-bit IVs are
  distinct; their first word is odd, so none is an IV that a guest chooses with that bit clear.
\<close>

theorem counter_ivs_unique:
  assumes "n \<le> 2 ^ 80" "i < n" "j < n" "unat d mod 2 ^ 15 \<noteq> unat e mod 2 ^ 15 \<or> i \<noteq> j"
  shows "iv_of (counter_outs d n ! i) \<noteq> iv_of (counter_outs e n ! j) \<and> odd (iv_of (counter_outs d n ! i) ! 0)"
proof
  let ?s = "\<lambda>d. unat (dpu_index_seed d)"
  have lt: "?s d < 2 ^ 16" for d
    using mod_less_divisor [of "2 ^ 15" "unat d"] unfolding unat_dpu_index_seed by simp
  note v = counter_outs_value [OF assms(1)]
  show "iv_of (counter_outs d n ! i) \<noteq> iv_of (counter_outs e n ! j)"
  proof
    assume "iv_of (counter_outs d n ! i) = iv_of (counter_outs e n ! j)"
    then have eq: "?s d + 2 ^ 16 * (Suc i mod 2 ^ 80) = ?s e + 2 ^ 16 * (Suc j mod 2 ^ 80)"
      using v(3) [OF assms(2), of d] v(3) [OF assms(3), of e] by simp
    have "?s d = ?s e"
      using arg_cong [OF eq, of "\<lambda>x. x mod 2 ^ 16"] lt by (simp add: mod_add_eq [symmetric])
    moreover have "Suc i mod 2 ^ 80 = Suc j mod 2 ^ 80" using eq \<open>?s d = ?s e\<close> by simp
    then have "i = j"
      using assms(1-3) by (auto simp: mod_if split: if_splits)
    ultimately show False using assms(4) by (simp add: unat_dpu_index_seed)
  qed
  have l: "length (counter_outs d n ! i) = 4" using v(2) [OF assms(2)] .
  then obtain x xs where x: "counter_outs d n ! i = x # xs" by (cases "counter_outs d n ! i") auto
  have "odd (val32 (iv_of (counter_outs d n ! i)))"
    unfolding v(3) [OF assms(2)] unat_dpu_index_seed by simp
  then have "odd (unat x)" by (simp add: x iv_of_def numeral_3_eq_3)
  then show "odd (iv_of (counter_outs d n ! i) ! 0)"
    by (simp add: x iv_of_def numeral_3_eq_3 bit_0 [symmetric] bit_unsigned_iff)
qed

theorem counter_ivs_unique_witness:
  "iv_of (counter_outs 3 8 ! 2) \<noteq> iv_of (counter_outs 4 8 ! 2) \<and> odd (iv_of (counter_outs 3 8 ! 2) ! 0)"
  by (rule counter_ivs_unique) simp_all

end
