(* ===== verification/IME_AEAD.thy ===== *)
theory IME_AEAD imports ChaCha20 Poly1305 DPU_Memory IV_Counter
begin

text \<open>
  The runtime library's ChaCha20 and ChaCha20-Poly1305 operations of
  \<^verbatim>\<open>src/src/ime-rt/aead.c\<close> on buffers in MRAM or WRAM. Sizes and addresses are natural numbers
  (buffers lie in 64 MiB of MRAM or 64 KiB of WRAM), words and block counters are words. The
  caller's tag and IV buffers are arguments and results.
\<close>

unbundle bit_operations_syntax

section \<open>The code\<close>

text \<open>
  The stream cipher: \<open>tmp\<close> is the local buffer, of which only the first \<open>sz\<close> bytes are read in
  and written out (its initial contents never leave the function).
\<close>

definition ime_chacha_crypt ::
  "chacha_key \<Rightarrow> u32 list \<Rightarrow> nat \<Rightarrow> nat \<Rightarrow> t_ptr_32 \<Rightarrow> t_ptr_32 \<Rightarrow> dpu \<Rightarrow> dpu" where
  "ime_chacha_crypt key iv stride len buf out_buf s =
     snd (for_stride stride 0 ((len + 63) div 64)
       (\<lambda>i (tmp, s).
          let sz = len - i * 16;
              sz = (if sz < 64 then sz else 64);
              rd = ptr_32_read (buf + of_nat (64 * i)) sz s;
              tmp = rd @ drop (length rd) tmp;
              block = ime_chacha_blk key (of_nat i + 1) (iv ! 0) (iv ! 1) (iv ! 2);
              tmp = map2 (XOR) tmp block
          in (tmp, ptr_32_write tmp (out_buf + of_nat (64 * i)) sz s))
       (replicate 16 0, s))"

definition ime_poly_simple ::
  "chacha_key \<Rightarrow> u32 list \<Rightarrow> nat \<Rightarrow> t_ptr_32 \<Rightarrow> dpu \<Rightarrow> u32 list" where
  "ime_poly_simple key iv len buf s =
     (let block = ime_chacha_blk key 0 (iv ! 0) (iv ! 1) (iv ! 2);
          ctx = poly_init block;
          ctx = for_stride 1 0 (len div 16)
                  (\<lambda>i ctx. poly_feed_block ctx (ptr_32_read (buf + of_nat (16 * i)) 16 s)) ctx;
          ctx = poly_feed_block ctx [0, 0, of_nat len, 0]
      in fst (poly_finalize ctx))"

text \<open>The IV to use: the caller's, or the next value of the global counter.\<close>

definition ime_choose_iv :: "nat \<Rightarrow> u32 list option \<Rightarrow> u32 list \<Rightarrow> ime_fault + (u32 list \<times> u32 list)" where
  "ime_choose_iv me p_iv ctr =
     (case p_iv of
        Some iv \<Rightarrow> Inr (iv, ctr)
      | None \<Rightarrow> (case core_on_counter me ctr of
                    Inl f \<Rightarrow> Inl f
                  | Inr (ctr, iv_buf) \<Rightarrow> Inr (iv_buf, ctr)))"

text \<open>
  Encryption: new memory, new counter, tag and the IV used; \<open>out_iv\<close> receives the first three
  words when it is not null.
\<close>

definition ime_aead_enc_gen ::
  "nat \<Rightarrow> chacha_key \<Rightarrow> u32 list option \<Rightarrow> nat \<Rightarrow> t_ptr_32 \<Rightarrow> t_ptr_32 \<Rightarrow> dpu \<Rightarrow> u32 list
     \<Rightarrow> ime_fault + (dpu \<times> u32 list \<times> u32 list \<times> u32 list)" where
  "ime_aead_enc_gen me key p_iv len buf out_buf s ctr =
     (case ime_choose_iv me p_iv ctr of
        Inl f \<Rightarrow> Inl f
      | Inr (iv, ctr) \<Rightarrow>
          let s = ime_chacha_crypt key iv 1 len buf out_buf s;
              out_tag = ime_poly_simple key iv len out_buf s
          in Inr (s, ctr, out_tag, [iv ! 0, iv ! 1, iv ! 2]))"

definition ime_aead_dec_gen ::
  "chacha_key \<Rightarrow> u32 list \<Rightarrow> u32 list \<Rightarrow> nat \<Rightarrow> t_ptr_32 \<Rightarrow> t_ptr_32 \<Rightarrow> dpu \<Rightarrow> bool \<times> dpu" where
  "ime_aead_dec_gen key iv tag len buf out_buf s =
     (let computed_tag = ime_poly_simple key iv len buf s;
          valid = for_stride 1 0 4 (\<lambda>i valid. valid \<and> computed_tag ! i = tag ! i) True
      in if \<not> valid then (False, s)
         else (True, ime_chacha_crypt key iv 1 len buf out_buf s))"

definition ime_aead_enc ::
  "nat \<Rightarrow> chacha_key \<Rightarrow> u32 list option \<Rightarrow> nat \<Rightarrow> nat \<Rightarrow> nat \<Rightarrow> dpu \<Rightarrow> u32 list
     \<Rightarrow> ime_fault + (dpu \<times> u32 list \<times> u32 list \<times> u32 list)" where
  "ime_aead_enc me key iv len buf out_buf =
     ime_aead_enc_gen me key iv len (PTR_32_of_wram buf) (PTR_32_of_wram out_buf)"

definition ime_aead_dec ::
  "chacha_key \<Rightarrow> u32 list \<Rightarrow> u32 list \<Rightarrow> nat \<Rightarrow> nat \<Rightarrow> nat \<Rightarrow> dpu \<Rightarrow> bool \<times> dpu" where
  "ime_aead_dec key iv tag len buf out_buf =
     ime_aead_dec_gen key iv tag len (PTR_32_of_wram buf) (PTR_32_of_wram out_buf)"

definition ime_aead_enc_mram ::
  "nat \<Rightarrow> chacha_key \<Rightarrow> u32 list option \<Rightarrow> nat \<Rightarrow> nat \<Rightarrow> nat \<Rightarrow> dpu \<Rightarrow> u32 list
     \<Rightarrow> ime_fault + (dpu \<times> u32 list \<times> u32 list \<times> u32 list)" where
  "ime_aead_enc_mram me key iv len buf out_buf =
     ime_aead_enc_gen me key iv len (PTR_32_of_mram buf) (PTR_32_of_mram out_buf)"

definition ime_aead_dec_mram ::
  "chacha_key \<Rightarrow> u32 list \<Rightarrow> u32 list \<Rightarrow> nat \<Rightarrow> nat \<Rightarrow> nat \<Rightarrow> dpu \<Rightarrow> bool \<times> dpu" where
  "ime_aead_dec_mram key iv tag len buf out_buf =
     ime_aead_dec_gen key iv tag len (PTR_32_of_mram buf) (PTR_32_of_mram out_buf)"

definition ime_chacha_enc_gen ::
  "nat \<Rightarrow> chacha_key \<Rightarrow> u32 list option \<Rightarrow> nat \<Rightarrow> nat \<Rightarrow> t_ptr_32 \<Rightarrow> t_ptr_32 \<Rightarrow> dpu \<Rightarrow> u32 list
     \<Rightarrow> ime_fault + (dpu \<times> u32 list \<times> u32 list)" where
  "ime_chacha_enc_gen me key p_iv stride len buf out_buf s ctr =
     (case ime_choose_iv me p_iv ctr of
        Inl f \<Rightarrow> Inl f
      | Inr (iv, ctr) \<Rightarrow>
          Inr (ime_chacha_crypt key iv stride len buf out_buf s, ctr, [iv ! 0, iv ! 1, iv ! 2]))"

definition ime_chacha_dec_gen ::
  "chacha_key \<Rightarrow> u32 list \<Rightarrow> nat \<Rightarrow> nat \<Rightarrow> t_ptr_32 \<Rightarrow> t_ptr_32 \<Rightarrow> dpu \<Rightarrow> dpu" where
  "ime_chacha_dec_gen key iv stride len buf out_buf s = ime_chacha_crypt key iv stride len buf out_buf s"

definition ime_chacha_enc ::
  "nat \<Rightarrow> chacha_key \<Rightarrow> u32 list option \<Rightarrow> nat \<Rightarrow> nat \<Rightarrow> nat \<Rightarrow> dpu \<Rightarrow> u32 list
     \<Rightarrow> ime_fault + (dpu \<times> u32 list \<times> u32 list)" where
  "ime_chacha_enc me key iv len buf out_buf =
     ime_chacha_enc_gen me key iv 1 len (PTR_32_of_wram buf) (PTR_32_of_wram out_buf)"

definition ime_chacha_dec :: "chacha_key \<Rightarrow> u32 list \<Rightarrow> nat \<Rightarrow> nat \<Rightarrow> nat \<Rightarrow> dpu \<Rightarrow> dpu" where
  "ime_chacha_dec key iv len buf out_buf =
     ime_chacha_dec_gen key iv 1 len (PTR_32_of_wram buf) (PTR_32_of_wram out_buf)"

definition ime_chacha_enc_mram ::
  "nat \<Rightarrow> chacha_key \<Rightarrow> u32 list option \<Rightarrow> nat \<Rightarrow> nat \<Rightarrow> nat \<Rightarrow> nat \<Rightarrow> dpu \<Rightarrow> u32 list
     \<Rightarrow> ime_fault + (dpu \<times> u32 list \<times> u32 list)" where
  "ime_chacha_enc_mram me key iv stride len buf out_buf =
     ime_chacha_enc_gen me key iv stride len (PTR_32_of_mram buf) (PTR_32_of_mram out_buf)"

definition ime_chacha_dec_mram :: "chacha_key \<Rightarrow> u32 list \<Rightarrow> nat \<Rightarrow> nat \<Rightarrow> nat \<Rightarrow> nat \<Rightarrow> dpu \<Rightarrow> dpu" where
  "ime_chacha_dec_mram key iv stride len buf out_buf =
     ime_chacha_dec_gen key iv stride len (PTR_32_of_mram buf) (PTR_32_of_mram out_buf)"

section \<open>The stream cipher over any buffer memory\<close>

text \<open>One iteration of the loop, for the read and write operations of one memory.\<close>

definition crypt_step ::
  "(nat \<Rightarrow> nat \<Rightarrow> 'm \<Rightarrow> u32 list) \<Rightarrow> (u32 list \<Rightarrow> nat \<Rightarrow> nat \<Rightarrow> 'm \<Rightarrow> 'm) \<Rightarrow> (nat \<Rightarrow> u32 list)
     \<Rightarrow> nat \<Rightarrow> nat \<Rightarrow> nat \<Rightarrow> nat \<Rightarrow> u32 list \<times> 'm \<Rightarrow> u32 list \<times> 'm" where
  "crypt_step rd wr blk len a b i ts =
     (let sz = min (len - i * 16) 64;
          r = rd (a + 64 * i) sz (snd ts);
          tmp = map2 (XOR) (r @ drop (length r) (fst ts)) (blk i)
      in (tmp, wr tmp (b + 64 * i) sz (snd ts)))"

text \<open>
  The sizes for which the loop's \<open>len - i * 16\<close> is the rest of the buffer: at most one block,
  or whole blocks.
\<close>

definition crypt_size :: "nat \<Rightarrow> bool" where
  "crypt_size len \<longleftrightarrow> len mod 16 = 0 \<and> (len \<le> 64 \<or> len mod 64 = 0)"

lemma crypt_size_block:
  assumes "crypt_size len" "i < (len + 63) div 64"
  shows "min (len - i * 16) 64 = min (len - 64 * i) 64"
    "64 * i + min (len - i * 16) 64 \<le> len" "min (len - i * 16) 64 mod 8 = 0"
proof -
  have "min (len - i * 16) 64 = min (len - 64 * i) 64 \<and> 64 * i + min (len - i * 16) 64 \<le> len
    \<and> min (len - i * 16) 64 mod 8 = 0"
  proof (cases "len \<le> 64")
    case True
    then have "i = 0" using assms(2) by auto
    then show ?thesis using True assms(1) by (auto simp: crypt_size_def min_def) 
  next
    case False
    then obtain k where "len = 64 * k" using assms(1) by (auto simp: crypt_size_def)
    then have "i < k" using assms(2) by simp
    then show ?thesis using \<open>len = 64 * k\<close> by (auto simp: min_def)
  qed
  then show "min (len - i * 16) 64 = min (len - 64 * i) 64"
    "64 * i + min (len - i * 16) 64 \<le> len" "min (len - i * 16) 64 mod 8 = 0" by blast+
qed

lemma crypt_size_index:
  assumes "crypt_size len" "x < len div 4"
  shows "x div 16 < (len + 63) div 64" "x mod 16 < min (len - 64 * (x div 16)) 64 div 4"
proof -
  have "x div 16 < (len + 63) div 64 \<and> x mod 16 < min (len - 64 * (x div 16)) 64 div 4"
  proof (cases "len \<le> 64")
    case True
    then show ?thesis using assms(2) by (auto simp: min_def)
  next
    case False
    then obtain k where "len = 64 * k" using assms(1) by (auto simp: crypt_size_def)
    then have "x div 16 < k" using assms(2) by (auto simp: less_mult_imp_div_less)
    then show ?thesis using \<open>len = 64 * k\<close> by (auto simp: min_def)
  qed
  then show "x div 16 < (len + 63) div 64" "x mod 16 < min (len - 64 * (x div 16)) 64 div 4" by blast+
qed

text \<open>The words of the keystream, and a memory with the buffer's blocks \<open>is\<close> encrypted.\<close>

definition xor_words :: "(nat \<Rightarrow> u32 list) \<Rightarrow> nat set \<Rightarrow> nat \<Rightarrow> nat \<Rightarrow> nat \<Rightarrow> cells \<Rightarrow> cells" where
  "xor_words blk is len a b m j =
     (let x = j - b div 4 in
      if b div 4 \<le> j \<and> x < len div 4 \<and> x div 16 \<in> is
      then m (a div 4 + x) XOR blk (x div 16) ! (x mod 16) else m j)"

definition buffers_ok :: "nat \<Rightarrow> nat \<Rightarrow> nat \<Rightarrow> nat \<Rightarrow> bool" where
  "buffers_ok lim len a b \<longleftrightarrow> a mod 8 = 0 \<and> b mod 8 = 0 \<and> a + len \<le> lim \<and> b + len \<le> lim
     \<and> (a = b \<or> a + len \<le> b \<or> b + len \<le> a)"

context word_buffer
begin

lemma crypt_step_cells:
  assumes ok: "crypt_size len" "buffers_ok lim len a b"
    and i: "i < (len + 63) div 64" "i \<notin> is"
    and blk: "length (blk i) = 16" and tmp: "length (fst ts) = 16"
    and m: "\<And>j. cell (snd ts) j = xor_words blk is len a b m j"
  shows "length (fst (crypt_step rd wr blk len a b i ts)) = 16"
    "cell (snd (crypt_step rd wr blk len a b i ts)) j = xor_words blk (insert i is) len a b m j"
proof -
  let ?sz = "min (len - i * 16) 64"
  note sz = crypt_size_block [OF ok(1) i(1)]
  let ?r = "rd (a + 64 * i) ?sz (snd ts)"
  have a: "(a + 64 * i) mod 8 = 0" "a + 64 * i + ?sz \<le> lim"
    and b: "(b + 64 * i) mod 8 = 0" "b + 64 * i + ?sz \<le> lim"
    using ok(2) sz(2) by (auto simp: buffers_ok_def mod_add_eq [symmetric] mod_mult_left_eq [symmetric])
  have lr: "length ?r = ?sz div 4" using a sz(3) by (simp only: length_rd)
  let ?t = "map2 (XOR) (?r @ drop (length ?r) (fst ts)) (blk i)"
  show lt: "length (fst (crypt_step rd wr blk len a b i ts)) = 16"
    using blk tmp lr by (simp add: crypt_step_def Let_def)
  have d4: "(b + 64 * i) div 4 = b div 4 + 16 * i" "(a + 64 * i) div 4 = a div 4 + 16 * i"
    by simp_all
  have st: "cell (snd (crypt_step rd wr blk len a b i ts)) j
    = (if b div 4 + 16 * i \<le> j \<and> j < b div 4 + 16 * i + ?sz div 4
       then ?t ! (j - (b div 4 + 16 * i)) else cell (snd ts) j)" for j
    using b sz(3) by (simp add: crypt_step_def Let_def wr_cells d4)
  have t: "?t ! y = m (a div 4 + 16 * i + y) XOR blk i ! y" if "y < ?sz div 4" for y
  proof -
    have y: "y < 16" using that by simp
    then have "(16 * i + y) div 16 = i" by simp
    moreover have "a = b \<or> \<not> (b div 4 \<le> a div 4 + 16 * i + y \<and> a div 4 + 16 * i + y - b div 4 < len div 4)"
    proof -
      obtain a' b' where "a = 8 * a'" "b = 8 * b'"
        using ok(2) by (auto simp: buffers_ok_def mod_eq_0_iff_dvd dvd_def)
      moreover have "16 * i + y < len div 4" using that sz(2) by linarith
      ultimately show ?thesis using ok(2) by (auto simp: buffers_ok_def)
    qed
    ultimately have "cell (snd ts) (a div 4 + 16 * i + y) = m (a div 4 + 16 * i + y)"
      using i(2) unfolding m xor_words_def Let_def by (auto simp: add.assoc)
    moreover have "?r ! y = cell (snd ts) (a div 4 + 16 * i + y)"
      using nth_rd [OF a(1) sz(3) a(2) that, of "snd ts"] by (simp only: d4)
    moreover have "?t ! y = ?r ! y XOR blk i ! y"
      using that y lr tmp blk by (subst nth_map) (simp_all add: nth_append)
    ultimately show ?thesis by simp
  qed
  show "cell (snd (crypt_step rd wr blk len a b i ts)) j = xor_words blk (insert i is) len a b m j"
  proof (cases "b div 4 + 16 * i \<le> j \<and> j < b div 4 + 16 * i + ?sz div 4")
    case True
    define y where "y = j - (b div 4 + 16 * i)"
    have y: "j = b div 4 + 16 * i + y" "y < ?sz div 4" "y < 16"
    proof -
      have "?sz div 4 \<le> 16" by simp
      then show "j = b div 4 + 16 * i + y" "y < ?sz div 4" "y < 16"
        using True unfolding y_def by linarith+
    qed
    then have "16 * i + y < len div 4" "(16 * i + y) div 16 = i" "(16 * i + y) mod 16 = y" "j - b div 4 = 16 * i + y"
      using sz(2) by auto
    then show ?thesis
      using True t [OF y(2)] y(1) by (simp add: st xor_words_def Let_def add.assoc)
  next
    case False
    have "\<not> (b div 4 \<le> j \<and> j - b div 4 < len div 4 \<and> (j - b div 4) div 16 = i)"
    proof
      assume h: "b div 4 \<le> j \<and> j - b div 4 < len div 4 \<and> (j - b div 4) div 16 = i"
      define x where "x = j - b div 4"
      have x: "j = b div 4 + x" "x div 16 = i" "x < len div 4" using h by (auto simp: x_def)
      have "x mod 16 < ?sz div 4" using crypt_size_index(2) [OF ok(1) x(3)] x(2) sz(1) by simp
      moreover have "x = 16 * i + x mod 16" using x(2) mult_div_mod_eq [of 16 x] by simp
      ultimately show False using False x(1) by linarith
    qed
    then show ?thesis using False by (auto simp: st m xor_words_def Let_def)
  qed
qed

end

context word_buffer
begin

lemma crypt_fold_cells:
  assumes ok: "crypt_size len" "buffers_ok lim len a b" and blk: "\<And>i. length (blk i) = 16"
    and "distinct is" "set is \<subseteq> {..<(len + 63) div 64}" "length (fst ts) = 16"
  shows "length (fst (fold (crypt_step rd wr blk len a b) is ts)) = 16
    \<and> (\<forall>j. cell (snd (fold (crypt_step rd wr blk len a b) is ts)) j
           = xor_words blk (set is) len a b (cell (snd ts)) j)"
  using assms(4,5)
proof (induction "is" rule: rev_induct)
  case Nil
  then show ?case using assms(6) by (simp add: xor_words_def Let_def)
next
  case (snoc i ys)
  let ?u = "fold (crypt_step rd wr blk len a b) ys ts"
  have "length (fst ?u) = 16" "\<And>j. cell (snd ?u) j = xor_words blk (set ys) len a b (cell (snd ts)) j"
    and i: "i < (len + 63) div 64" "i \<notin> set ys"
    using snoc by auto
  from crypt_step_cells [OF ok i blk this(1,2)] show ?case by simp
qed

end

lemma for_stride_cong:
  "(\<And>i s. i < n \<Longrightarrow> f i s = g i s) \<Longrightarrow> 0 < step \<Longrightarrow> for_stride step b n f s = for_stride step b n g s"
  unfolding for_stride_fold by (rule fold_cong) (auto simp: set_stride_list)

definition keystream :: "chacha_key \<Rightarrow> u32 list \<Rightarrow> nat \<Rightarrow> u32 list" where
  "keystream key iv i = ime_chacha_blk key (of_nat i + 1) (iv ! 0) (iv ! 1) (iv ! 2)"

lemma ime_chacha_crypt_fold:
  assumes "\<And>i. i < (len + 63) div 64 \<Longrightarrow> P a + of_nat (64 * i) = P (a + 64 * i)"
    and "\<And>i. i < (len + 63) div 64 \<Longrightarrow> P b + of_nat (64 * i) = P (b + 64 * i)" "0 < stride"
  shows "ime_chacha_crypt key iv stride len (P a) (P b) s =
    snd (fold (crypt_step (\<lambda>a n. ptr_32_read (P a) n) (\<lambda>xs a n. ptr_32_write xs (P a) n)
           (keystream key iv) len a b) (stride_list stride 0 ((len + 63) div 64)) (replicate 16 0, s))"
  unfolding ime_chacha_crypt_def for_stride_fold [symmetric]
  by (rule arg_cong [where f = snd], rule for_stride_cong)
    (simp_all add: assms(3) assms(1,2) [simplified] crypt_step_def keystream_def Let_def min_def split: prod.split)

text \<open>The blocks a stride reaches.\<close>

lemma stride_blocks: "0 < stride \<Longrightarrow> i \<in> set (stride_list stride 0 n) \<longleftrightarrow> i < n \<and> stride dvd i"
  by (auto simp: set_stride_list dvd_def mult.commute)

lemma xor_words_blocks:
  assumes "crypt_size len"
  shows "xor_words blk {i. i < (len + 63) div 64 \<and> P i} len a b m = xor_words blk {i. P i} len a b m"
  using crypt_size_index(1) [OF assms] by (auto simp: xor_words_def Let_def fun_eq_iff)

lemma wram_unchanged:
  "PTR_32_IS_MRAM p \<Longrightarrow> wram_cells (ptr_32_write xs p n s) = wram_cells s"
  by (simp add: ptr_32_write_def)

lemma mram_unchanged:
  "\<not> PTR_32_IS_MRAM p \<Longrightarrow> mram (ptr_32_write xs p n s) = mram s"
  by (simp add: ptr_32_write_def)

lemma fold_keeps:
  "(\<And>x s. x \<in> set xs \<Longrightarrow> v (snd (f x s)) = v (snd s)) \<Longrightarrow> v (snd (fold f xs s)) = v (snd s)"
  by (induction xs arbitrary: s) auto

lemma length_keystream [simp]: "length (key_words key) = 8 \<Longrightarrow> length (keystream key iv i) = 16"
  by (simp add: keystream_def)

lemma block_lt: "i < (len + 63) div 64 \<Longrightarrow> 64 * i < (len :: nat)"
  by linarith

lemma ime_chacha_crypt_mram:
  assumes "crypt_size len" "buffers_ok (2 ^ 31 - 1) len a b" "length (key_words key) = 8" "0 < stride"
  shows "ime_chacha_crypt key iv stride len (PTR_32_of_mram a) (PTR_32_of_mram b) s
    = s\<lparr>mram := xor_words (keystream key iv) {i. stride dvd i} len a b (mram s)\<rparr>"
proof -
  let ?is = "stride_list stride 0 ((len + 63) div 64)"
  let ?st = "crypt_step (\<lambda>a n. ptr_32_read (PTR_32_of_mram a) n) (\<lambda>xs a n. ptr_32_write xs (PTR_32_of_mram a) n)
           (keystream key iv) len a b"
  have bnd: "a + 64 * i < 2 ^ 31" "b + 64 * i < 2 ^ 31" if "i < (len + 63) div 64" for i
    using block_lt [OF that] assms(2) by (auto simp: buffers_ok_def)
  have eq: "ime_chacha_crypt key iv stride len (PTR_32_of_mram a) (PTR_32_of_mram b) s
    = snd (fold ?st ?is (replicate 16 0, s))"
    by (rule ime_chacha_crypt_fold) (simp_all only: assms bnd PTR_32_of_mram_add)
  have idx: "set ?is = {i. i < (len + 63) div 64 \<and> stride dvd i}"
    using stride_blocks [OF assms(4)] by blast
  have "mram (snd (fold ?st ?is (replicate 16 0, s))) = xor_words (keystream key iv) (set ?is) len a b (mram s)"
    using tagged_mram.crypt_fold_cells [OF assms(1,2), of "keystream key iv" ?is "(replicate 16 0, s)"] assms(3)
    by (auto simp: fun_eq_iff distinct_stride_list idx)
  moreover have "wram_cells (snd (fold ?st ?is (replicate 16 0, s))) = wram_cells (snd (replicate 16 (0 :: u32), s))"
    by (rule fold_keeps) (use bnd idx in \<open>auto simp: crypt_step_def Let_def wram_unchanged\<close>)
  ultimately show ?thesis
    unfolding eq idx xor_words_blocks [OF assms(1)] by (simp add: dpu.equality)
qed

lemma ime_chacha_crypt_wram:
  assumes "crypt_size len" "buffers_ok (2 ^ 31 - 1) len a b" "length (key_words key) = 8" "0 < stride"
  shows "ime_chacha_crypt key iv stride len (PTR_32_of_wram a) (PTR_32_of_wram b) s
    = s\<lparr>wram_cells := xor_words (keystream key iv) {i. stride dvd i} len a b (wram_cells s)\<rparr>"
proof -
  let ?is = "stride_list stride 0 ((len + 63) div 64)"
  let ?st = "crypt_step (\<lambda>a n. ptr_32_read (PTR_32_of_wram a) n) (\<lambda>xs a n. ptr_32_write xs (PTR_32_of_wram a) n)
           (keystream key iv) len a b"
  have bnd: "b + 64 * i < 2 ^ 31" if "i < (len + 63) div 64" for i
    using block_lt [OF that] assms(2) by (auto simp: buffers_ok_def)
  have eq: "ime_chacha_crypt key iv stride len (PTR_32_of_wram a) (PTR_32_of_wram b) s
    = snd (fold ?st ?is (replicate 16 0, s))"
    by (rule ime_chacha_crypt_fold) (simp_all only: assms PTR_32_of_wram_add)
  have idx: "set ?is = {i. i < (len + 63) div 64 \<and> stride dvd i}"
    using stride_blocks [OF assms(4)] by blast
  have "wram_cells (snd (fold ?st ?is (replicate 16 0, s))) = xor_words (keystream key iv) (set ?is) len a b (wram_cells s)"
    using tagged_wram.crypt_fold_cells [OF assms(1,2), of "keystream key iv" ?is "(replicate 16 0, s)"] assms(3)
    by (auto simp: fun_eq_iff distinct_stride_list idx)
  moreover have "mram (snd (fold ?st ?is (replicate 16 0, s))) = mram (snd (replicate 16 (0 :: u32), s))"
    by (rule fold_keeps) (use bnd idx in \<open>auto simp: crypt_step_def Let_def mram_unchanged\<close>)
  ultimately show ?thesis
    unfolding eq idx xor_words_blocks [OF assms(1)] by (simp add: dpu.equality)
qed

section \<open>Authenticated encryption\<close>

lemma xor_words_twice:
  assumes "buffers_ok lim len a b" "buffers_ok lim len b c" "x < len div 4"
  shows "xor_words blk UNIV len b c (xor_words blk UNIV len a b m) (c div 4 + x) = m (a div 4 + x)"
  using assms(3) by (simp add: xor_words_def Let_def xor.assoc)

lemma tag_loop:
  "for_stride 1 0 4 (\<lambda>i valid. valid \<and> t ! i = u ! i) True \<longleftrightarrow> (\<forall>i < 4. t ! i = (u :: u32 list) ! i)"
proof -
  have "stride_list 1 0 4 = [0, 1, 2, 3]" by (simp add: stride_list.simps)
  moreover have "{..<4 :: nat} = {0, 1, 2, 3}" by auto
  then have "(\<forall>i < 4. t ! i = u ! i) \<longleftrightarrow> (\<forall>i \<in> {0, 1, 2, 3}. t ! i = u ! i)"
    by (metis lessThan_iff)
  ultimately show ?thesis by (auto simp: for_stride_fold)
qed

lemma ime_poly_simple_iv:
  "ime_poly_simple key [iv ! 0, iv ! 1, iv ! 2] len p s = ime_poly_simple key iv len p s"
  by (simp add: ime_poly_simple_def)

lemma keystream_iv: "keystream key [iv ! 0, iv ! 1, iv ! 2] = keystream key iv"
  by (simp add: keystream_def fun_eq_iff)

lemma ime_chacha_crypt_iv:
  "ime_chacha_crypt key [iv ! 0, iv ! 1, iv ! 2] stride len p q s = ime_chacha_crypt key iv stride len p q s"
  by (simp add: ime_chacha_crypt_def)

text \<open>What encryption leaves and what decryption makes of it, for either memory.\<close>

lemma ime_aead_dec_enc_gen:
  assumes "ime_aead_enc_gen me key p_iv len p q s ctr = Inr (s', ctr', tag, out_iv)"
  shows "\<exists>iv. ime_choose_iv me p_iv ctr = Inr (iv, ctr') \<and> out_iv = [iv ! 0, iv ! 1, iv ! 2]
    \<and> s' = ime_chacha_crypt key iv 1 len p q s
    \<and> tag = ime_poly_simple key iv len q s'
    \<and> ime_aead_dec_gen key out_iv tag len q r s' = (True, ime_chacha_crypt key iv 1 len q r s')"
  using assms
  by (auto simp: ime_aead_enc_gen_def ime_aead_dec_gen_def Let_def tag_loop ime_poly_simple_iv
      ime_chacha_crypt_iv simp del: One_nat_def split: sum.splits)

text \<open>The tag as the Poly1305 tag of the buffer's 16-byte blocks and the length block.\<close>

definition buffer_blocks :: "cells \<Rightarrow> nat \<Rightarrow> nat \<Rightarrow> u32 list list" where
  "buffer_blocks m a len = map (\<lambda>i. map (\<lambda>j. m (a div 4 + 4 * i + j)) [0..<4]) [0..<len div 16]"

lemma stride_list_1: "stride_list 1 b n = [b..<n]"
proof (induction "n - b" arbitrary: b)
  case 0
  then show ?case by (subst stride_list.simps) simp
next
  case (Suc k)
  then have "stride_list 1 (b + 1) n = [b + 1..<n]" by (intro Suc.hyps) simp
  then show ?case
    using Suc.hyps(2) by (subst stride_list.simps) (simp add: upt_conv_Cons)
qed

lemma ime_poly_simple_gen:
  assumes "\<And>i. i < len div 16 \<Longrightarrow>
     ptr_32_read (p + of_nat (16 * i)) 16 s = map (\<lambda>j. m (a div 4 + 4 * i + j)) [0..<4]"
  shows "ime_poly_simple key iv len p s =
    poly_tag (ime_chacha_blk key 0 (iv ! 0) (iv ! 1) (iv ! 2)) (buffer_blocks m a len @ [[0, 0, of_nat len, 0]])"
proof -
  have "for_stride 1 0 (len div 16) (\<lambda>i ctx. poly_feed_block ctx (ptr_32_read (p + of_nat (16 * i)) 16 s)) c
    = poly_feed_all c (buffer_blocks m a len)" for c
    unfolding for_stride_fold stride_list_1 poly_feed_all_def buffer_blocks_def fold_map o_def
    by (rule fold_cong) (simp_all add: assms [simplified])
  then show ?thesis by (simp add: ime_poly_simple_def Let_def poly_tag_def poly_feed_all_def)
qed

lemma ime_poly_simple_mram:
  assumes "a mod 8 = 0" "a + len \<le> 2 ^ 31 - 1"
  shows "ime_poly_simple key iv len (PTR_32_of_mram a) s =
    poly_tag (ime_chacha_blk key 0 (iv ! 0) (iv ! 1) (iv ! 2)) (buffer_blocks (mram s) a len @ [[0, 0, of_nat len, 0]])"
proof (rule ime_poly_simple_gen)
  fix i
  assume "i < len div 16"
  then have i: "16 * i + 16 \<le> len" by linarith
  then have "PTR_32_of_mram a + of_nat (16 * i) = PTR_32_of_mram (a + 16 * i)"
    using assms by (intro PTR_32_of_mram_add) simp
  moreover have "(a + 16 * i) mod 8 = 0" "(a + 16 * i) div 4 = a div 4 + 4 * i"
    using assms by (auto simp: mod_eq_0_iff_dvd)
  ultimately show "ptr_32_read (PTR_32_of_mram a + of_nat (16 * i)) 16 s = map (\<lambda>j. mram s (a div 4 + 4 * i + j)) [0..<4]"
    using tagged_mram.rd_cells [of "a + 16 * i" 16 s] i assms by simp
qed

lemma ime_poly_simple_wram:
  assumes "a mod 8 = 0" "a + len \<le> 2 ^ 31 - 1"
  shows "ime_poly_simple key iv len (PTR_32_of_wram a) s =
    poly_tag (ime_chacha_blk key 0 (iv ! 0) (iv ! 1) (iv ! 2)) (buffer_blocks (wram_cells s) a len @ [[0, 0, of_nat len, 0]])"
proof (rule ime_poly_simple_gen)
  fix i
  assume "i < len div 16"
  then have i: "16 * i + 16 \<le> len" by linarith
  then have "PTR_32_of_wram a + of_nat (16 * i) = PTR_32_of_wram (a + 16 * i)"
    by (intro PTR_32_of_wram_add)
  moreover have "(a + 16 * i) mod 8 = 0" "(a + 16 * i) div 4 = a div 4 + 4 * i"
    using assms by (auto simp: mod_eq_0_iff_dvd)
  ultimately show "ptr_32_read (PTR_32_of_wram a + of_nat (16 * i)) 16 s = map (\<lambda>j. wram_cells s (a div 4 + 4 * i + j)) [0..<4]"
    using tagged_wram.rd_cells [of "a + 16 * i" 16 s] i assms by simp
qed

section \<open>Properties\<close>

text \<open>
  C11: The stream cipher on an MRAM buffer of a multiple of 64 bytes, or of at most one block: word \<open>x\<close> of the
  output is word \<open>x\<close> of the input XOR the ChaCha20 keystream of RFC 8439 with counter
  \<open>x div 16 + 1\<close>, for the blocks the stride reaches; no other word of either memory changes.
\<close>

theorem ime_chacha_enc_mram_words:
  assumes "crypt_size len" "buffers_ok (2 ^ 31 - 1) len a b" "length (key_words key) = 8" "0 < stride"
    and "ime_choose_iv me p_iv ctr = Inr (iv, ctr')"
  shows "ime_chacha_enc_mram me key p_iv stride len a b s ctr =
    Inr (s\<lparr>mram := (\<lambda>j. let x = j - b div 4 in
           if b div 4 \<le> j \<and> x < len div 4 \<and> stride dvd x div 16
           then mram s (a div 4 + x) XOR
             chacha20_block (key_words key) (of_nat (x div 16) + 1) [iv ! 0, iv ! 1, iv ! 2] ! (x mod 16)
           else mram s j)\<rparr>, ctr', [iv ! 0, iv ! 1, iv ! 2])"
proof -
  have "xor_words (keystream key iv) {i. stride dvd i} len a b (mram s) = (\<lambda>j. let x = j - b div 4 in
           if b div 4 \<le> j \<and> x < len div 4 \<and> stride dvd x div 16
           then mram s (a div 4 + x) XOR
             chacha20_block (key_words key) (of_nat (x div 16) + 1) [iv ! 0, iv ! 1, iv ! 2] ! (x mod 16)
           else mram s j)"
    using assms(3) by (simp add: xor_words_def keystream_def ime_chacha_blk_eq fun_eq_iff Let_def)
  then show ?thesis
    using ime_chacha_crypt_mram [OF assms(1-4)] assms(5)
    by (simp add: ime_chacha_enc_mram_def ime_chacha_enc_gen_def)
qed

theorem ime_chacha_enc_mram_words_witness:
  "\<exists>s'. ime_chacha_enc_mram 3 (User_Key (replicate 8 1)) (Some [4, 5, 6]) 1 64 128 1024
      \<lparr>mram = of_nat, wram_cells = of_nat\<rparr> [9, 9, 9, 9] = Inr (s', [9, 9, 9, 9], [4, 5, 6])"
  by (subst ime_chacha_enc_mram_words [where iv = "[4, 5, 6]" and ctr' = "[9, 9, 9, 9]"])
    (simp_all add: crypt_size_def buffers_ok_def ime_choose_iv_def)

text \<open>
  C12: For a buffer of more than 64 bytes, a multiple of 16 but perhaps not of 64, the last block is not cut off at the end of the buffer: the
  call has exactly the effect of a call with the length rounded up to a multiple of 64, so it
  reads and writes up to 48 bytes beyond the buffer.
\<close>

theorem ime_chacha_crypt_rounds_up:
  assumes "64 < len" "len mod 16 = 0" "0 < stride"
  shows "ime_chacha_crypt key iv stride len p q s
       = ime_chacha_crypt key iv stride (64 * ((len + 63) div 64)) p q s"
proof -
  have full: "\<not> len - i * 16 < 64 \<and> \<not> 64 * ((len + 63) div 64) - i * 16 < 64"
    if "i < (len + 63) div 64" for i
  proof -
    obtain k where "len = 16 * k" using assms(2) by auto
    then show ?thesis using block_lt [OF that] assms(1) by (cases "i = 0") auto
  qed
  have n: "(64 * ((len + 63) div 64) + 63) div 64 = (len + 63) div 64" by simp
  show ?thesis
    unfolding ime_chacha_crypt_def n
    by (rule arg_cong [where f = snd], rule for_stride_cong)
      (use full assms in \<open>simp_all only: if_False Let_def\<close>)
qed

theorem ime_chacha_crypt_rounds_up_witness:
  "ime_chacha_crypt (User_Key (replicate 8 1)) [4, 5, 6] 1 80 256 256 \<lparr>mram = of_nat, wram_cells = of_nat\<rparr>
   = ime_chacha_crypt (User_Key (replicate 8 1)) [4, 5, 6] 1 128 256 256 \<lparr>mram = of_nat, wram_cells = of_nat\<rparr>"
  using ime_chacha_crypt_rounds_up [of 80 1] by simp

text \<open>The tag of a buffer under a key and an IV, over the block and MAC functions of RFC 8439.\<close>

definition aead_tag :: "chacha_key \<Rightarrow> u32 list \<Rightarrow> cells \<Rightarrow> nat \<Rightarrow> nat \<Rightarrow> u32 list" where
  "aead_tag key iv m a len =
     poly_tag (chacha20_block (key_words key) 0 [iv ! 0, iv ! 1, iv ! 2])
       (buffer_blocks m a len @ [[0, 0, of_nat len, 0]])"

text \<open>
  C5: Encrypting an MRAM buffer and decrypting the result with the returned IV and tag succeeds and gives back
  every word of the plaintext, in place or between disjoint buffers; the same holds for WRAM.
\<close>

theorem ime_aead_roundtrip:
  assumes "crypt_size len" "buffers_ok (2 ^ 31 - 1) len a b" "buffers_ok (2 ^ 31 - 1) len b c"
    and "length (key_words key) = 8"
  shows "(ime_aead_enc_mram me key p_iv len a b s ctr = Inr (s', ctr', tag, iv) \<longrightarrow>
      (\<exists>s''. ime_aead_dec_mram key iv tag len b c s' = (True, s'') \<and> wram_cells s'' = wram_cells s
        \<and> (\<forall>x < len div 4. mram s'' (c div 4 + x) = mram s (a div 4 + x))))
    \<and> (ime_aead_enc me key p_iv len a b s ctr = Inr (s', ctr', tag, iv) \<longrightarrow>
      (\<exists>s''. ime_aead_dec key iv tag len b c s' = (True, s'') \<and> mram s'' = mram s
        \<and> (\<forall>x < len div 4. wram_cells s'' (c div 4 + x) = wram_cells s (a div 4 + x))))"
proof (intro conjI impI)
  assume "ime_aead_enc_mram me key p_iv len a b s ctr = Inr (s', ctr', tag, iv)"
  from ime_aead_dec_enc_gen [OF this [unfolded ime_aead_enc_mram_def], of "PTR_32_of_mram c"]
  show "\<exists>s''. ime_aead_dec_mram key iv tag len b c s' = (True, s'') \<and> wram_cells s'' = wram_cells s
        \<and> (\<forall>x < len div 4. mram s'' (c div 4 + x) = mram s (a div 4 + x))"
    using assms by (auto simp: ime_aead_dec_mram_def ime_chacha_crypt_mram xor_words_twice [OF assms(2,3)] simp del: One_nat_def)
next
  assume "ime_aead_enc me key p_iv len a b s ctr = Inr (s', ctr', tag, iv)"
  from ime_aead_dec_enc_gen [OF this [unfolded ime_aead_enc_def], of "PTR_32_of_wram c"]
  show "\<exists>s''. ime_aead_dec key iv tag len b c s' = (True, s'') \<and> mram s'' = mram s
        \<and> (\<forall>x < len div 4. wram_cells s'' (c div 4 + x) = wram_cells s (a div 4 + x))"
    using assms by (auto simp: ime_aead_dec_def ime_chacha_crypt_wram xor_words_twice [OF assms(2,3)] simp del: One_nat_def)
qed

theorem ime_aead_roundtrip_witness:
  "\<exists>s' tag. ime_aead_enc_mram 3 (User_Key (replicate 8 1)) (Some [4, 5, 6]) 128 64 64
      \<lparr>mram = of_nat, wram_cells = of_nat\<rparr> [9, 9, 9, 9] = Inr (s', [9, 9, 9, 9], tag, [4, 5, 6])
    \<and> (\<exists>s''. ime_aead_dec_mram (User_Key (replicate 8 1)) [4, 5, 6] tag 128 64 1024 s' = (True, s'')
        \<and> (\<forall>x < 32. mram s'' (256 + x) = of_nat (16 + x)))"
proof -
  let ?k = "User_Key (replicate 8 1)" and ?s = "\<lparr>mram = of_nat, wram_cells = of_nat\<rparr>"
  obtain s' tag where e: "ime_aead_enc_mram 3 ?k (Some [4, 5, 6]) 128 64 64 ?s [9, 9, 9, 9]
    = Inr (s', [9, 9, 9, 9], tag, [4, 5, 6])"
    by (simp add: ime_aead_enc_mram_def ime_aead_enc_gen_def ime_choose_iv_def Let_def)
  show ?thesis
    using ime_aead_roundtrip [of 128 64 64 1024 ?k 3 "Some [4, 5, 6]" ?s "[9, 9, 9, 9]" s' "[9, 9, 9, 9]" tag "[4, 5, 6]"] e
    by (auto simp: crypt_size_def buffers_ok_def)
qed

text \<open>
  C4: Decryption accepts exactly the tag that Poly1305 gives the ciphertext and its length under the one-time
  key of RFC 8439 (block zero of the keystream). When it rejects, no memory has changed:
  nothing is decrypted before the tag is known to be right.
\<close>

theorem ime_aead_dec_mram_verifies:
  assumes "crypt_size len" "buffers_ok (2 ^ 31 - 1) len a b" "length (key_words key) = 8" "length tag = 4"
  shows "ime_aead_dec_mram key iv tag len a b s =
    (if tag = aead_tag key iv (mram s) a len
     then (True, s\<lparr>mram := xor_words (keystream key iv) UNIV len a b (mram s)\<rparr>)
     else (False, s))"
proof -
  let ?t = "ime_poly_simple key iv len (PTR_32_of_mram a) s"
  have t: "?t = aead_tag key iv (mram s) a len"
    using assms ime_poly_simple_mram [of a len key iv s]
    by (simp add: aead_tag_def ime_chacha_blk_eq buffers_ok_def)
  have "length ?t = 4"
    unfolding t aead_tag_def by (rule length_poly_tag) (auto simp: buffer_blocks_def)
  then have "(\<forall>i < 4. ?t ! i = tag ! i) \<longleftrightarrow> tag = ?t"
    using assms(4) by (auto simp: list_eq_iff_nth_eq)
  then show ?thesis
    using assms(1-3) t
    by (auto simp: ime_aead_dec_mram_def ime_aead_dec_gen_def Let_def tag_loop ime_chacha_crypt_mram simp del: One_nat_def)
qed

theorem ime_aead_dec_mram_verifies_witness:
  "ime_aead_dec_mram (User_Key (replicate 8 1)) [4, 5, 6] [0, 0, 0, 0] 128 64 1024 \<lparr>mram = of_nat, wram_cells = of_nat\<rparr>
     \<in> {(False, \<lparr>mram = of_nat, wram_cells = of_nat\<rparr>),
        (True, \<lparr>mram = xor_words (keystream (User_Key (replicate 8 1)) [4, 5, 6]) UNIV 128 64 1024 of_nat, wram_cells = of_nat\<rparr>)}"
  by (subst ime_aead_dec_mram_verifies) (simp_all add: crypt_size_def buffers_ok_def)

end
