(* ===== verification/Core_Loader.thy ===== *)
theory Core_Loader imports IME_AEAD
begin

text \<open>
  The trusted loader of \<^verbatim>\<open>src/src/core\<close>: verification and in-place decryption of a subkernel
  image in MRAM (\<^verbatim>\<open>aead.c\<close>, \<^verbatim>\<open>core_crypt.c\<close>), the scan for banned instructions
  (\<^verbatim>\<open>core_scan.c\<close>) and the sequence \<open>ime_replace_sk\<close> (\<^verbatim>\<open>core_load.S\<close> with \<^verbatim>\<open>core_thrd.s\<close>,
  \<^verbatim>\<open>core_mem.s\<close>, \<^verbatim>\<open>core_util.s\<close>, \<^verbatim>\<open>core_wram.s\<close>, \<^verbatim>\<open>core_iram.s\<close>) that replaces the running
  subkernel. MRAM addresses are natural numbers; header fields are words.
\<close>

unbundle bit_operations_syntax

section \<open>The image header\<close>

record ime_sk =
  magic :: u32
  tag :: "u32 list"
  iv :: "u32 list"
  size_aad :: u32
  size_total :: u32
  text_size :: u32
  data_size :: u32

definition sk_header :: "cells \<Rightarrow> nat \<Rightarrow> ime_sk" where
  "sk_header m sk =
     (let h = mram_read m sk 64
      in \<lparr>magic = h ! 0, tag = take 4 (drop 1 h), iv = take 3 (drop 5 h), size_aad = h ! 8,
          size_total = h ! 9, text_size = h ! 10, data_size = h ! 11\<rparr>)"

section \<open>Authentication and decryption\<close>

definition fetch_sk_chunk :: "cells \<Rightarrow> nat \<Rightarrow> nat \<Rightarrow> u32 list" where
  "fetch_sk_chunk m sk chunk = mram_read m (sk + 16 * chunk) 16"

definition xor_sk_chunk :: "nat \<Rightarrow> nat \<Rightarrow> u32 list \<Rightarrow> cells \<Rightarrow> cells" where
  "xor_sk_chunk sk chunk data m =
     (let buf = mram_read m (sk + 64 * chunk) 64;
          buf = map2 (XOR) buf data
      in mram_write buf (sk + 64 * chunk) 64 m)"

definition ime_decrypt_verify :: "chacha_key \<Rightarrow> nat \<Rightarrow> cells \<Rightarrow> bool \<times> cells" where
  "ime_decrypt_verify key sk m =
     (let hdr = sk_header m sk;
          chacha_output = ime_chacha_blk key 0 (iv hdr ! 0) (iv hdr ! 1) (iv hdr ! 2);
          ctx = poly_init chacha_output;
          ctx = poly_feed_block ctx [0xA5A5A5A5, 0, 0, 0];
          ctx = poly_feed_block ctx [0, 0, 0, 0];
          aad = unat (size_aad hdr);
          sz = unat (size_total hdr);
          ctx = for_stride 1 2 (aad div 16) (\<lambda>i ctx. poly_feed_block ctx (fetch_sk_chunk m sk i)) ctx;
          ctx = for_stride 1 (aad div 16) (sz div 16) (\<lambda>i ctx. poly_feed_block ctx (fetch_sk_chunk m sk i)) ctx;
          ctx = poly_feed_block ctx [size_aad hdr, 0, size_total hdr - size_aad hdr, 0];
          t = fst (poly_finalize ctx)
      in if \<not> (t ! 0 = tag hdr ! 0 \<and> t ! 1 = tag hdr ! 1 \<and> t ! 2 = tag hdr ! 2 \<and> t ! 3 = tag hdr ! 3)
         then (False, m)
         else (True,
           for_stride 1 (aad div 64) (sz div 64)
             (\<lambda>i m. xor_sk_chunk sk i
                (ime_chacha_blk key (of_nat (i - aad div 64 + 1)) (iv hdr ! 0) (iv hdr ! 1) (iv hdr ! 2)) m) m))"

text \<open>
  The entry point: only thread 0 passes the system check; an expected tag is compared with
  what the DMA engine delivers for the address of the tag field.
\<close>

definition ime_check_system :: "nat \<Rightarrow> bool" where
  "ime_check_system me \<longleftrightarrow> me = 0"

definition ime_decrypt_sk ::
  "nat \<Rightarrow> u32 list option \<Rightarrow> chacha_key \<Rightarrow> nat \<Rightarrow> cells \<Rightarrow> ime_fault + cells" where
  "ime_decrypt_sk me expected key sk m =
     (if \<not> ime_check_system me then Inl ime_sec_fault
      else
        let sk_tag = mram_read m (sk + 4) 16 in
        if (case expected of
              None \<Rightarrow> False
            | Some t \<Rightarrow> t ! 0 \<noteq> sk_tag ! 0 \<or> t ! 1 \<noteq> sk_tag ! 1 \<or> t ! 2 \<noteq> sk_tag ! 2 \<or> t ! 3 \<noteq> sk_tag ! 3)
        then Inl ime_sec_fault
        else case ime_decrypt_verify key sk m of
               (False, m) \<Rightarrow> Inl ime_sec_fault
             | (True, m) \<Rightarrow> Inr m)"

section \<open>The scan\<close>

definition is_ldmai :: "u64 \<Rightarrow> bool" where
  "is_ldmai n \<longleftrightarrow>
     (if drop_bit 39 n \<noteq> 0xe0 then False
      else if drop_bit 20 n AND 0xF \<noteq> 0 then False
      else if n AND 0x1FF \<noteq> 0x1 then False
      else True)"

definition is_thread_ctrl :: "u64 \<Rightarrow> bool" where
  "is_thread_ctrl n \<longleftrightarrow>
     (if drop_bit 41 n \<noteq> 0x3e then False
      else if drop_bit 39 n AND 0x3 = 0 then False
      else if drop_bit 28 n AND 0x3F \<noteq> 0x32 then False
      else True)"

definition is_banned_reg :: "u64 \<Rightarrow> bool" where
  "is_banned_reg n =
     (let wr = drop_bit 39 n AND 0x1F in
      if wr < 24 then wr = 20 \<or> wr = 21
      else let wr = push_bit 3 (drop_bit 44 n AND 0x3) OR (drop_bit 39 n AND 0x7)
           in wr = 20 \<or> wr = 21)"

text \<open>The eight-byte cell at an address, low word first, and the instruction \<open>i\<close> of an image.\<close>

definition read_u64 :: "cells \<Rightarrow> nat \<Rightarrow> u64" where
  "read_u64 m a = (let c = mram_read m a 8 in ucast (c ! 0) OR push_bit 32 (ucast (c ! 1)))"

definition sk_body :: "cells \<Rightarrow> nat \<Rightarrow> u32 \<Rightarrow> u64" where
  "sk_body m sk i = read_u64 m ((sk + 64 + 8 * unat i) mod 2 ^ 32)"

text \<open>
  The loop counter is a 32-bit \<open>size_t\<close>, the bound a 64-bit product; a faulting instruction
  ends the scan. \<open>None\<close>: the loop does not end.
\<close>

partial_function (option) ime_scan_loop :: "cells \<Rightarrow> nat \<Rightarrow> u64 \<Rightarrow> u32 \<Rightarrow> (ime_fault + unit) option" where
  "ime_scan_loop m sk n i =
     (if ucast i < n then
        let inst = sk_body m sk i in
        if is_ldmai inst then Some (Inl ime_sec_fault)
        else if is_thread_ctrl inst then Some (Inl ime_sec_fault)
        else if is_banned_reg inst then Some (Inl ime_sec_fault)
        else ime_scan_loop m sk n (i + 1)
      else Some (Inr ()))"

definition ime_scan_sk :: "nat \<Rightarrow> nat \<Rightarrow> cells \<Rightarrow> (ime_fault + unit) option" where
  "ime_scan_sk me sk m =
     (let sz = read_u64 m (sk + 40) in
      case ime_scan_loop m sk ((sz AND 0xFFFFFFFF) * 256) 0 of
        Some (Inr u) \<Rightarrow> Some (if ime_check_system me then Inr () else Inl ime_sec_fault)
      | r \<Rightarrow> r)"

section \<open>Replacing a subkernel\<close>

text \<open>
  The loader's state: both data memories, instruction memory, the user threads that run, and
  whether the sixteen threads have been set going for the new subkernel.
\<close>

record tl_state = dpu +
  iram :: "nat \<Rightarrow> u64"
  running :: "nat set"

type_synonym 'a tl_result = "(ime_fault + 'a) option"

definition tl_bind :: "'a tl_result \<Rightarrow> ('a \<Rightarrow> 'b tl_result) \<Rightarrow> 'b tl_result" where
  "tl_bind r f = (case r of None \<Rightarrow> None | Some (Inl e) \<Rightarrow> Some (Inl e) | Some (Inr x) \<Rightarrow> f x)"

definition NR_TASKLETS :: nat where "NR_TASKLETS = 16"
definition ime_user_start :: nat where "ime_user_start = 1024"
definition ime_scratch_a :: nat where "ime_scratch_a = 0x3f80000"

text \<open>
  \<open>core_thrd.s\<close>: thread \<open>i\<close> is booted twice; a thread that still has its run bit at the second
  boot is one that the loader's own entry code did not stop.
\<close>

definition ime_check_threads :: "tl_state \<Rightarrow> tl_state tl_result" where
  "ime_check_threads s =
     (if running s \<inter> {1..<NR_TASKLETS} \<noteq> {} then Some (Inl ime_sec_fault) else Some (Inr s))"

text \<open>\<open>core_mem.s\<close>: words are cleared from below \<open>r17\<close> downwards, while the address stays non-negative.\<close>

function ime_wipe_loop :: "int \<Rightarrow> cells \<Rightarrow> cells" where
  "ime_wipe_loop r0 w =
     (let w = w(nat r0 div 4 := 0); r0 = r0 - 4 in if 0 \<le> r0 then ime_wipe_loop r0 w else w)"
  by auto
termination by (relation "measure (\<lambda>(r0, w). nat r0)") auto

definition ime_wipe_user :: "u32 \<Rightarrow> tl_state \<Rightarrow> tl_state" where
  "ime_wipe_user r17 s =
     (let r0 = sint (r17 - 4) in
      if r0 < 0 then s else s\<lparr>wram_cells := ime_wipe_loop r0 (wram_cells s)\<rparr>)"

text \<open>
  \<open>core_util.s\<close>: the image is copied eight bytes at a time until the counter, loaded from the
  source's \<open>size\<close> field, reaches zero exactly.
\<close>

partial_function (option) ime_copy_sk_loop :: "nat \<Rightarrow> nat \<Rightarrow> u32 \<Rightarrow> cells \<Rightarrow> cells option" where
  "ime_copy_sk_loop src dst r4 m =
     (let m = mram_write (mram_read m src 8) dst 8 m; r4 = r4 - 8 in
      if r4 \<noteq> 0 then ime_copy_sk_loop (src + 8) (dst + 8) r4 m else Some m)"

definition ime_copy_sk :: "nat \<Rightarrow> nat \<Rightarrow> cells \<Rightarrow> cells option" where
  "ime_copy_sk src dst m = ime_copy_sk_loop src dst (mram_read m (src + 0x20) 8 ! 1) m"

definition ime_push_sk :: "nat \<Rightarrow> cells \<Rightarrow> cells option" where
  "ime_push_sk sk = ime_copy_sk sk ime_scratch_a"

definition ime_pop_sk :: "nat \<Rightarrow> cells \<Rightarrow> cells option" where
  "ime_pop_sk sk = ime_copy_sk ime_scratch_a sk"

text \<open>\<open>core_wram.s\<close>: the header goes to WRAM, its magic is checked, then the data chunks of 2 KiB.\<close>

definition ime_load_wram :: "nat \<Rightarrow> tl_state \<Rightarrow> ime_fault + tl_state" where
  "ime_load_wram sk s =
     (let hdr = mram_read (mram s) sk 64;
          w = wram_store hdr 0 64 (wram_cells s)
      in if w 0 \<noteq> 0xA5A5A5A5 then Inl ime_sanity_fault
         else
           let r1 = sk + 64 + unat (w 10) * 2048;
               n = unat (w 11)
           in Inr (s\<lparr>wram_cells :=
                for_stride 1 0 n
                  (\<lambda>k w. wram_store (mram_read (mram s) (r1 + 2048 * k) 2048) (2048 * k) 2048 w) w\<rparr>))"

text \<open>\<open>core_iram.s\<close>: one to fifteen chunks of 256 instructions.\<close>

definition ldmai_chunk :: "cells \<Rightarrow> nat \<Rightarrow> nat \<Rightarrow> (nat \<Rightarrow> u64) \<Rightarrow> (nat \<Rightarrow> u64)" where
  "ldmai_chunk m dst src ir = (\<lambda>j. if dst \<le> j \<and> j < dst + 256 then read_u64 m (src + 8 * (j - dst)) else ir j)"

definition ime_load_iram :: "nat \<Rightarrow> tl_state \<Rightarrow> ime_fault + tl_state" where
  "ime_load_iram sk s =
     (let r2 = mram_read (mram s) (sk + 40) 8 ! 0 in
      if r2 = 0 then Inl ime_sec_fault
      else if r2 AND 0xFFFFFFF0 \<noteq> 0 then Inl ime_sec_fault
      else Inr (s\<lparr>iram := for_stride 1 0 (unat r2)
             (\<lambda>k. ldmai_chunk (mram s) (ime_user_start + 256 * k) (sk + 64 + 2048 * k)) (iram s)\<rparr>))"

text \<open>
  \<open>core_load.S\<close> (built with \<open>IME_REPORT_STATS\<close> zero). The compiled C routines use the system
  stack, the first 4 KiB of WRAM, and the thread I/O page; what they leave there is the
  argument \<open>stk\<close>, and the canary in the last word of the stack must have survived. The expected
  tag and the user key are read from WRAM where the caller's pointers lead, null standing for
  none and for the system key.
\<close>

definition STACK_CANARY :: nat where "STACK_CANARY = 1023"

definition stack_overlay :: "cells \<Rightarrow> cells \<Rightarrow> cells" where
  "stack_overlay stk w = (\<lambda>j. if j \<le> STACK_CANARY \<or> (0xffc0 div 4 \<le> j \<and> j < 0x10000 div 4) then stk j else w j)"

definition expected_tag :: "u32 \<Rightarrow> cells \<Rightarrow> u32 list option" where
  "expected_tag p w = (if p = 0 then None else Some (wram_load w (unat p) 16))"

definition selected_key :: "u32 list \<Rightarrow> u32 \<Rightarrow> cells \<Rightarrow> chacha_key" where
  "selected_key sys_key p w = (if p = 0 then System_Key sys_key else User_Key (wram_load w (unat p) 32))"

definition ime_replace_sk ::
  "nat \<Rightarrow> u32 list \<Rightarrow> cells \<Rightarrow> nat \<Rightarrow> u32 \<Rightarrow> u32 \<Rightarrow> u32 \<Rightarrow> tl_state \<Rightarrow> tl_state tl_result" where
  "ime_replace_sk me sys_key stk r21 r18 r19 r17 s =
     tl_bind (ime_check_threads s) (\<lambda>s.
     let s = ime_wipe_user r17 s in
     tl_bind (map_option (\<lambda>m. Inr (s\<lparr>mram := m\<rparr>)) (ime_push_sk r21 (mram s))) (\<lambda>s.
     let s = s\<lparr>wram_cells := (wram_cells s)(STACK_CANARY := 0xef11b0d9)\<rparr> in
     tl_bind (Some (ime_decrypt_sk me (expected_tag r18 (wram_cells s))
                     (selected_key sys_key r19 (wram_cells s)) r21 (mram s))) (\<lambda>m.
     tl_bind (ime_scan_sk me r21 m) (\<lambda>_.
     let s = s\<lparr>mram := m, wram_cells := stack_overlay stk (wram_cells s)\<rparr> in
     if wram_cells s STACK_CANARY \<noteq> 0xef11b0d9 then Some (Inl ime_sec_fault)
     else
       tl_bind (Some (ime_load_wram r21 s)) (\<lambda>s.
       tl_bind (Some (ime_load_iram r21 s)) (\<lambda>s.
       tl_bind (map_option (\<lambda>m. Inr (s\<lparr>mram := m\<rparr>)) (ime_pop_sk r21 (mram s))) (\<lambda>s.
       Some (Inr (s\<lparr>running := {0..<NR_TASKLETS}\<rparr>)))))))))"

section \<open>The scan is sound and complete\<close>

definition banned :: "u64 \<Rightarrow> bool" where
  "banned inst \<longleftrightarrow> is_ldmai inst \<or> is_thread_ctrl inst \<or> is_banned_reg inst"

lemma scan_loop_unfold:
  "ime_scan_loop m sk n i =
    (if ucast i < n then if banned (sk_body m sk i) then Some (Inl ime_sec_fault) else ime_scan_loop m sk n (i + 1)
     else Some (Inr ()))"
  by (subst ime_scan_loop.simps) (simp add: banned_def Let_def)

lemma unat_ucast_32_64: "unat (ucast (i :: u32) :: u64) = unat i"
proof -
  have "unat i < 2 ^ 64" by (rule less_trans [OF u32_bound]) simp
  then show ?thesis by (simp only: unsigned_ucast_eq) (simp add: take_bit_nat_eq_self)
qed

lemma ex_range_split:
  "a < n \<Longrightarrow> (\<exists>k \<ge> a. k < n \<and> P k) \<longleftrightarrow> P a \<or> (\<exists>k \<ge> Suc a. k < (n :: nat) \<and> P k)"
  by (metis Suc_le_eq Suc_leD le_eq_less_or_eq)

lemma scan_loop_returns:
  assumes "unat n < 2 ^ 32" "unat i \<le> unat n"
  shows "ime_scan_loop m sk n i =
    Some (if \<exists>k. unat i \<le> k \<and> k < unat n \<and> banned (sk_body m sk (of_nat k)) then Inl ime_sec_fault else Inr ())"
  using assms(2)
proof (induction "unat n - unat i" arbitrary: i)
  case 0
  then show ?case
    by (subst scan_loop_unfold) (auto simp: word_less_nat_alt unat_ucast_32_64)
next
  case (Suc d)
  have lt: "unat i < unat n" using Suc.hyps(2) by simp
  then have i1: "unat (i + 1) = unat i + 1"
    using assms(1) by (simp add: unat_word_ariths)
  have "ucast i < n" using lt by (simp add: word_less_nat_alt unat_ucast_32_64)
  moreover have "ime_scan_loop m sk n (i + 1) =
    Some (if \<exists>k. unat (i + 1) \<le> k \<and> k < unat n \<and> banned (sk_body m sk (of_nat k)) then Inl ime_sec_fault else Inr ())"
    using Suc.hyps(2) lt by (intro Suc.hyps(1)) (simp_all add: i1)
  moreover have "(\<exists>k. unat i \<le> k \<and> k < unat n \<and> banned (sk_body m sk (of_nat k)))
    \<longleftrightarrow> banned (sk_body m sk i) \<or> (\<exists>k. unat (i + 1) \<le> k \<and> k < unat n \<and> banned (sk_body m sk (of_nat k)))"
    using ex_range_split [OF lt, of "\<lambda>k. banned (sk_body m sk (of_nat k))"] by (simp add: i1)
  ultimately show ?case by (subst scan_loop_unfold) simp
qed

lemma read_u64_low: "read_u64 m a AND 0xFFFFFFFF = ucast (m (2 * (a div 8)))"
proof -
  have c: "mram_read m a 8 ! 0 = m (2 * (a div 8))" by (simp add: mram_read_def)
  have m: "(0xFFFFFFFF :: u64) = mask 32" by (simp add: mask_eq_exp_minus_1)
  show ?thesis
    unfolding read_u64_def Let_def c m
    by (rule bit_word_eqI)
      (simp only: bit_and_iff bit_or_iff bit_push_bit_iff bit_ucast_iff bit_mask_iff possible_bit_word,
        auto dest: bit_imp_le_length)
qed

lemma scan_bound: "unat (ucast (t :: u32) * 256 :: u64) = unat t * 256"
proof -
  have "unat t * 256 < 2 ^ 64" using u32_bound [of t] by (simp del: u32_bound)
  then show ?thesis by (simp add: unat_word_ariths unat_ucast_32_64)
qed

lemma text_size_header: "sk mod 8 = 0 \<Longrightarrow> text_size (sk_header m sk) = m (sk div 4 + 10)"
  by (simp add: sk_header_def Let_def mram_read_def dma_index)

lemma scan_bound_field:
  assumes "sk mod 8 = 0"
  shows "(read_u64 m (sk + 40) AND 0xFFFFFFFF) * 256 = ucast (text_size (sk_header m sk)) * 256"
proof -
  have "2 * ((sk + 40) div 8) = sk div 4 + 10" using assms by (auto simp: mod_eq_0_iff_dvd elim!: dvdE)
  then show ?thesis by (simp add: read_u64_low text_size_header [OF assms])
qed

text \<open>
  A bound of \<open>2 ^ 32\<close> or more is never reached by the 32-bit counter: only a banned
  instruction ends the loop.
\<close>

lemma scan_loop_diverges:
  assumes "2 ^ 32 \<le> unat n" "\<And>k. \<not> banned (sk_body m sk k)"
  shows "ime_scan_loop m sk n i = None"
proof -
  have never: "\<not> (2 ^ 32 \<le> unat n \<and> (\<forall>k. \<not> banned (sk_body m sk k)))" if "ime_scan_loop m sk n i = Some r" for r
    using _ that
  proof (rule ime_scan_loop.raw_induct
      [where P = "\<lambda>m sk n i r. \<not> (2 ^ 32 \<le> unat n \<and> (\<forall>k. \<not> banned (sk_body m sk k)))"])
    fix loop :: "cells \<Rightarrow> nat \<Rightarrow> u64 \<Rightarrow> u32 \<Rightarrow> (ime_fault + unit) option" and m sk n i y
    assume IH: "\<And>m sk n i y. loop m sk n i = Some y \<Longrightarrow> \<not> (2 ^ 32 \<le> unat n \<and> (\<forall>k. \<not> banned (sk_body m sk k)))"
      and eq: "(if ucast i < n
        then let inst = sk_body m sk i
             in if is_ldmai inst then Some (Inl ime_sec_fault)
                else if is_thread_ctrl inst then Some (Inl ime_sec_fault)
                else if is_banned_reg inst then Some (Inl ime_sec_fault) else loop m sk n (i + 1)
        else Some (Inr ())) = Some y"
    show "\<not> (2 ^ 32 \<le> unat n \<and> (\<forall>k. \<not> banned (sk_body m sk k)))"
    proof
      assume big: "2 ^ 32 \<le> unat n \<and> (\<forall>k. \<not> banned (sk_body m sk k))"
      have "unat i < unat n" by (rule less_le_trans [OF _ conjunct1 [OF big]]) simp
      then have "ucast i < n" by (simp add: word_less_nat_alt unat_ucast_32_64)
      then have "loop m sk n (i + 1) = Some y"
        using eq big by (simp add: banned_def Let_def)
      then show False using IH big by blast
    qed
  qed
  show ?thesis using assms never by (cases "ime_scan_loop m sk n i") auto
qed

section \<open>Copying and loading\<close>

lemma tl_bind_Inr:
  "tl_bind r f = Some (Inr y) \<longleftrightarrow> (\<exists>x. r = Some (Inr x) \<and> f x = Some (Inr y))"
  by (auto simp: tl_bind_def split: option.splits sum.splits)

text \<open>The memory with a run of words copied.\<close>

definition copied :: "nat \<Rightarrow> nat \<Rightarrow> nat \<Rightarrow> cells \<Rightarrow> cells" where
  "copied src dst n m = (\<lambda>j. if dst \<le> j \<and> j < dst + n then m (src + (j - dst)) else m j)"

lemma copy_cell:
  assumes "src mod 8 = 0" "dst mod 8 = 0"
  shows "mram_write (mram_read m src 8) dst 8 m = copied (src div 4) (dst div 4) 2 m"
  using assms by (auto simp: mram_write_def mram_read_def copied_def dma_index Let_def fun_eq_iff)

lemma copied_copied:
  assumes "src + k + n \<le> dst \<or> dst + k + n \<le> src"
  shows "copied (src + k) (dst + k) n (copied src dst k m) = copied src dst (k + n) m"
  using assms by (auto simp: copied_def fun_eq_iff)

lemma ime_copy_sk_loop_copies:
  assumes "src mod 8 = 0" "dst mod 8 = 0" "0 < k" "8 * k < 2 ^ 32"
    and "src + 8 * k \<le> dst \<or> dst + 8 * k \<le> src"
  shows "ime_copy_sk_loop src dst (of_nat (8 * k)) m = Some (copied (src div 4) (dst div 4) (2 * k) m)"
  using assms
proof (induction k arbitrary: src dst m)
  case (Suc k)
  let ?m = "copied (src div 4) (dst div 4) 2 m"
  have r4: "(of_nat (8 * Suc k) :: u32) - 8 = of_nat (8 * k)" by simp
  show ?case
  proof (cases "k = 0")
    case True
    then show ?thesis
      using Suc.prems(1,2) by (subst ime_copy_sk_loop.simps) (simp add: copy_cell)
  next
    case False
    have nz: "(of_nat (8 * k) :: u32) \<noteq> 0"
      using False Suc.prems(4) by (simp only: word_unat_eq_iff unat_of_nat unsigned_0) (simp add: take_bit_nat_eq_self)
    have d: "(src + 8) div 4 = src div 4 + 2" "(dst + 8) div 4 = dst div 4 + 2" by simp_all
    have sep: "src div 4 + 2 + 2 * k \<le> dst div 4 \<or> dst div 4 + 2 + 2 * k \<le> src div 4"
      using Suc.prems(1,2,5) by (auto simp: mod_eq_0_iff_dvd)
    have "ime_copy_sk_loop (src + 8) (dst + 8) (of_nat (8 * k)) ?m
      = Some (copied ((src + 8) div 4) ((dst + 8) div 4) (2 * k) ?m)"
      using False Suc.prems by (intro Suc.IH) auto
    also have "\<dots> = Some (copied (src div 4) (dst div 4) (2 * Suc k) m)"
      unfolding d using copied_copied [of "src div 4" 2 "2 * k" "dst div 4" m] sep by simp
    finally show ?thesis
      using Suc.prems(1,2) nz by (subst ime_copy_sk_loop.simps) (simp only: copy_cell Let_def r4 if_True simp_thms)
  qed
qed simp

lemma ime_copy_sk_copies:
  assumes "src mod 8 = 0" "dst mod 8 = 0" "unat (m (src div 4 + 9)) = 8 * k" "0 < k"
    and "src + 8 * k \<le> dst \<or> dst + 8 * k \<le> src"
  shows "ime_copy_sk src dst m = Some (copied (src div 4) (dst div 4) (2 * k) m)"
proof -
  have "(src + 0x20) mod 8 = 0" "(src + 0x20) div 4 = src div 4 + 8" using assms(1) by presburger+
  then have "mram_read m (src + 0x20) 8 ! 1 = m (src div 4 + 9)"
    by (simp add: mram_read_def dma_index add.commute)
  also have "\<dots> = of_nat (8 * k)" using assms(3) by (metis of_nat_unat ucast_id)
  finally have r4: "mram_read m (src + 0x20) 8 ! 1 = of_nat (8 * k)" .
  have "8 * k < 2 ^ 32" using assms(3) u32_bound [of "m (src div 4 + 9)"] by (simp del: u32_bound)
  then show ?thesis
    unfolding ime_copy_sk_def r4 using assms by (intro ime_copy_sk_loop_copies) auto
qed

lemmas stride_list_Suc0 [simp] = stride_list_1 [unfolded One_nat_def]

text \<open>The chunks loaded into instruction memory.\<close>

lemma ldmai_chunks:
  "for_stride 1 0 n (\<lambda>k. ldmai_chunk m (ime_user_start + 256 * k) (a + 2048 * k)) ir
   = (\<lambda>j. if ime_user_start \<le> j \<and> j < ime_user_start + 256 * n
          then read_u64 m (a + 8 * (j - ime_user_start)) else ir j)"
proof (induction n)
  case 0
  show ?case by (auto simp: for_stride_fold fun_eq_iff)
next
  case (Suc n)
  have idx: "a + 2048 * n + 8 * (j - (ime_user_start + 256 * n)) = a + 8 * (j - ime_user_start)"
    if "ime_user_start + 256 * n \<le> j" for j
    using that by (simp add: diff_mult_distrib2)
  show ?case
    using Suc by (auto simp: for_stride_fold stride_list_1 ldmai_chunk_def fun_eq_iff idx)
qed

lemma low_nibble:
  fixes r :: u32
  shows "r AND 0xFFFFFFF0 = 0 \<longleftrightarrow> unat r < 16"
proof -
  have m: "(0xFFFFFFF0 :: u32) = NOT (mask 4)" by (simp add: mask_eq_exp_minus_1)
  have "r AND NOT (mask 4) = 0 \<longleftrightarrow> take_bit 4 r = r"
  proof
    assume h: "r AND NOT (mask 4) = 0"
    have "bit r n \<Longrightarrow> n < 4" for n
      using arg_cong [OF h, of "\<lambda>x. bit x n"] bit_imp_le_length [of r n]
      by (simp only: bit_and_iff bit_not_iff bit_mask_iff possible_bit_word bit_0_eq) auto
    then show "take_bit 4 r = r"
      by (intro bit_word_eqI) (auto simp: bit_take_bit_iff)
  next
    assume h: "take_bit 4 r = r"
    have "bit r n \<Longrightarrow> n < 4" for n
      using arg_cong [OF h, of "\<lambda>x. bit x n"] by (simp only: bit_take_bit_iff) auto
    then show "r AND NOT (mask 4) = 0"
      by (intro bit_word_eqI) (simp only: bit_and_iff bit_not_iff bit_mask_iff bit_0_eq, auto)
  qed
  also have "\<dots> \<longleftrightarrow> unat r < 16"
  proof -
    have "take_bit 4 r = r \<longleftrightarrow> unat r mod 2 ^ 4 = unat r"
      unfolding word_unat_eq_iff unsigned_take_bit_eq by (simp only: take_bit_eq_mod)
    then show ?thesis by (simp add: mod_eq_self_iff_div_eq_0 div_eq_0_iff)
  qed
  finally show ?thesis unfolding m .
qed

section \<open>Authentication and decryption of an image\<close>

text \<open>
  What the image's tag has to be: Poly1305 over the fixed first 32 bytes (magic, tag and IV
  replaced by constants), the rest of the image and the two lengths.
\<close>

definition image_blocks :: "nat \<Rightarrow> cells \<Rightarrow> u32 list list" where
  "image_blocks sk m =
     (let hdr = sk_header m sk; aad = unat (size_aad hdr) div 16; sz = unat (size_total hdr) div 16
      in [[0xA5A5A5A5, 0, 0, 0], [0, 0, 0, 0]] @ map (fetch_sk_chunk m sk) ([2..<aad] @ [aad..<sz])
         @ [[size_aad hdr, 0, size_total hdr - size_aad hdr, 0]])"

definition image_tag :: "chacha_key \<Rightarrow> nat \<Rightarrow> cells \<Rightarrow> u32 list" where
  "image_tag key sk m = poly_tag (chacha20_block (key_words key) 0 (iv (sk_header m sk))) (image_blocks sk m)"

text \<open>The image with the 64-byte blocks behind the authenticated header decrypted.\<close>

definition image_decrypted :: "chacha_key \<Rightarrow> nat \<Rightarrow> cells \<Rightarrow> cells" where
  "image_decrypted key sk m =
     (\<lambda>j. let hdr = sk_header m sk; x = j - sk div 4;
              b = unat (size_aad hdr) div 64; n = unat (size_total hdr) div 64
          in if sk div 4 \<le> j \<and> b \<le> x div 16 \<and> x div 16 < n
             then m j XOR chacha20_block (key_words key) (of_nat (x div 16 - b + 1)) (iv hdr) ! (x mod 16)
             else m j)"

lemma sk_header_iv: "[iv (sk_header m sk) ! 0, iv (sk_header m sk) ! 1, iv (sk_header m sk) ! 2] = iv (sk_header m sk)"
proof -
  have "length xs = 3 \<Longrightarrow> [xs ! 0, xs ! 1, xs ! 2] = xs" for xs :: "u32 list"
    by (auto simp: numeral_3_eq_3 length_Suc_conv)
  moreover have "length (iv (sk_header m sk)) = 3" by (simp add: sk_header_def Let_def mram_read_def)
  ultimately show ?thesis by blast
qed

lemma length_sk_tag [simp]: "length (tag (sk_header m sk)) = 4"
  by (simp add: sk_header_def Let_def mram_read_def)

lemma length_fetch_sk_chunk [simp]: "length (fetch_sk_chunk m sk i) = 4"
  by (simp add: fetch_sk_chunk_def mram_read_def)

lemma length_image_tag: "length (image_tag key sk m) = 4"
  unfolding image_tag_def by (rule length_poly_tag) (auto simp: image_blocks_def Let_def)

lemma length_mram_read [simp]: "length (mram_read m a n) = 2 * (n div 8)"
  by (simp add: mram_read_def)

lemma nth_mram_read: "i < 2 * (n div 8) \<Longrightarrow> mram_read m a n ! i = m (2 * (a div 8) + i)"
  by (simp add: mram_read_def)

lemma cell_offset:
  fixes a x :: nat
  assumes "a mod 8 = 0"
  shows "2 * ((a + 8 * x) div 8) = a div 4 + 2 * x"
proof -
  have "(a + 8 * x) div 8 = a div 8 + x" by simp
  then show ?thesis by (simp add: dma_index [OF assms, symmetric])
qed

lemma xor_sk_chunk_cell:
  assumes "sk mod 8 = 0" "length d = 16"
  shows "xor_sk_chunk sk i d m j =
    (if sk div 4 + 16 * i \<le> j \<and> j < sk div 4 + 16 * i + 16 then m j XOR d ! (j - (sk div 4 + 16 * i)) else m j)"
proof -
  let ?b = "sk div 4 + 16 * i"
  have b: "2 * ((sk + 64 * i) div 8) = ?b" using cell_offset [OF assms(1), of "8 * i"] by simp
  have "xor_sk_chunk sk i d m j =
    (if ?b \<le> j \<and> j < ?b + 16 then map2 (XOR) (mram_read m (sk + 64 * i) 64) d ! (j - ?b) else m j)"
    by (simp add: xor_sk_chunk_def mram_write_def Let_def b)
  moreover have "map2 (XOR) (mram_read m (sk + 64 * i) 64) d ! (j - ?b) = m j XOR d ! (j - ?b)"
    if "?b \<le> j \<and> j < ?b + 16"
  proof -
    have "j - ?b < 16" using that by linarith
    then show ?thesis using that assms(2) by (simp add: nth_mram_read b)
  qed
  ultimately show ?thesis by simp
qed

lemma xor_sk_chunks:
  assumes "sk mod 8 = 0" "\<And>i. length (f i) = 16"
  shows "for_stride 1 b n (\<lambda>i m. xor_sk_chunk sk i (f i) m) m =
    (\<lambda>j. let x = j - sk div 4 in
      if sk div 4 \<le> j \<and> b \<le> x div 16 \<and> x div 16 < n then m j XOR f (x div 16) ! (x mod 16) else m j)"
proof (induction n)
  case 0
  show ?case by (simp add: for_stride_fold fun_eq_iff Let_def)
next
  case (Suc n)
  show ?case
  proof (cases "b \<le> n")
    case False
    then show ?thesis unfolding for_stride_fold stride_list_1 by (auto simp: fun_eq_iff Let_def)
  next
    case True
    let ?g = "for_stride 1 b n (\<lambda>i m. xor_sk_chunk sk i (f i) m) m"
    have "for_stride 1 b (Suc n) (\<lambda>i m. xor_sk_chunk sk i (f i) m) m = xor_sk_chunk sk n (f n) ?g"
      using True by (simp add: for_stride_fold)
    also have "\<dots> = (\<lambda>j. let x = j - sk div 4 in
      if sk div 4 \<le> j \<and> b \<le> x div 16 \<and> x div 16 < Suc n then m j XOR f (x div 16) ! (x mod 16) else m j)"
    proof
      fix j
      define x where "x = j - sk div 4"
      show "xor_sk_chunk sk n (f n) ?g j = (let x = j - sk div 4 in
        if sk div 4 \<le> j \<and> b \<le> x div 16 \<and> x div 16 < Suc n then m j XOR f (x div 16) ! (x mod 16) else m j)"
      proof (cases "sk div 4 \<le> j")
        case False
        then show ?thesis unfolding xor_sk_chunk_cell [OF assms] Suc by (auto simp: Let_def)
      next
        case le: True
        then have j: "j = sk div 4 + x" by (simp add: x_def)
        have r: "sk div 4 + 16 * n \<le> j \<and> j < sk div 4 + 16 * n + 16 \<longleftrightarrow> x div 16 = n"
          unfolding j by auto
        have "x div 16 = n \<Longrightarrow> j - (sk div 4 + 16 * n) = x mod 16"
          unfolding j using mult_div_mod_eq [of 16 x] by auto
        then show ?thesis
          using le True unfolding xor_sk_chunk_cell [OF assms] r Suc Let_def x_def [symmetric]
          by (auto simp: less_Suc_eq)
      qed
    qed
    finally show ?thesis .
  qed
qed

lemma ime_decrypt_verify_eq:
  assumes "sk mod 8 = 0" "length (key_words key) = 8"
  shows "ime_decrypt_verify key sk m =
    (if tag (sk_header m sk) = image_tag key sk m then (True, image_decrypted key sk m) else (False, m))"
proof -
  let ?h = "sk_header m sk"
  have blk: "ime_chacha_blk key c (iv ?h ! 0) (iv ?h ! 1) (iv ?h ! 2) = chacha20_block (key_words key) c (iv ?h)" for c
    using assms(2) by (simp only: ime_chacha_blk_eq sk_header_iv)
  have len: "length (chacha20_block (key_words key) c (iv ?h)) = 16" for c
    using length_ime_chacha_blk [OF assms(2), of c "iv ?h ! 0" "iv ?h ! 1" "iv ?h ! 2"] by (simp only: blk)
  let ?aad = "unat (size_aad ?h)" and ?sz = "unat (size_total ?h)"
  let ?c0 = "poly_feed_block (poly_feed_block (poly_init (chacha20_block (key_words key) 0 (iv ?h))) [0xA5A5A5A5, 0, 0, 0]) [0, 0, 0, 0]"
  have feed: "fst (poly_finalize (poly_feed_block
      (for_stride 1 (?aad div 16) (?sz div 16) (\<lambda>i ctx. poly_feed_block ctx (fetch_sk_chunk m sk i))
        (for_stride 1 2 (?aad div 16) (\<lambda>i ctx. poly_feed_block ctx (fetch_sk_chunk m sk i)) ?c0))
      [size_aad ?h, 0, size_total ?h - size_aad ?h, 0])) = image_tag key sk m"
    by (simp add: image_tag_def image_blocks_def Let_def poly_tag_def poly_feed_all_def for_stride_fold fold_map o_def)
  have eq4: "t ! 0 = u ! 0 \<and> t ! 1 = u ! 1 \<and> t ! 2 = u ! 2 \<and> t ! 3 = u ! 3 \<longleftrightarrow> u = t"
    if "length t = 4" "length u = 4" for t u :: "u32 list"
  proof -
    have "u = t \<longleftrightarrow> (\<forall>i \<in> {0, 1, 2, 3}. u ! i = t ! i)"
      using that by (auto simp: list_eq_iff_nth_eq less_Suc_eq numeral_eq_Suc)
    then show ?thesis by auto
  qed
  have dec: "for_stride 1 (?aad div 64) (?sz div 64)
      (\<lambda>i. xor_sk_chunk sk i (chacha20_block (key_words key) (of_nat (i - ?aad div 64 + 1)) (iv ?h))) m
    = image_decrypted key sk m"
    using xor_sk_chunks [OF assms(1) len, of "?aad div 64" "?sz div 64"
      "\<lambda>i. of_nat (i - ?aad div 64 + 1)" m] by (simp add: image_decrypted_def Let_def)
  show ?thesis
    unfolding ime_decrypt_verify_def Let_def blk feed eq4 [OF length_image_tag length_sk_tag] dec
    by simp
qed

lemma mram_read_tag_field:
  assumes "sk mod 8 = 0"
  shows "mram_read m (sk + 4) 16 = magic (sk_header m sk) # take 3 (tag (sk_header m sk))"
proof -
  have "(sk + 4) div 8 = sk div 8" using assms by (auto simp: mod_eq_0_iff_dvd elim!: dvdE)
  then show ?thesis by (simp add: mram_read_def sk_header_def Let_def upt_rec)
qed

lemma length_4_conv: "length xs = 4 \<longleftrightarrow> (\<exists>a b c d. xs = [a, b, c, d])"
  by (auto simp: numeral_eq_Suc length_Suc_conv)

lemma list4_eq: "t ! 0 \<noteq> a \<or> t ! 1 \<noteq> b \<or> t ! 2 \<noteq> c \<or> t ! 3 \<noteq> d \<longleftrightarrow> map ((!) t) [0..<4] \<noteq> [a, b, c, d]"
  by (simp add: upt_rec numeral_eq_Suc)

lemma ime_scan_sk_returns:
  assumes "sk mod 8 = 0" "unat (text_size (sk_header m sk)) < 2 ^ 24"
  shows "ime_scan_sk me sk m = Some
        (if \<exists>k < 256 * unat (text_size (sk_header m sk)). banned (sk_body m sk (of_nat k))
         then Inl ime_sec_fault else if me = 0 then Inr () else Inl ime_sec_fault)"
proof -
  let ?n = "ucast (text_size (sk_header m sk)) * 256 :: u64"
  have n: "unat ?n = unat (text_size (sk_header m sk)) * 256" by (rule scan_bound)
  have "ime_scan_loop m sk ?n 0 = Some
        (if \<exists>k < 256 * unat (text_size (sk_header m sk)). banned (sk_body m sk (of_nat k))
         then Inl ime_sec_fault else Inr ())"
    using scan_loop_returns [of ?n 0 m sk] assms(2) by (simp add: n mult.commute)
  then show ?thesis
    by (simp add: ime_scan_sk_def Let_def scan_bound_field [OF assms(1)] ime_check_system_def)
qed

section \<open>Properties of the pieces\<close>

text \<open>
  C3: With its tag pointer null, the loader's \<open>ime_decrypt_sk\<close> accepts an image exactly when the tag in
  its header is the Poly1305 tag of the image under the one-time key, and then leaves in MRAM
  the image with the blocks behind \<open>size_aad\<close> decrypted. With an expected tag it also demands
  that the four expected words are the header's magic number and the first three
  words of its tag, because the DMA address of the tag field is rounded down.
\<close>

theorem ime_decrypt_sk_result:
  assumes "sk mod 8 = 0" "length (key_words key) = 8"
  shows "ime_decrypt_sk me expected key sk m =
    (if me = 0
        \<and> (\<forall>t. expected = Some t \<longrightarrow> map ((!) t) [0..<4] = magic (sk_header m sk) # take 3 (tag (sk_header m sk)))
        \<and> tag (sk_header m sk) = image_tag key sk m
     then Inr (image_decrypted key sk m) else Inl ime_sec_fault)"
proof -
  let ?h = "sk_header m sk"
  obtain a b c d where t: "tag ?h = [a, b, c, d]"
    using length_sk_tag [of m sk] unfolding length_4_conv by blast
  have E: "(t ! 0 \<noteq> (magic ?h # take 3 (tag ?h)) ! 0 \<or> t ! 1 \<noteq> (magic ?h # take 3 (tag ?h)) ! 1
      \<or> t ! 2 \<noteq> (magic ?h # take 3 (tag ?h)) ! 2 \<or> t ! 3 \<noteq> (magic ?h # take 3 (tag ?h)) ! 3)
    \<longleftrightarrow> map ((!) t) [0..<4] \<noteq> magic ?h # take 3 (tag ?h)" for t
    using list4_eq [of t "magic ?h" a b c] by (simp add: t)
  show ?thesis
    unfolding ime_decrypt_sk_def Let_def mram_read_tag_field [OF assms(1)] ime_decrypt_verify_eq [OF assms] E
    by (cases expected; cases "me = 0"; cases "tag ?h = image_tag key sk m") (simp_all add: ime_check_system_def)
qed

theorem ime_decrypt_sk_result_witness:
  "ime_decrypt_sk 0 (Some [0xA5A5A5A5, 1, 2, 4]) (User_Key (replicate 8 1)) 128
     ((\<lambda>_. 0)(32 := 0xA5A5A5A5, 33 := 1, 34 := 2, 35 := 3, 36 := 4)) = Inl ime_sec_fault"
  by (subst ime_decrypt_sk_result) (simp_all add: sk_header_def mram_read_def Let_def upt_rec)



section \<open>Replacing a subkernel\<close>

lemma wipe_mram [simp]:
  "mram (ime_wipe_user r s) = mram s" "iram (ime_wipe_user r s) = iram s" "running (ime_wipe_user r s) = running s"
  by (simp_all add: ime_wipe_user_def Let_def)

lemma load_wram_Inr:
  "ime_load_wram sk s = Inr s' \<Longrightarrow> mram s' = mram s \<and> iram s' = iram s \<and> running s' = running s"
  by (auto simp: ime_load_wram_def Let_def split: if_splits)

lemma load_iram_Inr:
  assumes "sk mod 8 = 0"
  shows "ime_load_iram sk s = Inr s' \<longleftrightarrow>
    (let n = unat (text_size (sk_header (mram s) sk)) in
      0 < n \<and> n < 16 \<and> s' = s\<lparr>iram := (\<lambda>j. if ime_user_start \<le> j \<and> j < ime_user_start + 256 * n
          then read_u64 (mram s) (sk + 64 + 8 * (j - ime_user_start)) else iram s j)\<rparr>)"
proof -
  have "2 * ((sk + 40) div 8) = sk div 4 + 10" using assms by (auto simp: mod_eq_0_iff_dvd elim!: dvdE)
  then have "mram_read (mram s) (sk + 40) 8 ! 0 = text_size (sk_header (mram s) sk)"
    by (simp add: mram_read_def text_size_header [OF assms])
  then show ?thesis
    unfolding ime_load_iram_def Let_def
    by (auto simp: low_nibble ldmai_chunks unat_gt_0 unat_eq_0 word_neq_0_conv simp del: One_nat_def)
qed

text \<open>The stages of a replacement that ends well.\<close>

lemma load_iram_keeps:
  "ime_load_iram sk s = Inr s' \<Longrightarrow> mram s' = mram s \<and> wram_cells s' = wram_cells s"
  by (auto simp: ime_load_iram_def Let_def split: if_splits)

lemma ime_replace_sk_stages:
  assumes "ime_replace_sk me sys_key stk sk t k w s = Some (Inr s')"
  shows "\<exists>m1 m2 s0 s1 s2 m3 expected.
      running s \<inter> {1..<NR_TASKLETS} = {}
    \<and> ime_push_sk sk (mram s) = Some m1
    \<and> ime_decrypt_sk me expected
         (selected_key sys_key k ((wram_cells (ime_wipe_user w s))(STACK_CANARY := 0xef11b0d9))) sk m1 = Inr m2
    \<and> ime_scan_sk me sk m2 = Some (Inr ())
    \<and> mram s0 = m2 \<and> iram s0 = iram s
    \<and> wram_cells s0 = stack_overlay stk ((wram_cells (ime_wipe_user w s))(STACK_CANARY := 0xef11b0d9))
    \<and> ime_load_wram sk s0 = Inr s1 \<and> ime_load_iram sk s1 = Inr s2
    \<and> ime_pop_sk sk m2 = Some m3
    \<and> s' = s2\<lparr>mram := m3, running := {0..<NR_TASKLETS}\<rparr>"
proof -
  let ?s = "ime_wipe_user w s"
  let ?w = "(wram_cells ?s)(STACK_CANARY := 0xef11b0d9)"
  let ?d = "ime_decrypt_sk me (expected_tag t ?w) (selected_key sys_key k ?w) sk"
  let ?s0 = "\<lambda>m2. ?s\<lparr>mram := m2, wram_cells := stack_overlay stk ?w\<rparr>"
  obtain m1 m2 s1 s2 m3 where
    *: "running s \<inter> {1..<NR_TASKLETS} = {}" "ime_push_sk sk (mram s) = Some m1" "?d m1 = Inr m2"
      "ime_scan_sk me sk m2 = Some (Inr ())" "ime_load_wram sk (?s0 m2) = Inr s1" "ime_load_iram sk s1 = Inr s2"
      "ime_pop_sk sk (mram s2) = Some m3" "s' = s2\<lparr>mram := m3, running := {0..<NR_TASKLETS}\<rparr>"
    using assms by (auto simp: ime_replace_sk_def tl_bind_Inr ime_check_threads_def Let_def split: if_splits)
  have "mram s2 = m2" using load_wram_Inr [OF *(5)] load_iram_keeps [OF *(6)] by simp
  then show ?thesis
    using * by (intro exI [of _ m1] exI [of _ m2] exI [of _ "?s0 m2"] exI [of _ s1] exI [of _ s2] exI [of _ m3]
        exI [of _ "expected_tag t ?w"]) simp
qed

lemma scan_passed:
  assumes "sk mod 8 = 0" "sk < 2 ^ 26" "ime_scan_sk me sk m = Some (Inr ())"
    and "unat (text_size (sk_header m sk)) < 16" "k < 256 * unat (text_size (sk_header m sk))"
  shows "me = 0 \<and> \<not> banned (read_u64 m (sk + 64 + 8 * k))"
proof -
  have me: "me = 0" using assms(3) by (auto simp: ime_scan_sk_def Let_def ime_check_system_def split: option.splits sum.splits if_splits)
  have "\<not> banned (sk_body m sk (of_nat k))"
    using assms ime_scan_sk_returns [OF assms(1), of m me] by (auto simp: me split: if_splits)
  moreover have "sk_body m sk (of_nat k) = read_u64 m (sk + 64 + 8 * k)"
  proof -
    have "k < 4096" using assms(4,5) by linarith
    then have "unat (of_nat k :: u32) = k" by (simp add: unat_of_nat take_bit_nat_eq_self)
    then show ?thesis using \<open>k < 4096\<close> assms(2) by (simp add: sk_body_def)
  qed
  ultimately show ?thesis using me by simp
qed


definition iram_safe :: "tl_state \<Rightarrow> bool" where
  "iram_safe s \<longleftrightarrow> (\<forall>j \<ge> ime_user_start. \<not> banned (iram s j))"

text \<open>
  C1: Safety of instruction memory: whatever image is loaded, a replacement that ends well leaves no banned
  instruction (IRAM load, thread control, a write to the registers 20 and 21) at or above the
  user start if there was none before, and does not touch the loader's own code below it.
\<close>

theorem ime_replace_sk_iram_safe:
  assumes "ime_replace_sk me sys_key stk sk t k w s = Some (Inr s')"
    and "sk mod 8 = 0" "sk < 2 ^ 26" "iram_safe s"
  shows "iram_safe s' \<and> (\<forall>j < ime_user_start. iram s' j = iram s j)"
proof -
  obtain m2 s0 s1 s2 m3 where
    scan: "ime_scan_sk me sk m2 = Some (Inr ())" and s0: "mram s0 = m2" "iram s0 = iram s"
    and ld: "ime_load_wram sk s0 = Inr s1" "ime_load_iram sk s1 = Inr s2"
    and s': "s' = s2\<lparr>mram := m3, running := {0..<NR_TASKLETS}\<rparr>"
    using ime_replace_sk_stages [OF assms(1)] by blast
  have s1: "mram s1 = m2" "iram s1 = iram s" using load_wram_Inr [OF ld(1)] s0 by simp_all
  let ?n = "unat (text_size (sk_header m2 sk))"
  have n: "?n < 16" and ir: "iram s' = (\<lambda>j. if ime_user_start \<le> j \<and> j < ime_user_start + 256 * ?n
          then read_u64 m2 (sk + 64 + 8 * (j - ime_user_start)) else iram s j)"
    using ld(2) s1 by (auto simp: load_iram_Inr [OF assms(2)] Let_def s')
  have "\<not> banned (iram s' j)" if j: "ime_user_start \<le> j" for j
  proof (cases "j < ime_user_start + 256 * ?n")
    case True
    then have "j - ime_user_start < 256 * ?n" using j by linarith
    then show ?thesis
      using scan_passed [OF assms(2,3) scan n, of "j - ime_user_start"] True j by (simp add: ir)
  next
    case False
    then show ?thesis using assms(4) j by (simp add: ir iram_safe_def)
  qed
  then show ?thesis by (auto simp: iram_safe_def ir)
qed

lemma ime_wipe_loop_cells:
  "0 \<le> r0 \<Longrightarrow> ime_wipe_loop r0 w = (\<lambda>j. if j \<le> nat r0 div 4 then 0 else w j)"
proof (induction r0 w rule: ime_wipe_loop.induct)
  case (1 r0 w)
  let ?w = "w(nat r0 div 4 := 0)"
  show ?case
  proof (cases "0 \<le> r0 - 4")
    case True
    have "nat (r0 - 4) div 4 = nat r0 div 4 - 1" "0 < nat r0 div 4" using True by linarith+
    moreover have "ime_wipe_loop (r0 - 4) ?w = (\<lambda>j. if j \<le> nat (r0 - 4) div 4 then 0 else ?w j)"
      using True by (intro "1.IH" [OF refl refl]) auto
    ultimately show ?thesis
      using True by (subst ime_wipe_loop.simps) (auto simp: Let_def fun_eq_iff)
  next
    case False
    then have "nat r0 div 4 = 0" by linarith
    then show ?thesis using False by (subst ime_wipe_loop.simps) (auto simp: Let_def fun_eq_iff)
  qed
qed

lemma wipe_cells:
  assumes "unat r17 < 2 ^ 31"
  shows "wram_cells (ime_wipe_user r17 s) = (\<lambda>j. if j < unat r17 div 4 then 0 else wram_cells s j)"
proof (cases "4 \<le> unat r17")
  case True
  have u: "unat (r17 - 4) = unat r17 - 4"
    using True by (subst unat_sub) (simp_all add: word_le_nat_alt)
  have s: "sint (r17 - 4) = int (unat r17 - 4)"
  proof -
    have "uint (r17 - 4) = int (unat (r17 - 4))" by simp
    then have "uint (r17 - 4) = int (unat r17 - 4)" by (simp only: u)
    then show ?thesis
      using assms by (simp add: sint_uint signed_take_bit_int_eq_self)
  qed
  have e: "j \<le> (unat r17 - 4) div 4 \<longleftrightarrow> j < unat r17 div 4" for j using True by linarith
  have "0 \<le> int (unat r17 - 4)" by simp
  then show ?thesis
    unfolding ime_wipe_user_def Let_def s ime_wipe_loop_cells [OF \<open>0 \<le> int (unat r17 - 4)\<close>] nat_int e by simp
next
  case False
  then have "unat r17 \<in> {0, 1, 2, 3}" by auto
  moreover have "sint (of_nat n - 4 :: u32) < 0" if "n \<in> {0, 1, 2, 3}" for n
    using that by auto
  ultimately have "sint (of_nat (unat r17) - 4 :: u32) < 0" by blast
  then have "sint (r17 - 4) < 0" by simp
  moreover have "unat r17 div 4 = 0" using False by simp
  ultimately show ?thesis by (simp add: ime_wipe_user_def Let_def)
qed

text \<open>A DMA transfer from MRAM to WRAM.\<close>

lemma ldma_cells:
  assumes "a mod 8 = 0" "n mod 8 = 0"
  shows "wram_store (mram_read m a n) b n w =
    (\<lambda>j. if b div 4 \<le> j \<and> j < b div 4 + n div 4 then m (a div 4 + (j - b div 4)) else w j)"
  using assms by (auto simp: wram_store_def mram_read_def Let_def fun_eq_iff dma_index)

lemma data_chunks:
  assumes "r1 mod 8 = 0"
  shows "for_stride 1 0 n (\<lambda>k w. wram_store (mram_read m (r1 + 2048 * k) 2048) (2048 * k) 2048 w) w
   = (\<lambda>j. if j < 512 * n then m (r1 div 4 + j) else w j)"
proof (induction n)
  case 0
  show ?case by (simp add: for_stride_fold fun_eq_iff)
next
  case (Suc n)
  have "(r1 + 8 * (256 * n)) mod 8 = r1 mod 8" "(r1 + 4 * (512 * n)) div 4 = r1 div 4 + 512 * n"
    by (simp_all only: mod_mult_self2 div_mult_self2 zero_neq_numeral not_False_eq_True add.commute)
  then have a: "(r1 + 2048 * n) mod 8 = 0" "(r1 + 2048 * n) div 4 = r1 div 4 + 512 * n"
    using assms by simp_all
  have st: "wram_store (mram_read m (r1 + 2048 * n) 2048) (2048 * n) 2048 w
    = (\<lambda>j. if 512 * n \<le> j \<and> j < 512 * n + 512 then m (r1 div 4 + j) else w j)" for w
    by (subst ldma_cells [OF a(1)]) (auto simp: a(2) fun_eq_iff)
  have "for_stride 1 0 (Suc n) (\<lambda>k w. wram_store (mram_read m (r1 + 2048 * k) 2048) (2048 * k) 2048 w) w
    = wram_store (mram_read m (r1 + 2048 * n) 2048) (2048 * n) 2048
        (for_stride 1 0 n (\<lambda>k w. wram_store (mram_read m (r1 + 2048 * k) 2048) (2048 * k) 2048 w) w)"
    by (simp add: for_stride_fold)
  then show ?case unfolding Suc st by (auto simp: fun_eq_iff)
qed

lemma ime_load_wram_eq:
  assumes "sk mod 8 = 0"
  shows "ime_load_wram sk s =
    (let h = sk_header (mram s) sk; b = sk div 4 + 16 + 512 * unat (text_size h)
     in if magic h \<noteq> 0xA5A5A5A5 then Inl ime_sanity_fault
        else Inr (s\<lparr>wram_cells := (\<lambda>j. if j < 512 * unat (data_size h) then mram s (b + j)
                   else if j < 16 then mram s (sk div 4 + j) else wram_cells s j)\<rparr>))"
proof -
  let ?m = "mram s"
  have h: "wram_store (mram_read ?m sk 64) 0 64 w = (\<lambda>j. if j < 16 then ?m (sk div 4 + j) else w j)" for w
    by (subst ldma_cells [OF assms]) (auto simp: fun_eq_iff)
  have f: "magic (sk_header ?m sk) = ?m (sk div 4)" "text_size (sk_header ?m sk) = ?m (sk div 4 + 10)"
    "data_size (sk_header ?m sk) = ?m (sk div 4 + 11)"
    by (simp_all add: sk_header_def Let_def mram_read_def dma_index [OF assms])
  let ?r = "sk + 64 + unat (?m (sk div 4 + 10)) * 2048"
  define t where "t = unat (?m (sk div 4 + 10))"
  have "?r = sk + 8 * (8 + t * 256)" "?r = sk + 4 * (16 + t * 512)" by (simp_all add: t_def)
  then have r: "?r mod 8 = 0" "?r div 4 = sk div 4 + 16 + 512 * unat (?m (sk div 4 + 10))"
    using assms by (simp_all only: mod_mult_self2 div_mult_self2 zero_neq_numeral not_False_eq_True t_def)
  show ?thesis
    unfolding ime_load_wram_def h Let_def f
    using data_chunks [OF r(1), of "unat (?m (sk div 4 + 11))" ?m, unfolded r(2)] by (simp del: One_nat_def)
qed

text \<open>
  A well-formed image at \<open>sk\<close>: below the scratch area, a size that is a multiple of eight, the
  magic number, one to fifteen chunks of text and the chunks of data within the image, and no banned
  instruction in the decrypted text.
\<close>

definition image_ok :: "chacha_key \<Rightarrow> nat \<Rightarrow> cells \<Rightarrow> bool" where
  "image_ok key sk m \<longleftrightarrow>
     (let h = sk_header m sk; n = unat (text_size h); sz = unat (size_total h) in
      sk mod 8 = 0 \<and> sz mod 8 = 0 \<and> sk + sz \<le> ime_scratch_a \<and> 64 + 2048 * (n + unat (data_size h)) \<le> sz
      \<and> 64 \<le> unat (size_aad h) \<and> unat (size_aad h) \<le> sz
      \<and> magic h = 0xA5A5A5A5 \<and> 1 \<le> n \<and> n < 16 \<and> tag h = image_tag key sk m
      \<and> (\<forall>i < 256 * n. \<not> banned (read_u64 (image_decrypted key sk m) (sk + 64 + 8 * i))))"

text \<open>A copy elsewhere changes neither the header nor the blocks of an image.\<close>

lemma sk_header_cong:
  assumes "sk mod 8 = 0" "\<And>j. j < 16 \<Longrightarrow> m (sk div 4 + j) = m' (sk div 4 + j)"
  shows "sk_header m sk = sk_header m' sk"
proof -
  have "mram_read m sk 64 = mram_read m' sk 64"
    using assms by (simp add: mram_read_def dma_index)
  then show ?thesis by (simp add: sk_header_def)
qed

lemma fetch_sk_chunk_cong:
  assumes "sk mod 8 = 0" "\<And>j. j < 4 \<Longrightarrow> m (sk div 4 + 4 * i + j) = m' (sk div 4 + 4 * i + j)"
  shows "fetch_sk_chunk m sk i = fetch_sk_chunk m' sk i"
proof -
  have "2 * ((sk + 16 * i) div 8) = sk div 4 + 4 * i" using assms(1) by (auto simp: mod_eq_0_iff_dvd elim!: dvdE)
  then show ?thesis using assms(2) by (simp add: fetch_sk_chunk_def mram_read_def)
qed

lemma image_cong:
  assumes sk: "sk mod 8 = 0"
    and sz: "sz = unat (size_total (sk_header m sk))" "64 \<le> sz" "unat (size_aad (sk_header m sk)) \<le> sz"
    and eq: "\<And>j. j < sz div 4 \<Longrightarrow> m (sk div 4 + j) = m' (sk div 4 + j)"
  shows "sk_header m' sk = sk_header m sk" "image_tag key sk m' = image_tag key sk m"
proof -
  show h: "sk_header m' sk = sk_header m sk"
    using sk eq sz(2) by (intro sk_header_cong) auto
  have "fetch_sk_chunk m' sk i = fetch_sk_chunk m sk i" if "i < sz div 16" for i
  proof (rule fetch_sk_chunk_cong [OF sk])
    fix j :: nat
    assume "j < 4"
    then show "m' (sk div 4 + 4 * i + j) = m (sk div 4 + 4 * i + j)"
      using eq [of "4 * i + j"] that by (simp add: add.assoc)
  qed
  then show "image_tag key sk m' = image_tag key sk m"
    using sz by (auto simp: image_tag_def image_blocks_def Let_def h intro!: arg_cong2 [where f = poly_tag])
qed


lemma image_decrypted_outside:
  "j < sk div 4 \<or> sk div 4 + unat (size_total (sk_header m sk)) div 4 \<le> j \<Longrightarrow> image_decrypted key sk m j = m j"
  by (auto simp: image_decrypted_def Let_def)

lemma image_decrypted_header:
  assumes "64 \<le> unat (size_aad (sk_header m sk))" "j < 16"
  shows "image_decrypted key sk m (sk div 4 + j) = m (sk div 4 + j)"
  using assms by (auto simp: image_decrypted_def Let_def)

lemma image_decrypted_cong:
  "sk_header m' sk = sk_header m sk \<Longrightarrow> m' j = m j \<Longrightarrow> image_decrypted key sk m' j = image_decrypted key sk m j"
  by (simp add: image_decrypted_def Let_def)

lemma read_u64_cong:
  "m (2 * (a div 8)) = m' (2 * (a div 8)) \<Longrightarrow> m (2 * (a div 8) + 1) = m' (2 * (a div 8) + 1) \<Longrightarrow>
   read_u64 m a = read_u64 m' a"
  by (simp add: read_u64_def mram_read_def Let_def)

lemma body_index:
  fixes sk i :: nat
  assumes "sk mod 8 = 0"
  shows "2 * ((sk + 64 + 8 * i) div 8) = sk div 4 + (16 + 2 * i)"
  using cell_offset [OF assms, of "8 + i"] by (simp add: algebra_simps)

text \<open>Pushing, verifying, decrypting and popping a well-formed image.\<close>

lemma image_pushed:
  assumes ok: "image_ok key sk m" and key: "length (key_words key) = 8"
  defines "k \<equiv> unat (size_total (sk_header m sk)) div 8"
  defines "m1 \<equiv> copied (sk div 4) (ime_scratch_a div 4) (2 * k) m"
  shows "ime_push_sk sk m = Some m1"
    and "ime_decrypt_sk 0 None key sk m1 = Inr (image_decrypted key sk m1)"
    and "sk_header (image_decrypted key sk m1) sk = sk_header m sk"
    and "\<And>j. j < 2 * k \<Longrightarrow> image_decrypted key sk m1 (sk div 4 + j) = image_decrypted key sk m (sk div 4 + j)"
    and "ime_pop_sk sk (image_decrypted key sk m1) = Some m1"
proof -
  let ?h = "sk_header m sk" and ?A = "ime_scratch_a div 4"
  have sk: "sk mod 8 = 0" and sz: "unat (size_total ?h) = 8 * k" and fit: "sk + 8 * k \<le> ime_scratch_a"
    and big: "64 \<le> 8 * k" and aad: "64 \<le> unat (size_aad ?h)" "unat (size_aad ?h) \<le> 8 * k"
    and tag: "tag ?h = image_tag key sk m"
    using ok unfolding image_ok_def Let_def k_def by auto
  have A: "ime_scratch_a mod 8 = 0" by (simp add: ime_scratch_a_def)
  have "sk div 4 + 2 * k = (sk + (2 * k) * 4) div 4" by (subst div_mult_self1) simp_all
  also have "\<dots> \<le> ?A" using fit by (intro div_le_mono) simp
  finally have below: "sk div 4 + 2 * k \<le> ?A" .
  have szf: "size_total ?h = m (sk div 4 + 9)"
    by (simp add: sk_header_def Let_def mram_read_def dma_index [OF sk])
  show "ime_push_sk sk m = Some m1"
    unfolding ime_push_sk_def m1_def using sk A sz szf big fit by (intro ime_copy_sk_copies) auto
  have eq: "m (sk div 4 + j) = m1 (sk div 4 + j)" if "j < 2 * k" for j
    using that below by (simp add: m1_def copied_def)
  have cong: "sk_header m1 sk = ?h" "image_tag key sk m1 = image_tag key sk m"
    using image_cong(1) [OF sk, of "8 * k" m m1] image_cong(2) [OF sk, of "8 * k" m m1 key] sz big aad eq by auto
  show "ime_decrypt_sk 0 None key sk m1 = Inr (image_decrypted key sk m1)"
    using ime_decrypt_verify_eq [OF sk key, of m1] tag by (simp add: ime_decrypt_sk_def ime_check_system_def cong)
  let ?d = "image_decrypted key sk m1"
  show hd: "sk_header ?d sk = ?h"
    using sk aad eq big by (intro sk_header_cong) (simp_all add: image_decrypted_header cong)
  show "?d (sk div 4 + j) = image_decrypted key sk m (sk div 4 + j)" if "j < 2 * k" for j
    using eq [OF that] cong by (intro image_decrypted_cong) simp_all
  have out: "?d j = m1 j" if "j < sk div 4 \<or> sk div 4 + 2 * k \<le> j" for j
    using that by (intro image_decrypted_outside) (simp add: cong sz)
  have "?d (?A + 9) = size_total ?h"
    using out below big by (simp add: m1_def copied_def szf)
  then have "ime_pop_sk sk ?d = Some (copied ?A (sk div 4) (2 * k) ?d)"
    unfolding ime_pop_sk_def using sk A sz big fit by (intro ime_copy_sk_copies) auto
  also have "copied ?A (sk div 4) (2 * k) ?d = m1"
  proof
    fix j
    show "copied ?A (sk div 4) (2 * k) ?d j = m1 j"
    proof (cases "sk div 4 \<le> j \<and> j < sk div 4 + 2 * k")
      case True
      define y where "y = j - sk div 4"
      have y: "j = sk div 4 + y" "y < 2 * k" using True by (auto simp: y_def)
      have "copied ?A (sk div 4) (2 * k) ?d j = ?d (?A + y)" using y by (simp add: copied_def)
      also have "\<dots> = m1 (?A + y)" using below by (intro out) simp
      also have "\<dots> = m j" using y by (simp add: m1_def copied_def)
      finally show ?thesis using eq [OF y(2)] y(1) by simp
    next
      case False
      then show ?thesis using out [of j] by (auto simp: copied_def)
    qed
  qed
  finally show "ime_pop_sk sk ?d = Some m1" .
qed

lemma tl_bind_ok [simp]: "tl_bind (Some (Inr x)) f = f x"
  by (simp add: tl_bind_def)

text \<open>The result of loading a well-formed image with the tag pointer null.\<close>

definition replaced_state :: "chacha_key \<Rightarrow> cells \<Rightarrow> nat \<Rightarrow> u32 \<Rightarrow> tl_state \<Rightarrow> tl_state" where
  "replaced_state key stk sk w s =
     (let h = sk_header (mram s) sk; n = unat (text_size h);
          d = image_decrypted key sk (mram s);
          wiped = (\<lambda>j. if j < unat w div 4 then 0 else wram_cells s j)
      in \<lparr>mram = copied (sk div 4) (ime_scratch_a div 4) (2 * (unat (size_total h) div 8)) (mram s),
          wram_cells = (\<lambda>j. if j < 512 * unat (data_size h) then d (sk div 4 + 16 + 512 * n + j)
             else if j < 16 then d (sk div 4 + j) else stack_overlay stk (wiped(STACK_CANARY := 0xef11b0d9)) j),
          iram = (\<lambda>j. if ime_user_start \<le> j \<and> j < ime_user_start + 256 * n
             then read_u64 d (sk + 64 + 8 * (j - ime_user_start)) else iram s j),
          running = {0..<NR_TASKLETS}\<rparr>)"

lemma read_body:
  assumes "sk mod 8 = 0"
  shows "read_u64 m (sk + 64 + 8 * i) =
    ucast (m (sk div 4 + (16 + 2 * i))) OR push_bit 32 (ucast (m (sk div 4 + (16 + 2 * i + 1))))"
proof -
  have "mram_read m (sk + 64 + 8 * i) 8 ! 0 = m (sk div 4 + (16 + 2 * i) + 0)"
    "mram_read m (sk + 64 + 8 * i) 8 ! 1 = m (sk div 4 + (16 + 2 * i) + 1)"
    by (subst nth_mram_read, simp, simp only: body_index [OF assms])+
  then show ?thesis by (simp only: read_u64_def Let_def add.assoc add_0_right)
qed

lemma ime_replace_sk_loads:
  assumes key: "key = selected_key sys_key k ((wram_cells (ime_wipe_user w s))(STACK_CANARY := 0xef11b0d9))"
    and ok: "image_ok key sk (mram s)" "length (key_words key) = 8"
    and idle: "running s \<inter> {1..<NR_TASKLETS} = {}" and w: "unat w < 2 ^ 31"
    and canary: "stk STACK_CANARY = 0xef11b0d9"
  shows "ime_replace_sk 0 sys_key stk sk 0 k w s = Some (Inr (replaced_state key stk sk w s))"
proof -
  let ?m = "mram s" and ?h = "sk_header (mram s) sk"
  let ?k = "unat (size_total ?h) div 8" and ?n = "unat (text_size ?h)" and ?d = "unat (data_size ?h)"
  let ?m1 = "copied (sk div 4) (ime_scratch_a div 4) (2 * ?k) ?m"
  let ?m2 = "image_decrypted key sk ?m1" and ?D = "image_decrypted key sk ?m"
  note push = image_pushed [OF ok]
  have sk: "sk mod 8 = 0" and n: "1 \<le> ?n" "?n < 16" and magic: "magic ?h = 0xA5A5A5A5"
    and fit: "64 + 2048 * (?n + ?d) \<le> unat (size_total ?h)" "sk + unat (size_total ?h) \<le> ime_scratch_a"
    and clean: "\<And>i. i < 256 * ?n \<Longrightarrow> \<not> banned (read_u64 ?D (sk + 64 + 8 * i))"
    using ok(1) unfolding image_ok_def Let_def by auto
  have size: "16 + 512 * (?n + ?d) \<le> 2 * ?k" using fit(1) ok(1) unfolding image_ok_def Let_def by auto
  have body: "read_u64 ?m2 (sk + 64 + 8 * i) = read_u64 ?D (sk + 64 + 8 * i)" if "i < 256 * ?n" for i
  proof -
    have "16 + 2 * i + 1 < 16 + 512 * (?n + ?d)" using that by (simp add: distrib_left)
    then have "16 + 2 * i + 1 < 2 * ?k" using size by (rule less_le_trans)
    then show ?thesis
      unfolding read_body [OF sk] by (simp only: push(4))
  qed
  have scan: "ime_scan_sk 0 sk ?m2 = Some (Inr ())"
  proof -
    have "\<not> banned (sk_body ?m2 sk (of_nat i))" if i: "i < 256 * ?n" for i
    proof -
      have "i < 4096" using i n by linarith
      then have "unat (of_nat i :: u32) = i" by (simp add: unat_of_nat take_bit_nat_eq_self)
      then have "sk_body ?m2 sk (of_nat i) = read_u64 ?m2 (sk + 64 + 8 * i)"
        using \<open>i < 4096\<close> fit(2) by (simp add: sk_body_def ime_scratch_a_def)
      then show ?thesis using clean [OF i] body [OF i] by simp
    qed
    then show ?thesis using ime_scan_sk_returns [OF sk, of ?m2 0] n by (auto simp: push(3))
  qed
  let ?w = "stack_overlay stk ((wram_cells (ime_wipe_user w s))(STACK_CANARY := 0xef11b0d9))"
  let ?s0 = "(ime_wipe_user w s)\<lparr>mram := ?m2, wram_cells := ?w\<rparr>"
  let ?W = "\<lambda>j. if j < 512 * ?d then ?D (sk div 4 + 16 + 512 * ?n + j) else if j < 16 then ?D (sk div 4 + j) else ?w j"
  have W: "(\<lambda>j. if j < 512 * ?d then ?m2 (sk div 4 + 16 + 512 * ?n + j)
                   else if j < 16 then ?m2 (sk div 4 + j) else ?w j) = ?W"
    using size by (auto simp: fun_eq_iff push(4) add.assoc)
  have wram: "ime_load_wram sk ?s0 = Inr (?s0\<lparr>wram_cells := ?W\<rparr>)"
  proof -
    have "mram ?s0 = ?m2" "wram_cells ?s0 = ?w" by simp_all
    then show ?thesis
      unfolding ime_load_wram_eq [OF sk] Let_def by (simp only: push(3) W magic simp_thms if_False)
  qed
  let ?I = "\<lambda>j. if ime_user_start \<le> j \<and> j < ime_user_start + 256 * ?n
             then read_u64 ?D (sk + 64 + 8 * (j - ime_user_start)) else iram s j"
  have I: "(\<lambda>j. if ime_user_start \<le> j \<and> j < ime_user_start + 256 * ?n
             then read_u64 ?m2 (sk + 64 + 8 * (j - ime_user_start)) else iram s j) = ?I"
    by (auto simp: fun_eq_iff intro!: body)
  let ?s1 = "(ime_wipe_user w s)\<lparr>mram := ?m2, wram_cells := ?W\<rparr>"
  have iram: "ime_load_iram sk ?s1 = Inr (?s1\<lparr>iram := ?I\<rparr>)"
  proof -
    have "mram ?s1 = ?m2" "iram ?s1 = iram s" by simp_all
    moreover have "0 < ?n" using n by simp
    ultimately show ?thesis
      unfolding load_iram_Inr [OF sk] Let_def by (simp only: push(3) I n simp_thms)
  qed
  have "ime_replace_sk 0 sys_key stk sk 0 k w s
    = Some (Inr (?s0\<lparr>mram := ?m1, wram_cells := ?W, iram := ?I, running := {0..<NR_TASKLETS}\<rparr>))"
  proof -
    have c: "?w STACK_CANARY = 0xef11b0d9" using canary by (simp add: stack_overlay_def)
    have t: "ime_check_threads s = Some (Inr s)" using idle by (simp add: ime_check_threads_def)
    show ?thesis
      unfolding ime_replace_sk_def t tl_bind_ok Let_def expected_tag_def key [symmetric]
      by (simp add: push(1,2,5) scan wram iram c key [symmetric])
  qed
  also have "?s0\<lparr>mram := ?m1, wram_cells := ?W, iram := ?I, running := {0..<NR_TASKLETS}\<rparr>
    = replaced_state key stk sk w s"
    unfolding wipe_cells [OF w] by (rule tl_state.equality) (simp_all add: replaced_state_def Let_def)
  finally show ?thesis .
qed

text \<open>A smallest well-formed image, authenticated only: one chunk of text of zeros.\<close>

definition demo_cells :: "u32 list \<Rightarrow> cells" where
  "demo_cells t = (\<lambda>_. 0)(16 := 0xA5A5A5A5, 17 := t ! 0, 18 := t ! 1, 19 := t ! 2, 20 := t ! 3,
     24 := 2112, 25 := 2112, 26 := 1)"

definition demo_image :: "chacha_key \<Rightarrow> cells" where
  "demo_image key = demo_cells (image_tag key 64 (demo_cells [0, 0, 0, 0]))"

lemma demo_header:
  "sk_header (demo_cells t) 64 = \<lparr>magic = 0xA5A5A5A5, tag = [t ! 0, t ! 1, t ! 2, t ! 3], iv = [0, 0, 0],
     size_aad = 2112, size_total = 2112, text_size = 1, data_size = 0\<rparr>"
  by (simp add: sk_header_def Let_def mram_read_def upt_rec demo_cells_def)

lemma demo_tag: "image_tag key 64 (demo_cells t) = image_tag key 64 (demo_cells u)"
proof -
  have "fetch_sk_chunk (demo_cells t) 64 i = fetch_sk_chunk (demo_cells u) 64 i" if "2 \<le> i" for i
    using that by (intro fetch_sk_chunk_cong) (simp_all add: demo_cells_def)
  then show ?thesis
    by (simp add: image_tag_def image_blocks_def Let_def demo_header)
qed

lemma demo_image_ok: "image_ok key 64 (demo_image key)"
proof -
  let ?t = "image_tag key 64 (demo_cells [0, 0, 0, 0])"
  have "?t = [?t ! 0, ?t ! 1, ?t ! 2, ?t ! 3]"
    using length_image_tag [of key 64 "demo_cells [0, 0, 0, 0]"] unfolding length_4_conv by auto
  moreover have "read_u64 (image_decrypted key 64 (demo_cells ?t)) (64 + 64 + 8 * i) = 0" for i
  proof -
    have "image_decrypted key 64 (demo_cells ?t) = demo_cells ?t"
      by (auto simp: image_decrypted_def Let_def demo_header fun_eq_iff)
    then show ?thesis
      by (simp add: read_u64_def Let_def mram_read_def demo_cells_def)
  qed
  moreover have "\<not> banned 0"
    by (simp add: banned_def is_ldmai_def is_thread_ctrl_def is_banned_reg_def Let_def)
  ultimately show ?thesis
    unfolding demo_image_def image_ok_def Let_def demo_header
    using demo_tag [of key ?t "[0, 0, 0, 0]"] by (simp add: ime_scratch_a_def)
qed

lemma length_selected_key: "length sys_key = 8 \<Longrightarrow> length (key_words (selected_key sys_key k w)) = 8"
  by (simp add: selected_key_def wram_load_def)


definition demo_state :: tl_state where
  "demo_state = \<lparr>mram = demo_image (System_Key (replicate 8 1)), wram_cells = (\<lambda>_. 7), iram = (\<lambda>_. 0), running = {0}\<rparr>"


theorem ime_replace_sk_iram_safe_witness:
  "\<exists>s'. ime_replace_sk 0 (replicate 8 1) (\<lambda>_. 0xef11b0d9) 64 0 0 4096 demo_state = Some (Inr s') \<and> iram_safe s'"
proof -
  let ?k = "System_Key (replicate 8 1)"
  have k: "?k = selected_key (replicate 8 1) 0 ((wram_cells (ime_wipe_user 4096 demo_state))(STACK_CANARY := 0xef11b0d9))"
    by (simp add: selected_key_def)
  have "ime_replace_sk 0 (replicate 8 1) (\<lambda>_. 0xef11b0d9) 64 0 0 4096 demo_state
      = Some (Inr (replaced_state ?k (\<lambda>_. 0xef11b0d9) 64 4096 demo_state))"
    using demo_image_ok [of ?k] by (intro ime_replace_sk_loads [OF k]) (simp_all add: demo_state_def)
  moreover have "iram_safe demo_state"
    by (simp add: iram_safe_def demo_state_def banned_def is_ldmai_def is_thread_ctrl_def is_banned_reg_def Let_def)
  ultimately show ?thesis using ime_replace_sk_iram_safe by force
qed

end
