(* ===== verification/IME_Barrier.thy ===== *)
theory IME_Barrier imports MC_Prelude
begin

text \<open>
  The runtime library's barrier, \<^verbatim>\<open>src/src/ime-rt/barrier.c\<close>, as a step relation over the
  interleavings of any number of threads. Every stretch of code between \<^verbatim>\<open>mutex_lock\<close> and
  \<^verbatim>\<open>mutex_unlock\<close> is one step. Beside the four fields of \<^verbatim>\<open>ime_barrier\<close> the state has
  auxiliary fields that no step reads: the number of resets so far, the threads that
  entered and that passed since the last reset, and the log of returns.
\<close>

section \<open>State and steps\<close>

record ime_barrier =
  bar_init :: nat
  bar_count :: nat
  bar_done :: nat
  bar_leader :: nat

text \<open>Where a thread is; the argument is the auxiliary number of the batch it entered in.\<close>

datatype bar_pc =
    Outside
  | Wait nat
  | Pass nat
  | Leave nat
  | Lead_wait nat
  | Lead_reset nat

record bar_state =
  bar :: ime_barrier
  pc :: "nat \<Rightarrow> bar_pc"
  gen :: nat
  batch :: "nat set"
  passed :: "nat set"
  returns :: "(nat \<times> nat \<times> bool) set"

definition IME_BARRIER_INIT :: "nat \<Rightarrow> ime_barrier" where
  "IME_BARRIER_INIT c = \<lparr>bar_init = c, bar_count = 0, bar_done = 0, bar_leader = 0xFFFF\<rparr>"

definition bar_start :: "nat \<Rightarrow> bar_state" where
  "bar_start c = \<lparr>bar = IME_BARRIER_INIT c, pc = (\<lambda>_. Outside), gen = 0, batch = {}, passed = {}, returns = {}\<rparr>"

text \<open>The locked sections of the three functions, on the shared fields.\<close>

definition ime_enter_barrier :: "nat \<Rightarrow> ime_barrier \<Rightarrow> ime_barrier option" where
  "ime_enter_barrier me b =
     (if bar_count b = bar_init b then None
      else Some (let b = (if me < bar_leader b then b\<lparr>bar_leader := me\<rparr> else b)
                 in b\<lparr>bar_count := bar_count b + 1\<rparr>))"

definition ime_wait_barrier_done :: "ime_barrier \<Rightarrow> bool" where
  "ime_wait_barrier_done b \<longleftrightarrow> bar_count b = bar_init b"

definition ime_wait_barrier_pass :: "ime_barrier \<Rightarrow> ime_barrier" where
  "ime_wait_barrier_pass b = b\<lparr>bar_done := bar_done b + 1\<rparr>"

definition ime_leave_barrier_leader :: "nat \<Rightarrow> ime_barrier \<Rightarrow> bool" where
  "ime_leave_barrier_leader me b \<longleftrightarrow> bar_leader b = me"

definition ime_leave_barrier_done :: "ime_barrier \<Rightarrow> bool" where
  "ime_leave_barrier_done b \<longleftrightarrow> bar_done b = bar_init b"

definition ime_leave_barrier_reset :: "ime_barrier \<Rightarrow> ime_barrier" where
  "ime_leave_barrier_reset b = b\<lparr>bar_count := 0, bar_done := 0, bar_leader := 0xFFFF\<rparr>"

text \<open>
  A step of thread \<open>t\<close>. The spinning iterations (a full barrier on entry, a barrier not yet
  full, a leader whose batch has not passed) leave the state unchanged and are not steps.
\<close>

inductive bar_step :: "nat \<Rightarrow> bar_state \<Rightarrow> bar_state \<Rightarrow> bool" where
  enter: "pc s t = Outside \<Longrightarrow> ime_enter_barrier t (bar s) = Some b \<Longrightarrow>
    bar_step t s (s\<lparr>bar := b, pc := (pc s)(t := Wait (gen s)), batch := insert t (batch s)\<rparr>)"
| wait: "pc s t = Wait g \<Longrightarrow> ime_wait_barrier_done (bar s) \<Longrightarrow>
    bar_step t s (s\<lparr>pc := (pc s)(t := Pass g)\<rparr>)"
| pass: "pc s t = Pass g \<Longrightarrow>
    bar_step t s (s\<lparr>bar := ime_wait_barrier_pass (bar s), pc := (pc s)(t := Leave g), passed := insert t (passed s)\<rparr>)"
| leave: "pc s t = Leave g \<Longrightarrow> \<not> ime_leave_barrier_leader t (bar s) \<Longrightarrow>
    bar_step t s (s\<lparr>pc := (pc s)(t := Outside), returns := insert (g, t, False) (returns s)\<rparr>)"
| lead: "pc s t = Leave g \<Longrightarrow> ime_leave_barrier_leader t (bar s) \<Longrightarrow>
    bar_step t s (s\<lparr>pc := (pc s)(t := Lead_wait g)\<rparr>)"
| lead_done: "pc s t = Lead_wait g \<Longrightarrow> ime_leave_barrier_done (bar s) \<Longrightarrow>
    bar_step t s (s\<lparr>pc := (pc s)(t := Lead_reset g)\<rparr>)"
| reset: "pc s t = Lead_reset g \<Longrightarrow>
    bar_step t s (s\<lparr>bar := ime_leave_barrier_reset (bar s), pc := (pc s)(t := Outside), gen := gen s + 1,
      batch := {}, passed := {}, returns := insert (g, t, True) (returns s)\<rparr>)"

inductive_cases bar_stepE: "bar_step t s s'"

text \<open>Runs of threads with numbers below the leader field's reset value.\<close>

inductive bar_reachable :: "nat \<Rightarrow> bar_state \<Rightarrow> bool" for c where
  start: "bar_reachable c (bar_start c)"
| step: "bar_reachable c s \<Longrightarrow> t < 0xFFFF \<Longrightarrow> bar_step t s s' \<Longrightarrow> bar_reachable c s'"

section \<open>The invariant\<close>

text \<open>The shared part: the fields count what the auxiliary sets hold, and the leader is the least of the batch.\<close>

definition shared_ok :: "nat \<Rightarrow> bar_state \<Rightarrow> bool" where
  "shared_ok c s \<longleftrightarrow>
     bar_init (bar s) = c \<and> finite (batch s) \<and> passed s \<subseteq> batch s \<and> batch s \<subseteq> {..<0xFFFF}
     \<and> bar_count (bar s) = card (batch s) \<and> bar_done (bar s) = card (passed s) \<and> card (batch s) \<le> c
     \<and> bar_leader (bar s) = (if batch s = {} then 0xFFFF else Min (batch s))
     \<and> (passed s \<noteq> {} \<longrightarrow> card (batch s) = c)"

text \<open>
  What holds where a thread is. A thread of an earlier batch can only be about to find that it is
  not the leader; the leader is in the barrier until it resets it.
\<close>

definition thread_ok :: "nat \<Rightarrow> bar_state \<Rightarrow> nat \<Rightarrow> bool" where
  "thread_ok c s t =
     (case pc s t of
        Outside \<Rightarrow> t \<notin> batch s \<or> (t \<in> passed s \<and> t \<noteq> bar_leader (bar s))
      | Wait g \<Rightarrow> g = gen s \<and> t \<in> batch s \<and> t \<notin> passed s
      | Pass g \<Rightarrow> g = gen s \<and> t \<in> batch s \<and> t \<notin> passed s \<and> card (batch s) = c
      | Leave g \<Rightarrow> (g = gen s \<and> t \<in> passed s) \<or> (g < gen s \<and> t \<notin> batch s \<and> t < 0xFFFF)
      | Lead_wait g \<Rightarrow> g = gen s \<and> t \<in> passed s \<and> t = bar_leader (bar s)
      | Lead_reset g \<Rightarrow> g = gen s \<and> t \<in> passed s \<and> t = bar_leader (bar s) \<and> card (passed s) = c)"

definition log_ok :: "bar_state \<Rightarrow> bool" where
  "log_ok s \<longleftrightarrow> (\<forall>(g, t, r) \<in> returns s. g \<le> gen s \<and> (g = gen s \<longrightarrow> \<not> r \<and> t \<in> passed s))
     \<and> (\<forall>g < gen s. \<exists>!t. (g, t, True) \<in> returns s)"

definition bar_inv :: "nat \<Rightarrow> bar_state \<Rightarrow> bool" where
  "bar_inv c s \<longleftrightarrow> shared_ok c s \<and> (\<forall>t. thread_ok c s t) \<and> log_ok s"

lemma bar_inv_start: "bar_inv c (bar_start c)"
  by (simp add: bar_inv_def shared_ok_def thread_ok_def log_ok_def bar_start_def IME_BARRIER_INIT_def)

lemma full_batch: "shared_ok c s \<Longrightarrow> card (passed s) = c \<Longrightarrow> passed s = batch s"
  unfolding shared_ok_def by (metis card_mono card_seteq le_antisym)

lemma not_yet_passed: "shared_ok c s \<Longrightarrow> card (batch s) \<noteq> c \<Longrightarrow> passed s = {}"
  by (auto simp: shared_ok_def)

text \<open>Entering.\<close>

lemma enter_shared:
  assumes "shared_ok c s" "thread_ok c s t" "t < 0xFFFF" "pc s t = Outside" "ime_enter_barrier t (bar s) = Some b"
  shows "passed s = {}" "t \<notin> batch s" "card (batch s) \<noteq> c"
    "shared_ok c (s\<lparr>bar := b, pc := p, batch := insert t (batch s)\<rparr>)"
proof -
  show cnt: "card (batch s) \<noteq> c"
    using assms by (auto simp: ime_enter_barrier_def shared_ok_def split: if_splits)
  show none: "passed s = {}" using not_yet_passed [OF assms(1) cnt] .
  then show new: "t \<notin> batch s" using assms by (auto simp: thread_ok_def)
  have c: "card (batch s) < c" using assms(1) cnt by (auto simp: shared_ok_def)
  have m: "min t (bar_leader (bar s)) = Min (insert t (batch s))"
    using assms(1,3) by (cases "batch s = {}") (auto simp: shared_ok_def)
  have "bar_leader b = min t (bar_leader (bar s))"
    using assms(5) by (auto simp: ime_enter_barrier_def Let_def min_def split: if_splits)
  moreover have "bar_init b = c \<and> bar_count b = card (batch s) + 1 \<and> bar_done b = 0"
    using assms none by (auto simp: ime_enter_barrier_def shared_ok_def Let_def split: if_splits)
  ultimately show "shared_ok c (s\<lparr>bar := b, pc := p, batch := insert t (batch s)\<rparr>)"
    using assms(1,3) new none c m by (simp add: shared_ok_def)
qed

lemma enter_other:
  assumes "passed s = {}" "u \<noteq> t" "thread_ok c s u" "card (batch s) \<noteq> c"
  shows "thread_ok c (s\<lparr>bar := b, pc := (pc s)(t := p), batch := insert t (batch s)\<rparr>) u"
  using assms by (auto simp: thread_ok_def split: bar_pc.splits)

lemma wait_other:
  "u \<noteq> t \<Longrightarrow> thread_ok c s u \<Longrightarrow> thread_ok c (s\<lparr>pc := (pc s)(t := p), returns := r\<rparr>) u"
  "u \<noteq> t \<Longrightarrow> thread_ok c s u \<Longrightarrow> thread_ok c (s\<lparr>pc := (pc s)(t := p)\<rparr>) u"
  by (auto simp: thread_ok_def split: bar_pc.splits)

lemma pass_shared:
  assumes "shared_ok c s" "thread_ok c s t" "pc s t = Pass g"
  shows "shared_ok c (s\<lparr>bar := ime_wait_barrier_pass (bar s), pc := p, passed := insert t (passed s)\<rparr>)"
    "finite (passed s)" "g = gen s" "t \<notin> passed s" "card (passed s) < c"
proof -
  have t: "g = gen s" "t \<in> batch s" "t \<notin> passed s" "card (batch s) = c"
    using assms by (auto simp: thread_ok_def)
  have fin: "finite (passed s)" "finite (batch s)" "passed s \<subseteq> batch s"
    using assms(1) by (auto simp: shared_ok_def intro: finite_subset)
  have "passed s \<subset> batch s" using t fin by auto
  then have "card (passed s) < card (batch s)" using fin by (intro psubset_card_mono)
  then show "finite (passed s)" "g = gen s" "t \<notin> passed s" "card (passed s) < c" using t fin by auto
  show "shared_ok c (s\<lparr>bar := ime_wait_barrier_pass (bar s), pc := p, passed := insert t (passed s)\<rparr>)"
    using assms(1) t fin by (auto simp: shared_ok_def ime_wait_barrier_pass_def)
qed

lemma pass_other:
  assumes "u \<noteq> t" "thread_ok c s u" "card (passed s) < c"
  shows "thread_ok c (s\<lparr>bar := ime_wait_barrier_pass (bar s), pc := (pc s)(t := p), passed := insert t (passed s)\<rparr>) u"
  using assms by (auto simp: thread_ok_def ime_wait_barrier_pass_def split: bar_pc.splits)

lemma reset_other:
  assumes "u \<noteq> t" "thread_ok c s u" "passed s = batch s" "shared_ok c s" "t = bar_leader (bar s)"
  shows "thread_ok c (s\<lparr>bar := ime_leave_barrier_reset (bar s), pc := (pc s)(t := Outside), gen := gen s + 1,
      batch := {}, passed := {}, returns := r\<rparr>) u"
  using assms by (auto simp: thread_ok_def shared_ok_def split: bar_pc.splits)

lemma leader_in_batch:
  "shared_ok c s \<Longrightarrow> bar_leader (bar s) < 0xFFFF \<Longrightarrow> bar_leader (bar s) \<in> batch s"
  by (auto simp: shared_ok_def split: if_splits intro: Min_in)

lemma bar_inv_step:
  assumes "bar_inv c s" "t < 0xFFFF" "bar_step t s s'"
  shows "bar_inv c s'"
proof -
  have sh: "shared_ok c s" and th: "\<And>u. thread_ok c s u" and lg: "log_ok s"
    using assms(1) by (auto simp: bar_inv_def)
  from assms(3) show ?thesis
  proof (cases rule: bar_step.cases)
    case (enter b)
    note e = enter_shared [OF sh th assms(2) enter(2,3)]
    have "thread_ok c s' t" using e by (simp add: enter(1) thread_ok_def)
    moreover have "thread_ok c s' u" if "u \<noteq> t" for u
      unfolding enter(1) using e that th by (intro enter_other)
    moreover have "log_ok s'" using lg by (simp add: enter(1) log_ok_def)
    ultimately show ?thesis using e(4) by (metis bar_inv_def enter(1))
  next
    case (wait g)
    have "thread_ok c s' t" using sh th [of t] wait by (auto simp: thread_ok_def ime_wait_barrier_done_def shared_ok_def)
    moreover have "thread_ok c s' u" if "u \<noteq> t" for u
      unfolding wait(1) using that th by (intro wait_other)
    ultimately have "thread_ok c s' u" for u by (cases "u = t") auto
    then show ?thesis using sh lg by (simp add: bar_inv_def shared_ok_def log_ok_def wait(1))
  next
    case (pass g)
    note p = pass_shared [OF sh th pass(2)]
    have "thread_ok c s' t" using p by (simp add: pass(1) thread_ok_def)
    moreover have "thread_ok c s' u" if "u \<noteq> t" for u
      unfolding pass(1) using p that th by (intro pass_other)
    moreover have "log_ok s'" using lg by (auto simp: pass(1) log_ok_def)
    ultimately show ?thesis using p(1) by (metis bar_inv_def pass(1))
  next
    case (leave g)
    have "thread_ok c s' t" using th [of t] leave by (auto simp: thread_ok_def ime_leave_barrier_leader_def)
    moreover have "thread_ok c s' u" if "u \<noteq> t" for u
      unfolding leave(1) using that th by (intro wait_other)
    moreover have "log_ok s'" using lg th [of t] leave by (auto simp: log_ok_def thread_ok_def)
    ultimately have "thread_ok c s' u" for u by (cases "u = t") auto
    then show ?thesis using sh \<open>log_ok s'\<close> by (simp add: bar_inv_def shared_ok_def leave(1))
  next
    case (lead g)
    have "thread_ok c s' t"
      using leader_in_batch [OF sh] th [of t] lead assms(2) by (auto simp: thread_ok_def ime_leave_barrier_leader_def)
    moreover have "thread_ok c s' u" if "u \<noteq> t" for u
      unfolding lead(1) using that th by (intro wait_other)
    ultimately have "thread_ok c s' u" for u by (cases "u = t") auto
    then show ?thesis using sh lg by (simp add: bar_inv_def shared_ok_def log_ok_def lead(1))
  next
    case (lead_done g)
    have "card (passed s) = c" using sh lead_done(3) by (simp add: shared_ok_def ime_leave_barrier_done_def)
    then have "thread_ok c s' t" using th [of t] lead_done(1,2) by (auto simp: thread_ok_def)
    moreover have "thread_ok c s' u" if "u \<noteq> t" for u
      unfolding lead_done(1) using that th by (intro wait_other)
    ultimately have "thread_ok c s' u" for u by (cases "u = t") auto
    then show ?thesis using sh lg by (simp add: bar_inv_def shared_ok_def log_ok_def lead_done(1))
  next
    case (reset g)
    have t: "g = gen s" "t = bar_leader (bar s)" "card (passed s) = c"
      using th [of t] reset by (auto simp: thread_ok_def)
    note full = full_batch [OF sh t(3)]
    have "thread_ok c s' t" by (simp add: reset(1) thread_ok_def)
    moreover have "thread_ok c s' u" if "u \<noteq> t" for u
      unfolding reset(1) using that th full sh t(2) by (intro reset_other)
    moreover have "shared_ok c s'" using sh by (auto simp: reset(1) shared_ok_def ime_leave_barrier_reset_def)
    moreover have "log_ok s'"
      using lg t(1) unfolding log_ok_def reset(1) by (fastforce simp: less_Suc_eq)
    ultimately show ?thesis unfolding bar_inv_def by metis
  qed
qed


lemma bar_inv_reachable: "bar_reachable c s \<Longrightarrow> bar_inv c s"
  by (induction rule: bar_reachable.induct) (auto intro: bar_inv_start bar_inv_step)

section \<open>Properties\<close>

text \<open>The threads that have entered the batch numbered \<open>g\<close> and not left the barrier.\<close>

definition in_batch :: "bar_state \<Rightarrow> nat \<Rightarrow> nat set" where
  "in_batch s g = {t. pc s t \<in> {Wait g, Pass g, Leave g, Lead_wait g, Lead_reset g}}"

text \<open>
  C14: Barrier safety, for every number of threads and every interleaving: a thread gets past its waiting
  loop only when exactly \<open>init\<close> threads have entered since the last reset; among all threads at
  most one is the leader, the least of its batch, and it resets the fields only after all
  \<open>init\<close> have passed; and of each finished batch exactly one call returned true.
\<close>

theorem ime_barrier_safe:
  assumes "bar_reachable c s"
  shows "(\<forall>t g. pc s t = Pass g \<longrightarrow> g = gen s \<and> card (batch s) = c)
    \<and> (\<forall>t u g h. pc s t \<in> {Lead_wait g, Lead_reset g} \<longrightarrow> pc s u \<in> {Lead_wait h, Lead_reset h} \<longrightarrow>
         t = u \<and> t = Min (batch s))
    \<and> (\<forall>t g. pc s t = Lead_reset g \<longrightarrow> passed s = batch s \<and> card (passed s) = c)
    \<and> (\<forall>g < gen s. \<exists>!t. (g, t, True) \<in> returns s)"
proof -
  have sh: "shared_ok c s" and th: "\<And>u. thread_ok c s u" and lg: "log_ok s"
    using bar_inv_reachable [OF assms] by (auto simp: bar_inv_def)
  have lead: "t = bar_leader (bar s) \<and> t \<in> passed s" if "pc s t \<in> {Lead_wait g, Lead_reset g}" for t g
    using th [of t] that by (auto simp: thread_ok_def)
  have "bar_leader (bar s) = Min (batch s)" if "passed s \<noteq> {}"
    using sh that by (auto simp: shared_ok_def)
  then have "t = u \<and> t = Min (batch s)"
    if "pc s t \<in> {Lead_wait g, Lead_reset g}" "pc s u \<in> {Lead_wait h, Lead_reset h}" for t u g h
    using lead [OF that(1)] lead [OF that(2)] by auto
  moreover have "g = gen s \<and> card (batch s) = c" if "pc s t = Pass g" for t g
    using th [of t] that by (simp add: thread_ok_def)
  moreover have "passed s = batch s \<and> card (passed s) = c" if "pc s t = Lead_reset g" for t g
    using th [of t] that full_batch [OF sh] by (simp add: thread_ok_def)
  moreover have "\<forall>g < gen s. \<exists>!t. (g, t, True) \<in> returns s" using lg by (simp add: log_ok_def)
  ultimately show ?thesis by blast
qed

text \<open>One thread alone at a barrier for one enters, passes and leads.\<close>

theorem ime_barrier_safe_witness:
  "\<exists>s. bar_reachable 1 s \<and> pc s 3 = Pass 0 \<and> card (batch s) = 1"
proof -
  let ?s0 = "bar_start 1"
  let ?b = "\<lparr>bar_init = 1, bar_count = 1, bar_done = 0, bar_leader = 3\<rparr>"
  let ?s1 = "?s0\<lparr>bar := ?b, pc := (pc ?s0)(3 := Wait (gen ?s0)), batch := insert 3 (batch ?s0)\<rparr>"
  let ?s2 = "?s1\<lparr>pc := (pc ?s1)(3 := Pass 0)\<rparr>"
  have "bar_reachable 1 ?s1"
    by (rule bar_reachable.step [OF bar_reachable.start, of 3], simp,
        rule bar_step.enter) (simp_all add: bar_start_def IME_BARRIER_INIT_def ime_enter_barrier_def)
  then have r: "bar_reachable 1 ?s2"
    by (rule bar_reachable.step [of _ _ 3], simp, intro bar_step.wait)
      (simp_all add: bar_start_def ime_wait_barrier_done_def)
  have "pc ?s2 3 = Pass 0" by simp
  then have "card (batch ?s2) = 1" using ime_barrier_safe [OF r] by blast
  then show ?thesis using r \<open>pc ?s2 3 = Pass 0\<close> by blast
qed

text \<open>
  C15: No deadlock: whenever a batch is full, some thread can take a step other than spinning, until the
  leader has reset the barrier; a barrier that is not full lets every thread outside enter.
\<close>

theorem ime_barrier_progress:
  assumes "bar_reachable c s" "0 < c"
  shows "(bar_count (bar s) = c \<longrightarrow> (\<exists>t s'. t < 0xFFFF \<and> bar_step t s s'))
    \<and> (bar_count (bar s) < c \<longrightarrow> (\<forall>t. pc s t = Outside \<longrightarrow> (\<exists>s'. bar_step t s s')))"
proof (intro conjI impI allI)
  have sh: "shared_ok c s" and th: "\<And>u. thread_ok c s u"
    using bar_inv_reachable [OF assms(1)] by (auto simp: bar_inv_def)
  have done_eq: "bar_done (bar s) = card (passed s)" "bar_init (bar s) = c" "bar_count (bar s) = card (batch s)"
    using sh by (auto simp: shared_ok_def)
  show "\<exists>t s'. t < 0xFFFF \<and> bar_step t s s'" if full: "bar_count (bar s) = c"
  proof (cases "passed s = batch s")
    case False
    then obtain t where t: "t \<in> batch s" "t \<notin> passed s" using sh by (auto simp: shared_ok_def)
    then have lt: "t < 0xFFFF" using sh by (auto simp: shared_ok_def)
    from t th [of t] consider g where "pc s t = Wait g" | g where "pc s t = Pass g"
      by (auto simp: thread_ok_def split: bar_pc.splits)
    moreover have "ime_wait_barrier_done (bar s)" using full done_eq by (simp add: ime_wait_barrier_done_def)
    ultimately have "\<exists>s'. bar_step t s s'" by (metis bar_step.wait bar_step.pass)
    then show ?thesis using lt by blast
  next
    case True
    let ?l = "bar_leader (bar s)"
    have "batch s \<noteq> {}" using full done_eq assms(2) by auto
    then have "?l \<in> batch s" using sh Min_in [of "batch s"] by (simp add: shared_ok_def)
    moreover have "batch s \<subseteq> {..<0xFFFF}" using sh by (simp add: shared_ok_def)
    ultimately have l: "?l \<in> passed s" "?l < 0xFFFF" using True by auto
    have "pc s ?l \<in> {Leave (gen s), Lead_wait (gen s), Lead_reset (gen s)}"
      using th [of ?l] l True by (auto simp: thread_ok_def split: bar_pc.splits)
    moreover have "ime_leave_barrier_leader ?l (bar s)" "ime_leave_barrier_done (bar s)"
      using full done_eq True by (simp_all add: ime_leave_barrier_leader_def ime_leave_barrier_done_def)
    ultimately have "\<exists>s'. bar_step ?l s s'"
      by (elim insertE) (blast intro: bar_step.lead bar_step.lead_done bar_step.reset)+
    then show ?thesis using l by blast
  qed
  show "\<exists>s'. bar_step t s s'" if "bar_count (bar s) < c" "pc s t = Outside" for t
    using that done_eq by (auto intro!: exI bar_step.enter simp: ime_enter_barrier_def)
qed

theorem ime_barrier_progress_witness:
  "\<exists>s'. bar_step 3 (bar_start 16) s'"
  using ime_barrier_progress [OF bar_reachable.start, of 16] by (simp add: bar_start_def IME_BARRIER_INIT_def)

end
