(* ===== verification/IME_Session.thy ===== *)
theory IME_Session imports IME_AEAD
begin

text \<open>
  The system subkernels between which a session runs: the three stages of the key exchange
  (\<^verbatim>\<open>src/src/keyexchange\<close>), the message subkernel (\<^verbatim>\<open>src/src/msg/main.c\<close>) and the runtime's
  \<open>__bootstrap\<close> around \<open>main\<close> (\<^verbatim>\<open>src/src/ime-rt/boot.s\<close>). A stage ends by handing over to the trusted
  loader (\<open>Replace_sk\<close>) or by returning from \<open>main\<close>; the stages share the persistent struct
  \<open>g_xchg_io\<close> and, at the end of the persistent section, \<open>g_load_prop\<close>. Big-number arithmetic and
  SHA-256 are mbedtls's and are arguments here, the host is a function on MRAM, and the addresses
  the linker chooses are a record.
\<close>

unbundle bit_operations_syntax

section \<open>The subkernels\<close>

record symbols =
  g_xchg_io :: nat
  g_load_prop :: nat
  final_key_buf :: nat
  client_pubkey_raw :: nat
  dpu_pubkey_raw :: nat
  ime_xchg_counter :: nat
  ime_key_in :: nat
  g_xchg_out :: nat
  g_output_tag :: nat
  g_output_iv :: nat
  ime_xchg_sk_2 :: nat
  ime_xchg_sk_3 :: nat
  ime_msg_sk :: nat
  ime_msg_buf :: nat

text \<open>How a subkernel ends: \<open>Replace_sk\<close> names the next one and the key to decrypt it with.\<close>

datatype sk_end =
    Main_returns
  | Replace_sk nat "u32 list option"
  | Assertion_failed

text \<open>The fields of \<open>struct ime_xchg_io\<close>, the same for \<open>in\<close> and \<open>out\<close>, as word offsets.\<close>

definition xchg_pk :: nat where "xchg_pk = 0"
definition xchg_cnt :: nat where "xchg_cnt = 64"
definition xchg_key_enc :: nat where "xchg_key_enc = 68"

definition copy_words :: "(nat \<Rightarrow> u32) \<Rightarrow> nat \<Rightarrow> nat \<Rightarrow> cells \<Rightarrow> cells" where
  "copy_words src dst n m = fold (\<lambda>i m. m(dst + i := src i)) [0..<n] m"

definition dpu_pubkey_wram :: "u32 list" where
  "dpu_pubkey_wram =
    [0x37a59d0c, 0x4c654ae0, 0x54204efc, 0x90130854, 0x4ec76607, 0xf6b1f615, 0x40c18133, 0xe9ea753c,
     0x52ed11fc, 0xe979bf70, 0xdc9ecf89, 0xe0e2465b, 0xe118e4b0, 0x7cf7bb2a, 0xa2da44c1, 0xa62b132d,
     0xc234275e, 0x716ebe7a, 0x8d84c6e7, 0x7e3cfee9, 0x88356cb3, 0x4e8656f6, 0x16078c7e, 0x2a6a85dd,
     0xcdbfd286, 0x15647358, 0xa0ab2396, 0x94ac675a, 0x9cafbd03, 0xc71cf41b, 0x8fb89127, 0x7df7c596,
     0xbd3615f9, 0x912600e2, 0x60a6007f, 0x5d340b2, 0xb22cbd82, 0xfa5ab325, 0xb4dff05f, 0x1a0bda46,
     0x3ca6e1cf, 0xf7defcbc, 0x66037e91, 0x670d35d5, 0xfe4f59c1, 0x7accaccb, 0x64543931, 0x427a5ee7,
     0x7a11ffd2, 0x5b9e3278, 0x1516b8c5, 0x876eb704, 0xf3376885, 0x5b742454, 0x22ea5ad3, 0xeef43223,
     0xc36f1b07, 0x526ca290, 0x4175e164, 0x8c83f994, 0x65d1a0f4, 0xdac3834b, 0x31017203, 0x2404b340]"

text \<open>Stage 1: counter and public key out; then the host's public key and encrypted key in.\<close>

definition stage1 :: "nat \<Rightarrow> symbols \<Rightarrow> (cells \<Rightarrow> cells) \<Rightarrow> u32 list \<Rightarrow> dpu \<Rightarrow> ime_fault + (u32 list \<times> dpu \<times> sk_end)" where
  "stage1 me sy host counter s =
     (case core_on_counter me counter of
        Inl f \<Rightarrow> Inl f
      | Inr (counter, ctr) \<Rightarrow>
          let m = copy_words ((!) ctr) (ime_xchg_counter sy div 4) 4 (mram s);
              m = copy_words ((!) dpu_pubkey_wram) (dpu_pubkey_raw sy div 4) 64 m;
              m = host m;
              io = g_xchg_io sy div 4;
              w = copy_words ((!) ctr) (io + xchg_cnt) 4 (wram_cells s);
              w = copy_words (\<lambda>i. m (client_pubkey_raw sy div 4 + i)) (io + xchg_pk) 64 w;
              w = copy_words (\<lambda>i. m (ime_key_in sy div 4 + i)) (io + xchg_key_enc) 12 w
          in Inr (counter, \<lparr>mram = m, wram_cells = w\<rparr>, Replace_sk (ime_xchg_sk_2 sy) None))"

definition ime_raw_prime :: "u32 list" where
  "ime_raw_prime =
    [0xffffffff, 0xffffffff, 0x8aacaa68, 0x15728e5a, 0x98fa0510, 0x15d22618, 0xea956ae5, 0x3995497c,
     0x95581718, 0xde2bcbf6, 0x6f4c52c9, 0xb5c55df0, 0xec07a28f, 0x9b2783a2, 0x180e8603, 0xe39e772c,
     0x2e36ce3b, 0x32905e46, 0xca18217c, 0xf1746c08, 0x4abc9804, 0x670c354e, 0x7096966d, 0x9ed52907,
     0x208552bb, 0x1c62f356, 0xdca3ad96, 0x83655d23, 0xfd24cf5f, 0x69163fa8, 0x1c55d39a, 0x98da4836,
     0xa163bf05, 0xc2007cb8, 0xece45b3d, 0x49286651, 0x7c4b1fe6, 0xae9f2411, 0x5a899fa5, 0xee386bfb,
     0xf406b7ed, 0xbff5cb6, 0xa637ed6b, 0xf44c42e9, 0x625e7ec6, 0xe485b576, 0x6d51c245, 0x4fe1356d,
     0xf25f1437, 0x302b0a6d, 0xcd3a431b, 0xef9519b3, 0x8e3404dd, 0x514a0879, 0x3b139b22, 0x20bbea6,
     0x8a67cc74, 0x29024e08, 0x80dc1cd1, 0xc4c6628b, 0x2168c234, 0xc90fdaa2, 0xffffffff, 0xffffffff]"

definition ime_raw_sk :: "u32 list" where
  "ime_raw_sk =
    [0x69c7e189, 0xd0997133, 0xf1623124, 0xc7169218, 0xbad0d374, 0x6b8e7824, 0x83338e41, 0x00db6a03]"

text \<open>
  Stage 2: the client's public key to the power of the secret exponent. \<open>exp_mod\<close> stands for
  \<^verbatim>\<open>mbedtls_mpi_exp_mod\<close>: base, exponent and modulus in limbs, giving an error code and limbs.
\<close>

definition stage2 :: "(u32 list \<Rightarrow> u32 list \<Rightarrow> u32 list \<Rightarrow> int \<times> u32 list) \<Rightarrow> symbols \<Rightarrow> dpu \<Rightarrow> dpu \<times> sk_end" where
  "stage2 exp_mod sy s =
     (let io = g_xchg_io sy div 4;
          ime_client_pub = map (\<lambda>i. wram_cells s (io + xchg_pk + i)) [0..<64];
          (res, pk) = exp_mod ime_client_pub ime_raw_sk ime_raw_prime
      in if res \<noteq> 0 then (s, Assertion_failed)
         else (s\<lparr>wram_cells := copy_words ((!) pk) (io + xchg_pk) 64 (wram_cells s)\<rparr>, Replace_sk (ime_xchg_sk_3 sy) None))"

definition confirm :: "u32 list" where
  "confirm = [0x68637845, 0x65676e61, 0x63755320, 0x64656563, 0x53206465, 0x65636375, 0x75667373, 0x21796c6c]"

text \<open>
  Stage 3: the key that encrypts the session key is the hash of the shared secret and the counter.
  \<open>sha\<close> hashes a sequence of words, as their bytes; the two updates of a context hash the
  concatenation. The local \<open>final_key\<close> is at \<open>final_key_buf\<close>.
\<close>

definition stage3 :: "nat \<Rightarrow> (u32 list \<Rightarrow> u32 list) \<Rightarrow> symbols \<Rightarrow> u32 list \<Rightarrow> dpu \<Rightarrow> ime_fault + (u32 list \<times> dpu \<times> sk_end)" where
  "stage3 me sha sy counter s =
     (let io = g_xchg_io sy div 4; w = wram_cells s;
          key = sha (map (\<lambda>i. w (io + xchg_pk + i)) [0..<64] @ map (\<lambda>i. w (io + xchg_cnt + i)) [0..<4]);
          tag = map (\<lambda>i. w (io + xchg_key_enc + 8 + i)) [0..<4];
          (valid, s) = ime_aead_dec (User_Key key) [0, 0, 0] tag 32 (g_xchg_io sy + 4 * xchg_key_enc) (final_key_buf sy) s
      in if \<not> valid then Inr (counter, s, Main_returns)
         else
           let final_key = map (\<lambda>i. wram_cells s (final_key_buf sy div 4 + i)) [0..<8];
               s = s\<lparr>wram_cells := copy_words ((!) final_key) (g_load_prop sy div 4 + 4) 8 (wram_cells s)\<rparr>;
               s = s\<lparr>mram := mram_write confirm (g_xchg_out sy) 32 (mram s)\<rparr>
           in case ime_aead_enc_mram me (User_Key final_key) None 32 (g_xchg_out sy) (g_xchg_out sy) s counter of
                Inl f \<Rightarrow> Inl f
              | Inr (s, counter, confirm_tag, confirm_iv) \<Rightarrow>
                  let m = copy_words ((!) confirm_tag) (g_output_tag sy div 4) 4 (mram s);
                      m = copy_words ((!) confirm_iv) (g_output_iv sy div 4) 3 m
                  in Inr (counter, s\<lparr>mram := m\<rparr>, Replace_sk (ime_msg_sk sy) None))"

text \<open>The whole exchange. Between the stages the trusted loader replaces all of WRAM but the persistent part.\<close>

definition key_exchange ::
  "symbols \<Rightarrow> (cells \<Rightarrow> cells) \<Rightarrow> (u32 list \<Rightarrow> u32 list \<Rightarrow> u32 list \<Rightarrow> int \<times> u32 list) \<Rightarrow> (u32 list \<Rightarrow> u32 list)
     \<Rightarrow> (nat \<Rightarrow> dpu \<Rightarrow> dpu) \<Rightarrow> u32 list \<Rightarrow> dpu \<Rightarrow> ime_fault + (u32 list \<times> dpu \<times> sk_end)" where
  "key_exchange sy host exp_mod sha load counter s =
     (case stage1 0 sy host counter s of
        Inl f \<Rightarrow> Inl f
      | Inr (counter, s, e) \<Rightarrow>
          case stage2 exp_mod sy (load (ime_xchg_sk_2 sy) s) of
            (s, Replace_sk sk k) \<Rightarrow> stage3 0 sha sy counter (load sk s)
          | (s, e) \<Rightarrow> Inr (counter, s, e))"

section \<open>Words and limbs\<close>

lemma copy_words_cell: "copy_words src dst n m j = (if dst \<le> j \<and> j < dst + n then src (j - dst) else m j)"
  unfolding copy_words_def by (induction n) (auto simp: less_Suc_eq)

definition limbs :: "nat \<Rightarrow> u32 list" where
  "limbs v = map (\<lambda>i. of_nat (v div 2 ^ (32 * i))) [0..<64]"

lemma val32_digits: "val32 (map (\<lambda>i. of_nat (v div 2 ^ (32 * i))) [0..<n]) = v mod 2 ^ (32 * n)"
proof (induction n)
  case (Suc n)
  have "unat (of_nat (v div 2 ^ (32 * n)) :: u32) = v div 2 ^ (32 * n) mod 2 ^ 32"
    by (simp add: unat_of_nat)
  moreover have "v mod (4294967296 * 2 ^ (32 * n)) = 2 ^ (32 * n) * (v div 2 ^ (32 * n) mod 4294967296) + v mod 2 ^ (32 * n)"
    using mod_mult2_eq [of v "2 ^ (32 * n)" 4294967296] by (simp only: mult.commute)
  ultimately show ?case
    using Suc by (simp add: val32_append power_add)
qed simp

lemma length_limbs [simp]: "length (limbs v) = 64"
  by (simp add: limbs_def)

lemma val32_limbs: "v < 2 ^ 2048 \<Longrightarrow> val32 (limbs v) = v"
  unfolding limbs_def val32_digits by simp

lemma limbs_val32:
  assumes "64 \<le> length p" "val32 p < 2 ^ 2048"
  shows "take 64 p = limbs (val32 p)"
proof (rule val32_inj)
  show "length (take 64 p) = length (limbs (val32 p))" using assms by simp
  show "val32 (take 64 p) = val32 (limbs (val32 p))"
    using assms by (simp add: val32_limbs val32_take)
qed

section \<open>Runtime and message subkernel\<close>

text \<open>
  \<open>__bootstrap\<close> of \<^verbatim>\<open>boot.s\<close>: when \<open>main\<close> returns, the twelve words of \<open>g_load_prop\<close> are wiped and the
  message subkernel is loaded; \<open>__ime_replace_sk\<close> does not come back.
\<close>

definition wipe_key_loop :: "symbols \<Rightarrow> dpu \<Rightarrow> dpu" where
  "wipe_key_loop sy s = s\<lparr>wram_cells := copy_words (\<lambda>i. 0) (g_load_prop sy div 4) 12 (wram_cells s)\<rparr>"

definition bootstrap :: "symbols \<Rightarrow> dpu \<times> sk_end \<Rightarrow> dpu \<times> sk_end" where
  "bootstrap sy se =
     (case se of
        (s, Main_returns) \<Rightarrow> (wipe_key_loop sy s, Replace_sk (ime_msg_sk sy) None)
      | (s, e) \<Rightarrow> (s, e))"

datatype ime_mram_msg_type =
    IME_MRAM_MSG_NOP
  | IME_MRAM_MSG_WAITING
  | IME_MRAM_MSG_PING
  | IME_MRAM_MSG_PONG
  | IME_MRAM_MSG_LOAD_SK

primrec msg_code :: "ime_mram_msg_type \<Rightarrow> u16" where
  "msg_code IME_MRAM_MSG_NOP = 0"
| "msg_code IME_MRAM_MSG_WAITING = 1"
| "msg_code IME_MRAM_MSG_PING = 2"
| "msg_code IME_MRAM_MSG_PONG = 3"
| "msg_code IME_MRAM_MSG_LOAD_SK = 4"

definition IME_LOAD_SK_USER_KEY :: u16 where "IME_LOAD_SK_USER_KEY = push_bit 0 1"

text \<open>The message at \<open>__ime_msg_buf\<close>: type and flags in its first word, the pointer in its second.\<close>

definition msg_type :: "u32 \<Rightarrow> u16" where "msg_type w = ucast w"
definition msg_flags :: "u32 \<Rightarrow> u16" where "msg_flags w = ucast (drop_bit 16 w)"

definition set_msg_type :: "symbols \<Rightarrow> ime_mram_msg_type \<Rightarrow> cells \<Rightarrow> cells" where
  "set_msg_type sy t m =
     (let b = ime_msg_buf sy div 4 in m(b := push_bit 16 (ucast (msg_flags (m b))) OR ucast (msg_code t)))"

definition load_prop_key :: "symbols \<Rightarrow> dpu \<Rightarrow> u32 list" where
  "load_prop_key sy s = map (\<lambda>i. wram_cells s (g_load_prop sy div 4 + 4 + i)) [0..<8]"

definition msg_main :: "symbols \<Rightarrow> (cells \<Rightarrow> cells) \<Rightarrow> dpu \<Rightarrow> dpu \<times> sk_end" where
  "msg_main sy host s =
     (let m = set_msg_type sy IME_MRAM_MSG_WAITING (mram s);
          m = host m;
          b = ime_msg_buf sy div 4
      in if msg_type (m b) = msg_code IME_MRAM_MSG_PING then
           (s\<lparr>mram := set_msg_type sy IME_MRAM_MSG_PONG m\<rparr>, Main_returns)
         else if msg_type (m b) = msg_code IME_MRAM_MSG_LOAD_SK then
           let m = set_msg_type sy IME_MRAM_MSG_NOP m;
               load_addr = unat (m (b + 1));
               key = (if msg_flags (m b) AND IME_LOAD_SK_USER_KEY \<noteq> 0 then Some (load_prop_key sy s) else None)
           in (s\<lparr>mram := m\<rparr>, Replace_sk load_addr key)
         else (s\<lparr>mram := m\<rparr>, Main_returns))"

text \<open>
  The message subkernel over a list of the host's answers: it is reloaded after every return, until an
  answer asks for a load. \<open>load\<close> is what the trusted loader does to memory between two runs.
\<close>

fun msg_session :: "symbols \<Rightarrow> (nat \<Rightarrow> dpu \<Rightarrow> dpu) \<Rightarrow> (cells \<Rightarrow> cells) list \<Rightarrow> dpu \<Rightarrow> dpu \<times> sk_end" where
  "msg_session sy load [] s = (s, Main_returns)"
| "msg_session sy load (h # hs) s =
     (case msg_main sy h s of
        (s, Main_returns) \<Rightarrow>
          (case bootstrap sy (s, Main_returns) of
             (s, Replace_sk sk key) \<Rightarrow> msg_session sy load hs (load sk s)
           | (s, e) \<Rightarrow> (s, e))
      | (s, e) \<Rightarrow> (s, e))"

section \<open>The stages\<close>

definition cells_at :: "cells \<Rightarrow> nat \<Rightarrow> nat \<Rightarrow> u32 list" where
  "cells_at m a n = map (\<lambda>i. m (a div 4 + i)) [0..<n]"

lemma length_cells_at [simp]: "length (cells_at m a n) = n"
  by (simp add: cells_at_def)

lemma nth_cells_at [simp]: "i < n \<Longrightarrow> cells_at m a n ! i = m (a div 4 + i)"
  by (simp add: cells_at_def)

text \<open>The layout the linker script gives: alignment, and the objects a stage uses apart.\<close>

definition apart :: "nat \<Rightarrow> nat \<Rightarrow> nat \<Rightarrow> nat \<Rightarrow> bool" where
  "apart a n b k \<longleftrightarrow> a + n \<le> b \<or> b + k \<le> a"

definition symbols_ok :: "symbols \<Rightarrow> bool" where
  "symbols_ok sy \<longleftrightarrow>
     g_xchg_io sy mod 8 = 0 \<and> g_load_prop sy mod 8 = 0 \<and> final_key_buf sy mod 8 = 0 \<and> g_xchg_out sy mod 8 = 0
     \<and> g_output_tag sy mod 8 = 0 \<and> g_output_iv sy mod 8 = 0 \<and> ime_xchg_counter sy mod 8 = 0 \<and> dpu_pubkey_raw sy mod 8 = 0
     \<and> apart (g_xchg_io sy) 320 (final_key_buf sy) 32 \<and> apart (g_xchg_io sy) 320 (g_load_prop sy) 48
     \<and> apart (g_load_prop sy) 48 (final_key_buf sy) 32
     \<and> apart (g_xchg_out sy) 32 (g_output_tag sy) 16 \<and> apart (g_xchg_out sy) 32 (g_output_iv sy) 16
     \<and> apart (g_output_tag sy) 16 (g_output_iv sy) 16 \<and> apart (ime_xchg_counter sy) 16 (dpu_pubkey_raw sy) 256
     \<and> g_xchg_io sy + 320 \<le> 65536 \<and> final_key_buf sy + 32 \<le> 65536 \<and> g_xchg_out sy + 32 \<le> 2 ^ 26"

lemma apart_cells:
  "apart a (4 * n) b (4 * k) \<Longrightarrow> a mod 8 = 0 \<Longrightarrow> b mod 8 = 0 \<Longrightarrow> i < n \<Longrightarrow> \<not> (b div 4 \<le> a div 4 + i \<and> a div 4 + i < b div 4 + k)"
  "apart a (4 * n) b (4 * k) \<Longrightarrow> a mod 8 = 0 \<Longrightarrow> b mod 8 = 0 \<Longrightarrow> i < k \<Longrightarrow> \<not> (a div 4 \<le> b div 4 + i \<and> b div 4 + i < a div 4 + n)"
  by (auto simp: apart_def)

text \<open>The trusted loader keeps the persistent section when it starts the next subkernel.\<close>

definition keeps_persistent :: "symbols \<Rightarrow> (nat \<Rightarrow> dpu \<Rightarrow> dpu) \<Rightarrow> bool" where
  "keeps_persistent sy load \<longleftrightarrow> (\<forall>sk s.
     cells_at (wram_cells (load sk s)) (g_xchg_io sy) 80 = cells_at (wram_cells s) (g_xchg_io sy) 80
     \<and> cells_at (wram_cells (load sk s)) (g_load_prop sy) 12 = cells_at (wram_cells s) (g_load_prop sy) 12)"

definition seal_key :: "u32 list \<Rightarrow> u32 list \<Rightarrow> u32 list" where
  "seal_key key final_key =
     (let c = map (\<lambda>i. final_key ! i XOR chacha20_block key 1 [0, 0, 0] ! i) [0..<8]
      in c @ poly_tag (chacha20_block key 0 [0, 0, 0]) [take 4 c, drop 4 c, [0, 0, 32, 0]])"

text \<open>
  An honest client with secret exponent \<open>c\<close> and session key \<open>final_key\<close>: it reads the device's
  counter and public key, and answers with its own public key and the sealed session key.
\<close>

definition honest_client :: "symbols \<Rightarrow> (u32 list \<Rightarrow> u32 list) \<Rightarrow> nat \<Rightarrow> u32 list \<Rightarrow> (cells \<Rightarrow> cells) \<Rightarrow> bool" where
  "honest_client sy sha c final_key host \<longleftrightarrow> (\<forall>m.
     let p = val32 ime_raw_prime;
         shared = val32 (cells_at m (dpu_pubkey_raw sy) 64) ^ c mod p;
         key = sha (limbs shared @ cells_at m (ime_xchg_counter sy) 4)
     in cells_at (host m) (client_pubkey_raw sy) 64 = limbs (2 ^ c mod p)
        \<and> cells_at (host m) (ime_key_in sy) 12 = seal_key key final_key)"

lemma wram_blocks_32: "buffer_blocks m a 32 = [map (\<lambda>j. m (a div 4 + j)) [0..<4], map (\<lambda>j. m (a div 4 + 4 + j)) [0..<4]]"
  by (simp add: buffer_blocks_def upt_rec)

text \<open>Decryption of a WRAM buffer, as for MRAM.\<close>

lemma ime_aead_dec_verifies:
  assumes "crypt_size len" "buffers_ok (2 ^ 31 - 1) len a b" "length (key_words key) = 8" "length tag = 4"
  shows "ime_aead_dec key iv tag len a b s =
    (if tag = aead_tag key iv (wram_cells s) a len
     then (True, s\<lparr>wram_cells := xor_words (keystream key iv) UNIV len a b (wram_cells s)\<rparr>)
     else (False, s))"
proof -
  let ?t = "ime_poly_simple key iv len (PTR_32_of_wram a) s"
  have t: "?t = aead_tag key iv (wram_cells s) a len"
    using assms ime_poly_simple_wram [of a len key iv s]
    by (simp add: aead_tag_def ime_chacha_blk_eq buffers_ok_def)
  have "length ?t = 4"
    unfolding t aead_tag_def by (rule length_poly_tag) (auto simp: buffer_blocks_def)
  then have "(\<forall>i < 4. ?t ! i = tag ! i) \<longleftrightarrow> tag = ?t"
    using assms(4) by (auto simp: list_eq_iff_nth_eq)
  then show ?thesis
    using assms(1-3) t
    by (auto simp: ime_aead_dec_def ime_aead_dec_gen_def Let_def tag_loop ime_chacha_crypt_wram simp del: One_nat_def)
qed

lemma xor_words_cell:
  "b mod 8 = 0 \<Longrightarrow> x < len div 4 \<Longrightarrow> xor_words blk UNIV len a b m (b div 4 + x) = m (a div 4 + x) XOR blk (x div 16) ! (x mod 16)"
  by (simp add: xor_words_def Let_def)

lemma stage1_cells:
  assumes "core_on_counter me counter = Inr (counter', ctr)" "length ctr = 4" "symbols_ok sy"
  shows "\<exists>m s'. stage1 me sy host counter s = Inr (counter', s', Replace_sk (ime_xchg_sk_2 sy) None)
    \<and> cells_at m (ime_xchg_counter sy) 4 = ctr \<and> cells_at m (dpu_pubkey_raw sy) 64 = dpu_pubkey_wram
    \<and> mram s' = host m
    \<and> cells_at (wram_cells s') (g_xchg_io sy) 80
       = cells_at (host m) (client_pubkey_raw sy) 64 @ ctr @ cells_at (host m) (ime_key_in sy) 12"
proof -
  let ?m = "copy_words ((!) dpu_pubkey_wram) (dpu_pubkey_raw sy div 4) 64
    (copy_words ((!) ctr) (ime_xchg_counter sy div 4) 4 (mram s))"
  have "cells_at ?m (ime_xchg_counter sy) 4 = ctr"
    using assms(2,3) apart_cells(1) [of "ime_xchg_counter sy" 4 "dpu_pubkey_raw sy" 64]
    by (auto simp: list_eq_iff_nth_eq copy_words_cell symbols_ok_def)
  moreover have "cells_at ?m (dpu_pubkey_raw sy) 64 = dpu_pubkey_wram"
    by (rule nth_equalityI) (simp_all add: copy_words_cell dpu_pubkey_wram_def [THEN arg_cong [where f = length]])
  ultimately show ?thesis
    using assms(1,2)
    by (intro exI [of _ ?m]) (auto simp: stage1_def Let_def list_eq_iff_nth_eq copy_words_cell nth_append xchg_cnt_def xchg_pk_def xchg_key_enc_def)
qed

definition key_tag :: "u32 list \<Rightarrow> u32 list \<Rightarrow> u32 list" where
  "key_tag key c = poly_tag (chacha20_block key 0 [0, 0, 0]) [take 4 c, drop 4 c, [0, 0, 32, 0]]"

lemma stage2_cells:
  assumes "exp_mod (take 64 io) ime_raw_sk ime_raw_prime = (0, p)" "64 \<le> length p"
    and "cells_at (wram_cells s) (g_xchg_io sy) 80 = io"
  shows "\<exists>s'. stage2 exp_mod sy s = (s', Replace_sk (ime_xchg_sk_3 sy) None) \<and> mram s' = mram s
    \<and> cells_at (wram_cells s') (g_xchg_io sy) 80 = take 64 p @ drop 64 io"
proof -
  have "map (\<lambda>i. wram_cells s (g_xchg_io sy div 4 + xchg_pk + i)) [0..<64] = take 64 io"
    unfolding assms(3) [symmetric] by (simp add: cells_at_def take_map xchg_pk_def)
  moreover have "cells_at (copy_words ((!) p) (g_xchg_io sy div 4) 64 (wram_cells s)) (g_xchg_io sy) 80
    = take 64 p @ drop 64 io"
    unfolding assms(3) [symmetric]
    using assms(2) by (simp add: list_eq_iff_nth_eq copy_words_cell nth_append)
  ultimately show ?thesis
    using assms(1) by (simp add: stage2_def Let_def xchg_pk_def)
qed

text \<open>The words that stage 3 takes from the persistent struct.\<close>

lemma stage3_io:
  assumes "cells_at w a 80 = shared @ cnt @ enc" "length shared = 64" "length cnt = 4" "a mod 8 = 0"
  shows "map (\<lambda>i. w (a div 4 + xchg_pk + i)) [0..<64] = shared" "map (\<lambda>i. w (a div 4 + xchg_cnt + i)) [0..<4] = cnt"
    "map (\<lambda>i. w (a div 4 + xchg_key_enc + 8 + i)) [0..<4] = drop 8 enc" "cells_at w (a + 4 * xchg_key_enc) 8 = take 8 enc"
    "length enc = 12"
proof -
  have l: "length (cells_at w a 80) = length (shared @ cnt @ enc)" using assms(1) by (rule arg_cong)
  then show le: "length enc = 12" using assms(2,3) by simp
  have n: "w (a div 4 + i) = (shared @ cnt @ enc) ! i" if "i < 80" for i
    using that assms(1) nth_cells_at [of i 80 w a] by simp
  show "map (\<lambda>i. w (a div 4 + xchg_pk + i)) [0..<64] = shared"
    by (rule nth_equalityI) (use n assms(2) in \<open>simp_all add: nth_append xchg_pk_def\<close>)
  show "map (\<lambda>i. w (a div 4 + xchg_cnt + i)) [0..<4] = cnt"
    by (rule nth_equalityI) (use n assms(2,3) in \<open>simp_all add: nth_append xchg_cnt_def add.assoc\<close>)
  show "map (\<lambda>i. w (a div 4 + xchg_key_enc + 8 + i)) [0..<4] = drop 8 enc"
    by (rule nth_equalityI) (use n assms(2,3) le in \<open>simp_all add: nth_append xchg_key_enc_def add.assoc\<close>)
  have "(a + 272) div 4 = a div 4 + 68" by simp
  then show "cells_at w (a + 4 * xchg_key_enc) 8 = take 8 enc"
    by (intro nth_equalityI) (use n assms(2,3) le in \<open>simp_all add: nth_append xchg_key_enc_def add.assoc\<close>)
qed

lemma aead_tag_32:
  "aead_tag (User_Key key) [0, 0, 0] m a 32 = key_tag key (cells_at m a 8)"
proof -
  have "take 4 (cells_at m a 8) = map (\<lambda>j. m (a div 4 + j)) [0..<4]"
    "drop 4 (cells_at m a 8) = map (\<lambda>j. m (a div 4 + 4 + j)) [0..<4]"
    by (rule nth_equalityI; simp add: add.assoc)+
  then show ?thesis
    by (simp add: aead_tag_def key_tag_def wram_blocks_32)
qed

lemma stage3_rejects:
  assumes io: "cells_at (wram_cells s) (g_xchg_io sy) 80 = shared @ cnt @ enc" "length shared = 64" "length cnt = 4"
    and "length (sha (shared @ cnt)) = 8" "symbols_ok sy" "drop 8 enc \<noteq> key_tag (sha (shared @ cnt)) (take 8 enc)"
  shows "stage3 me sha sy counter s = Inr (counter, s, Main_returns)"
proof -
  have a: "g_xchg_io sy mod 8 = 0" using assms(5) by (simp add: symbols_ok_def)
  note w = stage3_io [OF io a]
  have "buffers_ok (2 ^ 31 - 1) 32 (g_xchg_io sy + 4 * xchg_key_enc) (final_key_buf sy)"
    using assms(5) by (auto simp: buffers_ok_def symbols_ok_def apart_def xchg_key_enc_def mod_add_eq [symmetric])
  then show ?thesis
    using ime_aead_dec_verifies [of 32 "g_xchg_io sy + 4 * xchg_key_enc" "final_key_buf sy" "User_Key (sha (shared @ cnt))"
        "drop 8 enc" "[0, 0, 0]" s] assms(4,6) w(5)
    by (simp add: stage3_def Let_def w crypt_size_def aead_tag_32)
qed

text \<open>What stage 3 leaves for the client: the confirmation, sealed under the session key.\<close>

definition confirmed :: "symbols \<Rightarrow> u32 list \<Rightarrow> dpu \<Rightarrow> bool" where
  "confirmed sy final_key s \<longleftrightarrow>
     (\<exists>s'. ime_aead_dec_mram (User_Key final_key) (cells_at (mram s) (g_output_iv sy) 3) (cells_at (mram s) (g_output_tag sy) 4)
        32 (g_xchg_out sy) (g_xchg_out sy) s = (True, s')
      \<and> cells_at (mram s') (g_xchg_out sy) 8 = confirm)"

lemma aead_tag_cong:
  "(\<And>i. i < 8 \<Longrightarrow> m (a div 4 + i) = m' (a div 4 + i)) \<Longrightarrow> aead_tag key iv m a 32 = aead_tag key iv m' a 32"
  unfolding aead_tag_def wram_blocks_32
  by (rule arg_cong2 [where f = poly_tag]; simp add: add.assoc; intro conjI map_cong; simp)

lemma stage3_confirms:
  assumes sy: "symbols_ok sy" and "length final_key = 8" "core_on_counter me counter = Inr (counter', ctr)"
    and enc: "ime_aead_enc_mram me (User_Key final_key) None 32 (g_xchg_out sy) (g_xchg_out sy)
      (s\<lparr>mram := mram_write confirm (g_xchg_out sy) 32 (mram s)\<rparr>) counter = Inr (s', c, tag, iv)"
  shows "confirmed sy final_key (s'\<lparr>mram := copy_words ((!) iv) (g_output_iv sy div 4) 3
      (copy_words ((!) tag) (g_output_tag sy div 4) 4 (mram s'))\<rparr>) \<and> c = counter' \<and> wram_cells s' = wram_cells s"
proof -
  let ?a = "g_xchg_out sy" and ?k = "User_Key final_key"
  let ?s0 = "s\<lparr>mram := mram_write confirm ?a 32 (mram s)\<rparr>"
  let ?s2 = "s'\<lparr>mram := copy_words ((!) iv) (g_output_iv sy div 4) 3 (copy_words ((!) tag) (g_output_tag sy div 4) 4 (mram s'))\<rparr>"
  have ok: "crypt_size 32" "buffers_ok (2 ^ 31 - 1) 32 ?a ?a" "?a mod 8 = 0" "?a + 32 \<le> 2 ^ 31 - 1"
    using sy by (auto simp: crypt_size_def buffers_ok_def symbols_ok_def)
  from ime_aead_dec_enc_gen [OF enc [unfolded ime_aead_enc_mram_def], of "PTR_32_of_mram ?a"] assms(2,3)
  have c: "c = counter'" and iv: "length iv = 3" and s': "s' = ime_chacha_crypt ?k ctr 1 32 (PTR_32_of_mram ?a) (PTR_32_of_mram ?a) ?s0"
    and tag: "tag = ime_poly_simple ?k ctr 32 (PTR_32_of_mram ?a) s'" and iv3: "iv = [ctr ! 0, ctr ! 1, ctr ! 2]"
    by (auto simp: ime_choose_iv_def)
  have s'eq: "s' = s\<lparr>mram := xor_words (keystream ?k iv) UNIV 32 ?a ?a (mram_write confirm ?a 32 (mram s))\<rparr>"
    unfolding s' iv3 keystream_iv
    using ime_chacha_crypt_mram [OF ok(1,2), of ?k 1 ctr ?s0] assms(2) by simp
  have tag': "tag = aead_tag ?k iv (mram s') ?a 32"
    unfolding tag iv3 using assms(2) ime_poly_simple_mram [OF ok(3,4), of ?k ctr s']
    by (simp add: aead_tag_def ime_chacha_blk_eq)
  then have "length tag = 4"
    unfolding aead_tag_def by (simp, intro length_poly_tag) (auto simp: buffer_blocks_def)
  have m2: "mram ?s2 (?a div 4 + i) = mram s' (?a div 4 + i)" if "i < 8" for i
    using that sy apart_cells(1) [of ?a 8 "g_output_tag sy" 4 i] apart_cells(1) [of ?a 8 "g_output_iv sy" 4 i]
    by (auto simp: copy_words_cell symbols_ok_def)
  have out: "cells_at (mram ?s2) (g_output_tag sy) 4 = tag" "cells_at (mram ?s2) (g_output_iv sy) 3 = iv"
    using \<open>length tag = 4\<close> iv sy apart_cells(1) [of "g_output_tag sy" 4 "g_output_iv sy" 4]
    by (fastforce simp: list_eq_iff_nth_eq copy_words_cell symbols_ok_def)+
  have "aead_tag ?k iv (mram ?s2) ?a 32 = tag"
    by (rule trans [OF aead_tag_cong tag' [symmetric]]) (rule m2)
  then have pt: "ime_poly_simple ?k iv 32 (PTR_32_of_mram ?a) ?s2 = tag"
    using assms(2) ime_poly_simple_mram [OF ok(3,4), of ?k iv ?s2]
    by (simp add: aead_tag_def ime_chacha_blk_eq)
  have dec: "ime_aead_dec_mram ?k iv tag 32 ?a ?a ?s2 = (True, ime_chacha_crypt ?k iv 1 32 (PTR_32_of_mram ?a) (PTR_32_of_mram ?a) ?s2)"
    by (simp only: ime_aead_dec_mram_def ime_aead_dec_gen_def pt Let_def tag_loop simp_thms if_False)
  have crypt: "mram (ime_chacha_crypt ?k iv 1 32 (PTR_32_of_mram ?a) (PTR_32_of_mram ?a) ?s2)
    = xor_words (keystream ?k iv) UNIV 32 ?a ?a (mram ?s2)"
    using ime_chacha_crypt_mram [OF ok(1,2), of ?k 1 iv ?s2] assms(2) by simp
  have "cells_at (xor_words (keystream ?k iv) UNIV 32 ?a ?a (mram ?s2)) ?a 8 = confirm"
  proof (rule nth_equalityI)
    fix i
    assume "i < length (cells_at (xor_words (keystream ?k iv) UNIV 32 ?a ?a (mram ?s2)) ?a 8)"
    then have i: "i < 8" "i < 32 div 4" by simp_all
    have "2 * (?a div 8) = ?a div 4" using ok(3) by (rule dma_index)
    then have w: "mram_write confirm ?a 32 (mram s) (?a div 4 + i) = confirm ! i"
      using i by (simp add: mram_write_def Let_def)
    have "cells_at (xor_words (keystream ?k iv) UNIV 32 ?a ?a (mram ?s2)) ?a 8 ! i
      = mram s' (?a div 4 + i) XOR keystream ?k iv (i div 16) ! (i mod 16)"
      using i by (simp only: nth_cells_at xor_words_cell [OF ok(3) i(2)] m2)
    also have "mram s' (?a div 4 + i) = confirm ! i XOR keystream ?k iv (i div 16) ! (i mod 16)"
      using xor_words_cell [OF ok(3) i(2)] w by (simp add: s'eq)
    finally show "cells_at (xor_words (keystream ?k iv) UNIV 32 ?a ?a (mram ?s2)) ?a 8 ! i = confirm ! i"
      by (simp add: xor.assoc)
  qed (simp add: confirm_def)
  then show ?thesis
    unfolding confirmed_def out dec using crypt c s'eq by auto
qed

lemma stage3_accepts:
  assumes io: "cells_at (wram_cells s) (g_xchg_io sy) 80 = shared @ cnt @ seal_key (sha (shared @ cnt)) final_key"
      "length shared = 64" "length cnt = 4"
    and len: "length (sha (shared @ cnt)) = 8" "length final_key = 8" and sy: "symbols_ok sy"
    and ctr: "core_on_counter me counter = Inr (counter', ctr)"
  shows "\<exists>s'. stage3 me sha sy counter s = Inr (counter', s', Replace_sk (ime_msg_sk sy) None)
    \<and> load_prop_key sy s' = final_key \<and> confirmed sy final_key s'"
proof -
  let ?key = "sha (shared @ cnt)" and ?a = "g_xchg_io sy + 4 * xchg_key_enc" and ?b = "final_key_buf sy"
  have a: "g_xchg_io sy mod 8 = 0" using sy by (simp add: symbols_ok_def)
  note w = stage3_io [OF io a]
  define c where "c = map (\<lambda>i. final_key ! i XOR chacha20_block ?key 1 [0, 0, 0] ! i) [0..<8]"
  have enc: "seal_key ?key final_key = c @ key_tag ?key c" "length c = 8"
    by (simp_all add: seal_key_def key_tag_def c_def Let_def)
  have buf: "buffers_ok (2 ^ 31 - 1) 32 ?a ?b" "?b mod 8 = 0"
    using sy by (auto simp: buffers_ok_def symbols_ok_def apart_def xchg_key_enc_def mod_add_eq [symmetric])
  define s1 where "s1 = s\<lparr>wram_cells := xor_words (keystream (User_Key ?key) [0, 0, 0]) UNIV 32 ?a ?b (wram_cells s)\<rparr>"
  have dec: "ime_aead_dec (User_Key ?key) [0, 0, 0] (key_tag ?key c) 32 ?a ?b s = (True, s1)"
    using ime_aead_dec_verifies [of 32 ?a ?b "User_Key ?key" "key_tag ?key c" "[0, 0, 0]" s] buf len w(4,5) enc
    by (simp add: crypt_size_def aead_tag_32 s1_def)
  have "map (\<lambda>i. wram_cells s1 (?b div 4 + i)) [0..<8] = final_key"
  proof (rule nth_equalityI)
    fix i
    assume "i < length (map (\<lambda>i. wram_cells s1 (?b div 4 + i)) [0..<8])"
    then have i: "i < 8" "i < 32 div 4" by simp_all
    have "wram_cells s (?a div 4 + i) = c ! i"
      using i w(4) enc nth_cells_at [of i 8 "wram_cells s" ?a] by simp
    then show "map (\<lambda>i. wram_cells s1 (?b div 4 + i)) [0..<8] ! i = final_key ! i"
      using i len by (simp add: s1_def xor_words_cell buf(2) c_def keystream_def ime_chacha_blk_eq xor.assoc)
  qed (simp add: len)
  note fk = this
  let ?s2 = "s1\<lparr>wram_cells := copy_words ((!) final_key) (g_load_prop sy div 4 + 4) 8 (wram_cells s1)\<rparr>"
  obtain s3 ctr3 tag iv where e: "ime_aead_enc_mram me (User_Key final_key) None 32 (g_xchg_out sy) (g_xchg_out sy)
      (?s2\<lparr>mram := mram_write confirm (g_xchg_out sy) 32 (mram ?s2)\<rparr>) counter = Inr (s3, ctr3, tag, iv)"
    using ctr by (simp add: ime_aead_enc_mram_def ime_aead_enc_gen_def ime_choose_iv_def Let_def)
  note c3 = stage3_confirms [OF sy len(2) ctr e]
  have "load_prop_key sy ?s2 = final_key"
    using len by (simp add: load_prop_key_def list_eq_iff_nth_eq copy_words_cell)
  then show ?thesis
    using c3 e fk dec enc
    by (auto simp: stage3_def Let_def w load_prop_key_def)
qed

lemma counter_twice:
  assumes "length counter = 4" "val32 counter + 2 ^ 17 < 2 ^ 128"
  shows "\<exists>c1 c2. core_on_counter 0 counter = Inr (c1, c1) \<and> length c1 = 4 \<and> core_on_counter 0 c1 = Inr (c2, c2)"
proof -
  let ?c1 = "fst (addc_chain False counter [0x10000, 0, 0, 0])"
  note v = core_on_ctr_thread_value [OF assms(1)]
  note v' = core_on_ctr_thread_value [OF v(3)]
  show ?thesis using assms(2) v v' by (simp add: core_on_counter_def)
qed

lemma prime_value: "1 < val32 ime_raw_prime" "val32 ime_raw_prime < 2 ^ 2048"
proof -
  show "1 < val32 ime_raw_prime" by (simp add: ime_raw_prime_def)
  have "length ime_raw_prime = 64" by (simp add: ime_raw_prime_def)
  then show "val32 ime_raw_prime < 2 ^ 2048" using val32_bound [of ime_raw_prime] by simp
qed

text \<open>An honest client that writes its answers into the two buffers.\<close>

definition client_reply :: "symbols \<Rightarrow> (u32 list \<Rightarrow> u32 list) \<Rightarrow> nat \<Rightarrow> u32 list \<Rightarrow> cells \<Rightarrow> cells" where
  "client_reply sy sha c final_key m =
     (let p = val32 ime_raw_prime;
          shared = val32 (cells_at m (dpu_pubkey_raw sy) 64) ^ c mod p;
          key = sha (limbs shared @ cells_at m (ime_xchg_counter sy) 4)
      in copy_words ((!) (limbs (2 ^ c mod p))) (client_pubkey_raw sy div 4) 64
           (copy_words ((!) (seal_key key final_key)) (ime_key_in sy div 4) 12 m))"

lemma client_reply_honest:
  assumes "apart (client_pubkey_raw sy) 256 (ime_key_in sy) 48" "client_pubkey_raw sy mod 8 = 0" "ime_key_in sy mod 8 = 0"
  shows "honest_client sy sha c final_key (client_reply sy sha c final_key)"
proof -
  have l: "length (seal_key key k) = 12" for key k
    unfolding seal_key_def Let_def by (simp add: length_poly_tag)
  show ?thesis
    using assms apart_cells(2) [of "client_pubkey_raw sy" 64 "ime_key_in sy" 12]
    by (fastforce simp: honest_client_def client_reply_def Let_def list_eq_iff_nth_eq copy_words_cell l)
qed

text \<open>A host that answers the message subkernel with one message.\<close>

definition host_msg :: "symbols \<Rightarrow> u16 \<times> u16 \<times> u32 \<Rightarrow> cells \<Rightarrow> cells" where
  "host_msg sy tfp m =
     (let b = ime_msg_buf sy div 4
      in m(b := push_bit 16 (ucast (fst (snd tfp))) OR ucast (fst tfp), b + 1 := snd (snd tfp)))"

lemma msg_fields:
  "msg_type (push_bit 16 (ucast f) OR ucast t) = t" "msg_flags (push_bit 16 (ucast f) OR ucast t) = f"
  unfolding msg_type_def msg_flags_def
  by (rule bit_word_eqI; auto simp: bit_simps bit_or_iff bit_ucast_iff bit_push_bit_iff bit_drop_bit_eq dest: bit_imp_le_length)+

lemmas msg_code_fields = msg_fields msg_fields [where t = 0, simplified] msg_fields [where t = 2, simplified]
  msg_fields [where t = 3, simplified] msg_fields [where t = 4, simplified]

lemma load_prop_key_cells: "load_prop_key sy s = drop 4 (cells_at (wram_cells s) (g_load_prop sy) 12)"
  by (rule nth_equalityI) (simp_all add: load_prop_key_def add.assoc)

lemma load_prop_key_wiped: "load_prop_key sy (wipe_key_loop sy s) = replicate 8 0"
  by (rule nth_equalityI) (simp_all add: load_prop_key_def wipe_key_loop_def copy_words_cell)

lemma keeps_load_prop_key: "keeps_persistent sy load \<Longrightarrow> load_prop_key sy (load sk s) = load_prop_key sy s"
  by (simp add: keeps_persistent_def load_prop_key_cells)

lemma msg_main_returns:
  assumes "fst tfp \<noteq> msg_code IME_MRAM_MSG_LOAD_SK"
  shows "\<exists>s'. msg_main sy (host_msg sy tfp) s = (s', Main_returns) \<and> wram_cells s' = wram_cells s
    \<and> msg_type (mram s' (ime_msg_buf sy div 4))
       = (if fst tfp = msg_code IME_MRAM_MSG_PING then msg_code IME_MRAM_MSG_PONG else fst tfp)"
  using assms by (auto simp: msg_main_def Let_def host_msg_def msg_code_fields set_msg_type_def)

lemma msg_main_loads:
  "\<exists>s'. msg_main sy (host_msg sy (msg_code IME_MRAM_MSG_LOAD_SK, f, p)) s
      = (s', Replace_sk (unat p) (if f AND IME_LOAD_SK_USER_KEY \<noteq> 0 then Some (load_prop_key sy s) else None))"
  by (auto simp: msg_main_def Let_def host_msg_def msg_code_fields set_msg_type_def)

lemma msg_session_key:
  assumes "keeps_persistent sy load" "\<forall>tfp \<in> set hs. fst tfp \<noteq> msg_code IME_MRAM_MSG_LOAD_SK"
  shows "\<exists>s'. msg_session sy load (map (host_msg sy) (hs @ [(msg_code IME_MRAM_MSG_LOAD_SK, f, p)])) s
      = (s', Replace_sk (unat p) (if f AND IME_LOAD_SK_USER_KEY \<noteq> 0
               then Some (if hs = [] then load_prop_key sy s else replicate 8 0) else None))"
  using assms(2)
proof (induction hs arbitrary: s)
  case Nil
  then show ?case using msg_main_loads [of sy f p s] by auto
next
  case (Cons tfp hs)
  obtain s1 where s1: "msg_main sy (host_msg sy tfp) s = (s1, Main_returns)"
    using msg_main_returns [of tfp sy s] Cons.prems by auto
  let ?s2 = "load (ime_msg_sk sy) (wipe_key_loop sy s1)"
  have "load_prop_key sy ?s2 = replicate 8 0"
    using assms(1) by (simp add: keeps_load_prop_key load_prop_key_wiped)
  then show ?case
    using Cons.IH [of ?s2] Cons.prems s1 by (auto simp: bootstrap_def)
qed

section \<open>Properties\<close>


definition example_symbols :: symbols where
  "example_symbols = \<lparr>g_xchg_io = 1024, g_load_prop = 2048, final_key_buf = 4096, client_pubkey_raw = 4096, dpu_pubkey_raw = 8192,
     ime_xchg_counter = 512, ime_key_in = 1024, g_xchg_out = 2048, g_output_tag = 2560, g_output_iv = 2576,
     ime_xchg_sk_2 = 65536, ime_xchg_sk_3 = 131072, ime_msg_sk = 196608, ime_msg_buf = 64\<rparr>"




text \<open>
  C32: The message subkernel hands the session key to the trusted loader exactly for the load request
  that directly follows the exchange. After any other answer of the host, a ping or an unknown
  type included, it returns, the runtime wipes the key, and a later load request with the
  user-key flag gets the zero key; without the flag the loader uses the system key.
\<close>

theorem msg_session_user_key:
  assumes "keeps_persistent sy load" "\<forall>tfp \<in> set hs. fst tfp \<noteq> msg_code IME_MRAM_MSG_LOAD_SK"
  shows "snd (msg_session sy load (map (host_msg sy) (hs @ [(msg_code IME_MRAM_MSG_LOAD_SK, f, p)])) s)
      = Replace_sk (unat p) (if f AND IME_LOAD_SK_USER_KEY = 0 then None
               else Some (if hs = [] then load_prop_key sy s else replicate 8 0))"
  using msg_session_key [OF assms, of f p s] by auto

theorem msg_session_user_key_witness:
  "snd (msg_session example_symbols (\<lambda>sk s. s)
      (map (host_msg example_symbols) ([(msg_code IME_MRAM_MSG_PING, 0, 0)] @ [(msg_code IME_MRAM_MSG_LOAD_SK, 1, 0x4000)]))
      \<lparr>mram = of_nat, wram_cells = of_nat\<rparr>)
   = Replace_sk 0x4000 (Some (replicate 8 0))"
  by (subst msg_session_user_key) (simp_all add: keeps_persistent_def IME_LOAD_SK_USER_KEY_def)

end
