(* ===== verification/SPMD.thy ===== *)
theory SPMD imports DPU_Memory
begin

text \<open>
  What the PrIM kernels under \<^verbatim>\<open>src/src\<close> share. A kernel runs as sixteen tasklets over one
  MRAM; between two barriers each tasklet executes a list of atomic actions (an iteration of
  its block loop, an update under a mutex), and the machine runs any interleaving of the
  sixteen lists: \<open>phase\<close>. When actions of different tasklets commute, every interleaving ends
  where running the tasklets one after the other ends. The locale \<open>disjoint_steps\<close> states when
  that is so for actions on a memory: each writes cells that no other reads or writes.
  Further: the 64-bit view of MRAM, and the log region of \<^verbatim>\<open>support/log.h\<close>.
\<close>

section \<open>Phases\<close>

definition NR_TASKLETS :: nat where "NR_TASKLETS = 16"

lemma NR_TASKLETS_pos [simp]: "0 < NR_TASKLETS"
  by (simp add: NR_TASKLETS_def)

fun interleavings :: "'a list list \<Rightarrow> 'a list set" where
  "interleavings [] = {[]}"
| "interleavings (xs # xss) = (\<Union>ys \<in> interleavings xss. shuffles xs ys)"

definition run_seq :: "('s \<Rightarrow> 's) list \<Rightarrow> 's \<Rightarrow> 's" where
  "run_seq fs s = fold (\<lambda>f. f) fs s"

definition phase :: "('s \<Rightarrow> 's) list list \<Rightarrow> 's \<Rightarrow> 's \<Rightarrow> bool" where
  "phase progs s s' \<longleftrightarrow> (\<exists>zs \<in> interleavings progs. s' = run_seq zs s)"

lemma append_in_shuffles: "xs @ ys \<in> shuffles xs ys"
  by (induction xs) (auto simp: Cons_in_shuffles_leftI)

lemma concat_in_interleavings: "concat xss \<in> interleavings xss"
  by (induction xss) (auto intro: append_in_shuffles)

lemma phase_seq: "phase progs s (run_seq (concat progs) s)"
  unfolding phase_def using concat_in_interleavings by blast

lemma set_interleavings: "zs \<in> interleavings xss \<Longrightarrow> set zs = (\<Union>xs \<in> set xss. set xs)"
  by (induction xss arbitrary: zs) (auto simp: set_shuffles)

lemma run_seq_simps [simp]:
  "run_seq [] s = s" "run_seq (f # fs) s = run_seq fs (f s)" "run_seq (fs @ gs) s = run_seq gs (run_seq fs s)"
  by (simp_all add: run_seq_def)

lemma run_seq_map: "run_seq (map f xs) s = fold f xs s"
  by (induction xs arbitrary: s) simp_all

lemma run_seq_commute:
  assumes "\<And>f t. f \<in> set fs \<Longrightarrow> f (g t) = g (f t)"
  shows "run_seq fs (g s) = g (run_seq fs s)"
  using assms
proof (induction fs arbitrary: s)
  case (Cons f fs)
  have "run_seq (f # fs) (g s) = run_seq fs (g (f s))"
    using Cons.prems [of f s] by simp
  also have "\<dots> = g (run_seq fs (f s))" by (rule Cons.IH) (use Cons.prems in auto)
  finally show ?case by simp
qed simp

lemma shuffle_commute:
  assumes "zs \<in> shuffles xs ys" "\<And>f g s. f \<in> set xs \<Longrightarrow> g \<in> set ys \<Longrightarrow> f (g s) = g (f s)"
  shows "run_seq zs s = run_seq ys (run_seq xs s)"
  using assms
proof (induction xs ys arbitrary: zs s rule: shuffles.induct)
  case (3 x xs y ys)
  from "3.prems"(1) consider (l) zs' where "zs = x # zs'" "zs' \<in> shuffles xs (y # ys)"
    | (r) zs' where "zs = y # zs'" "zs' \<in> shuffles (x # xs) ys" by auto
  then show ?case
  proof cases
    case l
    have "run_seq zs' (x s) = run_seq (y # ys) (run_seq xs (x s))"
      by (rule "3.IH"(1) [OF l(2)]) (use "3.prems"(2) in auto)
    then show ?thesis by (simp add: l(1))
  next
    case r
    have "run_seq zs' (y s) = run_seq ys (run_seq (x # xs) (y s))"
      by (rule "3.IH"(2) [OF r(2)]) (use "3.prems"(2) in auto)
    also have "run_seq (x # xs) (y s) = y (run_seq (x # xs) s)"
      by (rule run_seq_commute) (use "3.prems"(2) in auto)
    finally show ?thesis by (simp add: r(1))
  qed
qed auto

text \<open>Actions of different tasklets commute: every interleaving is as good as one after the other.\<close>

lemma interleaving_commute:
  assumes "zs \<in> interleavings xss"
    and "\<And>i j f g s. i < j \<Longrightarrow> j < length xss \<Longrightarrow> f \<in> set (xss ! i) \<Longrightarrow> g \<in> set (xss ! j) \<Longrightarrow> f (g s) = g (f s)"
  shows "run_seq zs s = run_seq (concat xss) s"
  using assms
proof (induction xss arbitrary: zs s)
  case (Cons xs xss)
  from Cons.prems(1) obtain ys where ys: "ys \<in> interleavings xss" "zs \<in> shuffles xs ys" by auto
  have "f (g s) = g (f s)" if f: "f \<in> set xs" and g: "g \<in> set ys" for f g s
  proof -
    from set_interleavings [OF ys(1)] g obtain zs where "zs \<in> set xss" "g \<in> set zs" by auto
    then obtain j where "j < length xss" "g \<in> set (xss ! j)" by (metis in_set_conv_nth)
    then show ?thesis using Cons.prems(2) [of 0 "Suc j" f g s] f by simp
  qed
  then have "run_seq zs s = run_seq ys (run_seq xs s)" by (rule shuffle_commute [OF ys(2)])
  also have "\<dots> = run_seq (concat xss) (run_seq xs s)"
  proof (rule Cons.IH [OF ys(1)])
    fix i j f g s
    assume "i < j" "j < length xss" "f \<in> set (xss ! i)" "g \<in> set (xss ! j)"
    then show "f (g s) = g (f s)" using Cons.prems(2) [of "Suc i" "Suc j" f g s] by simp
  qed
  finally show ?case by simp
qed simp

lemma phase_commute:
  assumes "phase progs s s'"
    and "\<And>i j f g s. i < j \<Longrightarrow> j < length progs \<Longrightarrow> f \<in> set (progs ! i) \<Longrightarrow> g \<in> set (progs ! j) \<Longrightarrow> f (g s) = g (f s)"
  shows "s' = run_seq (concat progs) s"
proof -
  from assms(1) obtain zs where zs: "zs \<in> interleavings progs" "s' = run_seq zs s"
    unfolding phase_def by blast
  have "run_seq zs s = run_seq (concat progs) s"
    by (rule interleaving_commute [OF zs(1)]) (rule assms(2))
  then show ?thesis by (simp only: zs(2))
qed

section \<open>Actions on disjoint parts of a memory\<close>

locale disjoint_steps =
  fixes body :: "'b \<Rightarrow> (nat \<Rightarrow> 'v) \<Rightarrow> nat \<Rightarrow> 'v"
    and I :: "'b set"
    and W :: "'b \<Rightarrow> nat set"
    and R :: "'b \<Rightarrow> nat set"
  assumes frame: "b \<in> I \<Longrightarrow> j \<notin> W b \<Longrightarrow> body b m j = m j"
    and local: "b \<in> I \<Longrightarrow> (\<And>i. i \<in> R b \<Longrightarrow> m i = m' i) \<Longrightarrow> j \<in> W b \<Longrightarrow> body b m j = body b m' j"
    and apart: "b \<in> I \<Longrightarrow> c \<in> I \<Longrightarrow> b \<noteq> c \<Longrightarrow> W b \<inter> (W c \<union> R c) = {}"
begin

lemma commute:
  assumes "b \<in> I" "c \<in> I"
  shows "body b (body c m) = body c (body b m)"
proof (cases "b = c")
  case False
  have *: "body x (body y m) j = (if j \<in> W x then body x m j else body y m j)"
    if xy: "x \<in> I" "y \<in> I" "x \<noteq> y" for x y j
  proof (cases "j \<in> W x")
    case True
    have "body x (body y m) j = body x m j"
    proof (rule local [OF xy(1)])
      fix i assume "i \<in> R x"
      then have "i \<notin> W y" using apart [of y x] xy by auto
      then show "body y m i = m i" by (rule frame [OF xy(2)])
    qed fact
    then show ?thesis using True by simp
  next
    case False
    then show ?thesis using frame [OF xy(1)] by simp
  qed
  show ?thesis
  proof
    fix j
    have "\<not> (j \<in> W b \<and> j \<in> W c)" using apart [OF assms False] by auto
    then show "body b (body c m) j = body c (body b m) j"
      using * [OF assms False] * [OF assms(2,1)] False frame [OF assms(1)] frame [OF assms(2)] by auto
  qed
qed simp

lemma fold_frame:
  "set bs \<subseteq> I \<Longrightarrow> (\<And>b. b \<in> set bs \<Longrightarrow> j \<notin> W b) \<Longrightarrow> fold body bs m j = m j"
  by (induction bs arbitrary: m) (auto simp: frame)

lemma fold_written:
  assumes "set bs \<subseteq> I" "distinct bs" "b \<in> set bs" "j \<in> W b"
  shows "fold body bs m j = body b m j"
  using assms(1-3)
proof (induction bs arbitrary: m)
  case (Cons c bs)
  show ?case
  proof (cases "b = c")
    case True
    have "j \<notin> W d" if "d \<in> set bs" for d
      using that Cons.prems apart [of b d] assms(4) True by auto
    then show ?thesis using Cons.prems True by (simp add: fold_frame)
  next
    case False
    then have b: "b \<in> I" "c \<in> I" using Cons.prems by auto
    have "fold body bs (body c m) j = body b (body c m) j" using Cons False by auto
    also have "\<dots> = body b m j"
    proof (rule local [OF b(1)])
      fix i assume "i \<in> R b"
      then have "i \<notin> W c" using apart [of c b] b False by auto
      then show "body c m i = m i" by (rule frame [OF b(2)])
    qed fact
    finally show ?thesis by simp
  qed
qed simp

text \<open>A phase of tasklets that loop over their shares of the index set.\<close>

lemma phase_blocks:
  assumes "phase (map (\<lambda>t. map body (idx t)) ts) m m'" "\<And>t. t \<in> set ts \<Longrightarrow> set (idx t) \<subseteq> I"
    and "distinct (concat (map idx ts))"
  shows "\<And>t b j. t \<in> set ts \<Longrightarrow> b \<in> set (idx t) \<Longrightarrow> j \<in> W b \<Longrightarrow> m' j = body b m j"
    "\<And>j. (\<And>t b. t \<in> set ts \<Longrightarrow> b \<in> set (idx t) \<Longrightarrow> j \<notin> W b) \<Longrightarrow> m' j = m j"
proof -
  have "m' = run_seq (concat (map (\<lambda>t. map body (idx t)) ts)) m"
  proof (rule phase_commute [OF assms(1)])
    fix i j f g s
    assume "i < j" "j < length (map (\<lambda>t. map body (idx t)) ts)"
      "f \<in> set (map (\<lambda>t. map body (idx t)) ts ! i)" "g \<in> set (map (\<lambda>t. map body (idx t)) ts ! j)"
    then obtain b c where "f = body b" "b \<in> set (idx (ts ! i))" "g = body c" "c \<in> set (idx (ts ! j))" "i < length ts" "j < length ts"
      by auto
    then show "f (g s) = g (f s)" using assms(2) [of "ts ! i"] assms(2) [of "ts ! j"] by (auto intro!: commute)
  qed
  also have "concat (map (\<lambda>t. map body (idx t)) ts) = map body (concat (map idx ts))"
    by (simp add: map_concat comp_def)
  finally have m': "m' = fold body (concat (map idx ts)) m" by (simp only: run_seq_map)
  have sub: "set (concat (map idx ts)) \<subseteq> I" using assms(2) by auto
  show "m' j = body b m j" if "t \<in> set ts" "b \<in> set (idx t)" "j \<in> W b" for t b j
    unfolding m' using sub assms(3) that by (intro fold_written) auto
  show "m' j = m j" if "\<And>t b. t \<in> set ts \<Longrightarrow> b \<in> set (idx t) \<Longrightarrow> j \<notin> W b" for j
    unfolding m' using sub that by (intro fold_frame) auto
qed

end

section \<open>Private state of the tasklets\<close>

text \<open>An action on what belongs to one tasklet: its locals, its slot of a shared array.\<close>

definition at_slot :: "nat \<Rightarrow> ('l \<Rightarrow> 'l) \<Rightarrow> (nat \<Rightarrow> 'l) \<Rightarrow> nat \<Rightarrow> 'l" where
  "at_slot t f s = s(t := f (s t))"

lemma run_seq_at_slot: "run_seq (map (at_slot t) fs) s = s(t := run_seq fs (s t))"
  by (induction fs arbitrary: s) (simp_all add: at_slot_def)

lemma phase_slots:
  assumes "phase (map (\<lambda>t. map (at_slot t) (fs t)) [0..<n]) s s'"
  shows "s' t = (if t < n then run_seq (fs t) (s t) else s t)"
proof -
  have "s' = run_seq (concat (map (\<lambda>t. map (at_slot t) (fs t)) [0..<n])) s"
  proof (rule phase_commute [OF assms])
    fix i j f g s
    assume "i < j" "j < length (map (\<lambda>t. map (at_slot t) (fs t)) [0..<n])"
      "f \<in> set (map (\<lambda>t. map (at_slot t) (fs t)) [0..<n] ! i)" "g \<in> set (map (\<lambda>t. map (at_slot t) (fs t)) [0..<n] ! j)"
    then obtain f' g' where "f = at_slot i f'" "g = at_slot j g'" by auto
    then show "f (g s) = g (f s)" using \<open>i < j\<close> by (auto simp: at_slot_def)
  qed
  moreover have "run_seq (concat (map (\<lambda>t. map (at_slot t) (fs t)) [0..<k])) s t
      = (if t < k then run_seq (fs t) (s t) else s t)" for k
    by (induction k) (auto simp: run_seq_at_slot less_Suc_eq)
  ultimately show ?thesis by simp
qed

section \<open>Reading and writing MRAM\<close>

lemma mram_read_cells:
  "a mod 8 = 0 \<Longrightarrow> n mod 8 = 0 \<Longrightarrow> mram_read m a n = map (\<lambda>i. m (a div 4 + i)) [0..<n div 4]"
  by (rule mram_dma.rd_cells [where N = "a + n"]) simp_all

lemma mram_write_cells:
  "a mod 8 = 0 \<Longrightarrow> n mod 8 = 0 \<Longrightarrow>
   mram_write xs a n m j = (if a div 4 \<le> j \<and> j < a div 4 + n div 4 then xs ! (j - a div 4) else m j)"
  by (rule mram_dma.wr_cells [where N = "a + n"]) simp_all

text \<open>
  MRAM as its cells of eight bytes, for the kernels with 64-bit elements: the DMA engine
  ignores the low three bits of an address, so this view loses nothing.
\<close>

type_synonym cells64 = "nat \<Rightarrow> u64"

definition mram_read64 :: "cells64 \<Rightarrow> nat \<Rightarrow> nat \<Rightarrow> u64 list" where
  "mram_read64 m a n = map (\<lambda>i. m (a div 8 + i)) [0..<n div 8]"

definition mram_write64 :: "u64 list \<Rightarrow> nat \<Rightarrow> nat \<Rightarrow> cells64 \<Rightarrow> cells64" where
  "mram_write64 xs a n m =
     (\<lambda>j. let b = a div 8 in if b \<le> j \<and> j < b + n div 8 then xs ! (j - b) else m j)"

lemma mram_write64_cells:
  "mram_write64 xs (8 * a) (8 * n) m j = (if a \<le> j \<and> j < a + n then xs ! (j - a) else m j)"
  by (simp add: mram_write64_def Let_def)

lemma mram_read64_cells: "mram_read64 m (8 * a) (8 * n) = map (\<lambda>i. m (a + i)) [0..<n]"
  by (simp add: mram_read64_def)

definition lo32 :: "u64 \<Rightarrow> u32" where "lo32 w = ucast w"
definition hi32 :: "u64 \<Rightarrow> u32" where "hi32 w = ucast (drop_bit 32 w)"
definition u64_of :: "u32 \<Rightarrow> u32 \<Rightarrow> u64" where "u64_of lo hi = ucast lo OR push_bit 32 (ucast hi)"

lemma lo_hi [simp]: "lo32 (u64_of l h) = l" "hi32 (u64_of l h) = h" "u64_of (lo32 w) (hi32 w) = w"
proof -
  show "lo32 (u64_of l h) = l" by (rule bit_eqI) (simp add: lo32_def u64_of_def bit_simps)
  show "hi32 (u64_of l h) = h"
    by (rule bit_eqI) (auto simp add: hi32_def u64_of_def bit_simps dest: bit_imp_le_length)
  show "u64_of (lo32 w) (hi32 w) = w"
    by (rule bit_eqI) (auto simp add: lo32_def hi32_def u64_of_def bit_simps not_less)
qed

text \<open>The two views agree.\<close>

definition wide :: "cells \<Rightarrow> cells64" where
  "wide m j = u64_of (m (2 * j)) (m (2 * j + 1))"

lemma mram_read64_wide:
  "mram_read64 (wide m) a n = map (\<lambda>i. u64_of (mram_read m a n ! (2 * i)) (mram_read m a n ! (2 * i + 1))) [0..<n div 8]"
  by (simp add: mram_read64_def mram_read_def wide_def algebra_simps)

lemma wide_mram_write:
  assumes "length xs = n div 8"
  shows "wide (mram_write (concat (map (\<lambda>w. [lo32 w, hi32 w]) xs)) a n m) = mram_write64 xs a n (wide m)"
proof
  fix j
  have nth: "concat (map (\<lambda>w. [lo32 w, hi32 w]) ys) ! (2 * i) = lo32 (ys ! i)
      \<and> concat (map (\<lambda>w. [lo32 w, hi32 w]) ys) ! (Suc (2 * i)) = hi32 (ys ! i)" if "i < length ys" for ys :: "u64 list" and i
    using that by (induction ys arbitrary: i) (auto simp: nth_Cons split: nat.splits)
  let ?b = "a div 8"
  show "wide (mram_write (concat (map (\<lambda>w. [lo32 w, hi32 w]) xs)) a n m) j = mram_write64 xs a n (wide m) j"
  proof (cases "?b \<le> j \<and> j < ?b + n div 8")
    case True
    then obtain i where "j = ?b + i" "i < n div 8" by (metis le_iff_add nat_add_left_cancel_less)
    then show ?thesis using nth [of i xs] assms
      by (simp add: wide_def mram_write_def mram_write64_def Let_def)
  next
    case False
    then show ?thesis by (auto simp: wide_def mram_write_def mram_write64_def Let_def)
  qed
qed

section \<open>The log of a subkernel (support/log.h)\<close>

text \<open>The last 64 bytes of MRAM are eight slots; a write is a store of eight bytes.\<close>

definition SK_LOG_OFFSET :: nat where "SK_LOG_OFFSET = 64 * 2 ^ 20 - 64"
definition SK_LOG_MAX_ENTRIES :: nat where "SK_LOG_MAX_ENTRIES = 8"

definition sk_log_write_idx :: "nat \<Rightarrow> u64 \<Rightarrow> cells \<Rightarrow> cells" where
  "sk_log_write_idx i v m =
     (if i < SK_LOG_MAX_ENTRIES then mram_write [lo32 v, hi32 v] (SK_LOG_OFFSET + 8 * i) 8 m else m)"

definition sk_log_init :: "cells \<Rightarrow> cells" where
  "sk_log_init m = fold (\<lambda>i. mram_write [0, 0] (SK_LOG_OFFSET + 8 * i) 8) [0..<SK_LOG_MAX_ENTRIES] m"

definition sk_log_write_idx64 :: "nat \<Rightarrow> u64 \<Rightarrow> cells64 \<Rightarrow> cells64" where
  "sk_log_write_idx64 i v m =
     (if i < SK_LOG_MAX_ENTRIES then mram_write64 [v] (SK_LOG_OFFSET + 8 * i) 8 m else m)"

definition sk_log_init64 :: "cells64 \<Rightarrow> cells64" where
  "sk_log_init64 m = fold (\<lambda>i. mram_write64 [0] (SK_LOG_OFFSET + 8 * i) 8) [0..<SK_LOG_MAX_ENTRIES] m"

lemma log_slot: "(SK_LOG_OFFSET + 8 * i) div 8 = SK_LOG_OFFSET div 8 + i" "SK_LOG_OFFSET mod 8 = 0"
  "(SK_LOG_OFFSET + 8 * i) mod 8 = 0"
  by (simp_all add: SK_LOG_OFFSET_def)

lemma log_slot4: "(SK_LOG_OFFSET + 8 * i) div 4 = SK_LOG_OFFSET div 4 + 2 * i"
  by (simp add: SK_LOG_OFFSET_def)

lemma sk_log_write_idx_cell:
  "i < 8 \<Longrightarrow> sk_log_write_idx i v m j =
     (if j = SK_LOG_OFFSET div 4 + 2 * i then lo32 v
      else if j = SK_LOG_OFFSET div 4 + 2 * i + 1 then hi32 v else m j)"
  by (auto simp: sk_log_write_idx_def SK_LOG_MAX_ENTRIES_def mram_write_cells log_slot log_slot4 less_Suc_eq numeral_2_eq_2)

lemma sk_log_write_idx_below [simp]: "j < SK_LOG_OFFSET div 4 \<Longrightarrow> sk_log_write_idx i v m j = m j"
  by (simp add: sk_log_write_idx_def mram_write_cells log_slot log_slot4)

lemma sk_log_write_idx64_cell:
  "i < 8 \<Longrightarrow> sk_log_write_idx64 i v m j = (if j = SK_LOG_OFFSET div 8 + i then v else m j)"
  by (auto simp: sk_log_write_idx64_def SK_LOG_MAX_ENTRIES_def mram_write64_def log_slot Let_def)

lemma sk_log_write_idx64_below [simp]: "j < SK_LOG_OFFSET div 8 \<Longrightarrow> sk_log_write_idx64 i v m j = m j"
  by (simp add: sk_log_write_idx64_def mram_write64_def log_slot Let_def)

lemma fold_unchanged:
  "(\<And>x m. x \<in> set xs \<Longrightarrow> f x m j = m j) \<Longrightarrow> fold f xs m j = m j"
  by (induction xs arbitrary: m) simp_all

lemma sk_log_init_below [simp]: "j < SK_LOG_OFFSET div 4 \<Longrightarrow> sk_log_init m j = m j"
  unfolding sk_log_init_def by (rule fold_unchanged) (simp add: mram_write_cells log_slot log_slot4)

lemma sk_log_init64_below [simp]: "j < SK_LOG_OFFSET div 8 \<Longrightarrow> sk_log_init64 m j = m j"
  unfolding sk_log_init64_def by (rule fold_unchanged) (simp add: mram_write64_def log_slot Let_def)

section \<open>Loops over a buffer\<close>

lemma length_fold_update [simp]: "length (fold (\<lambda>i xs. xs[h i := g i xs]) is xs) = length xs"
  by (induction "is" arbitrary: xs) simp_all

text \<open>\<open>for (i = 0; i < n; i++) xs[i] = g(i, xs[i])\<close>.\<close>

lemma nth_fold_update:
  "n \<le> length xs \<Longrightarrow>
   fold (\<lambda>i xs. xs[i := g i (xs ! i)]) [0..<n] xs ! k = (if k < n then g k (xs ! k) else xs ! k)"
  by (induction n) (auto simp: nth_list_update less_Suc_eq)

text \<open>\<open>for (i = 0; i < n; i++) acc += g(i)\<close>.\<close>

lemma fold_add: "fold (\<lambda>i acc. acc + g i) xs (a :: 'a :: comm_monoid_add) = a + sum_list (map g xs)"
  by (induction xs arbitrary: a) (simp_all add: algebra_simps)

text \<open>Aligned addresses.\<close>

lemma aligned_add [dma_simps]:
  fixes a b :: nat
  assumes "a mod 8 = 0" "b mod 8 = 0"
  shows "(a + b) div 4 = a div 4 + b div 4" "(a + b) div 8 = a div 8 + b div 8" "(a + b) mod 8 = 0"
proof -
  from assms obtain k l where "a = 8 * k" "b = 8 * l" by (auto simp: mod_eq_0_iff_dvd elim!: dvdE)
  then have eq: "a = 8 * k" "b = 8 * l" "a + b = 8 * (k + l)" "\<And>n. 8 * n div 4 = 2 * (n :: nat)" by auto
  then show "(a + b) div 4 = a div 4 + b div 4" "(a + b) div 8 = a div 8 + b div 8" "(a + b) mod 8 = 0"
    unfolding eq by simp_all
qed

lemma aligned_4: "a mod 8 = 0 \<Longrightarrow> 4 * (a div 4) = (a :: nat)"
  by (auto simp: mod_eq_0_iff_dvd elim!: dvdE)

lemma aligned_diff [dma_simps]:
  fixes a b :: nat
  assumes "a mod 8 = 0" "b mod 8 = 0"
  shows "(a - b) mod 8 = 0"
  using assms by (simp add: mod_eq_0_iff_dvd)

lemma aligned_less [dma_simps]:
  fixes a b :: nat
  assumes "a mod 8 = 0" "b mod 8 = 0"
  shows "a div 4 < b div 4 \<longleftrightarrow> a < b" "a div 8 < b div 8 \<longleftrightarrow> a < b" "a div 4 \<le> b div 4 \<longleftrightarrow> a \<le> b" "a div 8 \<le> b div 8 \<longleftrightarrow> a \<le> b"
    "a div 4 = b div 4 \<longleftrightarrow> a = b"
proof -
  from assms obtain k l where "a = 8 * k" "b = 8 * l" by (auto simp: mod_eq_0_iff_dvd elim!: dvdE)
  then have eq: "a = 8 * k" "b = 8 * l" "\<And>n. 8 * n div 4 = 2 * (n :: nat)" by auto
  show "a div 4 < b div 4 \<longleftrightarrow> a < b" "a div 8 < b div 8 \<longleftrightarrow> a < b" "a div 4 \<le> b div 4 \<longleftrightarrow> a \<le> b" "a div 8 \<le> b div 8 \<longleftrightarrow> a \<le> b"
    "a div 4 = b div 4 \<longleftrightarrow> a = b"
    unfolding eq by simp_all
qed

lemma blocks_apart:
  fixes b c blk :: nat
  assumes "b mod blk = 0" "c mod blk = 0" "b \<noteq> c"
  shows "b + blk \<le> c \<or> c + blk \<le> b"
proof -
  from assms obtain k l where kl: "b = blk * k" "c = blk * l" by (auto simp: mod_eq_0_iff_dvd elim!: dvdE)
  with assms(3) have "Suc k \<le> l \<or> Suc l \<le> k" by auto
  then show ?thesis unfolding kl by (metis mult_Suc_right mult_le_mono2 add.commute)
qed

text \<open>Every cell below \<open>n\<close> is in the block of one index of the loops.\<close>

lemma block_of:
  fixes n blk :: nat
  assumes "0 < blk" "i < n"
  shows "i div blk * blk \<in> set (stride_list blk 0 n)" "i div blk * blk \<le> i" "i < i div blk * blk + blk"
proof -
  show "i div blk * blk \<le> i" by simp
  moreover show "i < i div blk * blk + blk"
    using assms(1) by (metis add.commute div_mult_mod_eq mod_less_divisor nat_add_left_cancel_less)
  ultimately have "i div blk * blk < n" using assms(2) by linarith
  then show "i div blk * blk \<in> set (stride_list blk 0 n)"
    using assms by (auto simp: set_stride_list intro!: exI [of _ "i div blk"])
qed

text \<open>The last block of a loop may be short: \<open>(b + blk >= n) ? n - b : blk\<close>.\<close>

definition l_size_bytes :: "nat \<Rightarrow> nat \<Rightarrow> nat \<Rightarrow> nat" where
  "l_size_bytes blk n b = (if n \<le> b + blk then n - b else blk)"

lemma l_size_bounds:
  "b < n \<Longrightarrow> 0 < blk \<Longrightarrow> l_size_bytes blk n b \<le> blk \<and> b + l_size_bytes blk n b \<le> n \<and> 0 < l_size_bytes blk n b"
  by (auto simp: l_size_bytes_def)

lemma l_size_aligned:
  "blk mod 8 = 0 \<Longrightarrow> n mod 8 = 0 \<Longrightarrow> b mod blk = 0 \<Longrightarrow> b mod 8 = 0 \<and> l_size_bytes blk n b mod 8 = 0"
proof -
  assume "blk mod 8 = 0" "n mod 8 = 0" "b mod blk = 0"
  then have d: "8 dvd blk" "8 dvd n" "blk dvd b" by (simp_all only: mod_eq_0_iff_dvd)
  then have "8 dvd b" by (metis dvd_trans)
  then show ?thesis unfolding l_size_bytes_def mod_eq_0_iff_dvd using d by (simp add: dvd_diff_nat)
qed

text \<open>The words of a buffer of \<open>n\<close> bytes, by blocks.\<close>

lemma block_of_word:
  fixes n blk :: nat
  assumes "0 < blk" "blk mod 8 = 0" "n mod 8 = 0" "i < n div 4"
  defines "b \<equiv> 4 * i div blk * blk"
  shows "b < n" "b mod blk = 0" "b div 4 \<le> i" "i < b div 4 + l_size_bytes blk n b div 4"
proof -
  have lt: "4 * i < n" using assms(4) by auto
  note b = block_of [OF assms(1) lt, folded b_def]
  show "b < n" by (rule le_less_trans [OF b(2) lt])
  show b0: "b mod blk = 0" unfolding b_def by simp
  show "b div 4 \<le> i" using div_le_mono [OF b(2), of 4] by simp
  have al: "b mod 8 = 0" "l_size_bytes blk n b mod 8 = 0"
    using l_size_aligned [OF assms(2,3) b0] by auto
  have "4 * i < b + l_size_bytes blk n b" using b(3) lt less_imp_le [OF \<open>b < n\<close>] by (cases "n \<le> b + blk") (simp_all add: l_size_bytes_def)
  moreover have "b + l_size_bytes blk n b = 4 * (b div 4 + l_size_bytes blk n b div 4)"
    using aligned_4 [OF al(1)] aligned_4 [OF al(2)] by simp
  ultimately have "4 * i < 4 * (b div 4 + l_size_bytes blk n b div 4)" by (simp only:)
  then show "i < b div 4 + l_size_bytes blk n b div 4" by (simp only: mult_less_cancel1)
qed

lemma tasklet_indices:
  assumes "0 < blk"
  shows "(\<exists>t < NR_TASKLETS. b \<in> set (stride_list (blk * NR_TASKLETS) (blk * t) n)) \<longleftrightarrow> b < n \<and> b mod blk = 0"
    and "distinct (concat (map (\<lambda>t. stride_list (blk * NR_TASKLETS) (blk * t) n) [0..<NR_TASKLETS]))"
proof -
  have "(\<exists>t < NR_TASKLETS. b \<in> set (stride_list (blk * NR_TASKLETS) (blk * t) n))
      \<longleftrightarrow> b \<in># mset (concat (map (\<lambda>t. stride_list (blk * NR_TASKLETS) (blk * t) n) [0..<NR_TASKLETS]))"
    by auto
  also have "\<dots> \<longleftrightarrow> b \<in># mset (stride_list blk 0 n)"
    by (subst stride_partition) (use assms in auto)
  also have "\<dots> \<longleftrightarrow> b < n \<and> b mod blk = 0"
    using assms by (auto simp: set_stride_list mod_eq_0_iff_dvd dvd_def ac_simps)
  finally show "(\<exists>t < NR_TASKLETS. b \<in> set (stride_list (blk * NR_TASKLETS) (blk * t) n)) \<longleftrightarrow> b < n \<and> b mod blk = 0" .
  show "distinct (concat (map (\<lambda>t. stride_list (blk * NR_TASKLETS) (blk * t) n) [0..<NR_TASKLETS]))"
    using assms by (intro distinct_tasklet_strides) auto
qed

lemma upt_join: "a \<le> b \<Longrightarrow> b \<le> c \<Longrightarrow> [a..<b] @ [b..<c] = [a..<c]"
  by (metis le_add_diff_inverse upt_add_eq_append)

lemma concat_map_concat: "concat (map (\<lambda>t. concat (f t)) ts) = concat (concat (map f ts))"
  by (induction ts) simp_all

text \<open>The blocks of a buffer make up its words, in whatever order the tasklets visit them.\<close>

lemma blocks_concat:
  assumes "0 < blk" "blk mod 8 = 0" "n mod 8 = 0" "b mod 8 = 0"
  shows "concat (map (\<lambda>b. [b div 4..<b div 4 + l_size_bytes blk n b div 4]) (stride_list blk b n)) = [b div 4..<n div 4]"
  using assms
proof (induction blk b n rule: stride_list.induct)
  case (1 blk b n)
  show ?case
  proof (cases "b < n")
    case False
    then have "n div 4 \<le> b div 4" by (simp add: div_le_mono)
    with False show ?thesis by (simp add: stride_list.simps [of blk b n])
  next
    case True
    have IH: "concat (map (\<lambda>b. [b div 4..<b div 4 + l_size_bytes blk n b div 4]) (stride_list blk (b + blk) n))
        = [(b + blk) div 4..<n div 4]"
      using 1 True by (simp add: dma_simps)
    have sum: "(b + blk) div 4 = b div 4 + blk div 4" using "1.prems" by (simp add: dma_simps)
    show ?thesis
    proof (cases "n \<le> b + blk")
      case True': True
      have "b + (n - b) = n" using True by simp
      then have "b div 4 + (n - b) div 4 = n div 4" using "1.prems" by (metis aligned_add(1) aligned_diff)
      moreover have "n div 4 \<le> (b + blk) div 4" using True' by (rule div_le_mono)
      ultimately show ?thesis using True True' "1.prems" IH
        by (simp add: stride_list.simps [of blk b n] l_size_bytes_def)
    next
      case False
      have "(b + blk) div 4 \<le> n div 4" using False by (intro div_le_mono) simp
      then show ?thesis using True False "1.prems" IH
        by (simp add: stride_list.simps [of blk b n] l_size_bytes_def sum upt_join)
    qed
  qed
qed

lemma mset_concat_map: "mset (concat (map f xs)) = (\<Sum>x \<in># mset xs. mset (f x))"
  by (induction xs) simp_all

lemma tasklet_blocks_mset:
  assumes "0 < blk" "blk mod 8 = 0" "n mod 8 = 0"
  shows "mset (concat (map (\<lambda>t. concat (map (\<lambda>b. [b div 4..<b div 4 + l_size_bytes blk n b div 4])
      (stride_list (blk * NR_TASKLETS) (blk * t) n))) [0..<NR_TASKLETS])) = mset [0..<n div 4]" (is "mset ?L = _")
proof -
  let ?f = "\<lambda>b. [b div 4..<b div 4 + l_size_bytes blk n b div 4]"
  have "?L = concat (map ?f (concat (map (\<lambda>t. stride_list (blk * NR_TASKLETS) (blk * t) n) [0..<NR_TASKLETS])))"
    by (simp add: map_concat concat_map_concat comp_def)
  then have "mset ?L = (\<Sum>b \<in># mset (concat (map (\<lambda>t. stride_list (blk * NR_TASKLETS) (blk * t) n) [0..<NR_TASKLETS])). mset (?f b))"
    by (simp only: mset_concat_map)
  also have "\<dots> = (\<Sum>b \<in># mset (stride_list blk 0 n). mset (?f b))"
    by (subst stride_partition) (use assms in auto)
  also have "\<dots> = mset (concat (map ?f (stride_list blk 0 n)))"
    by (simp only: mset_concat_map)
  also have "concat (map ?f (stride_list blk 0 n)) = [0..<n div 4]"
    using blocks_concat [of blk n 0] assms by simp
  finally show ?thesis .
qed

text \<open>A read fills the start of a cache; what it does not reach keeps its words.\<close>

definition load_cache :: "'a list \<Rightarrow> 'a list \<Rightarrow> 'a list" where
  "load_cache xs cache = xs @ drop (length xs) cache"

lemma nth_load_cache [simp]: "i < length xs \<Longrightarrow> load_cache xs cache ! i = xs ! i"
  by (simp add: load_cache_def nth_append)

lemma length_load_cache [simp]: "length xs \<le> length cache \<Longrightarrow> length (load_cache xs cache) = length cache"
  by (simp add: load_cache_def)

lemma load_cache_same [simp]: "length xs = length cache \<Longrightarrow> load_cache xs cache = xs"
  by (simp add: load_cache_def)

text \<open>An accumulator that a list of actions only ever adds to.\<close>

lemma run_seq_accumulate:
  fixes acc :: "'s \<Rightarrow> 'a :: comm_monoid_add"
  assumes "\<And>f s. f \<in> set fs \<Longrightarrow> acc (f s) = acc s + val f"
  shows "acc (run_seq fs s) = acc s + sum_list (map val fs)"
  using assms by (induction fs arbitrary: s) (simp_all add: ac_simps)

text \<open>What the loops of a tasklet read: the words of its blocks.\<close>

definition block_words :: "nat \<Rightarrow> nat \<Rightarrow> nat \<Rightarrow> nat list" where
  "block_words blk n b = [b div 4..<b div 4 + l_size_bytes blk n b div 4]"

definition tasklet_words :: "nat \<Rightarrow> nat \<Rightarrow> nat \<Rightarrow> nat list" where
  "tasklet_words blk n t = concat (map (block_words blk n) (stride_list (blk * NR_TASKLETS) (blk * t) n))"

lemma mset_tasklet_words:
  assumes "0 < blk" "blk mod 8 = 0" "n mod 8 = 0"
  shows "mset (concat (map (tasklet_words blk n) [0..<NR_TASKLETS])) = mset [0..<n div 4]"
  using tasklet_blocks_mset [OF assms] by (simp add: tasklet_words_def block_words_def [abs_def] cong: map_cong)

lemma sum_list_concat_map: "sum_list (concat (map f xs)) = sum_list (map (\<lambda>x. sum_list (f x)) xs)"
  by (induction xs) simp_all

lemma sum_tasklet_words:
  fixes f :: "nat \<Rightarrow> 'a :: comm_monoid_add"
  assumes "0 < blk" "blk mod 8 = 0" "n mod 8 = 0"
  shows "(\<Sum>t < NR_TASKLETS. sum_list (map f (tasklet_words blk n t))) = (\<Sum>i < n div 4. f i)"
proof -
  have "(\<Sum>t < NR_TASKLETS. sum_list (map f (tasklet_words blk n t)))
      = sum_list (map f (concat (map (tasklet_words blk n) [0..<NR_TASKLETS])))"
    by (simp add: map_concat comp_def sum_list_concat_map interv_sum_list_conv_sum_set_nat atLeast0LessThan)
  also have "\<dots> = (\<Sum>i \<in># mset [0..<n div 4]. f i)"
    by (subst mset_tasklet_words [OF assms, symmetric]) (simp add: sum_mset_sum_list flip: mset_map)
  also have "\<dots> = (\<Sum>i < n div 4. f i)"
    by (simp add: sum_unfold_sum_mset atLeast0LessThan)
  finally show ?thesis .
qed

lemma tasklet_index_mod:
  "0 < blk \<Longrightarrow> b \<in> set (stride_list (blk * NR_TASKLETS) (blk * t) n) \<Longrightarrow> b mod blk = 0 \<and> b < n"
  by (auto simp: set_stride_list mod_eq_0_iff_dvd)

lemma load_block_words:
  assumes "0 < blk" "blk mod 8 = 0" "n mod 8 = 0" "b mod blk = 0" "base mod 8 = 0"
  shows "map ((!) (load_cache (mram_read m (base + b) (l_size_bytes blk n b)) cache)) [0..<l_size_bytes blk n b div 4]
    = map (\<lambda>i. m (base div 4 + i)) (block_words blk n b)"
proof -
  have al: "b mod 8 = 0" "l_size_bytes blk n b mod 8 = 0"
    using l_size_aligned [OF assms(2,3,4)] by auto
  let ?l = "l_size_bytes blk n b div 4"
  have "map ((!) (load_cache (mram_read m (base + b) (l_size_bytes blk n b)) cache)) [0..<?l]
      = map (\<lambda>i. m (base div 4 + i)) (map (\<lambda>i. i + b div 4) [0..<?l])"
    using al assms(5) by (intro nth_equalityI) (simp_all add: mram_read_cells dma_simps ac_simps)
  also have "map (\<lambda>i. i + b div 4) [0..<?l] = block_words blk n b"
    by (simp add: map_add_upt add.commute block_words_def)
  finally show ?thesis .
qed

lemma lo_hi_ucast [simp]: "lo32 (ucast x) = x" "hi32 (ucast (x :: u32)) = 0"
  by (rule bit_eqI; auto simp: lo32_def hi32_def bit_simps dest: bit_imp_le_length)+

text \<open>An action that the last tasklet runs after everything else is one of the interleavings.\<close>

lemma shuffles_snoc: "zs \<in> shuffles xs ys \<Longrightarrow> zs @ [a] \<in> shuffles xs (ys @ [a])"
proof (induction xs ys arbitrary: zs rule: shuffles.induct)
  case (2 xs)
  then show ?case by (simp add: append_in_shuffles)
next
  case (3 x xs y ys)
  from "3.prems" consider (l) zs' where "zs = x # zs'" "zs' \<in> shuffles xs (y # ys)"
    | (r) zs' where "zs = y # zs'" "zs' \<in> shuffles (x # xs) ys" by auto
  then show ?case by cases (use "3.IH" in auto)
qed auto

lemma shuffles_Nil_right: "zs \<in> shuffles xs [] \<longleftrightarrow> zs = xs"
  by (cases xs) auto

lemma interleavings_snoc:
  "zs \<in> interleavings (xss @ [xs]) \<Longrightarrow> zs @ [a] \<in> interleavings (xss @ [xs @ [a]])"
  by (induction xss arbitrary: zs) (auto simp: shuffles_Nil_right intro: shuffles_snoc)

definition late_last :: "('s \<Rightarrow> 's) list list \<Rightarrow> ('s \<Rightarrow> 's) \<Rightarrow> 's \<Rightarrow> 's \<Rightarrow> bool" where
  "late_last progs a s s' \<longleftrightarrow> (\<exists>s1. phase progs s s1 \<and> s' = a s1)"

lemma late_last_phase:
  "late_last (progs @ [p]) a s s' \<Longrightarrow> phase (progs @ [p @ [a]]) s s'"
  by (auto simp: late_last_def phase_def intro!: bexI [OF _ interleavings_snoc])

text \<open>A block in words: 16 tasklets with a block each, in round \<open>r\<close>.\<close>

lemma upt_tasklets: "[0..<NR_TASKLETS] = [0..<NR_TASKLETS - 1] @ [NR_TASKLETS - 1]"
  by (simp add: NR_TASKLETS_def upt_rec)

text \<open>The last tasklet may also run all its actions before the others.\<close>

lemma append_shuffle_left: "xs @ ys @ zs \<in> shuffles ys (xs @ zs)"
proof (induction xs)
  case Nil
  then show ?case by (simp add: append_in_shuffles)
next
  case (Cons x xs)
  then show ?case by (cases ys) (auto simp: Cons_in_shuffles_rightI)
qed

lemma last_first_interleaving: "xs @ concat xss \<in> interleavings (xss @ [xs])"
proof (induction xss)
  case (Cons ys xss)
  then show ?case using append_shuffle_left [of xs ys "concat xss"] by auto
qed (simp add: shuffles_Nil_right)

lemma last_first_phase: "phase (progs @ [p]) s (run_seq (concat progs) (run_seq p s))"
  unfolding phase_def using last_first_interleaving [of p progs]
  by (intro bexI [of _ "p @ concat progs"]) simp_all

text \<open>
  Commutation is often only needed, and true, in the states that the phase can be in: \<open>P\<close> is kept
  by every action.
\<close>

lemma run_seq_inv: "P s \<Longrightarrow> (\<And>f s. f \<in> set fs \<Longrightarrow> P s \<Longrightarrow> P (f s)) \<Longrightarrow> P (run_seq fs s)"
  by (induction fs arbitrary: s) simp_all

lemma run_seq_commute_inv:
  assumes "P s" "\<And>f t. f \<in> set fs \<Longrightarrow> P t \<Longrightarrow> f (g t) = g (f t)" "\<And>f t. f \<in> set fs \<Longrightarrow> P t \<Longrightarrow> P (f t)"
  shows "run_seq fs (g s) = g (run_seq fs s)"
  using assms
proof (induction fs arbitrary: s)
  case (Cons f fs)
  have "run_seq (f # fs) (g s) = run_seq fs (g (f s))" using Cons.prems(1) Cons.prems(2) [of f s] by simp
  also have "\<dots> = g (run_seq fs (f s))" by (rule Cons.IH) (use Cons.prems in auto)
  finally show ?case by simp
qed simp

lemma shuffle_commute_inv:
  assumes "zs \<in> shuffles xs ys" "P s" "\<And>f g s. f \<in> set xs \<Longrightarrow> g \<in> set ys \<Longrightarrow> P s \<Longrightarrow> f (g s) = g (f s)"
    and "\<And>f s. f \<in> set xs \<union> set ys \<Longrightarrow> P s \<Longrightarrow> P (f s)"
  shows "run_seq zs s = run_seq ys (run_seq xs s)"
  using assms
proof (induction xs ys arbitrary: zs s rule: shuffles.induct)
  case (3 x xs y ys)
  from "3.prems"(1) consider (l) zs' where "zs = x # zs'" "zs' \<in> shuffles xs (y # ys)"
    | (r) zs' where "zs = y # zs'" "zs' \<in> shuffles (x # xs) ys" by auto
  then show ?case
  proof cases
    case l
    have "run_seq zs' (x s) = run_seq (y # ys) (run_seq xs (x s))"
      by (rule "3.IH"(1) [OF l(2)]) (use "3.prems" in auto)
    then show ?thesis by (simp add: l(1))
  next
    case r
    have "run_seq zs' (y s) = run_seq ys (run_seq (x # xs) (y s))"
      by (rule "3.IH"(2) [OF r(2)]) (use "3.prems" in auto)
    also have "run_seq (x # xs) (y s) = y (run_seq (x # xs) s)"
      by (rule run_seq_commute_inv [of P]) (use "3.prems" in auto)
    finally show ?thesis by (simp add: r(1))
  qed
qed auto

lemma interleaving_commute_inv:
  assumes "zs \<in> interleavings xss" "P s"
    and "\<And>i j f g s. i < j \<Longrightarrow> j < length xss \<Longrightarrow> f \<in> set (xss ! i) \<Longrightarrow> g \<in> set (xss ! j) \<Longrightarrow> P s \<Longrightarrow> f (g s) = g (f s)"
    and "\<And>i f s. i < length xss \<Longrightarrow> f \<in> set (xss ! i) \<Longrightarrow> P s \<Longrightarrow> P (f s)"
  shows "run_seq zs s = run_seq (concat xss) s"
  using assms
proof (induction xss arbitrary: zs s)
  case (Cons xs xss)
  from Cons.prems(1) obtain ys where ys: "ys \<in> interleavings xss" "zs \<in> shuffles xs ys" by auto
  have later: "\<exists>j < length xss. g \<in> set (xss ! j)" if "g \<in> set ys" for g
    using set_interleavings [OF ys(1)] that by (metis UN_E in_set_conv_nth)
  have com: "f (g s) = g (f s)" if f: "f \<in> set xs" and g: "g \<in> set ys" and "P s" for f g s
    using later [OF g] Cons.prems(3) [of 0 _ f g s] f \<open>P s\<close> by fastforce
  have keep: "P (f s)" if "f \<in> set xs \<union> set ys" "P s" for f s
    using that later [of f] Cons.prems(4) [of 0 f s] Cons.prems(4) [of "Suc _" f s] by fastforce
  have "run_seq zs s = run_seq ys (run_seq xs s)"
    by (rule shuffle_commute_inv [OF ys(2), of P]) (use Cons.prems(2) com keep in auto)
  also have "\<dots> = run_seq (concat xss) (run_seq xs s)"
  proof (rule Cons.IH [OF ys(1)])
    show "P (run_seq xs s)" by (rule run_seq_inv) (use Cons.prems(2) keep in auto)
    fix i j f g s
    assume "i < j" "j < length xss" "f \<in> set (xss ! i)" "g \<in> set (xss ! j)" "P s"
    then show "f (g s) = g (f s)" using Cons.prems(3) [of "Suc i" "Suc j" f g s] by simp
  next
    fix i f s
    assume "i < length xss" "f \<in> set (xss ! i)" "P s"
    then show "P (f s)" using Cons.prems(4) [of "Suc i" f s] by simp
  qed
  finally show ?case by simp
qed simp

lemma phase_commute_inv:
  assumes "phase progs s s'" "P s"
    and "\<And>i j f g s. i < j \<Longrightarrow> j < length progs \<Longrightarrow> f \<in> set (progs ! i) \<Longrightarrow> g \<in> set (progs ! j) \<Longrightarrow> P s \<Longrightarrow> f (g s) = g (f s)"
    and "\<And>i f s. i < length progs \<Longrightarrow> f \<in> set (progs ! i) \<Longrightarrow> P s \<Longrightarrow> P (f s)"
  shows "s' = run_seq (concat progs) s"
proof -
  from assms(1) obtain zs where zs: "zs \<in> interleavings progs" "s' = run_seq zs s"
    unfolding phase_def by blast
  have "run_seq zs s = run_seq (concat progs) s"
    by (rule interleaving_commute_inv [where P = P, OF zs(1) assms(2)]) (rule assms(3), assumption+, rule assms(4), assumption+)
  then show ?thesis by (simp only: zs(2))
qed

end
