(* ===== verification/Kernel_VA.thy ===== *)
theory Kernel_VA imports SPMD
begin

text \<open>
  Vector addition, \<^verbatim>\<open>src/src/VA/main.c\<close>: every tasklet adds its share of the blocks of A into
  B. A block is one action: two reads into the tasklet's caches, the addition, a write back.
\<close>

section \<open>The code\<close>

record va_arguments =
  va_size :: u32
  va_transfer_size :: u32
  va_kernel :: u32

definition VA_BLOCK_SIZE :: nat where "VA_BLOCK_SIZE = 2 ^ 8"
definition VA_ARG_OFFSET :: nat where "VA_ARG_OFFSET = 0x2000"
definition VA_A_OFFSET :: nat where "VA_A_OFFSET = VA_ARG_OFFSET + (12 + 0xFF) div 0x100 * 0x100"

definition va_read_args_aligned :: "cells \<Rightarrow> va_arguments" where
  "va_read_args_aligned m =
     (let buf = mram_read m VA_ARG_OFFSET 16
      in \<lparr>va_size = buf ! 0, va_transfer_size = buf ! 1, va_kernel = buf ! 2\<rparr>)"

definition vector_addition :: "u32 list \<Rightarrow> u32 list \<Rightarrow> nat \<Rightarrow> u32 list" where
  "vector_addition bufB bufA elems = fold (\<lambda>i bufB. bufB[i := bufB ! i + bufA ! i]) [0..<elems] bufB"

definition va_mram_base_B :: "va_arguments \<Rightarrow> nat" where
  "va_mram_base_B args = VA_A_OFFSET + unat (va_transfer_size args)"

definition va_block :: "va_arguments \<Rightarrow> nat \<Rightarrow> cells \<Rightarrow> cells" where
  "va_block args byte_index m =
     (let l_size_bytes = l_size_bytes VA_BLOCK_SIZE (unat (va_size args)) byte_index;
          cache_A = mram_read m (VA_A_OFFSET + byte_index) l_size_bytes;
          cache_B = mram_read m (va_mram_base_B args + byte_index) l_size_bytes
      in mram_write (vector_addition cache_B cache_A (l_size_bytes div 4)) (va_mram_base_B args + byte_index) l_size_bytes m)"

definition va_byte_indices :: "va_arguments \<Rightarrow> nat \<Rightarrow> nat list" where
  "va_byte_indices args tasklet_id =
     stride_list (VA_BLOCK_SIZE * NR_TASKLETS) (VA_BLOCK_SIZE * tasklet_id) (unat (va_size args))"

text \<open>
  What the host finds in MRAM when tasklet 0 has passed the last barrier. The arguments are
  below A, where no block is written, so that every tasklet reads the same.
\<close>

definition va_main_kernel1 :: "cells \<Rightarrow> cells \<Rightarrow> bool" where
  "va_main_kernel1 m m' \<longleftrightarrow>
     (let m0 = sk_log_init m; args = va_read_args_aligned m0
      in phase (map (\<lambda>t. map (va_block args) (va_byte_indices args t)) [0..<NR_TASKLETS]) m0 m')"

section \<open>Blocks are disjoint\<close>

definition va_args_ok :: "va_arguments \<Rightarrow> bool" where
  "va_args_ok args \<longleftrightarrow> unat (va_size args) mod 8 = 0 \<and> unat (va_transfer_size args) mod 8 = 0
     \<and> va_size args \<le> va_transfer_size args
     \<and> VA_A_OFFSET + unat (va_transfer_size args) + unat (va_size args) \<le> SK_LOG_OFFSET"

definition va_blocks :: "va_arguments \<Rightarrow> nat set" where
  "va_blocks args = {b. va_args_ok args \<and> b mod VA_BLOCK_SIZE = 0 \<and> b < unat (va_size args)}"

definition va_cells :: "va_arguments \<Rightarrow> nat \<Rightarrow> nat \<Rightarrow> nat set" where
  "va_cells args base b = {base div 4 + b div 4 ..< base div 4 + b div 4 + l_size_bytes VA_BLOCK_SIZE (unat (va_size args)) b div 4}"

lemma va_aligned:
  assumes "b \<in> va_blocks args"
  shows "b mod 8 = 0" "va_mram_base_B args mod 8 = 0" "VA_A_OFFSET mod 8 = 0" "l_size_bytes VA_BLOCK_SIZE (unat (va_size args)) b mod 8 = 0"
proof -
  have b8: "b mod 8 = 0" "unat (va_size args) mod 8 = 0" "unat (va_transfer_size args) mod 8 = 0"
    using assms mod_mod_cancel [of 8 VA_BLOCK_SIZE b]
    by (auto simp: va_blocks_def va_args_ok_def VA_BLOCK_SIZE_def)
  show "b mod 8 = 0" "VA_A_OFFSET mod 8 = 0" using b8 by (simp_all add: VA_A_OFFSET_def VA_ARG_OFFSET_def)
  then show "va_mram_base_B args mod 8 = 0" using b8 by (simp add: va_mram_base_B_def dma_simps)
  show "l_size_bytes VA_BLOCK_SIZE (unat (va_size args)) b mod 8 = 0"
    by (rule l_size_aligned [THEN conjunct2]) (use assms b8 in \<open>simp_all add: va_blocks_def VA_BLOCK_SIZE_def\<close>)
qed

lemma va_block_cell:
  assumes "b \<in> va_blocks args"
  shows "va_block args b m j =
    (if j \<in> va_cells args (va_mram_base_B args) b
     then m j + m (VA_A_OFFSET div 4 + (j - va_mram_base_B args div 4)) else m j)"
proof -
  let ?l = "l_size_bytes VA_BLOCK_SIZE (unat (va_size args)) b" and ?B = "va_mram_base_B args"
  note al = va_aligned [OF assms]
  have B: "va_block args b m = mram_write (vector_addition (mram_read m (?B + b) ?l) (mram_read m (VA_A_OFFSET + b) ?l) (?l div 4)) (?B + b) ?l m"
    by (simp add: va_block_def Let_def)
  show ?thesis
  proof (cases "j \<in> va_cells args ?B b")
    case True
    then obtain i where i: "j = ?B div 4 + b div 4 + i" "i < ?l div 4"
      unfolding va_cells_def by (metis atLeastLessThan_iff le_iff_add nat_add_left_cancel_less)
    have "vector_addition (mram_read m (?B + b) ?l) (mram_read m (VA_A_OFFSET + b) ?l) (?l div 4) ! i
        = m (?B div 4 + b div 4 + i) + m (VA_A_OFFSET div 4 + b div 4 + i)"
      unfolding vector_addition_def
      by (subst nth_fold_update) (use i al in \<open>simp_all add: mram_read_cells dma_simps\<close>)
    then show ?thesis using i True al by (simp add: B mram_write_cells dma_simps algebra_simps)
  next
    case False
    then show ?thesis using al by (auto simp: B mram_write_cells dma_simps va_cells_def)
  qed
qed

lemma va_l_size_bounds:
  assumes "b \<in> va_blocks args"
  shows "l_size_bytes VA_BLOCK_SIZE (unat (va_size args)) b \<le> VA_BLOCK_SIZE" "b + l_size_bytes VA_BLOCK_SIZE (unat (va_size args)) b \<le> unat (va_size args)" "0 < l_size_bytes VA_BLOCK_SIZE (unat (va_size args)) b"
  using assms by (auto simp: va_blocks_def l_size_bytes_def VA_BLOCK_SIZE_def)

lemma va_blocks_apart:
  assumes "b \<in> va_blocks args" "c \<in> va_blocks args" "b \<noteq> c"
  shows "va_cells args (va_mram_base_B args) b \<inter> (va_cells args (va_mram_base_B args) c \<union> va_cells args VA_A_OFFSET c) = {}"
proof -
  note b = va_aligned [OF assms(1)] and c = va_aligned [OF assms(2)]
  note lb = va_l_size_bounds [OF assms(1)] and lc = va_l_size_bounds [OF assms(2)]
  have "b + VA_BLOCK_SIZE \<le> c \<or> c + VA_BLOCK_SIZE \<le> b"
    by (rule blocks_apart) (use assms in \<open>simp_all add: va_blocks_def\<close>)
  then have "b + l_size_bytes VA_BLOCK_SIZE (unat (va_size args)) b \<le> c \<or> c + l_size_bytes VA_BLOCK_SIZE (unat (va_size args)) c \<le> b" using lb lc by auto
  then have "(b + l_size_bytes VA_BLOCK_SIZE (unat (va_size args)) b) div 4 \<le> c div 4 \<or> (c + l_size_bytes VA_BLOCK_SIZE (unat (va_size args)) c) div 4 \<le> b div 4"
    by (auto intro: div_le_mono)
  moreover have "VA_A_OFFSET + (c + l_size_bytes VA_BLOCK_SIZE (unat (va_size args)) c) \<le> va_mram_base_B args"
    using assms(1) lc by (simp add: va_mram_base_B_def va_blocks_def va_args_ok_def word_le_nat_alt)
  then have "VA_A_OFFSET div 4 + (c + l_size_bytes VA_BLOCK_SIZE (unat (va_size args)) c) div 4 \<le> va_mram_base_B args div 4"
    using b c by (metis aligned_add(1) aligned_add(3) div_le_mono)
  ultimately show ?thesis using b c by (auto simp: va_cells_def dma_simps)
qed

interpretation va: disjoint_steps "va_block args" "va_blocks args" "va_cells args (va_mram_base_B args)"
  "\<lambda>b. va_cells args (va_mram_base_B args) b \<union> va_cells args VA_A_OFFSET b" for args
proof unfold_locales
  fix b j and m m' :: cells
  assume b: "b \<in> va_blocks args" "j \<in> va_cells args (va_mram_base_B args) b"
    and eq: "\<And>i. i \<in> va_cells args (va_mram_base_B args) b \<union> va_cells args VA_A_OFFSET b \<Longrightarrow> m i = m' i"
  from b(2) obtain i where "j = va_mram_base_B args div 4 + i"
    unfolding va_cells_def by (metis atLeastLessThan_iff le_iff_add add.assoc)
  then have "VA_A_OFFSET div 4 + (j - va_mram_base_B args div 4) \<in> va_cells args VA_A_OFFSET b"
    using b(2) by (auto simp: va_cells_def)
  then show "va_block args b m j = va_block args b m' j"
    using b eq by (simp add: va_block_cell)
qed (simp_all add: va_block_cell va_blocks_apart)

section \<open>The result\<close>

lemma va_read_args_log [simp]: "va_read_args_aligned (sk_log_init m) = va_read_args_aligned m"
  by (simp add: va_read_args_aligned_def mram_read_def VA_ARG_OFFSET_def SK_LOG_OFFSET_def)

lemma va_main_kernel1_runs: "\<exists>m'. va_main_kernel1 m m'"
  unfolding va_main_kernel1_def Let_def by (rule exI, rule phase_seq)

lemma va_cells_within:
  assumes "b \<in> va_blocks args"
  shows "va_cells args a b \<subseteq> {a div 4 ..< a div 4 + unat (va_size args) div 4}"
proof -
  have "b div 4 + l_size_bytes VA_BLOCK_SIZE (unat (va_size args)) b div 4 \<le> unat (va_size args) div 4"
    using va_l_size_bounds(2) [OF assms] va_aligned [OF assms] by (metis aligned_add(1) div_le_mono)
  then show ?thesis by (auto simp: va_cells_def)
qed

text \<open>
  C19: Vector addition is right for every interleaving of the sixteen tasklets' blocks: for well-formed
  arguments (sizes that are multiples of eight, B after A, both below the log) the host finds
  A + B, word by word modulo 2^32, in place of B, and every other cell below the log as it was.
\<close>

theorem va_main_kernel1_correct:
  assumes "va_main_kernel1 m m'" "va_args_ok args" "args = va_read_args_aligned m"
  shows "(\<forall>i < unat (va_size args) div 4.
            m' (va_mram_base_B args div 4 + i) = m (va_mram_base_B args div 4 + i) + m (VA_A_OFFSET div 4 + i))
    \<and> (\<forall>j < SK_LOG_OFFSET div 4. j \<notin> {va_mram_base_B args div 4 ..< va_mram_base_B args div 4 + unat (va_size args) div 4}
         \<longrightarrow> m' j = m j)"
proof -
  let ?B = "va_mram_base_B args" and ?n = "unat (va_size args)" and ?m = "sk_log_init m"
  have ok: "?n mod 8 = 0" "?B mod 8 = 0" "?B + ?n \<le> SK_LOG_OFFSET" "VA_A_OFFSET \<le> ?B" "VA_A_OFFSET mod 8 = 0"
    using assms(2) by (auto simp: va_args_ok_def va_mram_base_B_def VA_A_OFFSET_def VA_ARG_OFFSET_def dma_simps)
  have ph: "phase (map (\<lambda>t. map (va_block args) (va_byte_indices args t)) [0..<NR_TASKLETS]) ?m m'"
    using assms(1,3) by (simp add: va_main_kernel1_def Let_def)
  have blocks: "(\<exists>t < NR_TASKLETS. b \<in> set (va_byte_indices args t)) \<longleftrightarrow> b \<in> va_blocks args" for b
    using tasklet_indices(1) [of VA_BLOCK_SIZE b ?n] assms(2)
    by (auto simp: va_byte_indices_def va_blocks_def VA_BLOCK_SIZE_def)
  have dist: "distinct (concat (map (va_byte_indices args) [0..<NR_TASKLETS]))"
    unfolding va_byte_indices_def by (rule tasklet_indices(2)) (simp add: VA_BLOCK_SIZE_def)
  have sub: "set (va_byte_indices args t) \<subseteq> va_blocks args" if "t \<in> set [0..<NR_TASKLETS]" for t
    using that blocks by auto
  note res = va.phase_blocks [OF ph sub dist]
  have "m' (?B div 4 + i) = m (?B div 4 + i) + m (VA_A_OFFSET div 4 + i)" if i: "i < ?n div 4" for i
  proof -
    let ?b = "4 * i div VA_BLOCK_SIZE * VA_BLOCK_SIZE"
    have blk: "0 < VA_BLOCK_SIZE" "VA_BLOCK_SIZE mod 8 = 0" by (simp_all add: VA_BLOCK_SIZE_def)
    note w = block_of_word [OF blk ok(1) i]
    have b: "?b \<in> va_blocks args" using w assms(2) by (auto simp: va_blocks_def)
    then obtain t where t: "t < NR_TASKLETS" "?b \<in> set (va_byte_indices args t)" using blocks by blast
    have in_cells: "?B div 4 + i \<in> va_cells args ?B ?b" using w by (auto simp: va_cells_def)
    have "m' (?B div 4 + i) = ?m (?B div 4 + i) + ?m (VA_A_OFFSET div 4 + i)"
      using res(1) [of t ?b] t in_cells b by (simp add: va_block_cell)
    moreover have "?B div 4 + i < SK_LOG_OFFSET div 4" "VA_A_OFFSET div 4 + i < SK_LOG_OFFSET div 4"
      using i ok by (auto simp: SK_LOG_OFFSET_def)
    ultimately show ?thesis by simp
  qed
  moreover have "m' j = m j" if "j < SK_LOG_OFFSET div 4" "j \<notin> {?B div 4 ..< ?B div 4 + ?n div 4}" for j
  proof -
    have "j \<notin> va_cells args ?B b" if "b \<in> va_blocks args" for b using va_cells_within [OF that, of ?B] \<open>j \<notin> _\<close> by blast
    then have "m' j = ?m j" using blocks by (intro res(2)) auto
    then show ?thesis using that by simp
  qed
  ultimately show ?thesis by blast
qed

text \<open>Two blocks and a bit: 520 bytes of each operand; A holds 3 everywhere, B holds 4.\<close>

definition va_demo :: cells where
  "va_demo = (\<lambda>j. if j = 0x800 \<or> j = 0x801 then 520 else if j < VA_A_OFFSET div 4 + 130 then 3 else 4)"

theorem va_main_kernel1_correct_witness:
  "\<exists>m'. va_main_kernel1 va_demo m' \<and> (\<forall>i < 130. m' (VA_A_OFFSET div 4 + 130 + i) = 7)"
proof -
  let ?args = "\<lparr>va_size = 520, va_transfer_size = 520, va_kernel = 3\<rparr>"
  have args: "va_read_args_aligned va_demo = ?args"
    by (simp add: va_read_args_aligned_def mram_read_def VA_ARG_OFFSET_def va_demo_def VA_A_OFFSET_def Let_def)
  have ok: "va_args_ok ?args" by (simp add: va_args_ok_def VA_A_OFFSET_def VA_ARG_OFFSET_def SK_LOG_OFFSET_def)
  obtain m' where m': "va_main_kernel1 va_demo m'" using va_main_kernel1_runs by blast
  have "m' (VA_A_OFFSET div 4 + 130 + i) = 7" if "i < 130" for i
    using va_main_kernel1_correct [OF m' ok args [symmetric]] that
    by (simp add: va_mram_base_B_def VA_A_OFFSET_def VA_ARG_OFFSET_def va_demo_def)
  then show ?thesis using m' by blast
qed

end
