(* ===== verification/Kernel_RED.thy ===== *)
theory Kernel_RED imports SPMD
begin

text \<open>
  Reduction, \<^verbatim>\<open>src/src/RED/main.c\<close>: every tasklet sums its share of the blocks, and tasklet 0
  adds the sixteen sums after the barrier and logs the total.
\<close>

section \<open>The code\<close>

record red_arguments =
  red_size :: u32
  red_kernel :: u32
  red_t_count :: u32

definition RED_BLOCK_SIZE :: nat where "RED_BLOCK_SIZE = 2 ^ 10"
definition RED_ARG_OFFSET :: nat where "RED_ARG_OFFSET = 0x2000"
definition RED_A_OFFSET :: nat where "RED_A_OFFSET = RED_ARG_OFFSET + (12 + 0xFF) div 0x100 * 0x100"

definition red_read_args_aligned :: "cells \<Rightarrow> red_arguments" where
  "red_read_args_aligned m =
     (let buf = mram_read m RED_ARG_OFFSET 16
      in \<lparr>red_size = buf ! 0, red_kernel = buf ! 1, red_t_count = buf ! 2\<rparr>)"

definition red_reduction :: "u32 list \<Rightarrow> nat \<Rightarrow> u32" where
  "red_reduction input l_size = fold (\<lambda>j output. output + input ! j) [0..<l_size] 0"

text \<open>A tasklet's cache, its local count and its slot of the array \<open>message\<close>.\<close>

record red_local =
  red_cache_A :: "u32 list"
  red_l_count :: u32
  red_message :: u32

definition red_block :: "cells \<Rightarrow> nat \<Rightarrow> nat \<Rightarrow> red_local \<Rightarrow> red_local" where
  "red_block m input_size_bytes byte_index s =
     (let l_size = l_size_bytes RED_BLOCK_SIZE input_size_bytes byte_index;
          cache = load_cache (mram_read m (RED_A_OFFSET + byte_index) l_size) (red_cache_A s)
      in s\<lparr>red_cache_A := cache, red_l_count := red_l_count s + red_reduction cache (l_size div 4)\<rparr>)"

definition red_tasklet :: "cells \<Rightarrow> nat \<Rightarrow> nat \<Rightarrow> (red_local \<Rightarrow> red_local) list" where
  "red_tasklet m input_size_bytes tasklet_id =
     map (red_block m input_size_bytes)
       (stride_list (RED_BLOCK_SIZE * NR_TASKLETS) (RED_BLOCK_SIZE * tasklet_id) input_size_bytes)
     @ [\<lambda>s. s\<lparr>red_message := red_l_count s\<rparr>]"

text \<open>The counts start at zero; what a fresh cache holds is whatever the heap held.\<close>

definition red_start :: "(nat \<Rightarrow> u32 list) \<Rightarrow> nat \<Rightarrow> red_local" where
  "red_start heap t = \<lparr>red_cache_A = heap t, red_l_count = 0, red_message = 0\<rparr>"

definition red_total :: "(nat \<Rightarrow> red_local) \<Rightarrow> u32" where
  "red_total s = fold (\<lambda>t total. total + red_message (s t)) [1..<NR_TASKLETS] (red_message (s 0))"

definition red_main :: "(nat \<Rightarrow> u32 list) \<Rightarrow> cells \<Rightarrow> cells \<Rightarrow> bool" where
  "red_main heap m m' \<longleftrightarrow>
     (let m0 = sk_log_init m; args = red_read_args_aligned m0
      in \<exists>s. phase (map (\<lambda>t. map (at_slot t) (red_tasklet m0 (unat (red_size args)) t)) [0..<NR_TASKLETS]) (red_start heap) s
           \<and> m' = sk_log_write_idx 0 (ucast (red_total s)) m0)"

section \<open>The result\<close>

lemma red_reduction_sum: "red_reduction xs n = sum_list (map ((!) xs) [0..<n])"
  by (simp add: red_reduction_def fold_add)

lemma red_tasklet_message:
  assumes "n mod 8 = 0"
  shows "red_message (run_seq (red_tasklet m n t) s) = red_l_count s
    + sum_list (map (\<lambda>i. m (RED_A_OFFSET div 4 + i)) (tasklet_words RED_BLOCK_SIZE n t))"
proof -
  let ?f = "\<lambda>i. m (RED_A_OFFSET div 4 + i)" and ?bs = "stride_list (RED_BLOCK_SIZE * NR_TASKLETS) (RED_BLOCK_SIZE * t) n"
  have blk: "0 < RED_BLOCK_SIZE" "RED_BLOCK_SIZE mod 8 = 0" "RED_A_OFFSET mod 8 = 0"
    by (simp_all add: RED_BLOCK_SIZE_def RED_A_OFFSET_def RED_ARG_OFFSET_def)
  have "red_l_count (fold (red_block m n) bs s) = red_l_count s + sum_list (map ?f (concat (map (block_words RED_BLOCK_SIZE n) bs)))"
    if "set bs \<subseteq> set ?bs" for bs
    using that
  proof (induction bs arbitrary: s)
    case (Cons b bs)
    then have "b mod RED_BLOCK_SIZE = 0" using tasklet_index_mod [OF blk(1)] by auto
    then have "red_l_count (red_block m n b s) = red_l_count s + sum_list (map ?f (block_words RED_BLOCK_SIZE n b))"
      by (simp add: red_block_def Let_def red_reduction_sum load_block_words [OF blk(1,2) assms _ blk(3)])
    with Cons show ?case by (simp add: add.assoc)
  qed simp
  from this [of ?bs] show ?thesis by (simp add: red_tasklet_def run_seq_map tasklet_words_def)
qed

lemma red_read_args_log [simp]: "red_read_args_aligned (sk_log_init m) = red_read_args_aligned m"
  by (simp add: red_read_args_aligned_def mram_read_def RED_ARG_OFFSET_def SK_LOG_OFFSET_def)

text \<open>
  C20: The reduction logs the sum of the input words modulo 2^32 (zero-extended), for every
  interleaving and whatever the caches held before, and leaves the rest of MRAM below the log
  unchanged, when the input's size is a multiple of eight bytes and lies below the log.
\<close>

theorem red_main_correct:
  assumes "red_main heap m m'" "n = unat (red_size (red_read_args_aligned m))"
    and "n mod 8 = 0" "RED_A_OFFSET + n \<le> SK_LOG_OFFSET"
  shows "m' (SK_LOG_OFFSET div 4) = (\<Sum>i < n div 4. m (RED_A_OFFSET div 4 + i))
    \<and> m' (SK_LOG_OFFSET div 4 + 1) = 0 \<and> (\<forall>j < SK_LOG_OFFSET div 4. m' j = m j)"
proof -
  let ?m = "sk_log_init m" and ?f = "\<lambda>i. sk_log_init m (RED_A_OFFSET div 4 + i)"
  from assms(1) obtain s where ph: "phase (map (\<lambda>t. map (at_slot t) (red_tasklet ?m n t)) [0..<NR_TASKLETS]) (red_start heap) s"
    and m': "m' = sk_log_write_idx 0 (ucast (red_total s)) ?m"
    by (auto simp: red_main_def Let_def assms(2))
  have msg: "red_message (s t) = sum_list (map ?f (tasklet_words RED_BLOCK_SIZE n t))" if "t < NR_TASKLETS" for t
    using phase_slots [OF ph, of t] that red_tasklet_message [OF assms(3), of ?m t "red_start heap t"]
    by (simp add: red_start_def)
  have "[0..<NR_TASKLETS] = 0 # [1..<NR_TASKLETS]" by (simp add: upt_conv_Cons)
  then have "red_total s = sum_list (map (\<lambda>t. red_message (s t)) [0..<NR_TASKLETS])"
    by (simp add: red_total_def fold_add)
  also have "\<dots> = (\<Sum>t < NR_TASKLETS. sum_list (map ?f (tasklet_words RED_BLOCK_SIZE n t)))"
    by (subst interv_sum_list_conv_sum_set_nat) (rule sum.cong, simp_all add: msg atLeast0LessThan)
  also have "\<dots> = (\<Sum>i < n div 4. ?f i)"
    by (rule sum_tasklet_words) (simp_all add: assms(3) RED_BLOCK_SIZE_def)
  also have "\<dots> = (\<Sum>i < n div 4. m (RED_A_OFFSET div 4 + i))"
  proof (rule sum.cong)
    fix i assume "i \<in> {..<n div 4}"
    then have "RED_A_OFFSET div 4 + i < SK_LOG_OFFSET div 4"
      using assms(4) by (auto simp: SK_LOG_OFFSET_def RED_A_OFFSET_def RED_ARG_OFFSET_def)
    then show "?f i = m (RED_A_OFFSET div 4 + i)" by simp
  qed simp
  finally have tot: "red_total s = (\<Sum>i < n div 4. m (RED_A_OFFSET div 4 + i))" .
  show ?thesis by (simp add: m' sk_log_write_idx_cell tot)
qed

lemma red_main_runs: "\<exists>m'. red_main heap m m'"
  unfolding red_main_def Let_def by (intro exI conjI, rule phase_seq) simp

text \<open>1032 bytes of the word 5.\<close>

definition red_demo :: cells where
  "red_demo = (\<lambda>j. if j = 0x800 then 1032 else 5)"

theorem red_main_correct_witness:
  "\<exists>m'. red_main (\<lambda>_. []) red_demo m' \<and> m' (SK_LOG_OFFSET div 4) = 1290"
proof -
  have args: "1032 = unat (red_size (red_read_args_aligned red_demo))"
    by (simp add: red_read_args_aligned_def mram_read_def RED_ARG_OFFSET_def red_demo_def Let_def)
  obtain m' where m': "red_main (\<lambda>_. []) red_demo m'"
    using red_main_runs by blast
  have "m' (SK_LOG_OFFSET div 4) = (\<Sum>i < 258. red_demo (RED_A_OFFSET div 4 + i))"
    using red_main_correct [OF m' args] by (simp add: SK_LOG_OFFSET_def RED_A_OFFSET_def RED_ARG_OFFSET_def)
  also have "\<dots> = (\<Sum>i < 258 :: nat. 5)"
    by (intro sum.cong) (simp_all add: red_demo_def RED_A_OFFSET_def RED_ARG_OFFSET_def)
  also have "\<dots> = 1290" by simp
  finally show ?thesis using m' by blast
qed

end
