(* ===== verification/Kernel_HST_S.thy ===== *)
theory Kernel_HST_S imports SPMD
begin

text \<open>
  Histogram with private copies, \<^verbatim>\<open>src/src/HST-S/main.c\<close>: every tasklet counts its share of the
  blocks in a histogram of its own; after a barrier the tasklets add up the sixteen histograms
  bin by bin into the first; after another, tasklet 0 logs a summary and writes the result to
  MRAM.
\<close>

section \<open>The code\<close>

record hst_arguments =
  hst_size :: u32
  hst_transfer_size :: u32
  hst_bins :: u32
  hst_kernel :: u32

definition HST_BLOCK_SIZE :: nat where "HST_BLOCK_SIZE = 2 ^ 10"
definition HST_DEPTH :: nat where "HST_DEPTH = 12"
definition HST_ARG_OFFSET :: nat where "HST_ARG_OFFSET = 0x2000"
definition HST_A_OFFSET :: nat where "HST_A_OFFSET = HST_ARG_OFFSET + (16 + 0xFF) div 0x100 * 0x100"

definition hst_read_args :: "cells \<Rightarrow> hst_arguments" where
  "hst_read_args m =
     (let buf = mram_read m HST_ARG_OFFSET 16
      in \<lparr>hst_size = buf ! 0, hst_transfer_size = buf ! 1, hst_bins = buf ! 2, hst_kernel = buf ! 3\<rparr>)"

text \<open>The bin of a pixel; the product is taken modulo 2^32.\<close>

definition hst_bin :: "u32 \<Rightarrow> u32 \<Rightarrow> nat" where
  "hst_bin bins d = unat (drop_bit HST_DEPTH (d * bins))"

text \<open>A histogram is a function of the index: nothing stops an index past \<open>bins\<close>.\<close>

definition histogram :: "(nat \<Rightarrow> u32) \<Rightarrow> u32 \<Rightarrow> u32 list \<Rightarrow> nat \<Rightarrow> nat \<Rightarrow> u32" where
  "histogram histo bins input l_size =
     fold (\<lambda>j histo. histo(hst_bin bins (input ! j) := histo (hst_bin bins (input ! j)) + 1)) [0..<l_size] histo"

record hst_local =
  hst_cache_A :: "u32 list"
  hst_histo :: "nat \<Rightarrow> u32"

definition hst_clear :: "u32 \<Rightarrow> hst_local \<Rightarrow> hst_local" where
  "hst_clear bins s = s\<lparr>hst_histo := fold (\<lambda>i h. h(i := 0)) [0..<unat bins] (hst_histo s)\<rparr>"

definition hst_block :: "cells \<Rightarrow> hst_arguments \<Rightarrow> nat \<Rightarrow> hst_local \<Rightarrow> hst_local" where
  "hst_block m args byte_index s =
     (let l_size = l_size_bytes HST_BLOCK_SIZE (unat (hst_size args)) byte_index;
          cache = load_cache (mram_read m (HST_A_OFFSET + byte_index) l_size) (hst_cache_A s)
      in s\<lparr>hst_cache_A := cache, hst_histo := histogram (hst_histo s) (hst_bins args) cache (l_size div 4)\<rparr>)"

definition hst_tasklet :: "cells \<Rightarrow> hst_arguments \<Rightarrow> nat \<Rightarrow> (hst_local \<Rightarrow> hst_local) list" where
  "hst_tasklet m args tasklet_id =
     hst_clear (hst_bins args)
     # map (hst_block m args)
         (stride_list (HST_BLOCK_SIZE * NR_TASKLETS) (HST_BLOCK_SIZE * tasklet_id) (unat (hst_size args)))"

text \<open>
  The second phase, on the columns of the sixteen histograms: \<open>h i j\<close> is what \<open>message[j][i]\<close>
  holds, and \<open>histo_dpu\<close> is \<open>message[0]\<close>.
\<close>

definition hst_merge_bin :: "nat \<Rightarrow> (nat \<Rightarrow> nat \<Rightarrow> u32) \<Rightarrow> nat \<Rightarrow> nat \<Rightarrow> u32" where
  "hst_merge_bin i h = h(i := (h i)(0 := fold (\<lambda>j b. b + h i j) [0..<NR_TASKLETS] 0))"

definition hst_write_out :: "nat \<Rightarrow> nat \<Rightarrow> (nat \<Rightarrow> u32) \<Rightarrow> cells \<Rightarrow> cells" where
  "hst_write_out base bins histo_dpu m =
     (if bins * 4 \<le> 2048 then mram_write (map histo_dpu [0..<bins]) base (bins * 4) m
      else fold (\<lambda>offset. mram_write (map histo_dpu [offset * 512..<offset * 512 + 512]) (base + offset * 2048) 2048)
             [0..<bins * 4 div 2048] m)"

definition hst_finish :: "hst_arguments \<Rightarrow> (nat \<Rightarrow> u32) \<Rightarrow> cells \<Rightarrow> cells" where
  "hst_finish args histo_dpu m =
     (let bins = unat (hst_bins args);
          count_sum = fold (\<lambda>i c. c + ucast (histo_dpu i)) [0..<bins] (0 :: u64);
          m = sk_log_write_idx 4 count_sum m;
          m = sk_log_write_idx 1 (ucast (histo_dpu 0)) m;
          m = sk_log_write_idx 2 (ucast (histo_dpu 1)) m;
          m = sk_log_write_idx 3 (ucast (histo_dpu 2)) m;
          m = hst_write_out (HST_A_OFFSET + unat (hst_transfer_size args)) bins histo_dpu m
      in sk_log_write_idx 0 0xaaaa m)"

definition hst_s_main :: "(nat \<Rightarrow> hst_local) \<Rightarrow> cells \<Rightarrow> cells \<Rightarrow> bool" where
  "hst_s_main heap m m' \<longleftrightarrow>
     (let m0 = sk_log_init m; args = hst_read_args m0
      in \<exists>s h. phase (map (\<lambda>t. map (at_slot t) (hst_tasklet m0 args t)) [0..<NR_TASKLETS]) heap s
           \<and> phase (map (\<lambda>t. map hst_merge_bin (stride_list (1 * NR_TASKLETS) (1 * t) (unat (hst_bins args)))) [0..<NR_TASKLETS])
               (\<lambda>i j. hst_histo (s j) i) h
           \<and> m' = hst_finish args (\<lambda>i. h i 0) m0)"

section \<open>Counting\<close>

lemma histogram_count:
  "histogram h bins xs n i = h i + of_nat (length (filter (\<lambda>d. hst_bin bins d = i) (map ((!) xs) [0..<n])))"
  by (induction n) (auto simp: histogram_def)

lemma hst_clear_cell: "hst_histo (hst_clear bins s) i = (if i < unat bins then 0 else hst_histo s i)"
proof -
  have "fold (\<lambda>i h. h(i := 0)) [0..<n] h i = (if i < n then 0 else h i)" for n and h :: "nat \<Rightarrow> u32"
    by (induction n) auto
  then show ?thesis by (simp add: hst_clear_def)
qed

lemma hst_tasklet_count:
  fixes args :: hst_arguments and m :: cells
  assumes "unat (hst_size args) mod 8 = 0" "i < unat (hst_bins args)"
  shows "hst_histo (run_seq (hst_tasklet m args t) s) i
    = of_nat (length (filter (\<lambda>k. hst_bin (hst_bins args) (m (HST_A_OFFSET div 4 + k)) = i)
        (tasklet_words HST_BLOCK_SIZE (unat (hst_size args)) t)))"
proof -
  let ?n = "unat (hst_size args)"
  let ?bs = "stride_list (HST_BLOCK_SIZE * NR_TASKLETS) (HST_BLOCK_SIZE * t) ?n"
  let ?c = "\<lambda>ks. of_nat (length (filter (\<lambda>k. hst_bin (hst_bins args) (m (HST_A_OFFSET div 4 + k)) = i) ks)) :: u32"
  have blk: "0 < HST_BLOCK_SIZE" "HST_BLOCK_SIZE mod 8 = 0" "HST_A_OFFSET mod 8 = 0"
    by (simp_all add: HST_BLOCK_SIZE_def HST_A_OFFSET_def HST_ARG_OFFSET_def)
  have "hst_histo (fold (hst_block m args) bs s) i = hst_histo s i + ?c (concat (map (block_words HST_BLOCK_SIZE ?n) bs))"
    if "set bs \<subseteq> set ?bs" for bs s
    using that
  proof (induction bs arbitrary: s)
    case (Cons b bs)
    then have "b mod HST_BLOCK_SIZE = 0" using tasklet_index_mod [OF blk(1)] by auto
    then have "hst_histo (hst_block m args b s) i = hst_histo s i + ?c (block_words HST_BLOCK_SIZE ?n b)"
      by (simp add: hst_block_def Let_def histogram_count load_block_words [OF blk(1,2) assms(1) _ blk(3)] filter_map comp_def)
    with Cons show ?case by (simp add: add.assoc)
  qed simp
  from this [of ?bs] show ?thesis
    using assms(2) by (simp add: hst_tasklet_def run_seq_map tasklet_words_def hst_clear_cell)
qed

interpretation hst_merge: disjoint_steps hst_merge_bin UNIV "\<lambda>i. {i}" "\<lambda>i. {i}"
  by unfold_locales (auto simp: hst_merge_bin_def)

text \<open>How many words of the input fall in bin \<open>i\<close>.\<close>

definition hst_count :: "cells \<Rightarrow> hst_arguments \<Rightarrow> nat \<Rightarrow> nat" where
  "hst_count m args i =
     length (filter (\<lambda>k. hst_bin (hst_bins args) (m (HST_A_OFFSET div 4 + k)) = i) [0..<unat (hst_size args) div 4])"

lemma hst_count_tasklets:
  assumes "unat (hst_size args) mod 8 = 0"
  shows "(\<Sum>t < NR_TASKLETS. length (filter (\<lambda>k. hst_bin (hst_bins args) (m (HST_A_OFFSET div 4 + k)) = i)
      (tasklet_words HST_BLOCK_SIZE (unat (hst_size args)) t))) = hst_count m args i"
proof -
  let ?P = "\<lambda>k. hst_bin (hst_bins args) (m (HST_A_OFFSET div 4 + k)) = i"
  have len: "length (filter ?P ks) = sum_list (map (\<lambda>k. of_bool (?P k)) ks)" for ks
    by (induction ks) auto
  show ?thesis
    using assms sum_tasklet_words [of HST_BLOCK_SIZE "unat (hst_size args)" "\<lambda>k. of_bool (?P k) :: nat"]
    by (simp add: hst_count_def len HST_BLOCK_SIZE_def interv_sum_list_conv_sum_set_nat atLeast0LessThan)
qed

section \<open>The result\<close>

lemma hst_write_chunks:
  assumes "base mod 8 = 0"
  shows "fold (\<lambda>offset. mram_write (map histo [offset * 512..<offset * 512 + 512]) (base + offset * 2048) 2048) [0..<k] m j
    = (if base div 4 \<le> j \<and> j < base div 4 + 512 * k then histo (j - base div 4) else m j)"
proof (induction k)
  case (Suc k)
  have "(base + k * 2048) mod 8 = 0" "(base + k * 2048) div 4 = base div 4 + 512 * k" "2048 div 4 = (512 :: nat)"
    using assms by (simp_all add: dma_simps)
  then have "mram_write (map histo [k * 512..<k * 512 + 512]) (base + k * 2048) 2048 M j
      = (if base div 4 + 512 * k \<le> j \<and> j < base div 4 + 512 * k + 512 then histo (j - base div 4) else M j)" for M
    by (auto simp: mram_write_cells nth_append algebra_simps)
  then show ?case using Suc by auto
qed auto

lemma hst_write_out_cell:
  assumes "base mod 8 = 0" "bins mod 2 = 0"
  shows "hst_write_out base bins histo m j =
    (if base div 4 \<le> j \<and> j < base div 4 + (if bins * 4 \<le> 2048 then bins else bins * 4 div 2048 * 512)
     then histo (j - base div 4) else m j)"
proof (cases "bins * 4 \<le> 2048")
  case True
  have "(bins * 4) mod 8 = 0" using assms(2) by (auto elim!: evenE)
  then show ?thesis using True assms by (auto simp: hst_write_out_def mram_write_cells)
next
  case False
  then show ?thesis using assms by (simp add: hst_write_out_def hst_write_chunks mult.commute)
qed

lemma hst_read_args_log [simp]: "hst_read_args (sk_log_init m) = hst_read_args m"
  by (simp add: hst_read_args_def mram_read_def HST_ARG_OFFSET_def SK_LOG_OFFSET_def)

lemma hst_count_cong:
  "(\<And>k. k < unat (hst_size args) div 4 \<Longrightarrow> m (HST_A_OFFSET div 4 + k) = m' (HST_A_OFFSET div 4 + k)) \<Longrightarrow>
   hst_count m args i = hst_count m' args i"
  unfolding hst_count_def by (intro arg_cong [where f = length] filter_cong) auto

lemma hst_s_bins:
  assumes "phase (map (\<lambda>t. map (at_slot t) (hst_tasklet m args t)) [0..<NR_TASKLETS]) heap s"
    and "phase (map (\<lambda>t. map hst_merge_bin (stride_list (1 * NR_TASKLETS) (1 * t) (unat (hst_bins args)))) [0..<NR_TASKLETS])
               (\<lambda>i j. hst_histo (s j) i) h"
    and "unat (hst_size args) mod 8 = 0" "i < unat (hst_bins args)"
  shows "h i 0 = of_nat (hst_count m args i)"
proof -
  let ?idx = "\<lambda>t. stride_list (1 * NR_TASKLETS) (1 * t) (unat (hst_bins args))"
  have "\<exists>t < NR_TASKLETS. i \<in> set (?idx t)"
    using tasklet_indices(1) [of 1 i "unat (hst_bins args)"] assms(4) by simp
  then obtain t where t: "t < NR_TASKLETS" "i \<in> set (?idx t)" by blast
  have "h i = hst_merge_bin i (\<lambda>i j. hst_histo (s j) i) i"
    by (rule hst_merge.phase_blocks(1) [OF assms(2)]) (use t tasklet_indices(2) [of 1] in auto)
  then have "h i 0 = (\<Sum>j < NR_TASKLETS. hst_histo (s j) i)"
    by (simp add: hst_merge_bin_def fold_add interv_sum_list_conv_sum_set_nat atLeast0LessThan)
  also have "\<dots> = (\<Sum>j < NR_TASKLETS. of_nat (length (filter (\<lambda>k. hst_bin (hst_bins args) (m (HST_A_OFFSET div 4 + k)) = i)
        (tasklet_words HST_BLOCK_SIZE (unat (hst_size args)) j))))"
  proof (rule sum.cong)
    fix j assume "j \<in> {..<NR_TASKLETS}"
    then show "hst_histo (s j) i = of_nat (length (filter (\<lambda>k. hst_bin (hst_bins args) (m (HST_A_OFFSET div 4 + k)) = i)
        (tasklet_words HST_BLOCK_SIZE (unat (hst_size args)) j)))"
      using phase_slots [OF assms(1), of j] hst_tasklet_count [OF assms(3,4)] by simp
  qed simp
  also have "\<dots> = of_nat (hst_count m args i)"
    by (simp only: hst_count_tasklets [OF assms(3), symmetric] of_nat_sum)
  finally show ?thesis .
qed


lemma hst_s_main_runs: "\<exists>m'. hst_s_main heap m m'"
  unfolding hst_s_main_def Let_def by (intro exI conjI, rule phase_seq, rule phase_seq) simp

text \<open>Two pixels, 0 and 4095, and two bins.\<close>

definition hst_demo :: cells where
  "hst_demo = (\<lambda>_. 9)(0x800 := 8, 0x801 := 8, 0x802 := 2, 0x840 := 0, 0x841 := 4095)"


end
