(* ===== verification/MC_Sync.thy ===== *)
theory MC_Sync imports SPMD
begin

text \<open>
  The busy-wait synchronisation that the kernels bring along, \<^verbatim>\<open>support/mc_sync.h\<close>: a barrier
  and a chain of mailboxes. Both are step functions of one tasklet on the shared variables, one
  access to a shared variable that another tasklet can see at a time; runs are all
  interleavings. The barrier comes in three variants: the one most kernels have (and gemv and
  MLP repeat in their own source), whose initialisation sets the arrival flags to the opposite of the
  sense; the one of \<^verbatim>\<open>src/src/MLP/support/mc_sync.h\<close>, which sets them to the sense and makes the
  others wait for the initialisation; and the counting one of \<^verbatim>\<open>src/src/mbench/main.c\<close>.
\<close>

section \<open>The barrier\<close>

datatype mb_variant = Flags_opposite | Flags_same | Counting

text \<open>
  Where a tasklet is; the number counts the waits it has completed (an auxiliary value), the
  second is its local \<open>nextS\<close> (\<open>want\<close> in the counting variant).
\<close>

datatype mb_pc =
    Mb_init
  | Mb_out nat
  | Mb_read nat nat
  | Mb_spin nat nat
  | Mb_scan nat nat nat

record mb_state =
  mb_sense :: nat
  mb_arrive :: "nat \<Rightarrow> nat"
  mb_init_done :: bool
  mb_pcs :: "nat \<Rightarrow> mb_pc"

text \<open>All variables are static, hence zero at the start; only tasklet 0 calls the initialisation.\<close>

definition mb_start :: mb_state where
  "mb_start = \<lparr>mb_sense = 0, mb_arrive = (\<lambda>_. 0), mb_init_done = False, mb_pcs = (\<lambda>_. Mb_out 0)(0 := Mb_init)\<rparr>"

definition mb_flags :: "nat \<Rightarrow> mb_state \<Rightarrow> nat \<Rightarrow> nat" where
  "mb_flags x s = (\<lambda>i. if i < NR_TASKLETS then x else mb_arrive s i)"

definition mybarrier_init_common :: "mb_state \<Rightarrow> mb_state" where
  "mybarrier_init_common s = s\<lparr>mb_sense := 0, mb_arrive := mb_flags 1 s\<rparr>"

definition mybarrier_init_mlp :: "mb_state \<Rightarrow> mb_state" where
  "mybarrier_init_mlp s = s\<lparr>mb_sense := 0, mb_arrive := mb_flags 0 s, mb_init_done := True\<rparr>"

definition mybarrier_init_mbench :: "mb_state \<Rightarrow> mb_state" where
  "mybarrier_init_mbench s = s\<lparr>mb_arrive := mb_flags 0 s, mb_sense := 0\<rparr>"

definition mybarrier_init :: "mb_variant \<Rightarrow> mb_state \<Rightarrow> mb_state" where
  "mybarrier_init v =
     (case v of Flags_opposite \<Rightarrow> mybarrier_init_common | Flags_same \<Rightarrow> mybarrier_init_mlp | Counting \<Rightarrow> mybarrier_init_mbench)"

lemmas mybarrier_init_defs = mybarrier_init_def mybarrier_init_common_def mybarrier_init_mlp_def mybarrier_init_mbench_def mb_flags_def

definition mb_next :: "mb_variant \<Rightarrow> nat \<Rightarrow> nat" where
  "mb_next v sense = (case v of Counting \<Rightarrow> sense + 1 | _ \<Rightarrow> if sense = 0 then 1 else 0)"

abbreviation mb_goto :: "nat \<Rightarrow> mb_pc \<Rightarrow> mb_state \<Rightarrow> mb_state" where
  "mb_goto tid p s \<equiv> s\<lparr>mb_pcs := (mb_pcs s)(tid := p)\<rparr>"

text \<open>A step of a tasklet; \<open>None\<close> while it spins.\<close>

definition mybarrier_step :: "mb_variant \<Rightarrow> nat \<Rightarrow> mb_state \<Rightarrow> mb_state option" where
  "mybarrier_step v tid s =
     (case mb_pcs s tid of
        Mb_init \<Rightarrow> Some (mb_goto tid (Mb_out 0) (mybarrier_init v s))
      | Mb_out k \<Rightarrow>
          if v = Flags_same \<and> \<not> mb_init_done s then None
          else Some (mb_goto tid (Mb_read k (mb_next v (mb_sense s))) s)
      | Mb_read k nextS \<Rightarrow>
          Some (mb_goto tid (if tid = 0 then Mb_scan k nextS 0 else Mb_spin k nextS)
                 (s\<lparr>mb_arrive := (mb_arrive s)(tid := nextS)\<rparr>))
      | Mb_scan k nextS i \<Rightarrow>
          if i < NR_TASKLETS
          then (if mb_arrive s i = nextS then Some (mb_goto tid (Mb_scan k nextS (i + 1)) s) else None)
          else Some (mb_goto tid (Mb_out (k + 1)) (s\<lparr>mb_sense := nextS\<rparr>))
      | Mb_spin k nextS \<Rightarrow>
          if mb_sense s = nextS then Some (mb_goto tid (Mb_out (k + 1)) s) else None)"

inductive mb_reachable :: "mb_variant \<Rightarrow> mb_state \<Rightarrow> bool" for v where
  start: "mb_reachable v mb_start"
| step: "mb_reachable v s \<Longrightarrow> t < NR_TASKLETS \<Longrightarrow> mybarrier_step v t s = Some s' \<Longrightarrow> mb_reachable v s'"

text \<open>How many waits a tasklet has completed, and how many it has entered.\<close>

fun mb_completed :: "mb_pc \<Rightarrow> nat" where
  "mb_completed Mb_init = 0"
| "mb_completed (Mb_out k) = k"
| "mb_completed (Mb_read k x) = k"
| "mb_completed (Mb_spin k x) = k"
| "mb_completed (Mb_scan k x i) = k"

fun mb_entered :: "mb_pc \<Rightarrow> nat" where
  "mb_entered Mb_init = 0"
| "mb_entered (Mb_out k) = k"
| "mb_entered (Mb_read k x) = k"
| "mb_entered (Mb_spin k x) = k + 1"
| "mb_entered (Mb_scan k x i) = k + 1"

section \<open>The variant of MLP is a barrier\<close>

abbreviation parity :: "nat \<Rightarrow> nat" where "parity k \<equiv> k mod 2"

definition mb_tasklet_ok :: "mb_state \<Rightarrow> nat \<Rightarrow> nat \<Rightarrow> bool" where
  "mb_tasklet_ok s R u =
     (case mb_pcs s u of
        Mb_init \<Rightarrow> u = 0 \<and> R = 0 \<and> \<not> mb_init_done s
      | Mb_out k \<Rightarrow> k = R
      | Mb_read k x \<Rightarrow> k = R \<and> x = parity (R + 1) \<and> mb_init_done s
      | Mb_spin k x \<Rightarrow> u \<noteq> 0 \<and> (k = R \<and> x = parity (R + 1) \<or> k + 1 = R \<and> x = parity R) \<and> mb_init_done s
      | Mb_scan k x i \<Rightarrow> u = 0 \<and> k = R \<and> x = parity (R + 1) \<and> mb_init_done s
          \<and> (\<forall>j < i. j < NR_TASKLETS \<longrightarrow> mb_entered (mb_pcs s j) = R + 1))"

text \<open>\<open>R\<close> is the number of rounds released.\<close>

definition mb_inv :: "nat \<Rightarrow> mb_state \<Rightarrow> bool" where
  "mb_inv R s \<longleftrightarrow> mb_sense s = parity R \<and> mb_completed (mb_pcs s 0) = R
     \<and> (\<forall>u < NR_TASKLETS. mb_tasklet_ok s R u \<and> mb_arrive s u = parity (mb_entered (mb_pcs s u)))
     \<and> (\<not> mb_init_done s \<longrightarrow> mb_pcs s 0 = Mb_init)"

lemma mb_entered_range:
  "mb_tasklet_ok s R u \<Longrightarrow> mb_completed (mb_pcs s u) \<le> R \<and> R \<le> mb_entered (mb_pcs s u) \<and> mb_entered (mb_pcs s u) \<le> R + 1"
  by (auto simp: mb_tasklet_ok_def split: mb_pc.splits)

lemma parity_next: "mb_next Flags_same (parity R) = parity (R + 1)"
  by (cases "even R") (simp_all add: mb_next_def even_iff_mod_2_eq_zero odd_iff_mod_2_eq_one mod_Suc)

lemma parity_same: "e = R \<or> e = R + 1 \<Longrightarrow> parity e = parity (R + 1) \<Longrightarrow> e = R + 1"
  by (auto simp: mod_Suc split: if_splits)

lemma mb_inv_start: "mb_inv 0 mb_start"
  by (simp add: mb_inv_def mb_start_def mb_tasklet_ok_def)

lemma mb_other:
  assumes "mb_tasklet_ok s R u" "u \<noteq> t" "mb_entered (mb_pcs s t) = R + 1 \<Longrightarrow> mb_entered p = R + 1"
  shows "mb_tasklet_ok (mb_goto t p (s\<lparr>mb_arrive := a\<rparr>)) R u"
  using assms by (auto simp: mb_tasklet_ok_def split: mb_pc.splits)

lemma mb_inv_goto:
  assumes inv: "mb_inv R s" and ini: "mb_init_done s" and t: "t < NR_TASKLETS"
    and p: "mb_tasklet_ok (mb_goto t p (s\<lparr>mb_arrive := (mb_arrive s)(t := a)\<rparr>)) R t" "a = parity (mb_entered p)"
      "mb_entered (mb_pcs s t) = R + 1 \<Longrightarrow> mb_entered p = R + 1" "t = 0 \<Longrightarrow> mb_completed p = R"
  shows "mb_inv R (mb_goto t p (s\<lparr>mb_arrive := (mb_arrive s)(t := a)\<rparr>))"
proof -
  have "mb_tasklet_ok (mb_goto t p (s\<lparr>mb_arrive := (mb_arrive s)(t := a)\<rparr>)) R u" if "u < NR_TASKLETS" for u
  proof (cases "u = t")
    case False
    have "mb_tasklet_ok s R u" using inv that by (simp add: mb_inv_def)
    then show ?thesis using False p(3) by (rule mb_other)
  qed (use p(1) in simp)
  then show ?thesis using inv ini p(2,4) by (auto simp: mb_inv_def)
qed

lemma mb_inv_goto_only:
  assumes "mb_inv R s" "mb_init_done s" "t < NR_TASKLETS"
    and "mb_tasklet_ok (mb_goto t p s) R t" "mb_entered p = mb_entered (mb_pcs s t)" "t = 0 \<Longrightarrow> mb_completed p = R"
  shows "mb_inv R (mb_goto t p s)"
proof -
  have "s\<lparr>mb_arrive := (mb_arrive s)(t := mb_arrive s t)\<rparr> = s" by (cases s) simp
  moreover have "mb_arrive s t = parity (mb_entered p)" using assms by (simp add: mb_inv_def)
  ultimately show ?thesis using mb_inv_goto [where R = R and s = s and t = t and p = p and a = "mb_arrive s t"] assms by simp
qed

lemma mb_inv_step:
  assumes inv: "mb_inv R s" and t: "t < NR_TASKLETS" and step: "mybarrier_step Flags_same t s = Some s'"
  shows "\<exists>R'. mb_inv R' s'"
proof -
  have sense: "mb_sense s = parity R"
    and ok: "\<And>u. u < NR_TASKLETS \<Longrightarrow> mb_tasklet_ok s R u" and arr: "\<And>u. u < NR_TASKLETS \<Longrightarrow> mb_arrive s u = parity (mb_entered (mb_pcs s u))"
    using inv by (auto simp: mb_inv_def)
  note tok = ok [OF t]
  show ?thesis
  proof (cases "mb_pcs s t")
    case Mb_init
    then have t0: "t = 0" "R = 0" "\<not> mb_init_done s" using tok by (auto simp: mb_tasklet_ok_def)
    have others: "mb_pcs s u = Mb_out 0" if "u < NR_TASKLETS" "u \<noteq> 0" for u
      using ok [OF that(1)] that(2) t0 by (auto simp: mb_tasklet_ok_def split: mb_pc.splits)
    have s': "s' = mb_goto 0 (Mb_out 0) (mybarrier_init Flags_same s)"
      using step Mb_init t0 by (simp add: mybarrier_step_def)
    have "mb_tasklet_ok s' 0 u \<and> mb_arrive s' u = 0 \<and> mb_entered (mb_pcs s' u) = 0" if "u < NR_TASKLETS" for u
      using others [OF that] that by (cases "u = 0") (auto simp: s' mybarrier_init_defs mb_tasklet_ok_def)
    then have "mb_inv 0 s'" by (auto simp: mb_inv_def s' mybarrier_init_defs)
    then show ?thesis ..
  next
    case (Mb_out k)
    then have k: "mb_init_done s" "k = R"
      using step tok by (auto simp: mybarrier_step_def mb_tasklet_ok_def split: if_splits)
    then have "s' = mb_goto t (Mb_read R (parity (R + 1))) s"
      using step Mb_out by (simp add: mybarrier_step_def sense parity_next)
    moreover have "mb_inv R (mb_goto t (Mb_read R (parity (R + 1))) s)"
      using inv k(1) t by (rule mb_inv_goto_only) (use k Mb_out in \<open>simp_all add: mb_tasklet_ok_def\<close>)
    ultimately show ?thesis by blast
  next
    case (Mb_read k x)
    then have k: "k = R" "x = parity (R + 1)" "mb_init_done s" using tok by (auto simp: mb_tasklet_ok_def)
    let ?p = "if t = 0 then Mb_scan R x 0 else Mb_spin R x"
    have "s' = mb_goto t ?p (s\<lparr>mb_arrive := (mb_arrive s)(t := x)\<rparr>)"
      using step Mb_read k by (cases "t = 0") (auto simp: mybarrier_step_def)
    moreover have "mb_inv R (mb_goto t ?p (s\<lparr>mb_arrive := (mb_arrive s)(t := x)\<rparr>))"
      using inv k(3) t by (rule mb_inv_goto) (use k in \<open>auto simp: mb_tasklet_ok_def\<close>)
    ultimately show ?thesis by blast
  next
    case (Mb_spin k x)
    then have k: "t \<noteq> 0" "mb_init_done s" "mb_sense s = x" "s' = mb_goto t (Mb_out (k + 1)) s"
      "k = R \<and> x = parity (R + 1) \<or> k + 1 = R \<and> x = parity R"
      using tok step by (auto simp: mb_tasklet_ok_def mybarrier_step_def split: if_splits)
    then have "k + 1 = R" using sense by (auto simp: mod_Suc split: if_splits)
    moreover have "mb_inv R (mb_goto t (Mb_out (k + 1)) s)"
      using inv k(2) t by (rule mb_inv_goto_only) (use k Mb_spin \<open>k + 1 = R\<close> in \<open>simp_all add: mb_tasklet_ok_def\<close>)
    ultimately show ?thesis using k(4) by blast
  next
    case (Mb_scan k x i)
    then have k: "t = 0" "k = R" "x = parity (R + 1)" "mb_init_done s" "\<forall>j < i. j < NR_TASKLETS \<longrightarrow> mb_entered (mb_pcs s j) = R + 1"
      using tok by (auto simp: mb_tasklet_ok_def)
    show ?thesis
    proof (cases "i < NR_TASKLETS")
      case True
      then have s': "mb_arrive s i = x" "s' = mb_goto t (Mb_scan R x (i + 1)) s"
        using step Mb_scan k by (auto simp: mybarrier_step_def split: if_splits)
      have "mb_entered (mb_pcs s i) = R \<or> mb_entered (mb_pcs s i) = R + 1"
        using mb_entered_range [OF ok [OF True]] by linarith
      then have "mb_entered (mb_pcs s i) = R + 1"
        by (rule parity_same) (use arr [OF True] s'(1) k(3) in simp)
      then have "\<forall>j < i + 1. j < NR_TASKLETS \<longrightarrow> mb_entered (mb_pcs s j) = R + 1" using k(5) by (auto simp: less_Suc_eq)
      then have "mb_inv R (mb_goto t (Mb_scan R x (i + 1)) s)"
        by (intro mb_inv_goto_only [OF inv k(4) t]) (use k Mb_scan in \<open>auto simp: mb_tasklet_ok_def\<close>)
      then show ?thesis using s' by blast
    next
      case False
      then have s': "s' = mb_goto 0 (Mb_out (R + 1)) (s\<lparr>mb_sense := x\<rparr>)"
        using step Mb_scan k by (auto simp: mybarrier_step_def)
      have spin: "mb_pcs s u = Mb_spin R (parity (R + 1))" if "u < NR_TASKLETS" "u \<noteq> 0" for u
      proof -
        have "mb_entered (mb_pcs s u) = R + 1" using k(5) that False by simp
        then show ?thesis using ok [OF that(1)] that(2)
          by (auto simp: mb_tasklet_ok_def split: mb_pc.splits)
      qed
      have "mb_tasklet_ok s' (R + 1) u \<and> mb_arrive s' u = parity (mb_entered (mb_pcs s' u))" if "u < NR_TASKLETS" for u
        using spin [OF that] arr [OF that] k Mb_scan by (cases "u = 0") (simp_all add: s' mb_tasklet_ok_def)
      then have "mb_inv (R + 1) s'" using k by (simp add: mb_inv_def s')
      then show ?thesis ..
    qed
  qed
qed

lemma mb_inv_reachable: "mb_reachable Flags_same s \<Longrightarrow> \<exists>R. mb_inv R s"
  by (induction rule: mb_reachable.induct) (auto intro: mb_inv_start mb_inv_step)

text \<open>
  C17: Barrier safety of the variant in \<^verbatim>\<open>MLP/support/mc_sync.h\<close>, for every interleaving, from
  zeroed memory and with late initialisation: when any tasklet has completed \<open>k\<close> waits, every one
  of the sixteen has entered at least \<open>k\<close>; and tasklets are never more than one wait apart.
\<close>

theorem mybarrier_mlp_safe:
  assumes "mb_reachable Flags_same s" "t < NR_TASKLETS" "u < NR_TASKLETS"
  shows "mb_completed (mb_pcs s t) \<le> mb_entered (mb_pcs s u) \<and> mb_entered (mb_pcs s u) \<le> mb_completed (mb_pcs s t) + 2"
proof -
  obtain R where inv: "mb_inv R s" using mb_inv_reachable [OF assms(1)] by blast
  then have t: "mb_tasklet_ok s R t" and u: "mb_tasklet_ok s R u" using assms by (auto simp: mb_inv_def)
  have "R \<le> mb_completed (mb_pcs s t) + 1" using t by (auto simp: mb_tasklet_ok_def split: mb_pc.splits)
  then show ?thesis using mb_entered_range [OF t] mb_entered_range [OF u] by linarith
qed

section \<open>The common variant is not\<close>

text \<open>Running a schedule: the list of the tasklets that step.\<close>

fun mb_run :: "mb_variant \<Rightarrow> nat list \<Rightarrow> mb_state \<Rightarrow> mb_state option" where
  "mb_run v [] s = Some s"
| "mb_run v (t # ts) s = (case mybarrier_step v t s of None \<Rightarrow> None | Some s' \<Rightarrow> mb_run v ts s')"

lemma mb_run_reachable:
  "mb_reachable v s \<Longrightarrow> (\<And>t. t \<in> set ts \<Longrightarrow> t < NR_TASKLETS) \<Longrightarrow> mb_run v ts s = Some s' \<Longrightarrow> mb_reachable v s'"
  by (induction ts arbitrary: s) (auto split: option.splits intro: mb_reachable.step)

lemma mb_run_append: "mb_run v (xs @ ys) s = (case mb_run v xs s of None \<Rightarrow> None | Some s' \<Rightarrow> mb_run v ys s')"
  by (induction xs arbitrary: s) (auto split: option.splits)

lemma mb_run_trans: "mb_run v xs s = Some s' \<Longrightarrow> mb_run v (xs @ ys) s = mb_run v ys s'"
  by (simp add: mb_run_append)

text \<open>Tasklet 0 finds all flags as it wants them and scans past them.\<close>

lemma mb_scan_run:
  assumes "\<And>i. i < NR_TASKLETS \<Longrightarrow> mb_arrive s i = x" "mb_pcs s 0 = Mb_scan k x j" "j + n = NR_TASKLETS"
  shows "mb_run v (replicate n 0) s = Some (mb_goto 0 (Mb_scan k x NR_TASKLETS) s)"
  using assms
proof (induction n arbitrary: s j)
  case (Suc n)
  then have j: "j < NR_TASKLETS" by simp
  have upd: "mb_goto 0 p (mb_goto 0 q s) = mb_goto 0 p s" for p q by simp
  have "mybarrier_step v 0 s = Some (mb_goto 0 (Mb_scan k x (j + 1)) s)"
    using Suc.prems j by (simp add: mybarrier_step_def)
  moreover have "mb_run v (replicate n 0) (mb_goto 0 (Mb_scan k x (j + 1)) s)
      = Some (mb_goto 0 (Mb_scan k x NR_TASKLETS) (mb_goto 0 (Mb_scan k x (j + 1)) s))"
    by (rule Suc.IH [where j = "j + 1"]) (use Suc.prems in simp_all)
  ultimately show ?case by (simp only: replicate.simps mb_run.simps option.case upd)
qed (auto simp: fun_upd_def fun_eq_iff)

text \<open>A tasklet other than 0 enters a wait after the sense was flipped to 1.\<close>

lemma mb_late_run:
  assumes "distinct ts" "0 \<notin> set ts" "\<And>t. t \<in> set ts \<Longrightarrow> mb_pcs s t = Mb_out 0" "mb_sense s = 1"
  shows "mb_run Flags_opposite (concat (map (\<lambda>t. [t, t]) ts)) s
    = Some (s\<lparr>mb_arrive := (\<lambda>i. if i \<in> set ts then 0 else mb_arrive s i),
              mb_pcs := (\<lambda>i. if i \<in> set ts then Mb_spin 0 0 else mb_pcs s i)\<rparr>)"
  using assms
proof (induction ts arbitrary: s)
  case (Cons t ts)
  let ?s = "s\<lparr>mb_arrive := (mb_arrive s)(t := 0), mb_pcs := (mb_pcs s)(t := Mb_spin 0 0)\<rparr>"
  have "mb_run Flags_opposite [t, t] s = Some ?s"
    using Cons.prems by (simp add: mybarrier_step_def mb_next_def)
  moreover have "mb_run Flags_opposite (concat (map (\<lambda>t. [t, t]) ts)) ?s
    = Some (?s\<lparr>mb_arrive := (\<lambda>i. if i \<in> set ts then 0 else mb_arrive ?s i),
              mb_pcs := (\<lambda>i. if i \<in> set ts then Mb_spin 0 0 else mb_pcs ?s i)\<rparr>)"
    by (rule Cons.IH) (use Cons.prems in auto)
  ultimately have "mb_run Flags_opposite ([t, t] @ concat (map (\<lambda>t. [t, t]) ts)) s
    = Some (?s\<lparr>mb_arrive := (\<lambda>i. if i \<in> set ts then 0 else mb_arrive ?s i),
              mb_pcs := (\<lambda>i. if i \<in> set ts then Mb_spin 0 0 else mb_pcs ?s i)\<rparr>)"
    by (simp only: mb_run_append option.case)
  then show ?case using Cons.prems by (auto intro!: ext simp: fun_eq_iff)
qed simp

text \<open>Tasklet 0 from the initialisation through its first wait, and through its second.\<close>

definition mb_bad_schedule :: "nat list" where
  "mb_bad_schedule = [0, 0, 0] @ (replicate NR_TASKLETS 0 @ [0]) @ concat (map (\<lambda>t. [t, t]) [1..<NR_TASKLETS])
     @ [0, 0] @ (replicate NR_TASKLETS 0 @ [0])"

text \<open>
  C16: The common variant of the barrier does not hold tasklets back: there is a run in which tasklet 0
  completes two waits (all the waits of a kernel such as VA, after which it hands the result to the host)
  while each of the other fifteen has not completed its first.
\<close>

theorem mybarrier_common_broken:
  "\<exists>s. mb_reachable Flags_opposite s \<and> mb_completed (mb_pcs s 0) = 2
     \<and> (\<lambda>t. (mb_completed (mb_pcs s t), mb_entered (mb_pcs s t))) ` {1..<NR_TASKLETS} = {(0, 1)}"
proof -
  let ?ini = "\<lambda>a. \<lambda>i :: nat. if i < NR_TASKLETS then a else 0 :: nat"
  let ?s1 = "\<lparr>mb_sense = 0, mb_arrive = ?ini 1, mb_init_done = False, mb_pcs = (\<lambda>_. Mb_out 0)(0 := Mb_scan 0 1 0)\<rparr>"
  let ?s2 = "\<lparr>mb_sense = 1, mb_arrive = ?ini 1, mb_init_done = False, mb_pcs = (\<lambda>_. Mb_out 0)(0 := Mb_out 1)\<rparr>"
  let ?spin = "\<lambda>p i. if i \<in> set [1..<NR_TASKLETS] then Mb_spin 0 0 else if i = 0 then p else Mb_out 0"
  let ?s3 = "\<lparr>mb_sense = 1, mb_arrive = (\<lambda>i. if i = 0 then 1 else 0), mb_init_done = False, mb_pcs = ?spin (Mb_out 1)\<rparr>"
  let ?s4 = "\<lparr>mb_sense = 1, mb_arrive = (\<lambda>_. 0), mb_init_done = False, mb_pcs = ?spin (Mb_scan 1 0 0)\<rparr>"
  let ?s5 = "\<lparr>mb_sense = 0, mb_arrive = (\<lambda>_. 0), mb_init_done = False, mb_pcs = ?spin (Mb_out 2)\<rparr>"
  let ?late = "concat (map (\<lambda>t. [t, t]) [1..<NR_TASKLETS])"
  have 1: "mb_run Flags_opposite [0, 0, 0] mb_start = Some ?s1"
    by (simp add: mb_start_def mybarrier_step_def mybarrier_init_defs mb_next_def fun_eq_iff)
  have 2: "mb_run Flags_opposite (replicate NR_TASKLETS 0 @ [0]) ?s1 = Some ?s2"
    by (subst mb_run_append, subst mb_scan_run [where j = 0 and k = 0 and x = 1]) (simp_all add: mybarrier_step_def)
  have 3: "mb_run Flags_opposite ?late ?s2 = Some ?s3"
    by (subst mb_late_run) (auto intro!: ext)
  have 4: "mb_run Flags_opposite [0, 0] ?s3 = Some ?s4"
    by (simp add: mybarrier_step_def mb_next_def fun_eq_iff)
  have 5: "mb_run Flags_opposite (replicate NR_TASKLETS 0 @ [0]) ?s4 = Some ?s5"
    by (subst mb_run_append, subst mb_scan_run [where j = 0 and k = 1 and x = 0])
      (simp_all add: mybarrier_step_def fun_eq_iff numeral_2_eq_2)
  have "mb_run Flags_opposite mb_bad_schedule mb_start = Some ?s5"
    unfolding mb_bad_schedule_def
    by (simp only: mb_run_trans [OF 1] mb_run_trans [OF 2] mb_run_trans [OF 3] mb_run_trans [OF 4] 5)
  then have "mb_reachable Flags_opposite ?s5"
    by (rule mb_run_reachable [OF mb_reachable.start, rotated]) (auto simp: mb_bad_schedule_def)
  moreover have "(1 :: nat) \<in> {1..<NR_TASKLETS}" by (simp add: NR_TASKLETS_def)
  then have "(\<lambda>t. (mb_completed (mb_pcs ?s5 t), mb_entered (mb_pcs ?s5 t))) ` {1..<NR_TASKLETS} = {(0, 1)}"
    by (auto simp: image_iff intro: bexI [of _ 1])
  ultimately show ?thesis by (intro exI [of _ ?s5] conjI) simp_all
qed

theorem mybarrier_mlp_safe_witness:
  "\<exists>s. mb_reachable Flags_same s \<and> mb_entered (mb_pcs s 0) = 1 \<and> mb_entered (mb_pcs s 0) \<le> mb_completed (mb_pcs s 5) + 2"
proof -
  obtain s where s: "mb_run Flags_same [0, 0, 0] mb_start = Some s" "mb_entered (mb_pcs s 0) = 1"
    by (simp add: mb_start_def mybarrier_step_def mybarrier_init_defs)
  have "mb_reachable Flags_same s"
    by (rule mb_run_reachable [OF mb_reachable.start _ s(1)]) auto
  then show ?thesis using s(2) mybarrier_mlp_safe [of s 5 0] by (auto simp: NR_TASKLETS_def)
qed

section \<open>The handshake\<close>

text \<open>
  Mailboxes with an epoch: tasklet \<open>t\<close> waits until its mailbox carries the current epoch, takes
  the sum of the tasklets before it, and leaves that plus its own count to its successor, the
  value before the epoch. What \<open>handshake_sync\<close> returns is the argument of \<open>Hs_done\<close>.
\<close>

datatype 'a hs_pc =
    Hs_start
  | Hs_ready
  | Hs_got 'a
  | Hs_sent 'a
  | Hs_done 'a

record 'a hs_state =
  hs_val :: "nat \<Rightarrow> 'a"
  hs_epoch :: "nat \<Rightarrow> u32"
  hs_next_accum :: "'a option"
  hs_pcs :: "nat \<Rightarrow> 'a hs_pc"

text \<open>The initialisation of tasklet 0 gives the first epoch and the cleared mailboxes.\<close>

definition handshake_init :: "('a :: zero) hs_state \<Rightarrow> u32 \<times> 'a hs_state" where
  "handshake_init s =
     (1, s\<lparr>hs_val := (\<lambda>i. if i < NR_TASKLETS then 0 else hs_val s i),
       hs_epoch := (\<lambda>i. if i < NR_TASKLETS then 0 else hs_epoch s i)\<rparr>)"

abbreviation hs_goto :: "nat \<Rightarrow> 'a hs_pc \<Rightarrow> 'a hs_state \<Rightarrow> 'a hs_state" where
  "hs_goto t p s \<equiv> s\<lparr>hs_pcs := (hs_pcs s)(t := p)\<rparr>"

definition handshake_step :: "u32 \<Rightarrow> (nat \<Rightarrow> 'a) \<Rightarrow> nat \<Rightarrow> ('a :: comm_monoid_add) hs_state \<Rightarrow> 'a hs_state option" where
  "handshake_step epoch l t s =
     (case hs_pcs s t of
        Hs_start \<Rightarrow>
          if t = 0 then Some (hs_goto t (Hs_got 0) s)
          else if hs_epoch s t = epoch then Some (hs_goto t Hs_ready s) else None
      | Hs_ready \<Rightarrow> Some (hs_goto t (Hs_got (hs_val s t)) s)
      | Hs_got p \<Rightarrow>
          if t < NR_TASKLETS - 1 then Some (hs_goto t (Hs_sent p) (s\<lparr>hs_val := (hs_val s)(t + 1 := p + l t)\<rparr>))
          else Some (hs_goto t (Hs_done p) (s\<lparr>hs_next_accum := Some (p + l t)\<rparr>))
      | Hs_sent p \<Rightarrow> Some (hs_goto t (Hs_done p) (s\<lparr>hs_epoch := (hs_epoch s)(t + 1 := epoch)\<rparr>))
      | Hs_done p \<Rightarrow> None)"

text \<open>A round starts with no mailbox carrying the epoch, which tasklet 0 has just incremented.\<close>

definition hs_fresh :: "u32 \<Rightarrow> 'a hs_state \<Rightarrow> bool" where
  "hs_fresh epoch s \<longleftrightarrow> (\<forall>t < NR_TASKLETS. hs_pcs s t = Hs_start \<and> hs_epoch s t \<noteq> epoch)"

inductive hs_reachable :: "u32 \<Rightarrow> (nat \<Rightarrow> 'a) \<Rightarrow> ('a :: comm_monoid_add) hs_state \<Rightarrow> 'a hs_state \<Rightarrow> bool" for e l s0 where
  start: "hs_reachable e l s0 s0"
| step: "hs_reachable e l s0 s \<Longrightarrow> t < NR_TASKLETS \<Longrightarrow> handshake_step e l t s = Some s' \<Longrightarrow> hs_reachable e l s0 s'"

text \<open>The sum of the counts before tasklet \<open>t\<close>.\<close>

definition partial_count :: "(nat \<Rightarrow> 'a :: comm_monoid_add) \<Rightarrow> nat \<Rightarrow> 'a" where
  "partial_count l t = (\<Sum>u < t. l u)"

definition hs_tasklet_ok :: "u32 \<Rightarrow> (nat \<Rightarrow> 'a) \<Rightarrow> ('a :: comm_monoid_add) hs_state \<Rightarrow> nat \<Rightarrow> bool" where
  "hs_tasklet_ok e l s t =
     (case hs_pcs s t of
        Hs_start \<Rightarrow> True
      | Hs_ready \<Rightarrow> t \<noteq> 0 \<and> hs_epoch s t = e
      | Hs_got p \<Rightarrow> p = partial_count l t
      | Hs_sent p \<Rightarrow> p = partial_count l t \<and> t + 1 < NR_TASKLETS \<and> hs_val s (t + 1) = partial_count l (t + 1)
      | Hs_done p \<Rightarrow> p = partial_count l t
          \<and> (if t + 1 < NR_TASKLETS then hs_epoch s (t + 1) = e \<and> hs_val s (t + 1) = partial_count l (t + 1)
             else hs_next_accum s = Some (partial_count l NR_TASKLETS)))"

definition hs_box_ok :: "u32 \<Rightarrow> 'a hs_state \<Rightarrow> nat \<Rightarrow> bool" where
  "hs_box_ok e s t \<longleftrightarrow> (hs_epoch s t = e \<longrightarrow> 0 < t \<and> (\<exists>p. hs_pcs s (t - 1) = Hs_done p))"

definition hs_inv :: "u32 \<Rightarrow> (nat \<Rightarrow> 'a) \<Rightarrow> ('a :: comm_monoid_add) hs_state \<Rightarrow> bool" where
  "hs_inv e l s \<longleftrightarrow> (\<forall>t < NR_TASKLETS. hs_tasklet_ok e l s t \<and> hs_box_ok e s t)"

lemma hs_tasklet_keep:
  assumes "hs_tasklet_ok e l s u" "u \<noteq> t" "hs_pcs s' = (hs_pcs s)(t := q)" "hs_epoch s' u = hs_epoch s u \<or> hs_epoch s' u = e"
    and "u + 1 < NR_TASKLETS \<Longrightarrow> (hs_epoch s' (u + 1) = hs_epoch s (u + 1) \<or> hs_epoch s' (u + 1) = e) \<and> hs_val s' (u + 1) = hs_val s (u + 1)"
    and "\<not> u + 1 < NR_TASKLETS \<Longrightarrow> hs_next_accum s' = hs_next_accum s"
  shows "hs_tasklet_ok e l s' u"
  using assms by (auto simp: hs_tasklet_ok_def split: hs_pc.splits)

lemma hs_box_keep:
  assumes "hs_box_ok e s u" "hs_pcs s' = (hs_pcs s)(t := q)" "hs_epoch s' u = hs_epoch s u" "\<And>p. hs_pcs s t \<noteq> Hs_done p"
  shows "hs_box_ok e s' u"
  using assms by (auto simp: hs_box_ok_def)

lemma partial_count_Suc: "partial_count l t + l t = partial_count l (Suc t)"
  by (simp add: partial_count_def)

lemma hs_inv_step:
  assumes inv: "hs_inv e l s" and t: "t < NR_TASKLETS" and step: "handshake_step e l t s = Some s'"
  shows "hs_inv e l s'"
proof -
  have ok: "hs_tasklet_ok e l s u" "hs_box_ok e s u" if "u < NR_TASKLETS" for u
    using inv that by (auto simp: hs_inv_def)
  have goto: "hs_inv e l (hs_goto t q s)"
    if "\<And>p. hs_pcs s t \<noteq> Hs_done p" "hs_tasklet_ok e l (hs_goto t q s) t" for q
    unfolding hs_inv_def
  proof (intro allI impI conjI)
    fix u
    assume u: "u < NR_TASKLETS"
    show "hs_tasklet_ok e l (hs_goto t q s) u"
      using that(2) hs_tasklet_keep [OF ok(1) [OF u], of t "hs_goto t q s" q] by (cases "u = t") auto
    show "hs_box_ok e (hs_goto t q s) u"
      by (rule hs_box_keep [OF ok(2) [OF u], of _ t q]) (use that(1) in auto)
  qed
  show ?thesis
  proof (cases "hs_pcs s t")
    case Hs_start
    show ?thesis
    proof (cases "t = 0")
      case True
      then have "s' = hs_goto t (Hs_got 0) s" using step Hs_start by (simp add: handshake_step_def)
      then show ?thesis using goto [of "Hs_got 0"] Hs_start True by (simp add: hs_tasklet_ok_def partial_count_def)
    next
      case False
      then have "hs_epoch s t = e" "s' = hs_goto t Hs_ready s"
        using step Hs_start by (auto simp: handshake_step_def split: if_splits)
      then show ?thesis using goto [of Hs_ready] Hs_start False by (simp add: hs_tasklet_ok_def)
    qed
  next
    case Hs_ready
    then have e: "hs_epoch s t = e" "t \<noteq> 0" using ok(1) [OF t] by (auto simp: hs_tasklet_ok_def)
    then obtain p where p: "hs_pcs s (t - 1) = Hs_done p" using ok(2) [OF t] by (auto simp: hs_box_ok_def)
    have "t - 1 < NR_TASKLETS" "t - 1 + 1 = t" using t e by auto
    then have "hs_val s t = partial_count l t" using ok(1) [of "t - 1"] p t by (simp add: hs_tasklet_ok_def)
    moreover have "s' = hs_goto t (Hs_got (hs_val s t)) s" using step Hs_ready by (simp add: handshake_step_def)
    ultimately show ?thesis using goto [of "Hs_got (hs_val s t)"] Hs_ready by (simp add: hs_tasklet_ok_def)
  next
    case (Hs_got p)
    then have p: "p + l t = partial_count l (t + 1)" "p = partial_count l t"
      using ok(1) [OF t] partial_count_Suc [of l t] by (auto simp: hs_tasklet_ok_def)
    show ?thesis
    proof (cases "t < NR_TASKLETS - 1")
      case True
      then have s': "s' = hs_goto t (Hs_sent p) (s\<lparr>hs_val := (hs_val s)(t + 1 := p + l t)\<rparr>)"
        using step Hs_got by (simp add: handshake_step_def)
      have "hs_tasklet_ok e l s' u" if "u < NR_TASKLETS" for u
      proof (cases "u = t")
        case False
        show ?thesis by (rule hs_tasklet_keep [OF ok(1) [OF that] False, of _ "Hs_sent p"]) (use False in \<open>auto simp: s'\<close>)
      qed (use True p in \<open>simp add: s' hs_tasklet_ok_def\<close>)
      moreover have "hs_box_ok e s' u" if "u < NR_TASKLETS" for u
        by (rule hs_box_keep [OF ok(2) [OF that], of _ t "Hs_sent p"]) (use Hs_got in \<open>auto simp: s'\<close>)
      ultimately show ?thesis by (simp add: hs_inv_def)
    next
      case False
      then have last: "t + 1 = NR_TASKLETS" using t by simp
      have s': "s' = hs_goto t (Hs_done p) (s\<lparr>hs_next_accum := Some (p + l t)\<rparr>)"
        using step Hs_got False by (simp add: handshake_step_def)
      have "hs_tasklet_ok e l s' u" if "u < NR_TASKLETS" for u
      proof (cases "u = t")
        case False
        show ?thesis by (rule hs_tasklet_keep [OF ok(1) [OF that] False, of _ "Hs_done p"]) (use False that last in \<open>auto simp: s'\<close>)
      qed (use last p in \<open>simp add: s' hs_tasklet_ok_def\<close>)
      moreover have "hs_box_ok e s' u" if "u < NR_TASKLETS" for u
        by (rule hs_box_keep [OF ok(2) [OF that], of _ t "Hs_done p"]) (use Hs_got in \<open>auto simp: s'\<close>)
      ultimately show ?thesis by (simp add: hs_inv_def)
    qed
  next
    case (Hs_sent p)
    then have p: "p = partial_count l t" "t + 1 < NR_TASKLETS" "hs_val s (t + 1) = partial_count l (t + 1)"
      using ok(1) [OF t] by (auto simp: hs_tasklet_ok_def)
    have s': "s' = hs_goto t (Hs_done p) (s\<lparr>hs_epoch := (hs_epoch s)(t + 1 := e)\<rparr>)"
      using step Hs_sent by (simp add: handshake_step_def)
    have "hs_tasklet_ok e l s' u" if "u < NR_TASKLETS" for u
    proof (cases "u = t")
      case False
      show ?thesis by (rule hs_tasklet_keep [OF ok(1) [OF that] False, of _ "Hs_done p"]) (auto simp: s')
    qed (use p in \<open>simp add: s' hs_tasklet_ok_def\<close>)
    moreover have "hs_box_ok e s' u" if "u < NR_TASKLETS" for u
    proof (cases "u = t + 1")
      case False
      show ?thesis by (rule hs_box_keep [OF ok(2) [OF that], of _ t "Hs_done p"]) (use Hs_sent False in \<open>auto simp: s'\<close>)
    qed (simp add: s' hs_box_ok_def)
    ultimately show ?thesis by (simp add: hs_inv_def)
  next
    case (Hs_done p)
    then show ?thesis using step by (simp add: handshake_step_def)
  qed
qed

lemma hs_inv_reachable:
  assumes "hs_reachable e l s0 s" "hs_fresh e s0"
  shows "hs_inv e l s"
  using assms(1)
proof (induction rule: hs_reachable.induct)
  case start
  show ?case using assms(2) by (auto simp: hs_fresh_def hs_inv_def hs_tasklet_ok_def hs_box_ok_def)
qed (rule hs_inv_step)

text \<open>
  C18: The handshake computes prefix sums and never gets stuck: from any state in which no mailbox
  carries the new epoch, whatever stale values they hold, in every interleaving a tasklet that has
  returned returned the sum of the counts of the tasklets before it, the last one also stored the sum of
  all; and as long as a tasklet has not returned, some tasklet can take a step.
\<close>

theorem handshake_sync_correct:
  fixes l :: "nat \<Rightarrow> 'a :: comm_monoid_add"
  assumes "hs_reachable e l s0 s" "hs_fresh e s0"
  shows "(\<forall>t < NR_TASKLETS. \<forall>p. hs_pcs s t = Hs_done p \<longrightarrow> p = (\<Sum>u < t. l u)
            \<and> (t + 1 = NR_TASKLETS \<longrightarrow> hs_next_accum s = Some (\<Sum>u < NR_TASKLETS. l u)))
    \<and> ((\<exists>t < NR_TASKLETS. \<forall>p. hs_pcs s t \<noteq> Hs_done p) \<longrightarrow> (\<exists>t < NR_TASKLETS. \<exists>s'. handshake_step e l t s = Some s'))"
proof -
  have inv: "hs_tasklet_ok e l s t" if "t < NR_TASKLETS" for t
    using hs_inv_reachable [OF assms] that by (simp add: hs_inv_def)
  have "p = (\<Sum>u < t. l u) \<and> (t + 1 = NR_TASKLETS \<longrightarrow> hs_next_accum s = Some (\<Sum>u < NR_TASKLETS. l u))"
    if "t < NR_TASKLETS" "hs_pcs s t = Hs_done p" for t p
    using inv [OF that(1)] that(2) by (auto simp: hs_tasklet_ok_def partial_count_def)
  moreover have "\<exists>t < NR_TASKLETS. \<exists>s'. handshake_step e l t s = Some s'"
    if ex: "\<exists>t < NR_TASKLETS. \<forall>p. hs_pcs s t \<noteq> Hs_done p"
  proof -
    define t where "t = (LEAST t. t < NR_TASKLETS \<and> (\<forall>p. hs_pcs s t \<noteq> Hs_done p))"
    have t: "t < NR_TASKLETS" "\<And>p. hs_pcs s t \<noteq> Hs_done p"
      using LeastI_ex [OF ex] by (auto simp: t_def)
    have epoch: "hs_epoch s t = e" if "t \<noteq> 0"
    proof -
      have "t - 1 < t" using that by simp
      then obtain p where "hs_pcs s (t - 1) = Hs_done p"
        using not_less_Least [of "t - 1" "\<lambda>t. t < NR_TASKLETS \<and> (\<forall>p. hs_pcs s t \<noteq> Hs_done p)"] t(1)
        by (auto simp: t_def [symmetric])
      moreover have "t - 1 < NR_TASKLETS" "t - 1 + 1 = t" using t that by auto
      ultimately show ?thesis using inv [of "t - 1"] t(1) by (simp add: hs_tasklet_ok_def)
    qed
    have "\<exists>s'. handshake_step e l t s = Some s'"
      using t(2) epoch by (cases "hs_pcs s t") (auto simp: handshake_step_def)
    then show ?thesis using t(1) by blast
  qed
  ultimately show ?thesis by blast
qed

theorem handshake_sync_correct_witness:
  "\<exists>s. hs_reachable 2 (\<lambda>t. of_nat t :: u32) \<lparr>hs_val = (\<lambda>_. 99), hs_epoch = (\<lambda>_. 1), hs_next_accum = None, hs_pcs = (\<lambda>_. Hs_start)\<rparr> s
     \<and> hs_pcs s 0 = Hs_done 0 \<and> (\<exists>t < NR_TASKLETS. \<exists>s'. handshake_step 2 (\<lambda>t. of_nat t) t s = Some s')"
proof -
  let ?s0 = "\<lparr>hs_val = (\<lambda>_. 99), hs_epoch = (\<lambda>_. 1), hs_next_accum = None, hs_pcs = (\<lambda>_. Hs_start)\<rparr> :: u32 hs_state"
  let ?l = "\<lambda>t. of_nat t :: u32"
  let ?fin = "\<lparr>hs_val = (\<lambda>_. 99)(1 := 0), hs_epoch = (\<lambda>_. 1)(1 := 2), hs_next_accum = None, hs_pcs = (\<lambda>_. Hs_start)(0 := Hs_done 0)\<rparr> :: u32 hs_state"
  let ?s1 = "?s0\<lparr>hs_pcs := (\<lambda>_. Hs_start)(0 := Hs_got 0)\<rparr>"
  let ?s2 = "?s1\<lparr>hs_val := (\<lambda>_. 99)(1 := 0), hs_pcs := (\<lambda>_. Hs_start)(0 := Hs_sent 0)\<rparr>"
  have "handshake_step 2 ?l 0 ?s0 = Some ?s1" by (simp add: handshake_step_def)
  with hs_reachable.start have 1: "hs_reachable 2 ?l ?s0 ?s1" by (rule hs_reachable.step [OF _ NR_TASKLETS_pos])
  have "handshake_step 2 ?l 0 ?s1 = Some ?s2" by (simp add: handshake_step_def NR_TASKLETS_def)
  with 1 have 2: "hs_reachable 2 ?l ?s0 ?s2" by (rule hs_reachable.step [OF _ NR_TASKLETS_pos])
  have "handshake_step 2 ?l 0 ?s2 = Some ?fin" by (simp add: handshake_step_def)
  with 2 have "hs_reachable 2 ?l ?s0 ?fin" by (rule hs_reachable.step [OF _ NR_TASKLETS_pos])
  moreover have fresh: "hs_fresh 2 ?s0" by (simp add: hs_fresh_def)
  moreover have "\<exists>t < NR_TASKLETS. \<forall>p. hs_pcs ?fin t \<noteq> Hs_done p" by (rule exI [of _ 1]) (simp add: NR_TASKLETS_def)
  ultimately have "\<exists>t < NR_TASKLETS. \<exists>s'. handshake_step 2 ?l t ?fin = Some s'"
    using handshake_sync_correct [of 2 ?l ?s0 ?fin] by blast
  then show ?thesis using \<open>hs_reachable 2 ?l ?s0 ?fin\<close> by (intro exI [of _ ?fin]) simp
qed

end
