(* ===== verification/Kernel_HST_L.thy ===== *)
theory Kernel_HST_L imports Kernel_HST_S MC_Sync
begin

text \<open>
  Histogram with one shared copy, \<^verbatim>\<open>src/src/HST-L/main.c\<close>: the tasklets clear the histogram in
  stripes, count their blocks into it with a mutex around each increment, and merge the
  \<open>NR_HISTO\<close> histograms of the groups (there is one); tasklet 0 writes the result to MRAM in
  chunks of at most 2048 bytes. A barrier ends each phase. Loading a block and a locked
  increment are the atomic actions. The argument and pixel formats are those of HST-S.
\<close>

section \<open>The code\<close>

definition NR_HISTO :: nat where "NR_HISTO = 1"

text \<open>
  The barrier of a group: with one group it is the common barrier of all tasklets. As in the
  other kernels the phases below are what a working barrier gives.
\<close>

definition groupbar_init :: "mb_state \<Rightarrow> mb_state" where
  "groupbar_init = mybarrier_init_common"

definition groupbar_wait :: "nat \<Rightarrow> mb_state \<Rightarrow> mb_state option" where
  "groupbar_wait lid = mybarrier_step Flags_opposite lid"

record hl_state =
  hl_cache_A :: "nat \<Rightarrow> u32 list"
  hl_histo :: "nat \<Rightarrow> u32"

definition hl_clear_bin :: "nat \<Rightarrow> (nat \<Rightarrow> u32) \<Rightarrow> nat \<Rightarrow> u32" where
  "hl_clear_bin i my_histo = my_histo(i := 0)"

definition hl_load :: "cells \<Rightarrow> hst_arguments \<Rightarrow> nat \<Rightarrow> nat \<Rightarrow> hl_state \<Rightarrow> hl_state" where
  "hl_load m args tid byte_idx s =
     (let l_bytes = l_size_bytes HST_BLOCK_SIZE (unat (hst_size args)) byte_idx
      in s\<lparr>hl_cache_A := (hl_cache_A s)(tid := load_cache (mram_read m (HST_A_OFFSET + byte_idx) l_bytes) (hl_cache_A s tid))\<rparr>)"

definition hl_increment :: "hst_arguments \<Rightarrow> nat \<Rightarrow> nat \<Rightarrow> hl_state \<Rightarrow> hl_state" where
  "hl_increment args tid j s =
     (let d = hst_bin (hst_bins args) (hl_cache_A s tid ! j)
      in s\<lparr>hl_histo := (hl_histo s)(d := hl_histo s d + 1)\<rparr>)"

definition hl_block :: "cells \<Rightarrow> hst_arguments \<Rightarrow> nat \<Rightarrow> nat \<Rightarrow> (hl_state \<Rightarrow> hl_state) list" where
  "hl_block m args tid byte_idx =
     hl_load m args tid byte_idx
     # map (hl_increment args tid) [0..<l_size_bytes HST_BLOCK_SIZE (unat (hst_size args)) byte_idx div 4]"

definition hl_tasklet :: "cells \<Rightarrow> hst_arguments \<Rightarrow> nat \<Rightarrow> (hl_state \<Rightarrow> hl_state) list" where
  "hl_tasklet m args tid =
     concat (map (hl_block m args tid)
       (stride_list (HST_BLOCK_SIZE * NR_TASKLETS) (HST_BLOCK_SIZE * tid) (unat (hst_size args))))"

definition hl_merge_bin :: "nat \<Rightarrow> (nat \<Rightarrow> u32) \<Rightarrow> nat \<Rightarrow> u32" where
  "hl_merge_bin b h = h(b := fold (\<lambda>g acc. acc + h b) [0..<NR_HISTO] 0)"

function hl_write_out :: "nat \<Rightarrow> nat \<Rightarrow> (nat \<Rightarrow> u32) \<Rightarrow> nat \<Rightarrow> cells \<Rightarrow> cells" where
  "hl_write_out mram_H bytes histo_dpu off m =
     (if off < bytes
      then let chunk = (if 2048 < bytes - off then 2048 else bytes - off)
           in hl_write_out mram_H bytes histo_dpu (off + chunk)
                (mram_write (map histo_dpu [off div 4..<off div 4 + chunk div 4]) (mram_H + off) chunk m)
      else m)"
  by pat_completeness auto
termination
  by (relation "measure (\<lambda>(base, bytes, histo, off, m). bytes - off)") auto

declare hl_write_out.simps [simp del]

definition hst_l_main :: "(nat \<Rightarrow> u32 list) \<Rightarrow> (nat \<Rightarrow> u32) \<Rightarrow> cells \<Rightarrow> cells \<Rightarrow> bool" where
  "hst_l_main caches heap m m' \<longleftrightarrow>
     (let m0 = sk_log_init m; args = hst_read_args m0; bins = unat (hst_bins args);
          stripes = (\<lambda>t. stride_list (1 * NR_TASKLETS) (1 * t) bins)
      in \<exists>h s h'. phase (map (\<lambda>t. map hl_clear_bin (stripes t)) [0..<NR_TASKLETS]) heap h
           \<and> phase (map (hl_tasklet m0 args) [0..<NR_TASKLETS]) \<lparr>hl_cache_A = caches, hl_histo = h\<rparr> s
           \<and> phase (map (\<lambda>t. map hl_merge_bin (stripes t)) [0..<NR_TASKLETS]) (hl_histo s) h'
           \<and> m' = hl_write_out (HST_A_OFFSET + unat (hst_transfer_size args)) (4 * bins) h' 0 m0)"

section \<open>Counting under the mutex\<close>

interpretation hl_clear: disjoint_steps hl_clear_bin UNIV "\<lambda>i. {i}" "\<lambda>i. {i}"
  by unfold_locales (auto simp: hl_clear_bin_def)

interpretation hl_merge: disjoint_steps hl_merge_bin UNIV "\<lambda>i. {i}" "\<lambda>i. {i}"
  by unfold_locales (auto simp: hl_merge_bin_def)

lemma hl_commute:
  assumes "t \<noteq> u"
  shows "hl_load m args t b (hl_load m args u c s) = hl_load m args u c (hl_load m args t b s)"
    "hl_load m args t b (hl_increment args u k s) = hl_increment args u k (hl_load m args t b s)"
    "hl_increment args t j (hl_increment args u k s) = hl_increment args u k (hl_increment args t j s)"
  using assms by (simp_all add: hl_load_def hl_increment_def Let_def fun_upd_twist)

lemma hl_tasklets_commute:
  assumes "t \<noteq> u" "f \<in> set (hl_tasklet m args t)" "g \<in> set (hl_tasklet m args u)"
  shows "f (g s) = g (f s)"
  using assms hl_commute [of t u] hl_commute [of u t]
  by (auto simp: hl_tasklet_def hl_block_def)

lemma hl_increment_sel:
  "hl_cache_A (hl_increment args t j s) = hl_cache_A s"
  "hl_histo (hl_increment args t j s) i = hl_histo s i + of_bool (hst_bin (hst_bins args) (hl_cache_A s t ! j) = i)"
  by (simp_all add: hl_increment_def Let_def)

lemma hl_increments_cache: "hl_cache_A (run_seq (map (hl_increment args t) js) s) = hl_cache_A s"
  by (induction js arbitrary: s) (simp_all add: hl_increment_sel)

lemma hl_increments_histo:
  "hl_histo (run_seq (map (hl_increment args t) js) s) i = hl_histo s i
    + of_nat (length (filter (\<lambda>d. hst_bin (hst_bins args) d = i) (map ((!) (hl_cache_A s t)) js)))"
  by (induction js arbitrary: s) (simp_all add: hl_increment_sel add.assoc)

lemma hl_tasklet_count:
  fixes m :: cells
  assumes "unat (hst_size args) mod 8 = 0"
  shows "hl_histo (run_seq (hl_tasklet m args t) s) i = hl_histo s i
    + of_nat (length (filter (\<lambda>k. hst_bin (hst_bins args) (m (HST_A_OFFSET div 4 + k)) = i)
        (tasklet_words HST_BLOCK_SIZE (unat (hst_size args)) t)))"
proof -
  let ?n = "unat (hst_size args)"
  let ?bs = "stride_list (HST_BLOCK_SIZE * NR_TASKLETS) (HST_BLOCK_SIZE * t) ?n"
  let ?c = "\<lambda>ks. of_nat (length (filter (\<lambda>k. hst_bin (hst_bins args) (m (HST_A_OFFSET div 4 + k)) = i) ks)) :: u32"
  have blk: "0 < HST_BLOCK_SIZE" "HST_BLOCK_SIZE mod 8 = 0" "HST_A_OFFSET mod 8 = 0"
    by (simp_all add: HST_BLOCK_SIZE_def HST_A_OFFSET_def HST_ARG_OFFSET_def)
  have "hl_histo (run_seq (concat (map (hl_block m args t) bs)) s) i
      = hl_histo s i + ?c (concat (map (block_words HST_BLOCK_SIZE ?n) bs))"
    if "set bs \<subseteq> set ?bs" for bs s
    using that
  proof (induction bs arbitrary: s)
    case (Cons b bs)
    then have "b mod HST_BLOCK_SIZE = 0" using tasklet_index_mod [OF blk(1)] by auto
    then have "hl_histo (run_seq (hl_block m args t b) s) i = hl_histo s i + ?c (block_words HST_BLOCK_SIZE ?n b)"
      by (simp add: hl_block_def hl_increments_histo hl_load_def Let_def
          load_block_words [OF blk(1,2) assms _ blk(3)] filter_map comp_def)
    with Cons show ?case by (simp add: add.assoc)
  qed simp
  from this [of ?bs] show ?thesis by (simp add: hl_tasklet_def tasklet_words_def)
qed

lemma hl_phase_count:
  assumes "phase (map (hl_tasklet m args) [0..<NR_TASKLETS]) s s'" "unat (hst_size args) mod 8 = 0"
  shows "hl_histo s' i = hl_histo s i + of_nat (hst_count m args i)"
proof -
  have "s' = run_seq (concat (map (hl_tasklet m args) [0..<NR_TASKLETS])) s"
  proof (rule phase_commute [OF assms(1)])
    fix i j f g s
    assume "i < j" "j < length (map (hl_tasklet m args) [0..<NR_TASKLETS])"
      "f \<in> set (map (hl_tasklet m args) [0..<NR_TASKLETS] ! i)" "g \<in> set (map (hl_tasklet m args) [0..<NR_TASKLETS] ! j)"
    then show "f (g s) = g (f s)" by (intro hl_tasklets_commute [of i j f m args g]) auto
  qed
  moreover have "hl_histo (run_seq (concat (map (hl_tasklet m args) [0..<k])) s) i = hl_histo s i
      + of_nat (\<Sum>t < k. length (filter (\<lambda>k. hst_bin (hst_bins args) (m (HST_A_OFFSET div 4 + k)) = i)
          (tasklet_words HST_BLOCK_SIZE (unat (hst_size args)) t)))" for k
    by (induction k) (simp_all add: hl_tasklet_count [OF assms(2)])
  ultimately show ?thesis by (simp only: hst_count_tasklets [OF assms(2)])
qed

section \<open>Writing the result\<close>

lemma hl_write_out_cell:
  assumes "mram_H mod 8 = 0" "bytes mod 8 = 0" "off mod 8 = 0" "off \<le> bytes"
  shows "hl_write_out mram_H bytes histo off m j =
    (if mram_H div 4 + off div 4 \<le> j \<and> j < mram_H div 4 + bytes div 4 then histo (j - mram_H div 4) else m j)"
  using assms
proof (induction mram_H bytes histo off m rule: hl_write_out.induct)
  case (1 H bytes histo off m)
  show ?case
  proof (cases "off < bytes")
    case True
    define chunk where "chunk = (if 2048 < bytes - off then 2048 else bytes - off)"
    have c: "chunk mod 8 = 0" "off + chunk \<le> bytes" "(off + chunk) mod 8 = 0" "0 < chunk"
      using "1.prems" True by (auto simp: chunk_def dma_simps)
    have le: "(off + chunk) div 4 \<le> bytes div 4" using c by (intro div_le_mono)
    have "hl_write_out H bytes histo off m
        = hl_write_out H bytes histo (off + chunk) (mram_write (map histo [off div 4..<off div 4 + chunk div 4]) (H + off) chunk m)"
      using True by (simp add: hl_write_out.simps [of H bytes histo off m] chunk_def Let_def)
    then have "hl_write_out H bytes histo off m j =
        (if H div 4 + (off + chunk) div 4 \<le> j \<and> j < H div 4 + bytes div 4 then histo (j - H div 4)
         else mram_write (map histo [off div 4..<off div 4 + chunk div 4]) (H + off) chunk m j)"
      using "1.IH" [OF True chunk_def] "1.prems" c by simp
    then show ?thesis using "1.prems" c le
      by (auto simp: mram_write_cells dma_simps)
  next
    case False
    then show ?thesis using "1.prems" by (subst hl_write_out.simps) auto
  qed
qed


lemma hst_l_main_runs: "\<exists>m'. hst_l_main caches heap m m'"
  unfolding hst_l_main_def Let_def by (intro exI conjI, rule phase_seq, rule phase_seq, rule phase_seq) simp


end
