(* ===== verification/Kernel_SCAN.thy ===== *)
theory Kernel_SCAN imports MC_Sync
begin

text \<open>
  Prefix sum, \<^verbatim>\<open>src/src/SCAN-SSA/main.c\<close> (scan-scan-add) and \<^verbatim>\<open>src/src/SCAN-RSS/main.c\<close>
  (reduce-scan-scan). In a round every tasklet scans one block and the handshake gives it the
  sum of the blocks before it (\<open>partial_count\<close>, see \<open>MC_Sync\<close>); after a barrier each adds that and
  the count of the rounds before to its block and writes it, and the last tasklet adds the
  round's total to the count. The update races with the reads of the slower tasklets.
\<close>

section \<open>A round\<close>

record scan_arguments =
  scan_size :: u32
  scan_kernel :: u32
  scan_t_count :: u32

definition SCAN_BLOCK_SIZE :: nat where "SCAN_BLOCK_SIZE = 2 ^ 10"
definition SCAN_REGS :: nat where "SCAN_REGS = SCAN_BLOCK_SIZE div 4"
definition SCAN_ARG_OFFSET :: nat where "SCAN_ARG_OFFSET = 0x2000"
definition SCAN_A_OFFSET :: nat where "SCAN_A_OFFSET = SCAN_ARG_OFFSET + (12 + 0xFF) div 0x100 * 0x100"

definition scan_read_args_aligned :: "cells \<Rightarrow> scan_arguments" where
  "scan_read_args_aligned m =
     (let buf = mram_read m SCAN_ARG_OFFSET 16
      in \<lparr>scan_size = buf ! 0, scan_kernel = buf ! 1, scan_t_count = buf ! 2\<rparr>)"

text \<open>The output buffer starts with any content.\<close>

definition scan_regs :: "u32 list \<Rightarrow> u32 list \<Rightarrow> u32 list \<times> u32" where
  "scan_regs output input =
     (let output = output[0 := input ! 0];
          output = fold (\<lambda>j output. output[j := output ! (j - 1) + input ! j]) [1..<SCAN_REGS] output
      in (output, output ! (SCAN_REGS - 1)))"

definition add_regs :: "u32 list \<Rightarrow> u32 \<Rightarrow> u32 list" where
  "add_regs io p_count = fold (\<lambda>j io. io[j := io ! j + p_count]) [0..<SCAN_REGS] io"

record scan_state =
  sc_mram :: cells
  sc_count :: u32
  sc_cache_B :: "nat \<Rightarrow> u32 list"

definition scan_A_base :: nat where "scan_A_base = SCAN_A_OFFSET"

definition scan_B_base :: "scan_arguments \<Rightarrow> nat" where
  "scan_B_base args = SCAN_A_OFFSET + unat (scan_size args)"

definition scan_byte_index :: "nat \<Rightarrow> nat \<Rightarrow> nat" where
  "scan_byte_index r t = SCAN_BLOCK_SIZE * t + r * (SCAN_BLOCK_SIZE * NR_TASKLETS)"

definition scan_read :: "nat \<Rightarrow> nat \<Rightarrow> scan_state \<Rightarrow> u32 list" where
  "scan_read r t s = mram_read (sc_mram s) (scan_A_base + scan_byte_index r t) SCAN_BLOCK_SIZE"

definition scan_scan :: "nat \<Rightarrow> nat \<Rightarrow> scan_state \<Rightarrow> scan_state" where
  "scan_scan r t s = s\<lparr>sc_cache_B := (sc_cache_B s)(t := fst (scan_regs (sc_cache_B s t) (scan_read r t s)))\<rparr>"

definition scan_l_count :: "nat \<Rightarrow> scan_state \<Rightarrow> nat \<Rightarrow> u32" where
  "scan_l_count r s t = snd (scan_regs (sc_cache_B s t) (scan_read r t s))"

definition scan_add :: "(nat \<Rightarrow> u32) \<Rightarrow> nat \<Rightarrow> scan_state \<Rightarrow> scan_state" where
  "scan_add l t s = s\<lparr>sc_cache_B := (sc_cache_B s)(t := add_regs (sc_cache_B s t) (sc_count s + partial_count l t))\<rparr>"

definition scan_write :: "scan_arguments \<Rightarrow> nat \<Rightarrow> nat \<Rightarrow> scan_state \<Rightarrow> scan_state" where
  "scan_write args r t s =
     s\<lparr>sc_mram := mram_write (sc_cache_B s t) (scan_B_base args + scan_byte_index r t) SCAN_BLOCK_SIZE (sc_mram s)\<rparr>"

definition scan_update :: "(nat \<Rightarrow> u32) \<Rightarrow> scan_state \<Rightarrow> scan_state" where
  "scan_update l s = s\<lparr>sc_count := sc_count s + partial_count l NR_TASKLETS\<rparr>"

text \<open>The actions of a tasklet between the second and the third barrier of a round.\<close>

definition scan_out :: "scan_arguments \<Rightarrow> nat \<Rightarrow> (nat \<Rightarrow> u32) \<Rightarrow> nat \<Rightarrow> (scan_state \<Rightarrow> scan_state) list" where
  "scan_out args r l t =
     [scan_add l t, scan_write args r t] @ (if t = NR_TASKLETS - 1 then [scan_update l] else [])"

definition scan_round :: "scan_arguments \<Rightarrow> nat \<Rightarrow> scan_state \<Rightarrow> scan_state \<Rightarrow> bool" where
  "scan_round args r s s' \<longleftrightarrow>
     (\<exists>s1. phase (map (\<lambda>t. [scan_scan r t]) [0..<NR_TASKLETS]) s s1
         \<and> phase (map (scan_out args r (scan_l_count r s)) [0..<NR_TASKLETS]) s1 s')"

text \<open>The same with the update after all reads: the runs without the race.\<close>

definition scan_round_late :: "scan_arguments \<Rightarrow> nat \<Rightarrow> scan_state \<Rightarrow> scan_state \<Rightarrow> bool" where
  "scan_round_late args r s s' \<longleftrightarrow>
     (\<exists>s1. phase (map (\<lambda>t. [scan_scan r t]) [0..<NR_TASKLETS]) s s1
         \<and> late_last (map (\<lambda>t. [scan_add (scan_l_count r s) t, scan_write args r t]) [0..<NR_TASKLETS])
             (scan_update (scan_l_count r s)) s1 s')"

lemma scan_round_late_is_round:
  assumes "scan_round_late args r s s'"
  shows "scan_round args r s s'"
proof -
  let ?l = "scan_l_count r s"
  let ?p = "\<lambda>t. [scan_add ?l t, scan_write args r t]"
  have out: "map (scan_out args r ?l) [0..<NR_TASKLETS] = map ?p [0..<NR_TASKLETS - 1] @ [?p (NR_TASKLETS - 1) @ [scan_update ?l]]"
    unfolding upt_tasklets by (simp add: scan_out_def)
  have early: "map ?p [0..<NR_TASKLETS] = map ?p [0..<NR_TASKLETS - 1] @ [?p (NR_TASKLETS - 1)]"
    unfolding upt_tasklets by simp
  obtain s1 where s1: "phase (map (\<lambda>t. [scan_scan r t]) [0..<NR_TASKLETS]) s s1"
    "late_last (map ?p [0..<NR_TASKLETS]) (scan_update ?l) s1 s'"
    using assms by (auto simp: scan_round_late_def)
  have "phase (map (scan_out args r ?l) [0..<NR_TASKLETS]) s1 s'"
    unfolding out using s1(2) unfolding early by (rule late_last_phase)
  then show ?thesis using s1(1) unfolding scan_round_def by blast
qed

fun scan_rounds :: "(nat \<Rightarrow> scan_state \<Rightarrow> scan_state \<Rightarrow> bool) \<Rightarrow> nat \<Rightarrow> scan_state \<Rightarrow> scan_state \<Rightarrow> bool" where
  "scan_rounds rnd 0 s s' \<longleftrightarrow> s' = s"
| "scan_rounds rnd (Suc r) s s' \<longleftrightarrow> (\<exists>s1. scan_rounds rnd r s s1 \<and> rnd r s1 s')"

section \<open>What a round computes\<close>

lemma scan_regs_spec:
  assumes "length out = SCAN_REGS" "length inp = SCAN_REGS"
  shows "length (fst (scan_regs out inp)) = SCAN_REGS"
    "i < SCAN_REGS \<Longrightarrow> fst (scan_regs out inp) ! i = (\<Sum>j \<le> i. inp ! j)"
    "snd (scan_regs out inp) = (\<Sum>j < SCAN_REGS. inp ! j)"
proof -
  let ?f = "\<lambda>j out. out[j := out ! (j - 1) + inp ! j]"
  have "length (fold ?f [1..<n] out) = length out" for n and out :: "u32 list"
    by (induction n) auto
  then have len: "length (fold ?f [1..<n] (out[0 := inp ! 0])) = SCAN_REGS" for n
    using assms by simp
  then show "length (fst (scan_regs out inp)) = SCAN_REGS" by (simp add: scan_regs_def Let_def)
  have pos: "0 < SCAN_REGS" by (simp add: SCAN_REGS_def SCAN_BLOCK_SIZE_def)
  let ?F = "\<lambda>n. fold ?f [1..<n] (out[0 := inp ! 0])"
  have F: "Suc n < SCAN_REGS \<Longrightarrow> i \<le> Suc n \<Longrightarrow>
      ?F (Suc (Suc n)) ! i = (if i = Suc n then ?F (Suc n) ! n + inp ! Suc n else ?F (Suc n) ! i)" for n i
    using len [of "Suc n"] by (simp add: nth_list_update)
  have F0: "?F (Suc 0) ! 0 = inp ! 0" using assms pos by simp
  have "Suc n \<le> SCAN_REGS \<Longrightarrow> i \<le> n \<Longrightarrow> ?F (Suc n) ! i = (\<Sum>j \<le> i. inp ! j)" for n i
  proof (induction n arbitrary: i)
    case 0
    then show ?case using F0 by simp
  next
    case (Suc n)
    then have "?F (Suc (Suc n)) ! i = (if i = Suc n then ?F (Suc n) ! n + inp ! Suc n else ?F (Suc n) ! i)"
      by (intro F) simp_all
    also have "\<dots> = (\<Sum>j \<le> i. inp ! j)"
    proof (cases "i = Suc n")
      case True
      have "?F (Suc n) ! n = (\<Sum>j \<le> n. inp ! j)" by (rule Suc.IH) (use Suc.prems in simp_all)
      then show ?thesis unfolding True by (simp only: if_P [OF refl] sum.atMost_Suc)
    next
      case False
      have "?F (Suc n) ! i = (\<Sum>j \<le> i. inp ! j)" by (rule Suc.IH) (use Suc.prems False in simp_all)
      then show ?thesis using False by (simp only: if_False)
    qed
    finally show ?case .
  qed
  from this [of "SCAN_REGS - 1"] show nth: "fst (scan_regs out inp) ! i = (\<Sum>j \<le> i. inp ! j)" if "i < SCAN_REGS" for i
    using that pos by (simp add: scan_regs_def Let_def)
  have "snd (scan_regs out inp) = fst (scan_regs out inp) ! (SCAN_REGS - 1)"
    by (simp add: scan_regs_def Let_def)
  also have "\<dots> = (\<Sum>j \<le> SCAN_REGS - 1. inp ! j)" by (rule nth) (simp add: pos)
  also have "{..SCAN_REGS - 1} = {..<SCAN_REGS}" using pos by auto
  finally show "snd (scan_regs out inp) = (\<Sum>j < SCAN_REGS. inp ! j)" .
qed

lemma add_regs_spec:
  "length io = SCAN_REGS \<Longrightarrow> length (add_regs io p) = SCAN_REGS"
  "length io = SCAN_REGS \<Longrightarrow> i < SCAN_REGS \<Longrightarrow> add_regs io p ! i = io ! i + p"
  by (simp_all add: add_regs_def nth_fold_update [where g = "\<lambda>_ x. x + p"])

lemma mram_write_commute:
  assumes "a mod 8 = 0" "b mod 8 = 0" "n mod 8 = 0" "k mod 8 = 0" "a + n \<le> b \<or> b + k \<le> a"
  shows "mram_write xs a n (mram_write ys b k m) = mram_write ys b k (mram_write xs a n m)"
proof -
  have "a div 4 + n div 4 \<le> b div 4 \<or> b div 4 + k div 4 \<le> a div 4"
    using assms(5) div_le_mono [of "a + n" b 4] div_le_mono [of "b + k" a 4] assms(1-4) by (auto simp: dma_simps)
  then show ?thesis using assms(1-4) by (auto simp: fun_eq_iff mram_write_cells)
qed

text \<open>Rounds, blocks and cells in words.\<close>

definition scan_word :: "nat \<Rightarrow> nat \<Rightarrow> nat" where
  "scan_word r t = r * (SCAN_REGS * NR_TASKLETS) + SCAN_REGS * t"

lemma scan_consts: "SCAN_BLOCK_SIZE = 4 * SCAN_REGS" "SCAN_REGS mod 2 = 0" "0 < SCAN_REGS" "SCAN_BLOCK_SIZE mod 8 = 0" "SCAN_A_OFFSET mod 8 = 0"
  by (simp_all add: SCAN_REGS_def SCAN_BLOCK_SIZE_def SCAN_A_OFFSET_def SCAN_ARG_OFFSET_def)

lemma scan_byte_index_word: "scan_byte_index r t = 4 * scan_word r t"
  by (simp add: scan_byte_index_def scan_word_def scan_consts algebra_simps)

lemma scan_byte_index_aligned: "scan_byte_index r t mod 8 = 0"
  by (simp add: scan_byte_index_def mod_eq_0_iff_dvd dvd_add SCAN_BLOCK_SIZE_def)

lemma scan_read_words:
  "scan_read r t s = map (\<lambda>i. sc_mram s (SCAN_A_OFFSET div 4 + scan_word r t + i)) [0..<SCAN_REGS]"
proof -
  have "(SCAN_A_OFFSET + scan_byte_index r t) mod 8 = 0"
    using scan_byte_index_aligned scan_consts by (simp add: dma_simps)
  moreover have "(SCAN_A_OFFSET + scan_byte_index r t) div 4 = SCAN_A_OFFSET div 4 + scan_word r t"
    using scan_byte_index_aligned scan_consts by (simp add: dma_simps) (simp add: scan_byte_index_word)
  moreover have "SCAN_BLOCK_SIZE div 4 = SCAN_REGS" by (simp add: scan_consts)
  ultimately show ?thesis using scan_consts by (simp add: scan_read_def scan_A_base_def mram_read_cells)
qed

definition scan_args_ok :: "scan_arguments \<Rightarrow> bool" where
  "scan_args_ok args \<longleftrightarrow> unat (scan_size args) mod (SCAN_BLOCK_SIZE * NR_TASKLETS) = 0
     \<and> SCAN_A_OFFSET + 2 * unat (scan_size args) \<le> SK_LOG_OFFSET"

lemma scan_B_aligned:
  assumes "scan_args_ok args"
  shows "unat (scan_size args) mod 8 = 0" "scan_B_base args mod 8 = 0"
proof -
  have "SCAN_BLOCK_SIZE * NR_TASKLETS dvd unat (scan_size args)" using assms by (auto simp: scan_args_ok_def)
  moreover have "8 dvd SCAN_BLOCK_SIZE * NR_TASKLETS" using scan_consts(4) by (auto simp: mod_eq_0_iff_dvd)
  ultimately show s: "unat (scan_size args) mod 8 = 0" by (metis dvd_trans mod_eq_0_iff_dvd)
  show "scan_B_base args mod 8 = 0" using s scan_consts by (simp add: scan_B_base_def dma_simps)
qed

lemma scan_write_cell:
  assumes "scan_args_ok args"
  shows "sc_mram (scan_write args r t s) j =
    (if scan_B_base args div 4 + scan_word r t \<le> j \<and> j < scan_B_base args div 4 + scan_word r t + SCAN_REGS
     then sc_cache_B s t ! (j - (scan_B_base args div 4 + scan_word r t)) else sc_mram s j)"
proof -
  have "(scan_B_base args + scan_byte_index r t) mod 8 = 0"
    using scan_byte_index_aligned scan_B_aligned [OF assms] by (simp add: dma_simps)
  moreover have "(scan_B_base args + scan_byte_index r t) div 4 = scan_B_base args div 4 + scan_word r t"
    using scan_byte_index_aligned scan_B_aligned [OF assms] by (simp add: dma_simps) (simp add: scan_byte_index_word)
  moreover have "SCAN_BLOCK_SIZE div 4 = SCAN_REGS" by (simp add: scan_consts)
  ultimately show ?thesis using scan_consts by (simp add: scan_write_def mram_write_cells)
qed

lemma scan_write_sel [simp]:
  "sc_cache_B (scan_write args r t s) = sc_cache_B s" "sc_count (scan_write args r t s) = sc_count s"
  by (simp_all add: scan_write_def)

lemma scan_add_sel [simp]:
  "sc_cache_B (scan_add l t s) = (sc_cache_B s)(t := add_regs (sc_cache_B s t) (sc_count s + partial_count l t))"
  "sc_count (scan_add l t s) = sc_count s" "sc_mram (scan_add l t s) = sc_mram s"
  by (simp_all add: scan_add_def)

lemma scan_word_apart: "t < u \<Longrightarrow> scan_word r t + SCAN_REGS \<le> scan_word r u"
  using mult_le_mono2 [of "Suc t" u SCAN_REGS] by (simp add: scan_word_def algebra_simps)

lemma scan_writes_commute:
  assumes "scan_args_ok args" "t \<noteq> u"
  shows "scan_write args r t (scan_write args r u s) = scan_write args r u (scan_write args r t s)"
proof -
  have "scan_word r t + SCAN_REGS \<le> scan_word r u \<or> scan_word r u + SCAN_REGS \<le> scan_word r t"
    using assms(2) scan_word_apart by (metis linorder_neqE_nat)
  then have "sc_mram (scan_write args r t (scan_write args r u s)) j = sc_mram (scan_write args r u (scan_write args r t s)) j" for j
    by (auto simp: scan_write_cell [OF assms(1)])
  then show ?thesis by (intro scan_state.equality) (simp_all add: fun_eq_iff)
qed

lemma scan_out_commute:
  assumes "scan_args_ok args" "t \<noteq> u" "f \<in> {scan_add l t, scan_write args r t}" "g \<in> {scan_add l u, scan_write args r u}"
  shows "f (g s) = g (f s)"
  using assms scan_writes_commute [OF assms(1,2)] by (auto simp: scan_add_def scan_write_def fun_upd_twist)

text \<open>The scan phase, and the output phase without the update.\<close>

lemma scan_phase:
  assumes "phase (map (\<lambda>t. [scan_scan r t]) [0..<n]) s s'"
  shows "s' = s\<lparr>sc_cache_B := (\<lambda>t. if t < n then fst (scan_regs (sc_cache_B s t) (scan_read r t s)) else sc_cache_B s t)\<rparr>"
proof -
  have "s' = run_seq (concat (map (\<lambda>t. [scan_scan r t]) [0..<n])) s"
    by (rule phase_commute [OF assms]) (auto simp: scan_scan_def scan_read_def fun_upd_twist)
  moreover have "run_seq (concat (map (\<lambda>t. [scan_scan r t]) [0..<k])) s
      = s\<lparr>sc_cache_B := (\<lambda>t. if t < k then fst (scan_regs (sc_cache_B s t) (scan_read r t s)) else sc_cache_B s t)\<rparr>" for k
    by (induction k) (auto simp: scan_scan_def scan_read_def fun_eq_iff)
  ultimately show ?thesis by simp
qed

lemma scan_out_phase:
  assumes "phase (map (\<lambda>t. [scan_add l t, scan_write args r t]) [0..<n]) s s'" "scan_args_ok args"
    and "\<And>t. t < n \<Longrightarrow> length (sc_cache_B s t) = SCAN_REGS"
  shows "sc_count s' = sc_count s" "t < n \<Longrightarrow> length (sc_cache_B s' t) = SCAN_REGS"
    "sc_mram s' j = (let w = j - (scan_B_base args div 4 + scan_word r 0) in
       if scan_B_base args div 4 + scan_word r 0 \<le> j \<and> w < SCAN_REGS * n
       then sc_cache_B s (w div SCAN_REGS) ! (w mod SCAN_REGS) + (sc_count s + partial_count l (w div SCAN_REGS))
       else sc_mram s j)"
proof -
  let ?p = "\<lambda>t. [scan_add l t, scan_write args r t]"
  have s': "s' = run_seq (concat (map ?p [0..<n])) s"
  proof (rule phase_commute [OF assms(1)])
    fix i j f g s
    assume "i < j" "j < length (map ?p [0..<n])" "f \<in> set (map ?p [0..<n] ! i)" "g \<in> set (map ?p [0..<n] ! j)"
    then show "f (g s) = g (f s)" by (intro scan_out_commute [OF assms(2), of i j f l r g]) auto
  qed
  have run: "sc_count (run_seq (concat (map ?p [0..<k])) s) = sc_count s
     \<and> sc_cache_B (run_seq (concat (map ?p [0..<k])) s)
        = (\<lambda>t. if t < k then add_regs (sc_cache_B s t) (sc_count s + partial_count l t) else sc_cache_B s t)
     \<and> (\<forall>j. sc_mram (run_seq (concat (map ?p [0..<k])) s) j = (let w = j - (scan_B_base args div 4 + scan_word r 0) in
       if scan_B_base args div 4 + scan_word r 0 \<le> j \<and> w < SCAN_REGS * k
       then sc_cache_B s (w div SCAN_REGS) ! (w mod SCAN_REGS) + (sc_count s + partial_count l (w div SCAN_REGS))
       else sc_mram s j))" if "k \<le> n" for k
    using that
  proof (induction k)
    case (Suc k)
    let ?s = "run_seq (concat (map ?p [0..<k])) s"
    let ?c = "add_regs (sc_cache_B s k) (sc_count s + partial_count l k)"
    have IH: "sc_count ?s = sc_count s" "sc_cache_B ?s k = sc_cache_B s k"
      using Suc by auto
    have mram: "sc_mram (scan_write args r k (scan_add l k ?s)) j =
      (if scan_B_base args div 4 + scan_word r k \<le> j \<and> j < scan_B_base args div 4 + scan_word r k + SCAN_REGS
       then ?c ! (j - (scan_B_base args div 4 + scan_word r k)) else sc_mram ?s j)" for j
      by (simp add: scan_write_cell [OF assms(2)] IH)
    have "sc_mram (scan_write args r k (scan_add l k ?s)) j = (let w = j - (scan_B_base args div 4 + scan_word r 0) in
       if scan_B_base args div 4 + scan_word r 0 \<le> j \<and> w < SCAN_REGS * Suc k
       then sc_cache_B s (w div SCAN_REGS) ! (w mod SCAN_REGS) + (sc_count s + partial_count l (w div SCAN_REGS))
       else sc_mram s j)" for j
    proof (cases "scan_B_base args div 4 + scan_word r k \<le> j \<and> j < scan_B_base args div 4 + scan_word r k + SCAN_REGS")
      case True
      then obtain i where i: "j = scan_B_base args div 4 + scan_word r 0 + (SCAN_REGS * k + i)" "i < SCAN_REGS"
        by (auto simp: scan_word_def) (metis add.assoc le_iff_add nat_add_left_cancel_less)
      have "length (sc_cache_B s k) = SCAN_REGS" using Suc.prems assms(3) by auto
      then have "?c ! i = sc_cache_B s k ! i + (sc_count s + partial_count l k)" using i(2) by (simp add: add_regs_spec)
      moreover have "j - (scan_B_base args div 4 + scan_word r k) = i" using i(1) by (simp add: scan_word_def)
      ultimately show ?thesis unfolding mram using True i by (simp add: Let_def)
    next
      case False
      then have "scan_B_base args div 4 + scan_word r 0 \<le> j \<and> j - (scan_B_base args div 4 + scan_word r 0) < SCAN_REGS * Suc k
          \<longleftrightarrow> scan_B_base args div 4 + scan_word r 0 \<le> j \<and> j - (scan_B_base args div 4 + scan_word r 0) < SCAN_REGS * k"
        by (auto simp: scan_word_def)
      then show ?thesis unfolding mram if_not_P [OF False] using Suc by (simp only: Let_def)
    qed
    moreover have "sc_cache_B (scan_write args r k (scan_add l k ?s))
        = (\<lambda>t. if t < Suc k then add_regs (sc_cache_B s t) (sc_count s + partial_count l t) else sc_cache_B s t)"
      using Suc by (auto simp: less_Suc_eq)
    moreover have "sc_count (scan_write args r k (scan_add l k ?s)) = sc_count s" using IH by simp
    ultimately show ?case by simp
  qed (simp add: Let_def)
  show "sc_count s' = sc_count s" using run [of n] by (simp add: s')
  show "length (sc_cache_B s' t) = SCAN_REGS" if "t < n" using run [of n] that assms(3) by (simp add: s' add_regs_spec)
  show "sc_mram s' j = (let w = j - (scan_B_base args div 4 + scan_word r 0) in
       if scan_B_base args div 4 + scan_word r 0 \<le> j \<and> w < SCAN_REGS * n
       then sc_cache_B s (w div SCAN_REGS) ! (w mod SCAN_REGS) + (sc_count s + partial_count l (w div SCAN_REGS))
       else sc_mram s j)" using run [of n] by (simp add: s')
qed

lemma partial_sums:
  fixes f :: "nat \<Rightarrow> 'a :: comm_monoid_add"
  shows "partial_count (\<lambda>t. \<Sum>j < R. f (R * t + j)) n = (\<Sum>k < R * n. f k)"
proof -
  have "(\<Sum>t < n. sum f {t * R..<t * R + R}) = (\<Sum>k < n * R. f k)" by (rule sum.nat_group)
  moreover have "sum f {t * R..<t * R + R} = (\<Sum>j < R. f (R * t + j))" for t
    by (rule sum.reindex_bij_witness [of _ "\<lambda>j. R * t + j" "\<lambda>k. k - R * t"]) (auto simp: mult.commute)
  ultimately show ?thesis by (simp add: partial_count_def mult.commute)
qed

lemma sum_join:
  fixes f :: "nat \<Rightarrow> 'a :: comm_monoid_add"
  shows "(\<Sum>k < a. f k) + (\<Sum>j \<le> i. f (a + j)) = (\<Sum>k \<le> a + i. f k)"
proof (induction i)
  case 0
  have "{..a} = insert a {..<a}" by auto
  then show ?case by (simp add: add.commute)
qed (simp add: add.assoc [symmetric])

text \<open>The sum of the input up to and including word \<open>k\<close>, and before word \<open>n\<close>.\<close>

definition scan_in :: "cells \<Rightarrow> nat \<Rightarrow> u32" where
  "scan_in m k = m (SCAN_A_OFFSET div 4 + k)"

definition scan_inv :: "scan_arguments \<Rightarrow> cells \<Rightarrow> u32 \<Rightarrow> nat \<Rightarrow> scan_state \<Rightarrow> bool" where
  "scan_inv args m c r s \<longleftrightarrow>
     sc_count s = c + (\<Sum>k < r * (SCAN_REGS * NR_TASKLETS). scan_in m k)
     \<and> (\<forall>t < NR_TASKLETS. length (sc_cache_B s t) = SCAN_REGS)
     \<and> (\<forall>j. sc_mram s j =
          (if scan_B_base args div 4 \<le> j \<and> j < scan_B_base args div 4 + r * (SCAN_REGS * NR_TASKLETS)
           then c + (\<Sum>k \<le> j - scan_B_base args div 4. scan_in m k) else m j))"

lemma scan_round_inv:
  assumes inv: "scan_inv args m c r s" and rnd: "scan_round_late args r s s'" and ok: "scan_args_ok args"
    and r: "4 * (Suc r * (SCAN_REGS * NR_TASKLETS)) \<le> unat (scan_size args)"
  shows "scan_inv args m c (Suc r) s'"
proof -
  let ?RW = "SCAN_REGS * NR_TASKLETS" and ?B = "scan_B_base args div 4" and ?l = "scan_l_count r s"
  let ?f = "\<lambda>k. scan_in m (r * ?RW + k)"
  obtain s1 s2 where s1: "phase (map (\<lambda>t. [scan_scan r t]) [0..<NR_TASKLETS]) s s1"
    and s2: "phase (map (\<lambda>t. [scan_add ?l t, scan_write args r t]) [0..<NR_TASKLETS]) s1 s2"
    and s': "s' = scan_update ?l s2"
    using rnd by (auto simp: scan_round_late_def late_last_def)
  have len: "length (sc_cache_B s t) = SCAN_REGS" if "t < NR_TASKLETS" for t using inv that by (simp add: scan_inv_def)
  have B: "?B = SCAN_A_OFFSET div 4 + unat (scan_size args) div 4"
    using scan_B_aligned [OF ok] scan_consts by (simp add: scan_B_base_def dma_simps)
  have read: "scan_read r t s = map (\<lambda>i. ?f (SCAN_REGS * t + i)) [0..<SCAN_REGS]" if t: "t < NR_TASKLETS" for t
    unfolding scan_read_words
  proof (rule map_cong)
    fix i assume "i \<in> set [0..<SCAN_REGS]"
    then have "SCAN_REGS * t + i < SCAN_REGS * Suc t" by simp
    also have "\<dots> \<le> ?RW" using t by (intro mult_le_mono2) simp
    finally have "r * ?RW + (SCAN_REGS * t + i) < Suc r * ?RW" by simp
    also have "\<dots> \<le> unat (scan_size args) div 4" using div_le_mono [OF r, of 4] by simp
    finally have "r * ?RW + (SCAN_REGS * t + i) < unat (scan_size args) div 4" .
    then have "SCAN_A_OFFSET div 4 + (r * ?RW + (SCAN_REGS * t + i)) < ?B" using B by simp
    then show "sc_mram s (SCAN_A_OFFSET div 4 + scan_word r t + i) = ?f (SCAN_REGS * t + i)"
      using inv by (simp add: scan_inv_def scan_in_def scan_word_def add.assoc)
  qed simp
  have l: "?l t = (\<Sum>j < SCAN_REGS. ?f (SCAN_REGS * t + j))" if "t < NR_TASKLETS" for t
    using scan_regs_spec(3) [of "sc_cache_B s t" "scan_read r t s"] len [OF that] read [OF that] by (simp add: scan_l_count_def)
  have pc: "partial_count ?l n = (\<Sum>k < SCAN_REGS * n. ?f k)" if "n \<le> NR_TASKLETS" for n
  proof -
    have "partial_count ?l n = partial_count (\<lambda>t. \<Sum>j < SCAN_REGS. ?f (SCAN_REGS * t + j)) n"
      unfolding partial_count_def by (rule sum.cong) (use that l in auto)
    also have "\<dots> = (\<Sum>k < SCAN_REGS * n. ?f k)" by (rule partial_sums)
    finally show ?thesis .
  qed
  have cache1: "sc_cache_B s1 t = fst (scan_regs (sc_cache_B s t) (scan_read r t s))" if "t < NR_TASKLETS" for t
    using that by (simp add: scan_phase [OF s1])
  have rest1: "sc_mram s1 = sc_mram s" "sc_count s1 = sc_count s" by (simp_all add: scan_phase [OF s1])
  have len1: "length (sc_cache_B s1 t) = SCAN_REGS" if "t < NR_TASKLETS" for t
    using scan_regs_spec(1) [of "sc_cache_B s t" "scan_read r t s"] len [OF that] read [OF that] by (simp add: cache1 [OF that])
  have nth1: "sc_cache_B s1 t ! i = (\<Sum>j \<le> i. ?f (SCAN_REGS * t + j))" if t: "t < NR_TASKLETS" and i: "i < SCAN_REGS" for t i
  proof -
    have "sc_cache_B s1 t ! i = (\<Sum>j \<le> i. scan_read r t s ! j)"
      using scan_regs_spec(2) [of "sc_cache_B s t" "scan_read r t s" i] len [OF t] read [OF t] i by (simp add: cache1 [OF t])
    also have "\<dots> = (\<Sum>j \<le> i. ?f (SCAN_REGS * t + j))" by (rule sum.cong) (use read [OF t] i in auto)
    finally show ?thesis .
  qed
  note out = scan_out_phase [OF s2 ok len1]
  have split: "(\<Sum>k < r * ?RW + n. scan_in m k) = (\<Sum>k < r * ?RW. scan_in m k) + (\<Sum>k < n. ?f k)" for n
    by (induction n) (simp_all add: add.assoc)
  have count: "sc_count s' = c + (\<Sum>k < Suc r * ?RW. scan_in m k)"
    using inv out(1) pc [of NR_TASKLETS] rest1 split [of ?RW]
    by (simp add: s' scan_update_def scan_inv_def add.assoc add.commute [of ?RW])
  have "sc_mram s' j = (if ?B \<le> j \<and> j < ?B + Suc r * ?RW then c + (\<Sum>k \<le> j - ?B. scan_in m k) else m j)" for j
  proof (cases "?B + r * ?RW \<le> j \<and> j - (?B + r * ?RW) < ?RW")
    case True
    define w where "w = j - (?B + r * ?RW)"
    define q where "q = w div SCAN_REGS"
    define i where "i = w mod SCAN_REGS"
    have w: "w < ?RW" "w = SCAN_REGS * q + i" "j - ?B = r * ?RW + w" using True by (auto simp: w_def q_def i_def)
    have qi: "q < NR_TASKLETS" "i < SCAN_REGS"
      using w(1) scan_consts by (auto simp: q_def i_def less_mult_imp_div_less mult.commute)
    have "sc_mram s' j = sc_cache_B s1 q ! i + (sc_count s1 + partial_count ?l q)"
      using out(3) [of j] True by (simp add: s' scan_update_def Let_def scan_word_def w_def q_def i_def)
    also have "\<dots> = c + (\<Sum>k < r * ?RW. scan_in m k) + ((\<Sum>k < SCAN_REGS * q. ?f k) + (\<Sum>j \<le> i. ?f (SCAN_REGS * q + j)))"
      using nth1 [OF qi] pc [of q] qi inv rest1 by (simp add: scan_inv_def algebra_simps)
    also have "(\<Sum>k < SCAN_REGS * q. ?f k) + (\<Sum>j \<le> i. ?f (SCAN_REGS * q + j)) = (\<Sum>k \<le> w. ?f k)"
      unfolding w(2) by (rule sum_join [where f = ?f])
    also have "c + (\<Sum>k < r * ?RW. scan_in m k) + (\<Sum>k \<le> w. ?f k) = c + (\<Sum>k \<le> j - ?B. scan_in m k)"
      unfolding w(3) add.assoc by (simp only: sum_join [where f = "scan_in m", symmetric])
    finally show ?thesis using True by auto
  next
    case False
    have "sc_mram s' j = sc_mram s j"
      using out(3) [of j] False by (simp add: s' scan_update_def Let_def scan_word_def rest1)
    moreover have "?B \<le> j \<and> j < ?B + Suc r * ?RW \<longleftrightarrow> ?B \<le> j \<and> j < ?B + r * ?RW" using False by auto
    ultimately show ?thesis using inv by (simp only: scan_inv_def)
  qed
  moreover have "length (sc_cache_B s' t) = SCAN_REGS" if "t < NR_TASKLETS" for t
    using out(2) that by (simp add: s' scan_update_def)
  ultimately show ?thesis using count by (simp add: scan_inv_def)
qed

lemma scan_rounds_inv:
  assumes "scan_rounds (scan_round_late args) n s s'" "scan_inv args m c 0 s" "scan_args_ok args"
    and "4 * (n * (SCAN_REGS * NR_TASKLETS)) \<le> unat (scan_size args)"
  shows "scan_inv args m c n s'"
  using assms(1,4)
proof (induction n arbitrary: s')
  case (Suc n)
  then obtain s1 where "scan_rounds (scan_round_late args) n s s1" "scan_round_late args n s1 s'" by auto
  with Suc show ?case by (intro scan_round_inv [OF Suc.IH _ assms(3)]) auto
qed (use assms(2) in simp)

section \<open>The kernels\<close>

text \<open>
  Scan-scan-add. The loop ends for all tasklets together only if the input is a whole number of
  rounds: in a last, partial round the tasklets without a block have left the loop, and tasklet 0
  waits for them at the barrier for ever, so that there is no result.
\<close>

definition ssa_main_kernel1 :: "(nat \<Rightarrow> scan_state \<Rightarrow> scan_state \<Rightarrow> bool) \<Rightarrow> scan_arguments \<Rightarrow> (nat \<Rightarrow> u32 list) \<Rightarrow> cells \<Rightarrow> cells \<Rightarrow> bool" where
  "ssa_main_kernel1 rnd args heap m m' \<longleftrightarrow>
     unat (scan_size args) mod (SCAN_BLOCK_SIZE * NR_TASKLETS) = 0
     \<and> (\<exists>s. scan_rounds rnd (unat (scan_size args) div (SCAN_BLOCK_SIZE * NR_TASKLETS))
              \<lparr>sc_mram = m, sc_count = scan_t_count args, sc_cache_B = heap\<rparr> s
          \<and> m' = sk_log_write_idx 0 (ucast (sc_count s)) (sc_mram s))"

text \<open>The second kernel adds \<open>t_count\<close> to the scanned blocks in place; there is no barrier in its loop.\<close>

definition ssa_add_block :: "scan_arguments \<Rightarrow> nat \<Rightarrow> cells \<Rightarrow> cells" where
  "ssa_add_block args byte_idx m =
     mram_write (add_regs (mram_read m (scan_B_base args + byte_idx) SCAN_BLOCK_SIZE) (scan_t_count args))
       (scan_B_base args + byte_idx) SCAN_BLOCK_SIZE m"

definition ssa_main_kernel2 :: "scan_arguments \<Rightarrow> cells \<Rightarrow> cells \<Rightarrow> bool" where
  "ssa_main_kernel2 args m m' \<longleftrightarrow>
     (\<exists>m1. phase (map (\<lambda>t. map (ssa_add_block args)
              (stride_list (SCAN_BLOCK_SIZE * NR_TASKLETS) (SCAN_BLOCK_SIZE * t) (unat (scan_size args)))) [0..<NR_TASKLETS]) m m1
         \<and> m' = sk_log_write_idx 1 (ucast (scan_t_count args)) m1)"

text \<open>The table of kernels has two entries; other indices are out of its bounds.\<close>

definition ssa_main :: "(nat \<Rightarrow> scan_state \<Rightarrow> scan_state \<Rightarrow> bool) \<Rightarrow> (nat \<Rightarrow> u32 list) \<Rightarrow> cells \<Rightarrow> cells \<Rightarrow> bool" where
  "ssa_main rnd heap m m' \<longleftrightarrow>
     (let args = scan_read_args_aligned m; m0 = sk_log_init m
      in if scan_kernel args = 0 then ssa_main_kernel1 rnd args heap m0 m'
         else if scan_kernel args = 1 then ssa_main_kernel2 args m0 m' else False)"

text \<open>Reduce-scan-scan: the first kernel only sums, the second is the scan above with another log entry.\<close>

definition rss_reduction :: "u32 list \<Rightarrow> u32" where
  "rss_reduction input = fold (\<lambda>j output. output + input ! j) [0..<SCAN_REGS] 0"

definition rss_scan :: "u32 list \<Rightarrow> u32 list \<Rightarrow> u32 list \<times> u32" where
  "rss_scan output input =
     (let output = output[0 := input ! 0];
          output = fold (\<lambda>j output. output[j := output ! (j - 1) + input ! j]) [1..<SCAN_REGS] output
      in (output, output ! (SCAN_REGS - 1)))"

definition rss_add :: "u32 list \<Rightarrow> u32 \<Rightarrow> u32 list" where
  "rss_add output p_count = fold (\<lambda>j output. output[j := output ! j + p_count]) [0..<SCAN_REGS] output"

lemma rss_is_ssa: "rss_scan = scan_regs" "rss_add = add_regs"
  by (simp_all add: rss_scan_def scan_regs_def rss_add_def add_regs_def fun_eq_iff)

record rss_local =
  rss_l_count :: u32
  rss_message :: u32

definition rss_reduce_block :: "cells \<Rightarrow> nat \<Rightarrow> rss_local \<Rightarrow> rss_local" where
  "rss_reduce_block m byte_index s =
     s\<lparr>rss_l_count := rss_l_count s + rss_reduction (mram_read m (SCAN_A_OFFSET + byte_index) SCAN_BLOCK_SIZE)\<rparr>"

definition rss_main_kernel1 :: "scan_arguments \<Rightarrow> cells \<Rightarrow> cells \<Rightarrow> bool" where
  "rss_main_kernel1 args m m' \<longleftrightarrow>
     (\<exists>s. phase (map (\<lambda>t. map (at_slot t)
            (map (rss_reduce_block m) (stride_list (SCAN_BLOCK_SIZE * NR_TASKLETS) (SCAN_BLOCK_SIZE * t) (unat (scan_size args)))
             @ [\<lambda>s. s\<lparr>rss_message := rss_l_count s\<rparr>])) [0..<NR_TASKLETS]) (\<lambda>_. \<lparr>rss_l_count = 0, rss_message = 0\<rparr>) s
        \<and> m' = sk_log_write_idx 0 (ucast (fold (\<lambda>t total. total + rss_message (s t)) [1..<NR_TASKLETS] (rss_message (s 0)))) m)"

definition rss_main_kernel2 :: "(nat \<Rightarrow> scan_state \<Rightarrow> scan_state \<Rightarrow> bool) \<Rightarrow> scan_arguments \<Rightarrow> (nat \<Rightarrow> u32 list) \<Rightarrow> cells \<Rightarrow> cells \<Rightarrow> bool" where
  "rss_main_kernel2 rnd args heap m m' \<longleftrightarrow>
     unat (scan_size args) mod (SCAN_BLOCK_SIZE * NR_TASKLETS) = 0
     \<and> (\<exists>s. scan_rounds rnd (unat (scan_size args) div (SCAN_BLOCK_SIZE * NR_TASKLETS))
              \<lparr>sc_mram = m, sc_count = scan_t_count args, sc_cache_B = heap\<rparr> s
          \<and> m' = sk_log_write_idx 1 (ucast (scan_t_count args)) (sc_mram s))"

definition rss_main :: "(nat \<Rightarrow> scan_state \<Rightarrow> scan_state \<Rightarrow> bool) \<Rightarrow> (nat \<Rightarrow> u32 list) \<Rightarrow> cells \<Rightarrow> cells \<Rightarrow> bool" where
  "rss_main rnd heap m m' \<longleftrightarrow>
     (let args = scan_read_args_aligned m; m0 = sk_log_init m
      in if scan_kernel args = 0 then rss_main_kernel1 args m0 m'
         else if scan_kernel args = 1 then rss_main_kernel2 rnd args heap m0 m' else False)"

section \<open>The results\<close>

lemma scan_rounds_output:
  assumes "scan_rounds (scan_round_late args) (unat (scan_size args) div (SCAN_BLOCK_SIZE * NR_TASKLETS))
      \<lparr>sc_mram = m, sc_count = c, sc_cache_B = heap\<rparr> s"
    and ok: "scan_args_ok args" and heap: "\<And>t. t < NR_TASKLETS \<Longrightarrow> length (heap t) = SCAN_REGS"
  shows "sc_count s = c + (\<Sum>k < unat (scan_size args) div 4. scan_in m k)"
    "sc_mram s j = (if scan_B_base args div 4 \<le> j \<and> j < scan_B_base args div 4 + unat (scan_size args) div 4
       then c + (\<Sum>k \<le> j - scan_B_base args div 4. scan_in m k) else m j)"
proof -
  let ?n = "unat (scan_size args) div (SCAN_BLOCK_SIZE * NR_TASKLETS)"
  have n: "unat (scan_size args) = 4 * (?n * (SCAN_REGS * NR_TASKLETS))"
  proof -
    have "unat (scan_size args) = ?n * (SCAN_BLOCK_SIZE * NR_TASKLETS)" using ok by (auto simp: scan_args_ok_def)
    also have "\<dots> = 4 * (?n * (SCAN_REGS * NR_TASKLETS))" unfolding scan_consts(1) by (simp only: mult.assoc mult.left_commute [of 4])
    finally show ?thesis .
  qed
  then have n4: "?n * (SCAN_REGS * NR_TASKLETS) = unat (scan_size args) div 4" by (metis nonzero_mult_div_cancel_left zero_neq_numeral)
  have "scan_inv args m c ?n s"
    by (rule scan_rounds_inv [OF assms(1) _ ok]) (use heap n in \<open>auto simp: scan_inv_def\<close>)
  then show "sc_count s = c + (\<Sum>k < unat (scan_size args) div 4. scan_in m k)"
    "sc_mram s j = (if scan_B_base args div 4 \<le> j \<and> j < scan_B_base args div 4 + unat (scan_size args) div 4
       then c + (\<Sum>k \<le> j - scan_B_base args div 4. scan_in m k) else m j)"
    unfolding scan_inv_def n4 by auto
qed

lemma scan_below_log:
  assumes "scan_args_ok args" "k < unat (scan_size args) div 4"
  shows "SCAN_A_OFFSET div 4 + k < SK_LOG_OFFSET div 4" "scan_B_base args div 4 + k < SK_LOG_OFFSET div 4"
proof -
  have "scan_B_base args div 4 = SCAN_A_OFFSET div 4 + unat (scan_size args) div 4"
    using scan_B_aligned [OF assms(1)] scan_consts by (simp add: scan_B_base_def dma_simps)
  moreover have "(SCAN_A_OFFSET + 2 * unat (scan_size args)) div 4 \<le> SK_LOG_OFFSET div 4"
    using assms(1) by (intro div_le_mono) (simp add: scan_args_ok_def)
  moreover have "(SCAN_A_OFFSET + 2 * unat (scan_size args)) div 4 = SCAN_A_OFFSET div 4 + 2 * (unat (scan_size args) div 4)"
    using scan_B_aligned [OF assms(1)] scan_consts aligned_add [of "unat (scan_size args)" "unat (scan_size args)"]
    by (simp add: mult_2 dma_simps)
  ultimately show "SCAN_A_OFFSET div 4 + k < SK_LOG_OFFSET div 4" "scan_B_base args div 4 + k < SK_LOG_OFFSET div 4"
    using assms(2) by linarith+
qed

lemma scan_in_log:
  "scan_args_ok args \<Longrightarrow> n < unat (scan_size args) div 4 \<Longrightarrow> (\<Sum>k \<le> n. scan_in (sk_log_init m) k) = (\<Sum>k \<le> n. scan_in m k)"
  by (rule sum.cong) (simp_all add: scan_in_def scan_below_log)

lemma scan_in_log':
  "scan_args_ok args \<Longrightarrow> (\<Sum>k < unat (scan_size args) div 4. scan_in (sk_log_init m) k) = (\<Sum>k < unat (scan_size args) div 4. scan_in m k)"
  by (rule sum.cong) (simp_all add: scan_in_def scan_below_log)

text \<open>
  C23: Scan-scan-add computes the inclusive prefix sums offset by \<open>t_count\<close> and logs the last one,
  in every run in which the last tasklet's update of the count comes after the other tasklets' reads in
  each round; those are runs of the code.
\<close>

theorem ssa_scan_correct:
  assumes "ssa_main (scan_round_late args) heap m m'" "args = scan_read_args_aligned m" "scan_kernel args = 0"
    and ok: "scan_args_ok args" and heap: "\<forall>t < NR_TASKLETS. length (heap t) = SCAN_REGS"
  shows "(\<forall>k < unat (scan_size args) div 4. m' (scan_B_base args div 4 + k) = scan_t_count args + (\<Sum>i \<le> k. scan_in m i))
    \<and> m' (SK_LOG_OFFSET div 4) = scan_t_count args + (\<Sum>i < unat (scan_size args) div 4. scan_in m i)"
proof -
  obtain s where s: "scan_rounds (scan_round_late args) (unat (scan_size args) div (SCAN_BLOCK_SIZE * NR_TASKLETS))
      \<lparr>sc_mram = sk_log_init m, sc_count = scan_t_count args, sc_cache_B = heap\<rparr> s"
    and m': "m' = sk_log_write_idx 0 (ucast (sc_count s)) (sc_mram s)"
    using assms(1) by (auto simp: ssa_main_def Let_def assms(2) [symmetric] assms(3) ssa_main_kernel1_def)
  note out = scan_rounds_output [OF s ok heap [rule_format]]
  have "m' (scan_B_base args div 4 + k) = scan_t_count args + (\<Sum>i \<le> k. scan_in m i)" if k: "k < unat (scan_size args) div 4" for k
    using out(2) [of "scan_B_base args div 4 + k"] scan_below_log [OF ok k] k by (simp add: m' scan_in_log [OF ok k])
  then show ?thesis using out(1) scan_in_log' [OF ok] by (simp add: m' sk_log_write_idx_cell)
qed

lemma scan_rounds_exist: "\<exists>s'. scan_rounds (scan_round_late args) n s s'"
proof (induction n)
  case (Suc n)
  then obtain s1 where "scan_rounds (scan_round_late args) n s s1" by blast
  moreover have "\<exists>s2. scan_round_late args n s1 s2"
    unfolding scan_round_late_def late_last_def by (intro exI conjI, rule phase_seq, rule phase_seq) simp
  ultimately show ?case by auto
qed simp

lemma ssa_main_runs:
  assumes "scan_kernel (scan_read_args_aligned m) = 0" "scan_args_ok (scan_read_args_aligned m)"
  shows "\<exists>m'. ssa_main (scan_round_late (scan_read_args_aligned m)) heap m m'"
proof -
  let ?args = "scan_read_args_aligned m"
  obtain s where "scan_rounds (scan_round_late ?args) (unat (scan_size ?args) div (SCAN_BLOCK_SIZE * NR_TASKLETS))
      \<lparr>sc_mram = sk_log_init m, sc_count = scan_t_count ?args, sc_cache_B = heap\<rparr> s"
    using scan_rounds_exist by blast
  moreover have "unat (scan_size ?args) mod (SCAN_BLOCK_SIZE * NR_TASKLETS) = 0" using assms(2) by (simp add: scan_args_ok_def)
  ultimately show ?thesis unfolding ssa_main_def Let_def ssa_main_kernel1_def using assms(1) by auto
qed

text \<open>One round of the word 3, offset by 10.\<close>

definition scan_demo :: cells where
  "scan_demo = (\<lambda>j. if j = 0x800 then 16384 else if j = 0x801 then 0 else if j = 0x802 then 10 else 3)"

theorem ssa_scan_correct_witness:
  "\<exists>m'. ssa_main (scan_round_late (scan_read_args_aligned scan_demo)) (\<lambda>_. replicate SCAN_REGS 77) scan_demo m'
     \<and> m' (SK_LOG_OFFSET div 4) = 12298"
proof -
  let ?args = "\<lparr>scan_size = 16384, scan_kernel = 0, scan_t_count = 10\<rparr>"
  have args: "?args = scan_read_args_aligned scan_demo"
    by (simp add: scan_read_args_aligned_def mram_read_def SCAN_ARG_OFFSET_def scan_demo_def Let_def)
  have ok: "scan_args_ok ?args"
    by (simp add: scan_args_ok_def SCAN_BLOCK_SIZE_def NR_TASKLETS_def SCAN_A_OFFSET_def SCAN_ARG_OFFSET_def SK_LOG_OFFSET_def)
  obtain m' where m': "ssa_main (scan_round_late ?args) (\<lambda>_. replicate SCAN_REGS 77) scan_demo m'"
    using ssa_main_runs [of scan_demo] ok unfolding args [symmetric] by auto
  have "(\<Sum>i < 4096. scan_in scan_demo i) = (\<Sum>i < 4096 :: nat. 3)"
    by (rule sum.cong) (simp_all add: scan_in_def scan_demo_def SCAN_A_OFFSET_def SCAN_ARG_OFFSET_def)
  then have "m' (SK_LOG_OFFSET div 4) = 12298"
    using ssa_scan_correct [OF m' args _ ok] by simp
  then show ?thesis using m' unfolding args [symmetric] by blast
qed

text \<open>The reduction kernel.\<close>

lemma l_size_full:
  "b mod blk = 0 \<Longrightarrow> n mod blk = 0 \<Longrightarrow> b < n \<Longrightarrow> l_size_bytes blk n b = blk"
  using blocks_apart [of b blk n] by (auto simp: l_size_bytes_def)

lemma rss_tasklet_message:
  assumes "n mod SCAN_BLOCK_SIZE = 0"
  shows "rss_message (run_seq (map (rss_reduce_block m) (stride_list (SCAN_BLOCK_SIZE * NR_TASKLETS) (SCAN_BLOCK_SIZE * t) n)
             @ [\<lambda>s. s\<lparr>rss_message := rss_l_count s\<rparr>]) s)
    = rss_l_count s + sum_list (map (scan_in m) (tasklet_words SCAN_BLOCK_SIZE n t))"
proof -
  let ?bs = "stride_list (SCAN_BLOCK_SIZE * NR_TASKLETS) (SCAN_BLOCK_SIZE * t) n"
  have blk: "0 < SCAN_BLOCK_SIZE" "SCAN_BLOCK_SIZE mod 8 = 0" "SCAN_A_OFFSET mod 8 = 0" "SCAN_BLOCK_SIZE div 4 = SCAN_REGS"
    using scan_consts by auto
  have n8: "n mod 8 = 0" using assms blk(2) by (meson dvd_trans mod_eq_0_iff_dvd)
  have "rss_l_count (fold (rss_reduce_block m) bs s) = rss_l_count s + sum_list (map (scan_in m) (concat (map (block_words SCAN_BLOCK_SIZE n) bs)))"
    if "set bs \<subseteq> set ?bs" for bs s
    using that
  proof (induction bs arbitrary: s)
    case (Cons b bs)
    then have b: "b mod SCAN_BLOCK_SIZE = 0" "b < n" using tasklet_index_mod [OF blk(1)] by auto
    note l = l_size_full [OF b(1) assms b(2)]
    have "map ((!) (mram_read m (SCAN_A_OFFSET + b) SCAN_BLOCK_SIZE)) [0..<SCAN_REGS] = map (scan_in m) (block_words SCAN_BLOCK_SIZE n b)"
      using load_block_words [OF blk(1,2) n8 b(1) blk(3), of m "[]"] by (simp add: l load_cache_def blk(4) scan_in_def [abs_def])
    then have "rss_reduction (mram_read m (SCAN_A_OFFSET + b) SCAN_BLOCK_SIZE) = sum_list (map (scan_in m) (block_words SCAN_BLOCK_SIZE n b))"
      by (simp add: rss_reduction_def fold_add)
    then show ?case using Cons by (simp add: rss_reduce_block_def add.assoc)
  qed simp
  from this [of ?bs] show ?thesis by (simp add: run_seq_map tasklet_words_def)
qed

text \<open>
  C24: Reduce-scan-scan: the first kernel logs the sum of the input for every interleaving; the second
  writes the inclusive prefix sums offset by \<open>t_count\<close>, in every run without the race.
\<close>

theorem rss_main_correct:
  assumes "rss_main (scan_round_late args) heap m m'" "args = scan_read_args_aligned m"
    and ok: "scan_args_ok args" and heap: "\<forall>t < NR_TASKLETS. length (heap t) = SCAN_REGS"
  shows "(scan_kernel args = 0 \<longrightarrow> m' (SK_LOG_OFFSET div 4) = (\<Sum>i < unat (scan_size args) div 4. scan_in m i)
           \<and> (\<forall>j < SK_LOG_OFFSET div 4. m' j = m j))
    \<and> (scan_kernel args = 1 \<longrightarrow>
        (\<forall>k < unat (scan_size args) div 4. m' (scan_B_base args div 4 + k) = scan_t_count args + (\<Sum>i \<le> k. scan_in m i)))"
proof (intro conjI impI)
  let ?n = "unat (scan_size args)" and ?m = "sk_log_init m"
  {
    assume "scan_kernel args = 0"
    then have "rss_main_kernel1 args ?m m'" using assms(1) by (simp add: rss_main_def Let_def assms(2) [symmetric])
    then obtain s where s: "phase (map (\<lambda>t. map (at_slot t)
            (map (rss_reduce_block ?m) (stride_list (SCAN_BLOCK_SIZE * NR_TASKLETS) (SCAN_BLOCK_SIZE * t) ?n)
             @ [\<lambda>s. s\<lparr>rss_message := rss_l_count s\<rparr>])) [0..<NR_TASKLETS]) (\<lambda>_. \<lparr>rss_l_count = 0, rss_message = 0\<rparr>) s"
      and m': "m' = sk_log_write_idx 0 (ucast (fold (\<lambda>t total. total + rss_message (s t)) [1..<NR_TASKLETS] (rss_message (s 0)))) ?m"
      unfolding rss_main_kernel1_def by blast
    have "SCAN_BLOCK_SIZE dvd SCAN_BLOCK_SIZE * NR_TASKLETS" by simp
    then have nb: "?n mod SCAN_BLOCK_SIZE = 0" using ok unfolding scan_args_ok_def by (meson dvd_trans mod_eq_0_iff_dvd)
    have msg: "rss_message (s t) = sum_list (map (scan_in ?m) (tasklet_words SCAN_BLOCK_SIZE ?n t))" if "t < NR_TASKLETS" for t
      using phase_slots [OF s, of t] that rss_tasklet_message [OF nb] by simp
    have "[0..<NR_TASKLETS] = 0 # [1..<NR_TASKLETS]" by (simp add: upt_conv_Cons)
    then have "fold (\<lambda>t total. total + rss_message (s t)) [1..<NR_TASKLETS] (rss_message (s 0)) = sum_list (map (\<lambda>t. rss_message (s t)) [0..<NR_TASKLETS])"
      by (simp add: fold_add)
    also have "\<dots> = (\<Sum>t < NR_TASKLETS. sum_list (map (scan_in ?m) (tasklet_words SCAN_BLOCK_SIZE ?n t)))"
      by (subst interv_sum_list_conv_sum_set_nat) (rule sum.cong, simp_all add: msg atLeast0LessThan)
    also have "\<dots> = (\<Sum>i < ?n div 4. scan_in ?m i)"
      by (rule sum_tasklet_words) (use scan_consts scan_B_aligned [OF ok] in auto)
    also have "\<dots> = (\<Sum>i < ?n div 4. scan_in m i)" by (rule scan_in_log' [OF ok])
    finally show "m' (SK_LOG_OFFSET div 4) = (\<Sum>i < ?n div 4. scan_in m i)"
      by (simp add: m' sk_log_write_idx_cell)
    show "\<forall>j < SK_LOG_OFFSET div 4. m' j = m j" by (simp add: m')
  }
  {
    assume "scan_kernel args = 1"
    then obtain s where s: "scan_rounds (scan_round_late args) (?n div (SCAN_BLOCK_SIZE * NR_TASKLETS))
        \<lparr>sc_mram = ?m, sc_count = scan_t_count args, sc_cache_B = heap\<rparr> s"
      and m': "m' = sk_log_write_idx 1 (ucast (scan_t_count args)) (sc_mram s)"
      using assms(1) by (auto simp: rss_main_def Let_def assms(2) [symmetric] rss_main_kernel2_def)
    show "\<forall>k < ?n div 4. m' (scan_B_base args div 4 + k) = scan_t_count args + (\<Sum>i \<le> k. scan_in m i)"
      using scan_rounds_output(2) [OF s ok heap [rule_format]] scan_below_log [OF ok]
      by (auto simp: m' scan_in_log [OF ok])
  }
qed

theorem rss_main_correct_witness:
  "\<exists>m'. rss_main (scan_round_late (scan_read_args_aligned scan_demo)) (\<lambda>_. replicate SCAN_REGS 77) scan_demo m'
     \<and> m' (SK_LOG_OFFSET div 4) = 12288"
proof -
  let ?args = "\<lparr>scan_size = 16384, scan_kernel = 0, scan_t_count = 10\<rparr>"
  have args: "?args = scan_read_args_aligned scan_demo"
    by (simp add: scan_read_args_aligned_def mram_read_def SCAN_ARG_OFFSET_def scan_demo_def Let_def)
  have ok: "scan_args_ok ?args"
    by (simp add: scan_args_ok_def SCAN_BLOCK_SIZE_def NR_TASKLETS_def SCAN_A_OFFSET_def SCAN_ARG_OFFSET_def SK_LOG_OFFSET_def)
  have "\<exists>m'. rss_main_kernel1 ?args (sk_log_init scan_demo) m'"
    unfolding rss_main_kernel1_def by (intro exI conjI, rule phase_seq) simp
  then obtain m' where m': "rss_main (scan_round_late ?args) (\<lambda>_. replicate SCAN_REGS 77) scan_demo m'"
    by (auto simp: rss_main_def Let_def args [symmetric])
  have "(\<Sum>i < 4096. scan_in scan_demo i) = (\<Sum>i < 4096 :: nat. 3)"
    by (rule sum.cong) (simp_all add: scan_in_def scan_demo_def SCAN_A_OFFSET_def SCAN_ARG_OFFSET_def)
  then have "m' (SK_LOG_OFFSET div 4) = 12288"
    using rss_main_correct [OF m' args ok] by simp
  then show ?thesis using m' unfolding args [symmetric] by blast
qed

section \<open>The race\<close>

lemma scan_l_count_words:
  assumes "length (sc_cache_B s t) = SCAN_REGS"
  shows "scan_l_count 0 s t = (\<Sum>j < SCAN_REGS. scan_in (sc_mram s) (SCAN_REGS * t + j))"
  using scan_regs_spec(3) [of "sc_cache_B s t" "scan_read 0 t s"] assms
  by (simp add: scan_l_count_def scan_read_words scan_in_def scan_word_def add.assoc)

lemma scan_l_count_total:
  assumes "\<forall>t < NR_TASKLETS. length (sc_cache_B s t) = SCAN_REGS"
  shows "partial_count (scan_l_count 0 s) NR_TASKLETS = (\<Sum>k < SCAN_REGS * NR_TASKLETS. scan_in (sc_mram s) k)"
proof -
  have "partial_count (scan_l_count 0 s) NR_TASKLETS = partial_count (\<lambda>t. \<Sum>j < SCAN_REGS. scan_in (sc_mram s) (SCAN_REGS * t + j)) NR_TASKLETS"
    unfolding partial_count_def by (rule sum.cong) (use assms scan_l_count_words in auto)
  also have "\<dots> = (\<Sum>k < SCAN_REGS * NR_TASKLETS. scan_in (sc_mram s) k)" by (rule partial_sums)
  finally show ?thesis .
qed

text \<open>
  C25: The update of the running count is a race: after the barrier the last tasklet may run all of its
  actions before tasklet 0 reads the count. There is a run of the first round, from any state with
  well-formed arguments and caches, in which the first block of the output is off by the sum of the whole round.
\<close>

theorem scan_round_race:
  assumes ok: "scan_args_ok args" and len: "\<forall>t < NR_TASKLETS. length (sc_cache_B s t) = SCAN_REGS"
  shows "\<exists>s'. scan_round args 0 s s' \<and> (\<forall>i < SCAN_REGS. sc_mram s' (scan_B_base args div 4 + i)
    = (\<Sum>j \<le> i. scan_in (sc_mram s) j) + (sc_count s + (\<Sum>k < SCAN_REGS * NR_TASKLETS. scan_in (sc_mram s) k)))"
proof -
  let ?l = "scan_l_count 0 s" and ?last = "NR_TASKLETS - 1"
  let ?p = "\<lambda>t. [scan_add ?l t, scan_write args 0 t]"
  let ?sc = "map (\<lambda>t. [scan_scan 0 t]) [0..<NR_TASKLETS]"
  define s1 where "s1 = run_seq (concat ?sc) s"
  define s2 where "s2 = run_seq (?p ?last @ [scan_update ?l]) s1"
  define s3 where "s3 = run_seq (concat (map ?p [0..<?last])) s2"
  have ph1: "phase ?sc s s1" unfolding s1_def by (rule phase_seq)
  have progs: "map (scan_out args 0 ?l) [0..<NR_TASKLETS] = map ?p [0..<?last] @ [?p ?last @ [scan_update ?l]]"
    unfolding upt_tasklets by (simp add: scan_out_def)
  have "phase (map (scan_out args 0 ?l) [0..<NR_TASKLETS]) s1 s3"
    unfolding progs s2_def s3_def by (rule last_first_phase)
  then have rnd: "scan_round args 0 s s3" using ph1 unfolding scan_round_def by blast
  have pos: "0 < ?last" "?last < NR_TASKLETS" by (simp_all add: NR_TASKLETS_def)
  have cache1: "sc_cache_B s1 t = fst (scan_regs (sc_cache_B s t) (scan_read 0 t s))" if "t < NR_TASKLETS" for t
    using that by (simp add: scan_phase [OF ph1])
  have rd: "length (scan_read 0 t s) = SCAN_REGS" for t by (simp add: scan_read_words)
  have len1: "length (sc_cache_B s1 t) = SCAN_REGS" if "t < NR_TASKLETS" for t
    using scan_regs_spec(1) len rd that by (simp add: cache1)
  have s2: "sc_cache_B s2 t = sc_cache_B s1 t" if "t < ?last" for t
    using that by (simp add: s2_def scan_update_def)
  have count2: "sc_count s2 = sc_count s + partial_count ?l NR_TASKLETS"
    by (simp add: s2_def scan_update_def scan_phase [OF ph1])
  note pc = scan_l_count_total [OF len]
  have ph3: "phase (map ?p [0..<?last]) s2 s3" unfolding s3_def by (rule phase_seq)
  have "length (sc_cache_B s2 t) = SCAN_REGS" if "t < ?last" for t using len1 [of t] s2 [OF that] that by simp
  note out = scan_out_phase(3) [OF ph3 ok this]
  have "sc_mram s3 (scan_B_base args div 4 + i)
      = (\<Sum>j \<le> i. scan_in (sc_mram s) j) + (sc_count s + (\<Sum>k < SCAN_REGS * NR_TASKLETS. scan_in (sc_mram s) k))"
    if i: "i < SCAN_REGS" for i
  proof -
    have "i < SCAN_REGS * ?last" using i pos by (metis Suc_leI less_le_trans mult_le_mono2 mult.right_neutral One_nat_def)
    then have "sc_mram s3 (scan_B_base args div 4 + i) = sc_cache_B s2 0 ! i + (sc_count s2 + partial_count ?l 0)"
      using out [of "scan_B_base args div 4 + i"] i by (simp add: Let_def scan_word_def)
    moreover have "sc_cache_B s2 0 ! i = (\<Sum>j \<le> i. scan_read 0 0 s ! j)"
      using s2 [OF pos(1)] cache1 [of 0] scan_regs_spec(2) [of "sc_cache_B s 0" "scan_read 0 0 s" i] len rd i by simp
    moreover have "(\<Sum>j \<le> i. scan_read 0 0 s ! j) = (\<Sum>j \<le> i. scan_in (sc_mram s) j)"
      by (rule sum.cong) (use i in \<open>auto simp: scan_read_words scan_in_def scan_word_def\<close>)
    moreover have "partial_count ?l 0 = 0" by (simp add: partial_count_def)
    ultimately show ?thesis by (simp only: count2 pc add_0_right)
  qed
  then show ?thesis using rnd by blast
qed

theorem scan_round_race_witness:
  "\<exists>s'. scan_round \<lparr>scan_size = 16384, scan_kernel = 0, scan_t_count = 10\<rparr> 0
      \<lparr>sc_mram = scan_demo, sc_count = 10, sc_cache_B = (\<lambda>_. replicate SCAN_REGS 0)\<rparr> s' \<and> sc_mram s' 6208 = 12301"
proof -
  let ?args = "\<lparr>scan_size = 16384, scan_kernel = 0, scan_t_count = 10\<rparr>"
  let ?st = "\<lparr>sc_mram = scan_demo, sc_count = 10, sc_cache_B = (\<lambda>_. replicate SCAN_REGS 0)\<rparr>"
  have ok: "scan_args_ok ?args"
    by (simp add: scan_args_ok_def SCAN_BLOCK_SIZE_def NR_TASKLETS_def SCAN_A_OFFSET_def SCAN_ARG_OFFSET_def SK_LOG_OFFSET_def)
  obtain s' where s': "scan_round ?args 0 ?st s'" "\<forall>i < SCAN_REGS. sc_mram s' (scan_B_base ?args div 4 + i)
    = (\<Sum>j \<le> i. scan_in scan_demo j) + (10 + (\<Sum>k < SCAN_REGS * NR_TASKLETS. scan_in scan_demo k))"
    using scan_round_race [OF ok, of ?st] by auto
  have three: "scan_in scan_demo = (\<lambda>k. 3)"
    by (simp add: fun_eq_iff scan_in_def scan_demo_def SCAN_A_OFFSET_def SCAN_ARG_OFFSET_def)
  have "scan_B_base ?args div 4 + 0 = 6208" by (simp add: scan_B_base_def SCAN_A_OFFSET_def SCAN_ARG_OFFSET_def)
  moreover have "0 < SCAN_REGS" by (simp add: scan_consts)
  ultimately have "sc_mram s' 6208 = (\<Sum>j \<le> (0 :: nat). 3) + (10 + (\<Sum>k < SCAN_REGS * NR_TASKLETS. 3))"
    using s'(2) [rule_format, of 0] by (simp only: three)
  then have "sc_mram s' 6208 = 12301" by (simp add: SCAN_REGS_def SCAN_BLOCK_SIZE_def NR_TASKLETS_def)
  then show ?thesis using s'(1) by blast
qed

end
