(* ===== verification/Kernel_SEL.thy ===== *)
theory Kernel_SEL imports MC_Sync
begin

text \<open>
  Selection, \<^verbatim>\<open>src/src/SEL/main.c\<close>: the words that do not satisfy the predicate, in their order.
  In a round every tasklet packs the selected words of one block, the handshake gives it the
  number of words selected before it, and after a barrier it writes its words behind theirs; the
  last tasklet then adds the round's number to the count.
\<close>

section \<open>Packing the output of the tasklets\<close>

definition pack_write :: "(nat \<Rightarrow> 'a list) \<Rightarrow> (nat \<Rightarrow> nat) \<Rightarrow> nat \<Rightarrow> nat \<Rightarrow> (nat \<Rightarrow> 'a) \<Rightarrow> nat \<Rightarrow> 'a" where
  "pack_write ys n b t m j =
     (let a = b + (\<Sum>u < t. n u) in if a \<le> j \<and> j < a + n t then ys t ! (j - a) else m j)"

lemma mram_write64_pack: "mram_write64 (ys t) (8 * (b + (\<Sum>u < t. n u))) (8 * n t) m = pack_write ys n b t m"
  by (simp add: fun_eq_iff mram_write64_cells pack_write_def Let_def del: distrib_left_numeral)

lemma pack_writes:
  assumes "\<And>t. t < k \<Longrightarrow> n t \<le> length (ys t)"
  shows "fold (pack_write ys n b) [0..<k] m j =
    (if b \<le> j \<and> j < b + (\<Sum>t < k. n t) then concat (map (\<lambda>t. take (n t) (ys t)) [0..<k]) ! (j - b) else m j)"
    "length (concat (map (\<lambda>t. take (n t) (ys t)) [0..<k])) = (\<Sum>t < k. n t)"
  using assms
proof (induction k)
  case (Suc k)
  { case 1
    have IH: "fold (pack_write ys n b) [0..<k] m j =
        (if b \<le> j \<and> j < b + (\<Sum>t < k. n t) then concat (map (\<lambda>t. take (n t) (ys t)) [0..<k]) ! (j - b) else m j)"
      "length (concat (map (\<lambda>t. take (n t) (ys t)) [0..<k])) = (\<Sum>t < k. n t)"
      using Suc 1 by simp_all
    let ?a = "b + (\<Sum>t < k. n t)"
    show ?case
    proof (cases "?a \<le> j \<and> j < ?a + n k")
      case True
      then have "\<not> j - b < (\<Sum>t < k. n t)" "j - b - (\<Sum>t < k. n t) = j - ?a" "j - ?a < n k" by auto
      then show ?thesis using True IH(2) by (simp add: pack_write_def Let_def nth_append)
    next
      case False
      then have "fold (pack_write ys n b) [0..<Suc k] m j = fold (pack_write ys n b) [0..<k] m j"
        by (auto simp: pack_write_def Let_def)
      also have "\<dots> = (if b \<le> j \<and> j < b + (\<Sum>t < Suc k. n t) then concat (map (\<lambda>t. take (n t) (ys t)) [0..<Suc k]) ! (j - b) else m j)"
        unfolding IH using False IH(2) by (auto simp: nth_append)
      finally show ?thesis .
    qed
  next
    case 2
    then show ?case using Suc by simp
  }
qed auto

lemma pack_writes_commute:
  assumes "t < u"
  shows "pack_write ys n b t (pack_write ys n b u m) = pack_write ys n b u (pack_write ys n b t m)"
proof -
  have "(\<Sum>v < t. n v) + n t \<le> (\<Sum>v < u. n v)"
    using sum_mono2 [of "{..<u}" "{..<Suc t}" n] assms by (auto simp: lessThan_Suc)
  then show ?thesis by (auto simp: pack_write_def Let_def fun_eq_iff)
qed

lemma late_last_out:
  assumes "late_last (map p [0..<NR_TASKLETS]) a s s'"
  shows "phase (map (\<lambda>t. p t @ (if t = NR_TASKLETS - 1 then [a] else [])) [0..<NR_TASKLETS]) s s'"
proof -
  have "map (\<lambda>t. p t @ (if t = NR_TASKLETS - 1 then [a] else [])) [0..<NR_TASKLETS]
      = map p [0..<NR_TASKLETS - 1] @ [p (NR_TASKLETS - 1) @ [a]]"
    unfolding upt_tasklets by simp
  moreover have "map p [0..<NR_TASKLETS] = map p [0..<NR_TASKLETS - 1] @ [p (NR_TASKLETS - 1)]"
    unfolding upt_tasklets by simp
  ultimately show ?thesis using assms late_last_phase by metis
qed

text \<open>The blocks of a round are consecutive.\<close>

lemma concat_blocks: "concat (map (\<lambda>t. map f [a + n * t..<a + n * Suc t]) [0..<k]) = map f [a..<a + n * k]"
proof (induction k)
  case (Suc k)
  have "map f [a..<a + n * Suc k] = map f ([a..<a + n * k] @ [a + n * k..<a + n * Suc k])"
    by (subst upt_join) simp_all
  then show ?case using Suc by simp
qed simp

section \<open>The kernel\<close>

record sel_arguments =
  sel_size :: u32
  sel_kernel :: u32

definition SEL_BLOCK_SIZE :: nat where "SEL_BLOCK_SIZE = 2 ^ 10"
definition SEL_REGS :: nat where "SEL_REGS = SEL_BLOCK_SIZE div 8"
definition SEL_ARG_OFFSET :: nat where "SEL_ARG_OFFSET = 0x2000"
definition SEL_A_OFFSET :: nat where "SEL_A_OFFSET = SEL_ARG_OFFSET + (8 + 0xFF) div 0x100 * 0x100"

definition sel_read_args_aligned :: "cells64 \<Rightarrow> sel_arguments" where
  "sel_read_args_aligned m =
     (let buf = mram_read64 m SEL_ARG_OFFSET 8
      in \<lparr>sel_size = lo32 (buf ! 0), sel_kernel = hi32 (buf ! 0)\<rparr>)"

definition sel_pred :: "u64 \<Rightarrow> bool" where
  "sel_pred x \<longleftrightarrow> x mod 2 = 0"

definition sel_select :: "u64 list \<Rightarrow> u64 list \<Rightarrow> u64 list \<times> nat" where
  "sel_select output input =
     fold (\<lambda>j (output, pos). if \<not> sel_pred (input ! j) then (output[pos := input ! j], pos + 1) else (output, pos))
       [0..<SEL_REGS] (output, 0)"

record sel_state =
  se_mram :: cells64
  se_count :: u32
  se_cache_B :: "nat \<Rightarrow> u64 list"

definition sel_B_base :: "sel_arguments \<Rightarrow> u32" where
  "sel_B_base args = of_nat SEL_A_OFFSET + sel_size args"

definition sel_byte_index :: "nat \<Rightarrow> nat \<Rightarrow> nat" where
  "sel_byte_index r t = SEL_BLOCK_SIZE * t + r * (SEL_BLOCK_SIZE * NR_TASKLETS)"

definition sel_read :: "nat \<Rightarrow> nat \<Rightarrow> cells64 \<Rightarrow> u64 list" where
  "sel_read r t m = mram_read64 m (SEL_A_OFFSET + sel_byte_index r t) SEL_BLOCK_SIZE"

definition sel_block :: "nat \<Rightarrow> nat \<Rightarrow> sel_state \<Rightarrow> sel_state" where
  "sel_block r t s = s\<lparr>se_cache_B := (se_cache_B s)(t := fst (sel_select (se_cache_B s t) (sel_read r t (se_mram s))))\<rparr>"

definition sel_l_count :: "nat \<Rightarrow> sel_state \<Rightarrow> nat \<Rightarrow> u32" where
  "sel_l_count r s t = of_nat (snd (sel_select (se_cache_B s t) (sel_read r t (se_mram s))))"

text \<open>The handshake passes 64-bit words; \<open>l\<close> is the count of each tasklet.\<close>

definition sel_p_count :: "(nat \<Rightarrow> u32) \<Rightarrow> nat \<Rightarrow> u64" where
  "sel_p_count l t = partial_count (\<lambda>u. ucast (l u)) t"

definition sel_write :: "sel_arguments \<Rightarrow> (nat \<Rightarrow> u32) \<Rightarrow> nat \<Rightarrow> sel_state \<Rightarrow> sel_state" where
  "sel_write args l t s =
     (let elem_off = ucast (ucast (se_count s) + sel_p_count l t) :: u32;
          byte_len = l t * 8
      in s\<lparr>se_mram := mram_write64 (se_cache_B s t) (unat (sel_B_base args + elem_off * 8)) (unat byte_len) (se_mram s)\<rparr>)"

definition sel_update :: "(nat \<Rightarrow> u32) \<Rightarrow> sel_state \<Rightarrow> sel_state" where
  "sel_update l s = s\<lparr>se_count := ucast (ucast (se_count s) + sel_p_count l NR_TASKLETS)\<rparr>"

definition sel_out :: "sel_arguments \<Rightarrow> (nat \<Rightarrow> u32) \<Rightarrow> nat \<Rightarrow> (sel_state \<Rightarrow> sel_state) list" where
  "sel_out args l t = [sel_write args l t] @ (if t = NR_TASKLETS - 1 then [sel_update l] else [])"

text \<open>
  A tasklet that selects nothing asks for a transfer of no bytes, which the DMA engine does not
  define (it moves 8 to 2048 bytes): a round with such a block has no result here.
\<close>

definition sel_dma_defined :: "(nat \<Rightarrow> u32) \<Rightarrow> bool" where
  "sel_dma_defined l \<longleftrightarrow> (\<forall>t < NR_TASKLETS. l t \<noteq> 0)"

definition sel_round :: "sel_arguments \<Rightarrow> nat \<Rightarrow> sel_state \<Rightarrow> sel_state \<Rightarrow> bool" where
  "sel_round args r s s' \<longleftrightarrow> sel_dma_defined (sel_l_count r s)
     \<and> (\<exists>s1. phase (map (\<lambda>t. [sel_block r t]) [0..<NR_TASKLETS]) s s1
         \<and> phase (map (sel_out args (sel_l_count r s)) [0..<NR_TASKLETS]) s1 s')"

text \<open>The runs in which the update of the count comes after all the writes of its round.\<close>

definition sel_round_late :: "sel_arguments \<Rightarrow> nat \<Rightarrow> sel_state \<Rightarrow> sel_state \<Rightarrow> bool" where
  "sel_round_late args r s s' \<longleftrightarrow> sel_dma_defined (sel_l_count r s)
     \<and> (\<exists>s1. phase (map (\<lambda>t. [sel_block r t]) [0..<NR_TASKLETS]) s s1
         \<and> late_last (map (\<lambda>t. [sel_write args (sel_l_count r s) t]) [0..<NR_TASKLETS]) (sel_update (sel_l_count r s)) s1 s')"

fun sel_rounds :: "(nat \<Rightarrow> 's \<Rightarrow> 's \<Rightarrow> bool) \<Rightarrow> nat \<Rightarrow> 's \<Rightarrow> 's \<Rightarrow> bool" where
  "sel_rounds rnd 0 s s' \<longleftrightarrow> s' = s"
| "sel_rounds rnd (Suc r) s s' \<longleftrightarrow> (\<exists>s1. sel_rounds rnd r s s1 \<and> rnd r s1 s')"

text \<open>In a partial last round the tasklets with a block wait at a barrier for those that have left the loop.\<close>

definition sel_main_kernel1 :: "(nat \<Rightarrow> sel_state \<Rightarrow> sel_state \<Rightarrow> bool) \<Rightarrow> sel_arguments \<Rightarrow> (nat \<Rightarrow> u64 list) \<Rightarrow> cells64 \<Rightarrow> cells64 \<Rightarrow> bool" where
  "sel_main_kernel1 rnd args heap m m' \<longleftrightarrow>
     unat (sel_size args) mod (SEL_BLOCK_SIZE * NR_TASKLETS) = 0
     \<and> (\<exists>s. sel_rounds rnd (unat (sel_size args) div (SEL_BLOCK_SIZE * NR_TASKLETS))
              \<lparr>se_mram = m, se_count = 0, se_cache_B = heap\<rparr> s
          \<and> m' = sk_log_write_idx64 0 (ucast (se_count s)) (se_mram s))"

definition sel_main :: "(nat \<Rightarrow> sel_state \<Rightarrow> sel_state \<Rightarrow> bool) \<Rightarrow> (nat \<Rightarrow> u64 list) \<Rightarrow> cells64 \<Rightarrow> cells64 \<Rightarrow> bool" where
  "sel_main rnd heap m m' \<longleftrightarrow> sel_main_kernel1 rnd (sel_read_args_aligned (sk_log_init64 m)) heap (sk_log_init64 m) m'"

section \<open>What a round does\<close>

lemma sel_select_spec:
  assumes "length input = SEL_REGS" "SEL_REGS \<le> length output"
  shows "length (fst (sel_select output input)) = length output"
    "take (snd (sel_select output input)) (fst (sel_select output input)) = filter (\<lambda>x. \<not> sel_pred x) input"
    "snd (sel_select output input) = length (filter (\<lambda>x. \<not> sel_pred x) input)"
proof -
  let ?f = "\<lambda>j (output, pos). if \<not> sel_pred (input ! j) then (output[pos := input ! j], pos + 1) else (output, pos)"
  have "length (fst (fold ?f [0..<n] (output, 0))) = length output
      \<and> take (snd (fold ?f [0..<n] (output, 0))) (fst (fold ?f [0..<n] (output, 0))) = filter (\<lambda>x. \<not> sel_pred x) (take n input)
      \<and> snd (fold ?f [0..<n] (output, 0)) = length (filter (\<lambda>x. \<not> sel_pred x) (take n input))
      \<and> snd (fold ?f [0..<n] (output, 0)) \<le> n" if "n \<le> SEL_REGS" for n
    using that
  proof (induction n)
    case (Suc n)
    obtain o' p where op: "fold ?f [0..<n] (output, 0) = (o', p)" by (cases "fold ?f [0..<n] (output, 0)")
    have "p \<le> n" "n < length o'" using Suc op assms by auto
    then show ?case using Suc op assms by (auto simp: take_Suc_conv_app_nth)
  qed simp
  note all = this [of SEL_REGS, OF le_refl]
  have t: "take SEL_REGS input = input" using assms by simp
  show "length (fst (sel_select output input)) = length output"
    "take (snd (sel_select output input)) (fst (sel_select output input)) = filter (\<lambda>x. \<not> sel_pred x) input"
    "snd (sel_select output input) = length (filter (\<lambda>x. \<not> sel_pred x) input)"
    using all unfolding sel_select_def t by blast+
qed


lemma sel_block_phase:
  assumes "phase (map (\<lambda>t. [sel_block r t]) [0..<n]) s s'"
  shows "s' = s\<lparr>se_cache_B := (\<lambda>t. if t < n then fst (sel_select (se_cache_B s t) (sel_read r t (se_mram s))) else se_cache_B s t)\<rparr>"
proof -
  have "s' = run_seq (concat (map (\<lambda>t. [sel_block r t]) [0..<n])) s"
    by (rule phase_commute [OF assms]) (auto simp: sel_block_def fun_upd_twist)
  moreover have "run_seq (concat (map (\<lambda>t. [sel_block r t]) [0..<k])) s
      = s\<lparr>se_cache_B := (\<lambda>t. if t < k then fst (sel_select (se_cache_B s t) (sel_read r t (se_mram s))) else se_cache_B s t)\<rparr>" for k
    by (induction k) (auto simp: sel_block_def fun_eq_iff)
  ultimately show ?thesis by simp
qed

definition sel_args_ok :: "sel_arguments \<Rightarrow> bool" where
  "sel_args_ok args \<longleftrightarrow> unat (sel_size args) mod (SEL_BLOCK_SIZE * NR_TASKLETS) = 0
     \<and> SEL_A_OFFSET + 2 * unat (sel_size args) \<le> SK_LOG_OFFSET"

text \<open>Buffers in 64-bit words: the input at \<open>sel_A\<close>, the output at \<open>sel_B\<close>, \<open>sel_words\<close> long each.\<close>

definition sel_A :: nat where "sel_A = SEL_A_OFFSET div 8"
definition sel_words :: "sel_arguments \<Rightarrow> nat" where "sel_words args = unat (sel_size args) div 8"
definition sel_B :: "sel_arguments \<Rightarrow> nat" where "sel_B args = sel_A + sel_words args"
definition sel_in :: "cells64 \<Rightarrow> nat \<Rightarrow> u64" where "sel_in m k = m (sel_A + k)"

lemma sel_consts: "SEL_BLOCK_SIZE = 8 * SEL_REGS" "SEL_A_OFFSET = 8 * sel_A" "0 < SEL_REGS"
  by (simp_all add: SEL_REGS_def SEL_BLOCK_SIZE_def sel_A_def SEL_A_OFFSET_def SEL_ARG_OFFSET_def)

lemma sel_bounds:
  assumes "sel_args_ok args"
  shows "unat (sel_size args) = 8 * sel_words args" "sel_A + 2 * sel_words args \<le> SK_LOG_OFFSET div 8"
    "sel_words args = unat (sel_size args) div (SEL_BLOCK_SIZE * NR_TASKLETS) * (SEL_REGS * NR_TASKLETS)"
proof -
  let ?R = "unat (sel_size args) div (SEL_BLOCK_SIZE * NR_TASKLETS)"
  have "unat (sel_size args) = ?R * (SEL_BLOCK_SIZE * NR_TASKLETS)" using assms by (auto simp: sel_args_ok_def)
  also have "\<dots> = 8 * (?R * (SEL_REGS * NR_TASKLETS))" unfolding sel_consts(1) by (simp only: mult.assoc mult.left_commute [of 8])
  finally have size: "unat (sel_size args) = 8 * (?R * (SEL_REGS * NR_TASKLETS))" .
  then show w: "sel_words args = ?R * (SEL_REGS * NR_TASKLETS)"
    unfolding sel_words_def by (metis nonzero_mult_div_cancel_left zero_neq_numeral)
  show s: "unat (sel_size args) = 8 * sel_words args" unfolding w by (rule size)
  have "8 * (sel_A + 2 * sel_words args) \<le> SK_LOG_OFFSET" using assms by (simp add: sel_args_ok_def s sel_consts)
  then show "sel_A + 2 * sel_words args \<le> SK_LOG_OFFSET div 8" by (simp add: less_eq_div_iff_mult_less_eq mult.commute)
qed

lemma sel_read_words: "sel_read r t m = map (sel_in m) [r * (SEL_REGS * NR_TASKLETS) + SEL_REGS * t..<r * (SEL_REGS * NR_TASKLETS) + SEL_REGS * Suc t]"
proof -
  let ?w = "r * (SEL_REGS * NR_TASKLETS) + SEL_REGS * t"
  have "SEL_A_OFFSET + sel_byte_index r t = 8 * (sel_A + ?w)"
    by (simp add: sel_byte_index_def sel_consts algebra_simps)
  then have "sel_read r t m = map (\<lambda>i. m (sel_A + ?w + i)) [0..<SEL_REGS]"
    by (simp only: sel_read_def sel_consts(1) mram_read64_cells)
  also have "\<dots> = map (sel_in m) (map (\<lambda>i. i + ?w) [0..<SEL_REGS])"
    by (simp add: sel_in_def ac_simps)
  finally show ?thesis unfolding map_add_upt by (simp add: ac_simps)
qed

lemma sel_p_count_nat:
  assumes "\<And>u. u < t \<Longrightarrow> l u = of_nat (n u)" "\<And>u. u < t \<Longrightarrow> n u < 2 ^ 32"
  shows "sel_p_count l t = of_nat (\<Sum>u < t. n u)"
  unfolding sel_p_count_def partial_count_def of_nat_sum
  by (rule sum.cong) (use assms of_nat_ucast in auto)


lemma sel_B_base_nat:
  assumes "sel_args_ok args"
  shows "sel_B_base args = of_nat (8 * sel_B args)"
proof -
  have "sel_B_base args = of_nat (SEL_A_OFFSET + unat (sel_size args))" by (simp add: sel_B_base_def)
  also have "SEL_A_OFFSET + unat (sel_size args) = 8 * sel_B args"
    using sel_bounds(1) [OF assms] by (simp add: sel_B_def sel_consts)
  finally show ?thesis .
qed

lemma sel_address:
  assumes "sel_args_ok args" "c \<le> sel_words args"
  shows "8 * (sel_B args + c) < 2 ^ 32"
proof -
  have "sel_B args + c \<le> SK_LOG_OFFSET div 8"
    using sel_bounds(2) [OF assms(1)] assms(2) by (simp add: sel_B_def)
  moreover have "8 * (SK_LOG_OFFSET div 8) < 2 ^ 32" by (simp add: SK_LOG_OFFSET_def)
  ultimately show ?thesis by (meson le_less_trans mult_le_mono2)
qed

lemma sel_write_pack:
  assumes ok: "sel_args_ok args" and l: "\<forall>u < NR_TASKLETS. l u = of_nat (n u)"
    and c: "se_count s = of_nat c" "c + (\<Sum>u < NR_TASKLETS. n u) \<le> sel_words args" and t: "t < NR_TASKLETS"
  shows "sel_write args l t s = s\<lparr>se_mram := pack_write (se_cache_B s) n (sel_B args + c) t (se_mram s)\<rparr>"
proof -
  have w: "sel_A + 2 * sel_words args \<le> SK_LOG_OFFSET div 8" by (rule sel_bounds [OF ok])
  have LOG: "8 * (SK_LOG_OFFSET div 8) < 2 ^ 32" by (simp add: SK_LOG_OFFSET_def)
  have sums: "(\<Sum>u < t. n u) + n t \<le> (\<Sum>u < NR_TASKLETS. n u)"
    using sum_mono2 [of "{..<NR_TASKLETS}" "{..<Suc t}" n] t by (auto simp: lessThan_Suc)
  have nu: "n u \<le> (\<Sum>u < NR_TASKLETS. n u)" if "u < NR_TASKLETS" for u
    using that by (intro member_le_sum) auto
  have small: "n u < 2 ^ 32" if "u < NR_TASKLETS" for u
    using nu [OF that] c(2) w LOG by linarith
  have p: "sel_p_count l t = of_nat (\<Sum>u < t. n u)"
    by (rule sel_p_count_nat) (use l t small in auto)
  have c64: "ucast (se_count s) = (of_nat c :: u64)" unfolding c(1) by (rule of_nat_ucast) (use c(2) w LOG in linarith)
  have off: "ucast (ucast (se_count s) + sel_p_count l t) = (of_nat (c + (\<Sum>u < t. n u)) :: u32)"
    unfolding c64 p of_nat_add [symmetric] by (rule ucast_of_nat64)
  have "sel_B_base args + of_nat (c + (\<Sum>u < t. n u)) * 8 = of_nat (8 * (sel_B args + c + (\<Sum>u < t. n u)))"
    unfolding sel_B_base_nat [OF ok] by (simp add: algebra_simps)
  moreover have "8 * (sel_B args + c + (\<Sum>u < t. n u)) < 2 ^ 32"
    using sel_address [OF ok, of "c + (\<Sum>u < t. n u)"] sums c(2) by (simp add: add.assoc)
  ultimately have addr: "unat (sel_B_base args + of_nat (c + (\<Sum>u < t. n u)) * 8) = 8 * (sel_B args + c + (\<Sum>u < t. n u))"
    by (simp only: unat_of_nat32)
  have len: "unat (l t * 8) = 8 * n t"
  proof -
    have "l t * 8 = of_nat (8 * n t)" using l t by simp
    moreover have "8 * n t < 2 ^ 32" using nu [OF t] c(2) w LOG by linarith
    ultimately show ?thesis by (simp only: unat_of_nat32)
  qed
  show ?thesis
    unfolding sel_write_def Let_def off addr len
    by (simp only: mram_write64_pack [where ys = "se_cache_B s" and n = n and t = t])
qed

lemma sel_write_phase:
  fixes s :: sel_state
  assumes "phase (map (\<lambda>t. [sel_write args l t]) [0..<NR_TASKLETS]) s s'"
    and ok: "sel_args_ok args" "\<forall>u < NR_TASKLETS. l u = of_nat (n u)"
    and c: "se_count s = of_nat c" "c + (\<Sum>u < NR_TASKLETS. n u) \<le> sel_words args"
  shows "s' = s\<lparr>se_mram := fold (pack_write (se_cache_B s) n (sel_B args + c)) [0..<NR_TASKLETS] (se_mram s)\<rparr>"
proof -
  note pack = sel_write_pack [OF ok _ c(2)]
  have "s' = run_seq (concat (map (\<lambda>t. [sel_write args l t]) [0..<NR_TASKLETS])) s"
  proof (rule phase_commute_inv [OF assms(1), where P = "\<lambda>s. se_count s = of_nat c", OF c(1)])
    fix i j f g and s :: sel_state
    assume ij: "i < j" "j < length (map (\<lambda>t. [sel_write args l t]) [0..<NR_TASKLETS])"
      "f \<in> set (map (\<lambda>t. [sel_write args l t]) [0..<NR_TASKLETS] ! i)" "g \<in> set (map (\<lambda>t. [sel_write args l t]) [0..<NR_TASKLETS] ! j)"
      and s: "se_count s = of_nat c"
    then have "f = sel_write args l i" "g = sel_write args l j" by auto
    then show "f (g s) = g (f s)" using ij s by (simp add: pack pack_writes_commute [OF ij(1)])
  next
    fix i f and s :: sel_state
    assume "i < length (map (\<lambda>t. [sel_write args l t]) [0..<NR_TASKLETS])"
      "f \<in> set (map (\<lambda>t. [sel_write args l t]) [0..<NR_TASKLETS] ! i)" "se_count s = of_nat c"
    then show "se_count (f s) = of_nat c" by (auto simp: pack)
  qed
  moreover have "k \<le> NR_TASKLETS \<Longrightarrow> run_seq (concat (map (\<lambda>t. [sel_write args l t]) [0..<k])) s
      = s\<lparr>se_mram := fold (pack_write (se_cache_B s) n (sel_B args + c)) [0..<k] (se_mram s)\<rparr>" for k
    by (induction k) (auto simp: pack c)
  ultimately show ?thesis by simp
qed

definition sel_odd :: "cells64 \<Rightarrow> nat \<Rightarrow> nat \<Rightarrow> u64 list" where
  "sel_odd m a b = filter (\<lambda>x. \<not> sel_pred x) (map (sel_in m) [a..<b])"

definition sel_inv :: "sel_arguments \<Rightarrow> cells64 \<Rightarrow> nat \<Rightarrow> sel_state \<Rightarrow> bool" where
  "sel_inv args m r s \<longleftrightarrow>
     (let out = sel_odd m 0 (r * (SEL_REGS * NR_TASKLETS))
      in se_count s = of_nat (length out)
       \<and> (\<forall>t < NR_TASKLETS. length (se_cache_B s t) = SEL_REGS)
       \<and> (\<forall>j. se_mram s j = (if sel_B args \<le> j \<and> j < sel_B args + length out then out ! (j - sel_B args) else m j)))"

lemma length_sel_odd: "length (sel_odd m a b) \<le> b - a"
  using length_filter_le [of _ "map (sel_in m) [a..<b]"] by (simp add: sel_odd_def)

lemma sel_odd_join: "a \<le> b \<Longrightarrow> b \<le> c \<Longrightarrow> sel_odd m a c = sel_odd m a b @ sel_odd m b c"
  unfolding sel_odd_def by (subst upt_join [symmetric, of a b c]) simp_all

lemma sel_odd_blocks:
  "concat (map (\<lambda>t. sel_odd m (a + n * t) (a + n * Suc t)) [0..<k]) = sel_odd m a (a + n * k)"
proof -
  have "concat (map (\<lambda>t. sel_odd m (a + n * t) (a + n * Suc t)) [0..<k])
      = filter (\<lambda>x. \<not> sel_pred x) (concat (map (\<lambda>t. map (sel_in m) [a + n * t..<a + n * Suc t]) [0..<k]))"
    by (simp add: sel_odd_def filter_concat comp_def)
  then show ?thesis unfolding concat_blocks by (simp add: sel_odd_def)
qed

lemma sel_read_inv:
  assumes inv: "sel_inv args m r s" and r: "Suc r * (SEL_REGS * NR_TASKLETS) \<le> sel_words args" and t: "t < NR_TASKLETS"
  shows "sel_read r t (se_mram s) = map (sel_in m)
    [r * (SEL_REGS * NR_TASKLETS) + SEL_REGS * t..<r * (SEL_REGS * NR_TASKLETS) + SEL_REGS * Suc t]"
  unfolding sel_read_words
proof (rule map_cong)
  fix k assume "k \<in> set [r * (SEL_REGS * NR_TASKLETS) + SEL_REGS * t..<r * (SEL_REGS * NR_TASKLETS) + SEL_REGS * Suc t]"
  moreover have "SEL_REGS * Suc t \<le> SEL_REGS * NR_TASKLETS" using t by (intro mult_le_mono2) simp
  ultimately have "k < Suc r * (SEL_REGS * NR_TASKLETS)" by simp
  then show "sel_in (se_mram s) k = sel_in m k" using r inv by (simp add: sel_in_def sel_B_def sel_inv_def Let_def)
qed simp

lemma sel_l_count_inv:
  assumes "sel_inv args m r s" "Suc r * (SEL_REGS * NR_TASKLETS) \<le> sel_words args" "t < NR_TASKLETS"
  shows "sel_l_count r s t = of_nat (length (sel_odd m
    (r * (SEL_REGS * NR_TASKLETS) + SEL_REGS * t) (r * (SEL_REGS * NR_TASKLETS) + SEL_REGS * Suc t)))"
proof -
  have "length (se_cache_B s t) = SEL_REGS" using assms by (simp add: sel_inv_def Let_def)
  then show ?thesis
    using sel_select_spec(3) [of "sel_read r t (se_mram s)" "se_cache_B s t"] sel_read_inv [OF assms]
    by (simp add: sel_l_count_def sel_odd_def)
qed

lemma sel_round_inv:
  assumes inv: "sel_inv args m r s" and rnd: "sel_round_late args r s s'" and ok: "sel_args_ok args"
    and r: "Suc r * (SEL_REGS * NR_TASKLETS) \<le> sel_words args"
  shows "sel_inv args m (Suc r) s'"
proof -
  let ?RW = "SEL_REGS * NR_TASKLETS" and ?l = "sel_l_count r s"
  define out where "out = sel_odd m 0 (r * ?RW)"
  define blk where "blk t = sel_odd m (r * ?RW + SEL_REGS * t) (r * ?RW + SEL_REGS * Suc t)" for t
  define n where "n t = length (blk t)" for t
  obtain s1 s2 where s1: "phase (map (\<lambda>t. [sel_block r t]) [0..<NR_TASKLETS]) s s1"
    and s2: "phase (map (\<lambda>t. [sel_write args ?l t]) [0..<NR_TASKLETS]) s1 s2"
    and s': "s' = sel_update ?l s2"
    using rnd by (auto simp: sel_round_late_def late_last_def)
  have count: "se_count s = of_nat (length out)" and len: "\<And>t. t < NR_TASKLETS \<Longrightarrow> length (se_cache_B s t) = SEL_REGS"
    and mram: "\<And>j. se_mram s j = (if sel_B args \<le> j \<and> j < sel_B args + length out then out ! (j - sel_B args) else m j)"
    using inv by (auto simp: sel_inv_def Let_def out_def)
  note read = sel_read_inv [OF inv r]
  note sel = sel_select_spec [of "sel_read r t (se_mram s)" "se_cache_B s t" for t]
  have l: "?l t = of_nat (n t)" if "t < NR_TASKLETS" for t
    using sel_l_count_inv [OF inv r that] by (simp add: n_def blk_def)
  have cache1: "take (n t) (se_cache_B s1 t) = blk t" and len1: "length (se_cache_B s1 t) = SEL_REGS" if t: "t < NR_TASKLETS" for t
    using sel [of t] read [OF t] len [OF t] t by (simp_all add: n_def blk_def sel_odd_def sel_block_phase [OF s1])
  have rest1: "se_mram s1 = se_mram s" "se_count s1 = of_nat (length out)" by (simp_all add: sel_block_phase [OF s1] count)
  have all: "concat (map blk [0..<NR_TASKLETS]) = sel_odd m (r * ?RW) (Suc r * ?RW)"
    unfolding blk_def sel_odd_blocks by (simp add: add.commute)
  have ns: "(\<Sum>t < NR_TASKLETS. n t) = length (sel_odd m (r * ?RW) (Suc r * ?RW))"
    unfolding all [symmetric]
    by (simp add: n_def length_concat comp_def interv_sum_list_conv_sum_set_nat atLeast0LessThan)
  have new: "sel_odd m 0 (Suc r * ?RW) = out @ sel_odd m (r * ?RW) (Suc r * ?RW)"
    unfolding out_def by (rule sel_odd_join) auto
  have total: "length out + (\<Sum>t < NR_TASKLETS. n t) \<le> sel_words args"
    using r length_sel_odd [of m 0 "Suc r * ?RW"] unfolding new ns by simp
  have s2': "s2 = s1\<lparr>se_mram := fold (pack_write (se_cache_B s1) n (sel_B args + length out)) [0..<NR_TASKLETS] (se_mram s)\<rparr>"
    using sel_write_phase [OF s2 ok _ rest1(2) total] l rest1 by simp
  have tk: "n t \<le> length (se_cache_B s1 t)" if "t < NR_TASKLETS" for t
    using arg_cong [OF cache1 [OF that], of length] by (simp add: n_def)
  have "concat (map (\<lambda>t. take (n t) (se_cache_B s1 t)) [0..<NR_TASKLETS]) = concat (map blk [0..<NR_TASKLETS])"
    by (rule arg_cong [where f = concat], rule map_cong) (simp_all add: cache1)
  then have mram2: "se_mram s2 j = (if sel_B args + length out \<le> j \<and> j < sel_B args + length out + (\<Sum>t < NR_TASKLETS. n t)
      then sel_odd m (r * ?RW) (Suc r * ?RW) ! (j - (sel_B args + length out)) else se_mram s j)" for j
    using pack_writes(1) [of NR_TASKLETS n "se_cache_B s1"] tk by (simp add: s2' all)
  have c': "se_count s' = of_nat (length (sel_odd m 0 (Suc r * ?RW)))"
  proof -
    have LOG: "SK_LOG_OFFSET div 8 < 2 ^ 32" by (simp add: SK_LOG_OFFSET_def)
    then have sm: "length out + (\<Sum>t < NR_TASKLETS. n t) < 2 ^ 32" using total sel_bounds(2) [OF ok] by linarith
    have "n u < 2 ^ 32" if "u < NR_TASKLETS" for u
      using member_le_sum [of u "{..<NR_TASKLETS}" n] that sm by auto
    then have "sel_p_count ?l NR_TASKLETS = of_nat (\<Sum>t < NR_TASKLETS. n t)"
      using l by (intro sel_p_count_nat) auto
    moreover have "ucast (of_nat (length out) :: u32) = (of_nat (length out) :: u64)"
      using sm by (intro of_nat_ucast) linarith
    ultimately have "se_count s' = ucast (of_nat (length out + (\<Sum>t < NR_TASKLETS. n t)) :: u64)"
      by (simp add: s' sel_update_def s2' rest1)
    then show ?thesis unfolding ucast_of_nat64 new ns by simp
  qed
  have "se_mram s' j = (if sel_B args \<le> j \<and> j < sel_B args + length (sel_odd m 0 (Suc r * ?RW))
      then sel_odd m 0 (Suc r * ?RW) ! (j - sel_B args) else m j)" for j
  proof -
    have "se_mram s' j = se_mram s2 j" by (simp add: s' sel_update_def)
    then show ?thesis unfolding mram2 mram new ns by (auto simp: nth_append)
  qed
  moreover have "length (se_cache_B s' t) = SEL_REGS" if "t < NR_TASKLETS" for t
    using len1 [OF that] by (simp add: s' sel_update_def s2')
  ultimately show ?thesis using c' by (simp add: sel_inv_def Let_def)
qed


lemma sel_rounds_inv:
  assumes "sel_rounds (sel_round_late args) n s s'" "sel_inv args m 0 s" "sel_args_ok args"
    and "n * (SEL_REGS * NR_TASKLETS) \<le> sel_words args"
  shows "sel_inv args m n s'"
  using assms(1,4)
proof (induction n arbitrary: s')
  case (Suc n)
  then obtain s1 where "sel_rounds (sel_round_late args) n s s1" "sel_round_late args n s1 s'" by auto
  with Suc show ?case by (intro sel_round_inv [OF Suc.IH _ assms(3)]) auto
qed (use assms(2) in simp)

lemma sel_round_late_is_round: "sel_round_late args r s s' \<Longrightarrow> sel_round args r s s'"
  unfolding sel_round_late_def sel_round_def sel_out_def [abs_def] by (blast dest: late_last_out)

section \<open>The result\<close>

lemma sel_below_log:
  assumes "sel_args_ok args" "k < sel_words args"
  shows "sel_A + k < SK_LOG_OFFSET div 8" "sel_B args + k < SK_LOG_OFFSET div 8"
  using sel_bounds(2) [OF assms(1)] assms(2) by (simp_all add: sel_B_def)

lemma sel_args_init [simp]: "sel_read_args_aligned (sk_log_init64 m) = sel_read_args_aligned m"
proof -
  have "SEL_ARG_OFFSET div 8 < SK_LOG_OFFSET div 8" by (simp add: SEL_ARG_OFFSET_def SK_LOG_OFFSET_def)
  then show ?thesis by (simp add: sel_read_args_aligned_def mram_read64_def)
qed

lemma sel_start: "\<forall>t < NR_TASKLETS. length (heap t) = SEL_REGS \<Longrightarrow> sel_inv args m 0 \<lparr>se_mram = m, se_count = 0, se_cache_B = heap\<rparr>"
  by (auto simp: sel_inv_def sel_odd_def)

text \<open>
  C26: Selection writes the odd words of the input, in their order and without gaps, and logs how many
  there are, in every run in which the count is updated after the writes of the round.
\<close>

theorem sel_main_correct:
  assumes "sel_main (sel_round_late args) heap m m'" "args = sel_read_args_aligned m" "sel_args_ok args"
    and "\<forall>t < NR_TASKLETS. length (heap t) = SEL_REGS"
    and "out = filter odd (map (sel_in m) [0..<sel_words args])"
  shows "(\<forall>k < length out. m' (sel_B args + k) = out ! k) \<and> m' (SK_LOG_OFFSET div 8) = of_nat (length out)"
proof -
  let ?m = "sk_log_init64 m"
  obtain s where s: "sel_rounds (sel_round_late args) (unat (sel_size args) div (SEL_BLOCK_SIZE * NR_TASKLETS))
      \<lparr>se_mram = ?m, se_count = 0, se_cache_B = heap\<rparr> s"
    and m': "m' = sk_log_write_idx64 0 (ucast (se_count s)) (se_mram s)"
    using assms(1) by (auto simp: sel_main_def assms(2) [symmetric] sel_main_kernel1_def)
  note b = sel_bounds [OF assms(3)]
  have inv: "sel_inv args ?m (unat (sel_size args) div (SEL_BLOCK_SIZE * NR_TASKLETS)) s"
    by (rule sel_rounds_inv [OF s sel_start [OF assms(4)] assms(3)]) (simp add: b(3))
  have out: "sel_odd ?m 0 (sel_words args) = out"
  proof -
    have "map (sel_in ?m) [0..<sel_words args] = map (sel_in m) [0..<sel_words args]"
      by (rule map_cong) (simp_all add: sel_in_def sel_below_log [OF assms(3)])
    moreover have "(\<lambda>x. \<not> sel_pred x) = odd" by (simp add: fun_eq_iff sel_pred_def even_iff_mod_2_eq_zero)
    ultimately show ?thesis by (simp only: sel_odd_def assms(5))
  qed
  have len: "length out \<le> sel_words args" using length_sel_odd [of ?m 0 "sel_words args"] by (simp add: out)
  have s_out: "se_count s = of_nat (length out)"
    "\<And>j. se_mram s j = (if sel_B args \<le> j \<and> j < sel_B args + length out then out ! (j - sel_B args) else ?m j)"
    using inv unfolding sel_inv_def Let_def b(3) [symmetric] out by blast+
  have "m' (sel_B args + k) = out ! k" if "k < length out" for k
    using that len sel_below_log(2) [OF assms(3), of k] by (simp add: m' s_out)
  moreover have "length out < 2 ^ 32"
  proof -
    have "SK_LOG_OFFSET div 8 < 2 ^ 32" by (simp add: SK_LOG_OFFSET_def)
    then show ?thesis using len b(2) by linarith
  qed
  then have "m' (SK_LOG_OFFSET div 8) = of_nat (length out)"
    by (simp add: m' sk_log_write_idx64_cell s_out of_nat_ucast)
  ultimately show ?thesis by blast
qed


text \<open>There is such a run exactly when every block has an odd word; one without asks for an empty transfer.\<close>

definition sel_blocks_ok :: "sel_arguments \<Rightarrow> cells64 \<Rightarrow> bool" where
  "sel_blocks_ok args m \<longleftrightarrow>
     (\<forall>b. SEL_REGS * Suc b \<le> sel_words args \<longrightarrow> sel_odd m (SEL_REGS * b) (SEL_REGS * Suc b) \<noteq> [])"

lemma sel_dma_defined_inv:
  assumes "sel_inv args m r s" "Suc r * (SEL_REGS * NR_TASKLETS) \<le> sel_words args"
  shows "sel_dma_defined (sel_l_count r s) \<longleftrightarrow>
    (\<forall>t < NR_TASKLETS. sel_odd m (SEL_REGS * (r * NR_TASKLETS + t)) (SEL_REGS * Suc (r * NR_TASKLETS + t)) \<noteq> [])"
proof -
  have "sel_l_count r s t \<noteq> 0 \<longleftrightarrow> sel_odd m (SEL_REGS * (r * NR_TASKLETS + t)) (SEL_REGS * Suc (r * NR_TASKLETS + t)) \<noteq> []"
    if t: "t < NR_TASKLETS" for t
  proof -
    let ?o = "sel_odd m (SEL_REGS * (r * NR_TASKLETS + t)) (SEL_REGS * Suc (r * NR_TASKLETS + t))"
    have "r * (SEL_REGS * NR_TASKLETS) + SEL_REGS * t = SEL_REGS * (r * NR_TASKLETS + t)"
      "r * (SEL_REGS * NR_TASKLETS) + SEL_REGS * Suc t = SEL_REGS * Suc (r * NR_TASKLETS + t)"
      by (simp_all add: algebra_simps)
    then have l: "sel_l_count r s t = of_nat (length ?o)" using sel_l_count_inv [OF assms t] by (simp only:)
    have "SEL_REGS < 2 ^ 32" by (simp add: SEL_REGS_def SEL_BLOCK_SIZE_def)
    moreover have "length ?o \<le> SEL_REGS" using length_sel_odd [of m "SEL_REGS * (r * NR_TASKLETS + t)" "SEL_REGS * Suc (r * NR_TASKLETS + t)"] by simp
    ultimately have "unat (sel_l_count r s t) = length ?o" unfolding l by (intro unat_of_nat32) linarith
    then show ?thesis by (metis length_0_conv unat_eq_zero)
  qed
  then show ?thesis by (simp add: sel_dma_defined_def)
qed

lemma sel_main_runs:
  assumes ok: "sel_args_ok (sel_read_args_aligned m)" and heap: "\<forall>t < NR_TASKLETS. length (heap t) = SEL_REGS"
    and blk: "sel_blocks_ok (sel_read_args_aligned m) (sk_log_init64 m)"
  shows "\<exists>m'. sel_main (sel_round_late (sel_read_args_aligned m)) heap m m'"
proof -
  let ?args = "sel_read_args_aligned m" and ?m = "sk_log_init64 m"
  let ?s = "\<lparr>se_mram = ?m, se_count = 0, se_cache_B = heap\<rparr>"
  have "\<exists>s'. sel_rounds (sel_round_late ?args) n ?s s'" if "n * (SEL_REGS * NR_TASKLETS) \<le> sel_words ?args" for n
    using that
  proof (induction n)
    case (Suc n)
    then obtain s1 where s1: "sel_rounds (sel_round_late ?args) n ?s s1" by auto
    have inv: "sel_inv ?args ?m n s1"
      by (rule sel_rounds_inv [OF s1 sel_start [OF heap] ok]) (use Suc.prems in simp)
    have "SEL_REGS * Suc (n * NR_TASKLETS + t) \<le> sel_words ?args" if "t < NR_TASKLETS" for t
    proof -
      have "SEL_REGS * Suc (n * NR_TASKLETS + t) \<le> SEL_REGS * (Suc n * NR_TASKLETS)"
        using that by (intro mult_le_mono2) simp
      then show ?thesis using Suc.prems by (simp add: algebra_simps)
    qed
    then have "sel_dma_defined (sel_l_count n s1)"
      using blk unfolding sel_dma_defined_inv [OF inv Suc.prems] sel_blocks_ok_def by blast
    moreover have "\<exists>s2 s3. phase (map (\<lambda>t. [sel_block n t]) [0..<NR_TASKLETS]) s1 s2
        \<and> late_last (map (\<lambda>t. [sel_write ?args (sel_l_count n s1) t]) [0..<NR_TASKLETS]) (sel_update (sel_l_count n s1)) s2 s3"
      unfolding late_last_def by (intro exI conjI, rule phase_seq, rule phase_seq) simp
    ultimately have "\<exists>s3. sel_round_late ?args n s1 s3" unfolding sel_round_late_def by blast
    then show ?case using s1 by auto
  qed auto
  then obtain s where "sel_rounds (sel_round_late ?args) (unat (sel_size ?args) div (SEL_BLOCK_SIZE * NR_TASKLETS)) ?s s"
    using sel_bounds(3) [OF ok] by (metis order_refl)
  then show ?thesis using ok by (auto simp: sel_main_def sel_main_kernel1_def sel_args_ok_def)
qed

text \<open>One round of the numbers 0, 1, 2, \<open>\<dots>\<close>\<close>

definition sel_demo :: cells64 where
  "sel_demo j = (if j = 0x400 then 16384 else of_nat (j - sel_A))"

theorem sel_main_correct_witness:
  "\<exists>m'. sel_main (sel_round_late (sel_read_args_aligned sel_demo)) (\<lambda>_. replicate SEL_REGS 77) sel_demo m'
     \<and> m' (sel_B (sel_read_args_aligned sel_demo)) = 1"
proof -
  let ?args = "\<lparr>sel_size = 16384, sel_kernel = 0\<rparr>"
  have args: "?args = sel_read_args_aligned sel_demo"
    by (simp add: sel_read_args_aligned_def mram_read64_def SEL_ARG_OFFSET_def sel_demo_def Let_def lo32_def hi32_def)
  have ok: "sel_args_ok ?args"
    by (simp add: sel_args_ok_def SEL_BLOCK_SIZE_def NR_TASKLETS_def SEL_A_OFFSET_def SEL_ARG_OFFSET_def SK_LOG_OFFSET_def)
  have words: "sel_words ?args = 2048" by (simp add: sel_words_def)
  have A: "sel_A = 0x420" by (simp add: sel_A_def SEL_A_OFFSET_def SEL_ARG_OFFSET_def)
  have inp: "sel_in sel_demo k = of_nat k" for k by (simp add: sel_in_def sel_demo_def A)
  have inp': "sel_in (sk_log_init64 sel_demo) k = of_nat k" if "k < 2048" for k
    using sel_below_log(1) [OF ok, of k] that inp words by (simp add: sel_in_def)
  have R: "SEL_REGS = 128" by (simp add: SEL_REGS_def SEL_BLOCK_SIZE_def)
  have "sel_blocks_ok ?args (sk_log_init64 sel_demo)"
    unfolding sel_blocks_ok_def
  proof (intro allI impI)
    fix b assume b: "SEL_REGS * Suc b \<le> sel_words ?args"
    have "\<not> sel_pred (of_nat (Suc (SEL_REGS * b)))"
      by (simp add: sel_pred_def R flip: even_iff_mod_2_eq_zero)
    moreover have "of_nat (Suc (SEL_REGS * b)) \<in> set (map (sel_in (sk_log_init64 sel_demo)) [SEL_REGS * b..<SEL_REGS * Suc b])"
      using inp' [of "Suc (SEL_REGS * b)"] b words R by (auto intro!: image_eqI [of _ _ "Suc (SEL_REGS * b)"])
    ultimately show "sel_odd (sk_log_init64 sel_demo) (SEL_REGS * b) (SEL_REGS * Suc b) \<noteq> []"
      unfolding sel_odd_def by (metis filter_empty_conv)
  qed
  then obtain m' where m': "sel_main (sel_round_late ?args) (\<lambda>_. replicate SEL_REGS 77) sel_demo m'"
    using sel_main_runs [of sel_demo "\<lambda>_. replicate SEL_REGS 77"] ok unfolding args [symmetric] by auto
  define N where "N = sel_words ?args"
  have "1 < N" by (simp add: N_def words)
  then have "[0..<N] = 0 # Suc 0 # [Suc (Suc 0)..<N]" by (simp add: upt_conv_Cons)
  then have "filter odd (map (sel_in sel_demo) [0..<N]) = 1 # filter odd (map (sel_in sel_demo) [Suc (Suc 0)..<N])" by (simp add: inp)
  then obtain xs where "filter odd (map (sel_in sel_demo) [0..<sel_words ?args]) = 1 # xs" unfolding N_def by blast
  then have "m' (sel_B ?args) = 1"
    using sel_main_correct [OF m' args ok _, of "1 # xs"] by (auto dest: spec [of _ 0])
  then show ?thesis using m' unfolding args [symmetric] by blast
qed

end
