(* ===== verification/Kernel_UNI.thy ===== *)
theory Kernel_UNI imports Kernel_SEL
begin

text \<open>
  Removing repetitions, \<^verbatim>\<open>src/src/UNI/main.c\<close>. As in selection a round packs the words of sixteen
  blocks one after the other; whether a tasklet's first word repeats the last word before its
  block it learns from the handshake, which passes on the number of words, the last word, and
  the number of words dropped so far. The arguments, the constants and the layout are those of
  \<open>Kernel_SEL\<close>: the two \<^verbatim>\<open>support/common.h\<close> agree in them. There is no barrier between the
  handshake and the writes, so that reads, writes and the update of the shared words are one phase.
\<close>

section \<open>The kernel\<close>

definition uni_unique :: "u64 list \<Rightarrow> u64 list \<Rightarrow> u64 list \<times> nat" where
  "uni_unique output input =
     fold (\<lambda>j (output, pos). if input ! j \<noteq> input ! (j - 1) then (output[pos := input ! j], pos + 1) else (output, pos))
       [1..<SEL_REGS] (output[0 := input ! 0], 1)"

record uni_state =
  un_mram :: cells64
  un_count :: u32
  un_last_from_last :: u64
  un_cache_B :: "nat \<Rightarrow> u64 list"

definition uni_block :: "nat \<Rightarrow> nat \<Rightarrow> uni_state \<Rightarrow> uni_state" where
  "uni_block r t s = s\<lparr>un_cache_B := (un_cache_B s)(t := fst (uni_unique (un_cache_B s t) (sel_read r t (un_mram s))))\<rparr>"

definition uni_l_count :: "nat \<Rightarrow> uni_state \<Rightarrow> nat \<Rightarrow> u32" where
  "uni_l_count r s t = of_nat (snd (uni_unique (un_cache_B s t) (sel_read r t (un_mram s))))"

definition uni_out :: "nat \<Rightarrow> uni_state \<Rightarrow> nat \<Rightarrow> u64 list" where
  "uni_out r s t = fst (uni_unique (un_cache_B s t) (sel_read r t (un_mram s)))"

text \<open>
  The handshake: the message that tasklet \<open>t\<close> has before it adds its own block (\<open>msg_count\<close>,
  \<open>msg_last\<close>, \<open>msg_off\<close>), from the outputs and counts of the tasklets, and what the function returns.
\<close>

fun uni_message :: "u64 \<Rightarrow> (nat \<Rightarrow> u64 list) \<Rightarrow> (nat \<Rightarrow> u32) \<Rightarrow> nat \<Rightarrow> u32 \<times> u64 \<times> u32" where
  "uni_message last_from_last out l 0 = (0, last_from_last, 0)"
| "uni_message last_from_last out l (Suc t) =
     (let (p_count, last, o_count) = uni_message last_from_last out l t;
          offset = (if last = out t ! 0 then 1 else 0)
      in (p_count + l t, out t ! unat (l t - 1), o_count + offset))"

definition uni_handshake_sync :: "u64 \<Rightarrow> (nat \<Rightarrow> u64 list) \<Rightarrow> (nat \<Rightarrow> u32) \<Rightarrow> nat \<Rightarrow> u32 \<times> u32 \<times> u32" where
  "uni_handshake_sync last_from_last out l t =
     (let (p_count, last, o_count) = uni_message last_from_last out l t
      in (p_count, o_count, if last = out t ! 0 then 1 else 0))"

definition uni_write :: "sel_arguments \<Rightarrow> (nat \<Rightarrow> u32) \<Rightarrow> (nat \<Rightarrow> u32 \<times> u32 \<times> u32) \<Rightarrow> nat \<Rightarrow> uni_state \<Rightarrow> uni_state" where
  "uni_write args l po t s =
     (let (x, y, z) = po t
      in if z < l t then
           s\<lparr>un_mram := mram_write64 (drop (unat z) (un_cache_B s t)) (unat (sel_B_base args + (un_count s + x - y) * 8))
                (unat ((l t - z) * 8)) (un_mram s)\<rparr>
         else s)"

definition uni_update :: "(nat \<Rightarrow> u32) \<Rightarrow> (nat \<Rightarrow> u32 \<times> u32 \<times> u32) \<Rightarrow> uni_state \<Rightarrow> uni_state" where
  "uni_update l po s =
     (let t = NR_TASKLETS - 1; (x, y, z) = po t
      in s\<lparr>un_last_from_last := un_cache_B s t ! (if l t \<noteq> 0 then unat (l t - 1) else 0),
           un_count := un_count s + x + l t - y - z\<rparr>)"

definition uni_tasklet :: "sel_arguments \<Rightarrow> nat \<Rightarrow> (nat \<Rightarrow> u32) \<Rightarrow> (nat \<Rightarrow> u32 \<times> u32 \<times> u32) \<Rightarrow> nat \<Rightarrow> (uni_state \<Rightarrow> uni_state) list" where
  "uni_tasklet args r l po t =
     [uni_block r t, uni_write args l po t] @ (if t = NR_TASKLETS - 1 then [uni_update l po] else [])"

abbreviation uni_po :: "nat \<Rightarrow> uni_state \<Rightarrow> nat \<Rightarrow> u32 \<times> u32 \<times> u32" where
  "uni_po r s \<equiv> uni_handshake_sync (un_last_from_last s) (uni_out r s) (uni_l_count r s)"

definition uni_round :: "sel_arguments \<Rightarrow> nat \<Rightarrow> uni_state \<Rightarrow> uni_state \<Rightarrow> bool" where
  "uni_round args r s s' \<longleftrightarrow>
     phase (map (uni_tasklet args r (uni_l_count r s) (uni_po r s)) [0..<NR_TASKLETS]) s s'"

text \<open>The runs in which the shared words are updated after all the writes of the round.\<close>

definition uni_round_late :: "sel_arguments \<Rightarrow> nat \<Rightarrow> uni_state \<Rightarrow> uni_state \<Rightarrow> bool" where
  "uni_round_late args r s s' \<longleftrightarrow>
     late_last (map (\<lambda>t. [uni_block r t, uni_write args (uni_l_count r s) (uni_po r s) t]) [0..<NR_TASKLETS])
       (uni_update (uni_l_count r s) (uni_po r s)) s s'"

lemma uni_round_late_is_round: "uni_round_late args r s s' \<Longrightarrow> uni_round args r s s'"
  unfolding uni_round_late_def uni_round_def uni_tasklet_def [abs_def] by (rule late_last_out)

definition uni_main :: "(sel_arguments \<Rightarrow> nat \<Rightarrow> uni_state \<Rightarrow> uni_state \<Rightarrow> bool) \<Rightarrow> (nat \<Rightarrow> u64 list) \<Rightarrow> cells64 \<Rightarrow> cells64 \<Rightarrow> bool" where
  "uni_main rnd heap m m' \<longleftrightarrow>
     (let args = sel_read_args_aligned m
      in unat (sel_size args) mod (SEL_BLOCK_SIZE * NR_TASKLETS) = 0
       \<and> (\<exists>s. sel_rounds (rnd args) (unat (sel_size args) div (SEL_BLOCK_SIZE * NR_TASKLETS))
                \<lparr>un_mram = sk_log_init64 m, un_count = 0, un_last_from_last = 0xFFFFFFFF, un_cache_B = heap\<rparr> s
            \<and> m' = sk_log_write_idx64 0 (ucast (un_count s)) (un_mram s)))"

section \<open>Repetitions\<close>

lemma uni_unique_spec:
  assumes "length input = SEL_REGS" "SEL_REGS \<le> length output"
  shows "length (fst (uni_unique output input)) = length output"
    "take (snd (uni_unique output input)) (fst (uni_unique output input)) = remdups_adj input"
    "snd (uni_unique output input) = length (remdups_adj input)"
proof -
  let ?f = "\<lambda>j (output, pos). if input ! j \<noteq> input ! (j - 1) then (output[pos := input ! j], pos + 1) else (output, pos)"
  let ?F = "\<lambda>n. fold ?f [1..<Suc n] (output[0 := input ! 0], 1)"
  have "length (fst (?F n)) = length output \<and> take (snd (?F n)) (fst (?F n)) = remdups_adj (take (Suc n) input)
      \<and> snd (?F n) = length (remdups_adj (take (Suc n) input)) \<and> snd (?F n) \<le> Suc n" if "n < SEL_REGS" for n
    using that
  proof (induction n)
    case 0
    then show ?case using assms by (cases input; cases "output") auto
  next
    case (Suc n)
    obtain o' p where op: "?F n = (o', p)" by (cases "?F n")
    have step: "?F (Suc n) = ?f (Suc n) (o', p)" using op by simp
    have IH: "length o' = length output" "take p o' = remdups_adj (take (Suc n) input)"
      "p = length (remdups_adj (take (Suc n) input))" "p \<le> Suc n" "p < length o'"
      using Suc op assms by auto
    have "take (Suc (Suc n)) input = take n input @ [input ! n, input ! Suc n]" "take (Suc n) input = take n input @ [input ! n]"
      using Suc.prems assms by (simp_all add: take_Suc_conv_app_nth)
    then have "remdups_adj (take (Suc (Suc n)) input)
        = remdups_adj (take (Suc n) input) @ (if input ! n = input ! Suc n then [] else [input ! Suc n])"
      by (simp only: remdups_adj_append_two)
    then show ?case unfolding step using IH(1,2,4,5) IH(3) [symmetric] by (auto simp: take_Suc_conv_app_nth)
  qed
  note all = this [of "SEL_REGS - 1"]
  have t: "take SEL_REGS input = input" "Suc (SEL_REGS - 1) = SEL_REGS" "SEL_REGS - 1 < SEL_REGS" using assms sel_consts by auto
  show "length (fst (uni_unique output input)) = length output"
    "take (snd (uni_unique output input)) (fst (uni_unique output input)) = remdups_adj input"
    "snd (uni_unique output input) = length (remdups_adj input)"
    using all unfolding uni_unique_def t by (blast intro: t)+
qed

text \<open>What \<open>ys\<close> adds behind the word \<open>x\<close>.\<close>

definition fresh :: "'a \<Rightarrow> 'a list \<Rightarrow> 'a list" where
  "fresh x ys = tl (remdups_adj (x # ys))"

lemma fresh_append: "fresh x (ys @ zs) = fresh x ys @ fresh (last (x # ys)) zs"
proof -
  let ?p = "butlast (x # ys)" and ?l = "last (x # ys)"
  have p: "x # ys = ?p @ [?l]" by (simp only: append_butlast_last_id list.distinct not_False_eq_True)
  have "remdups_adj (x # ys @ zs) = remdups_adj ((?p @ [?l]) @ zs)" by (simp only: p [symmetric] append_Cons)
  also have "\<dots> = remdups_adj (x # ys) @ tl (remdups_adj (?l # zs))"
    using remdups_adj_append [of ?p ?l zs] p by (metis append.assoc append_Cons append_Nil)
  finally show ?thesis by (simp add: fresh_def)
qed

lemma fresh_drop: "ys \<noteq> [] \<Longrightarrow> fresh x ys = drop (if x = hd ys then 1 else 0) (remdups_adj ys)"
  by (cases ys) (auto simp: fresh_def drop_Suc)

lemma fresh_blocks:
  "fresh x (concat (map xs [0..<k])) = concat (map (\<lambda>t. fresh (last (x # concat (map xs [0..<t]))) (xs t)) [0..<k])"
proof (induction k)
  case 0
  show ?case by (simp add: fresh_def)
next
  case (Suc k)
  then show ?case by (simp add: fresh_append)
qed


section \<open>What a round does\<close>

definition uni_dup :: "u64 \<Rightarrow> (nat \<Rightarrow> u64 list) \<Rightarrow> nat \<Rightarrow> nat" where
  "uni_dup x xs t = (if last (x # concat (map xs [0..<t])) = hd (xs t) then 1 else 0)"

definition uni_len :: "(nat \<Rightarrow> u64 list) \<Rightarrow> nat \<Rightarrow> nat" where
  "uni_len xs t = length (remdups_adj (xs t))"

lemma uni_len_bounds:
  "xs t \<noteq> [] \<Longrightarrow> 0 < uni_len xs t" "uni_len xs t \<le> length (xs t)" "uni_dup x xs t \<le> 1"
  by (simp_all add: uni_len_def uni_dup_def remdups_adj_length)

lemma uni_fresh: "xs t \<noteq> [] \<Longrightarrow> fresh (last (x # concat (map xs [0..<t]))) (xs t) = drop (uni_dup x xs t) (remdups_adj (xs t))"
  by (simp add: fresh_drop uni_dup_def)

text \<open>The handshake gives each tasklet the sums over the tasklets before it.\<close>

lemma uni_message_sums:
  assumes "\<And>t. t < k \<Longrightarrow> xs t \<noteq> [] \<and> length (xs t) < 2 ^ 32 \<and> take (uni_len xs t) (out t) = remdups_adj (xs t) \<and> l t = of_nat (uni_len xs t)"
  shows "uni_message x out l k = (of_nat (\<Sum>u < k. uni_len xs u), last (x # concat (map xs [0..<k])), of_nat (\<Sum>u < k. uni_dup x xs u))"
  using assms
proof (induction k)
  case (Suc k)
  note b = Suc.prems [of k, simplified]
  have pos: "0 < uni_len xs k" "uni_len xs k < 2 ^ 32" using b uni_len_bounds(1) [of xs k] uni_len_bounds(2) [of xs k] by auto
  have first: "out k ! 0 = hd (xs k)"
  proof -
    have "out k ! 0 = remdups_adj (xs k) ! 0" using b pos by (metis nth_take)
    then show ?thesis using b by (simp add: hd_conv_nth [symmetric])
  qed
  have e: "l k - 1 = of_nat (uni_len xs k - 1)" using b pos by (simp add: of_nat_diff)
  have "unat (l k - 1) = uni_len xs k - 1" unfolding e by (rule unat_of_nat32) (use pos in simp)
  moreover have "out k ! (uni_len xs k - 1) = last (xs k)"
  proof -
    have "out k ! (uni_len xs k - 1) = remdups_adj (xs k) ! (uni_len xs k - 1)" using b pos by (metis diff_less nth_take zero_less_one)
    then show ?thesis using b last_conv_nth [of "remdups_adj (xs k)"] by (simp add: uni_len_def)
  qed
  ultimately have lst: "out k ! unat (l k - 1) = last (x # concat (map xs [0..<Suc k]))" using b by simp
  have IH: "uni_message x out l k = (of_nat (\<Sum>u < k. uni_len xs u), last (x # concat (map xs [0..<k])), of_nat (\<Sum>u < k. uni_dup x xs u))"
    using Suc by simp
  show ?case
    unfolding uni_message.simps IH Let_def prod.case first lst using b by (simp add: uni_dup_def)
qed simp

lemma uni_write_pack:
  fixes s :: uni_state
  assumes ok: "sel_args_ok args" and po: "po t = (of_nat (\<Sum>u < t. len u), of_nat (\<Sum>u < t. z u), of_nat (z t))" and l: "l t = of_nat (len t)"
    and z: "\<forall>u < NR_TASKLETS. z u \<le> len u \<and> z u \<le> 1 \<and> len u < 2 ^ 28" and t: "t < NR_TASKLETS"
    and c: "un_count s = of_nat c" "c + (\<Sum>u < NR_TASKLETS. len u - z u) \<le> sel_words args"
  shows "uni_write args l po t s
    = s\<lparr>un_mram := pack_write (\<lambda>t. drop (z t) (un_cache_B s t)) (\<lambda>u. len u - z u) (sel_B args + c) t (un_mram s)\<rparr>"
proof -
  let ?n = "\<lambda>u. len u - z u"
  have w: "sel_A + 2 * sel_words args \<le> SK_LOG_OFFSET div 8" by (rule sel_bounds [OF ok])
  have zt: "z t \<le> len t" "z t \<le> 1" "len t < 2 ^ 28" using z t by auto
  have sums: "(\<Sum>u < t. ?n u) \<le> (\<Sum>u < NR_TASKLETS. ?n u)"
    using sum_mono2 [of "{..<NR_TASKLETS}" "{..<t}" ?n] t by auto
  have "(\<Sum>u < t. len u) = (\<Sum>u < t. ?n u) + (\<Sum>u < t. z u)"
    unfolding sum.distrib [symmetric] by (rule sum.cong) (use z t in auto)
  then have "un_count s + of_nat (\<Sum>u < t. len u) - of_nat (\<Sum>u < t. z u) = of_nat (c + (\<Sum>u < t. ?n u))"
    by (simp add: c(1))
  then have "sel_B_base args + (un_count s + of_nat (\<Sum>u < t. len u) - of_nat (\<Sum>u < t. z u)) * 8
      = of_nat (8 * (sel_B args + c + (\<Sum>u < t. ?n u)))"
    unfolding sel_B_base_nat [OF ok] by (simp add: algebra_simps)
  moreover have "8 * (sel_B args + c + (\<Sum>u < t. ?n u)) < 2 ^ 32"
    using sel_address [OF ok, of "c + (\<Sum>u < t. ?n u)"] sums c(2) by (simp add: add.assoc)
  ultimately have addr: "unat (sel_B_base args + (un_count s + of_nat (\<Sum>u < t. len u) - of_nat (\<Sum>u < t. z u)) * 8)
      = 8 * (sel_B args + c + (\<Sum>u < t. ?n u))"
    by (simp only: unat_of_nat32)
  have zl: "unat (of_nat (z t) :: u32) = z t" "unat (l t) = len t" using zt by (simp_all add: unat_of_nat32 l)
  then have lt: "of_nat (z t) < l t \<longleftrightarrow> z t < len t" by (simp only: word_less_nat_alt)
  have "(l t - of_nat (z t)) * 8 = of_nat (8 * ?n t)" using zt by (simp add: l of_nat_diff)
  moreover have "8 * ?n t < 2 ^ 32" using zt by simp
  ultimately have size: "unat ((l t - of_nat (z t)) * 8) = 8 * ?n t" by (simp only: unat_of_nat32)
  show ?thesis
  proof (cases "z t < len t")
    case True
    then show ?thesis
      unfolding uni_write_def po Let_def prod.case addr size lt zl
      by (simp only: if_True mram_write64_pack [where ys = "\<lambda>t. drop (z t) (un_cache_B s t)" and n = ?n and t = t])
  next
    case False
    then have "pack_write ys ?n b t m = m" for ys and b and m :: cells64 by (auto simp: pack_write_def fun_eq_iff Let_def)
    then show ?thesis unfolding uni_write_def po Let_def prod.case lt using False by simp
  qed
qed


lemma pack_write_cong: "ys t = ys' t \<Longrightarrow> pack_write ys n b t m = pack_write ys' n b t m"
  by (simp add: pack_write_def fun_eq_iff)

lemma sel_read_pack:
  assumes "Suc r * (SEL_REGS * NR_TASKLETS) \<le> sel_words args" "t < NR_TASKLETS" "\<And>j. j < sel_B args \<Longrightarrow> m j = m' j"
  shows "sel_read r t m = sel_read r t m'"
  unfolding sel_read_words
proof (rule map_cong)
  fix k assume "k \<in> set [r * (SEL_REGS * NR_TASKLETS) + SEL_REGS * t..<r * (SEL_REGS * NR_TASKLETS) + SEL_REGS * Suc t]"
  moreover have "SEL_REGS * Suc t \<le> SEL_REGS * NR_TASKLETS" using assms(2) by (intro mult_le_mono2) simp
  ultimately have "k < Suc r * (SEL_REGS * NR_TASKLETS)" by simp
  then show "sel_in m k = sel_in m' k" using assms by (simp add: sel_in_def sel_B_def)
qed simp

lemma pack_write_below: "j < b \<Longrightarrow> pack_write ys n b t m j = m j"
  by (simp add: pack_write_def Let_def)

lemma pack_fold_below: "j < b \<Longrightarrow> fold (pack_write ys n b) ts m j = m j"
  by (rule fold_unchanged) (rule pack_write_below)

text \<open>Every interleaving of the reads and writes of a round ends in the same state.\<close>

lemma uni_phase:
  fixes s :: uni_state
  assumes ph: "phase (map (\<lambda>t. [uni_block r t, uni_write args l po t]) [0..<NR_TASKLETS]) s s'"
    and ok: "sel_args_ok args" and r: "Suc r * (SEL_REGS * NR_TASKLETS) \<le> sel_words args"
    and po: "\<And>t. t < NR_TASKLETS \<Longrightarrow> po t = (of_nat (\<Sum>u < t. len u), of_nat (\<Sum>u < t. z u), of_nat (z t))"
    and l: "\<And>t. t < NR_TASKLETS \<Longrightarrow> l t = of_nat (len t)"
    and z: "\<forall>u < NR_TASKLETS. z u \<le> len u \<and> z u \<le> 1 \<and> len u < 2 ^ 28"
    and c: "un_count s = of_nat c" "c + (\<Sum>u < NR_TASKLETS. len u - z u) \<le> sel_words args"
  shows "s' = s\<lparr>un_cache_B := (\<lambda>t. if t < NR_TASKLETS then uni_out r s t else un_cache_B s t),
    un_mram := fold (pack_write (\<lambda>t. drop (z t) (uni_out r s t)) (\<lambda>u. len u - z u) (sel_B args + c)) [0..<NR_TASKLETS] (un_mram s)\<rparr>"
proof -
  let ?n = "\<lambda>u. len u - z u" and ?b = "sel_B args + c" and ?p = "\<lambda>t. [uni_block r t, uni_write args l po t]"
  have wr: "uni_write args l po t s = s\<lparr>un_mram := pack_write (\<lambda>t. drop (z t) (un_cache_B s t)) ?n ?b t (un_mram s)\<rparr>"
    if "t < NR_TASKLETS" "un_count s = of_nat c" for t and s :: uni_state
    by (rule uni_write_pack [where len = len and z = z and t = t and l = l and po = po, OF ok po [OF that(1)] l [OF that(1)] z that c(2)])
  have rd: "sel_read r t (pack_write ys ?n ?b u m) = sel_read r t m" if "t < NR_TASKLETS" for t u ys m
    by (rule sel_read_pack [OF r that]) (simp add: pack_write_below)
  have bl: "un_count (uni_block r t s) = un_count s" for t s by (simp add: uni_block_def)
  have com: "uni_block r t (uni_write args l po u s) = uni_write args l po u (uni_block r t s)"
    if "t < NR_TASKLETS" "u < NR_TASKLETS" "t \<noteq> u" "un_count s = of_nat c" for t u s
    using that rd [OF that(1)] by (simp add: wr bl) (auto simp: uni_block_def fun_eq_iff pack_write_def intro!: uni_state.equality)
  have com': "uni_write args l po t (uni_write args l po u s) = uni_write args l po u (uni_write args l po t s)"
    if "t < u" "u < NR_TASKLETS" "un_count s = of_nat c" for t u s
    using that by (simp add: wr) (subst pack_writes_commute [OF that(1)], rule refl)
  have com'': "uni_block r t (uni_block r u s) = uni_block r u (uni_block r t s)" if "t \<noteq> u" for t u s
    using that by (simp add: uni_block_def fun_upd_twist)
  have "s' = run_seq (concat (map ?p [0..<NR_TASKLETS])) s"
  proof (rule phase_commute_inv [OF ph, where P = "\<lambda>s. un_count s = of_nat c", OF c(1)])
    fix i j f g and s :: uni_state
    assume ij: "i < j" "j < length (map ?p [0..<NR_TASKLETS])" "f \<in> set (map ?p [0..<NR_TASKLETS] ! i)" "g \<in> set (map ?p [0..<NR_TASKLETS] ! j)"
      and s: "un_count s = of_nat c"
    then have lt: "i < NR_TASKLETS" "j < NR_TASKLETS" "i \<noteq> j" "j \<noteq> i" by auto
    have "f = uni_block r i \<or> f = uni_write args l po i" "g = uni_block r j \<or> g = uni_write args l po j" using ij by auto
    then show "f (g s) = g (f s)"
      using com [OF lt(1,2,3) s] com [OF lt(2,1,4) s] com' [OF ij(1) lt(2) s] com'' [OF lt(3), of s] by auto
  next
    fix i f and s :: uni_state
    assume "i < length (map ?p [0..<NR_TASKLETS])" "f \<in> set (map ?p [0..<NR_TASKLETS] ! i)" "un_count s = of_nat c"
    then show "un_count (f s) = of_nat c" by (auto simp: wr bl)
  qed
  moreover have "k \<le> NR_TASKLETS \<Longrightarrow> run_seq (concat (map ?p [0..<k])) s
     = s\<lparr>un_cache_B := (\<lambda>t. if t < k then uni_out r s t else un_cache_B s t),
         un_mram := fold (pack_write (\<lambda>t. drop (z t) (uni_out r s t)) ?n ?b) [0..<k] (un_mram s)\<rparr>" for k
  proof (induction k)
    case (Suc k)
    let ?s = "s\<lparr>un_cache_B := (\<lambda>t. if t < k then uni_out r s t else un_cache_B s t),
         un_mram := fold (pack_write (\<lambda>t. drop (z t) (uni_out r s t)) ?n ?b) [0..<k] (un_mram s)\<rparr>"
    have k: "k < NR_TASKLETS" using Suc.prems by simp
    have "sel_read r k (un_mram ?s) = sel_read r k (un_mram s)"
      by (rule sel_read_pack [OF r k]) (simp add: pack_fold_below)
    then have b: "uni_block r k ?s = ?s\<lparr>un_cache_B := (\<lambda>t. if t < Suc k then uni_out r s t else un_cache_B s t)\<rparr>"
      by (auto simp: uni_block_def uni_out_def fun_eq_iff less_Suc_eq)
    have "run_seq (concat (map ?p [0..<Suc k])) s = uni_write args l po k (uni_block r k ?s)" using Suc by simp
    also have "\<dots> = ?s\<lparr>un_cache_B := (\<lambda>t. if t < Suc k then uni_out r s t else un_cache_B s t),
       un_mram := pack_write (\<lambda>t. drop (z t) (uni_out r s t)) ?n ?b k (un_mram ?s)\<rparr>"
      unfolding b by (auto simp: wr [OF k] c fun_eq_iff pack_write_def intro!: uni_state.equality)
    finally show ?case by simp
  qed simp
  ultimately show ?thesis by simp
qed


text \<open>The first word of the input is compared with \<open>0xFFFFFFFF\<close>.\<close>

definition uni_spec :: "cells64 \<Rightarrow> nat \<Rightarrow> u64 list" where
  "uni_spec m n = fresh 0xFFFFFFFF (map (sel_in m) [0..<n])"

definition uni_inv :: "sel_arguments \<Rightarrow> cells64 \<Rightarrow> nat \<Rightarrow> uni_state \<Rightarrow> bool" where
  "uni_inv args m r s \<longleftrightarrow>
     (let n = r * (SEL_REGS * NR_TASKLETS); out = uni_spec m n
      in un_count s = of_nat (length out) \<and> un_last_from_last s = last (0xFFFFFFFF # map (sel_in m) [0..<n])
       \<and> (\<forall>t < NR_TASKLETS. length (un_cache_B s t) = SEL_REGS)
       \<and> (\<forall>j. un_mram s j = (if sel_B args \<le> j \<and> j < sel_B args + length out then out ! (j - sel_B args) else m j)))"

lemma length_uni_spec: "length (uni_spec m n) \<le> n"
  using remdups_adj_length [of "0xFFFFFFFF # map (sel_in m) [0..<n]"] by (simp add: uni_spec_def fresh_def)

lemma uni_round_inv:
  assumes inv: "uni_inv args m r s" and rnd: "uni_round_late args r s s'" and ok: "sel_args_ok args"
    and r: "Suc r * (SEL_REGS * NR_TASKLETS) \<le> sel_words args"
  shows "uni_inv args m (Suc r) s'"
proof -
  let ?RW = "SEL_REGS * NR_TASKLETS" and ?l = "uni_l_count r s" and ?po = "uni_po r s" and ?ll = "un_last_from_last s"
  let ?pre = "map (sel_in m) [0..<r * ?RW]" and ?new = "map (sel_in m) [r * ?RW..<r * ?RW + ?RW]"
  define out where "out = uni_spec m (r * ?RW)"
  define xs where "xs t = map (sel_in m) [r * ?RW + SEL_REGS * t..<r * ?RW + SEL_REGS * Suc t]" for t
  let ?len = "uni_len xs" and ?z = "uni_dup ?ll xs"
  let ?n = "\<lambda>u. ?len u - ?z u"
  obtain s2 where s2: "phase (map (\<lambda>t. [uni_block r t, uni_write args ?l ?po t]) [0..<NR_TASKLETS]) s s2"
    and s': "s' = uni_update ?l ?po s2"
    using rnd by (auto simp: uni_round_late_def late_last_def)
  have count: "un_count s = of_nat (length out)" and ll: "?ll = last (0xFFFFFFFF # ?pre)"
    and len: "\<And>t. t < NR_TASKLETS \<Longrightarrow> length (un_cache_B s t) = SEL_REGS"
    and mram: "\<And>j. un_mram s j = (if sel_B args \<le> j \<and> j < sel_B args + length out then out ! (j - sel_B args) else m j)"
    using inv by (simp_all add: uni_inv_def Let_def out_def)
  have read: "sel_read r t (un_mram s) = xs t" if t: "t < NR_TASKLETS" for t
    using sel_read_pack [OF r t, of "un_mram s" m] by (simp add: mram xs_def sel_read_words)
  have xs: "length (xs t) = SEL_REGS" "xs t \<noteq> []" for t using sel_consts(3) by (simp_all add: xs_def)
  have R: "SEL_REGS < 2 ^ 28" by (simp add: SEL_REGS_def SEL_BLOCK_SIZE_def)
  have z: "\<forall>u < NR_TASKLETS. ?z u \<le> ?len u \<and> ?z u \<le> 1 \<and> ?len u < 2 ^ 28"
  proof (intro allI impI)
    fix u
    show "?z u \<le> ?len u \<and> ?z u \<le> 1 \<and> ?len u < 2 ^ 28"
      using uni_len_bounds(1) [of xs u, OF xs(2)] uni_len_bounds(2) [of xs u] uni_len_bounds(3) [of ?ll xs u] xs(1) [of u] R by linarith
  qed
  note un = uni_unique_spec [of "sel_read r t (un_mram s)" "un_cache_B s t" for t]
  have l: "?l t = of_nat (?len t)" and otake: "take (?len t) (uni_out r s t) = remdups_adj (xs t)" and olen: "length (uni_out r s t) = SEL_REGS"
    if t: "t < NR_TASKLETS" for t
    using un [of t] read [OF t] len [OF t] xs(1) [of t] by (simp_all add: uni_l_count_def uni_out_def uni_len_def)
  have po: "?po t = (of_nat (\<Sum>u < t. ?len u), of_nat (\<Sum>u < t. ?z u), of_nat (?z t))" if t: "t < NR_TASKLETS" for t
  proof -
    have msg: "uni_message ?ll (uni_out r s) ?l t = (of_nat (\<Sum>u < t. ?len u), last (?ll # concat (map xs [0..<t])), of_nat (\<Sum>u < t. ?z u))"
      by (rule uni_message_sums) (use t xs R l otake in auto)
    have "uni_out r s t ! 0 = remdups_adj (xs t) ! 0" using otake [OF t] uni_len_bounds(1) [of xs t, OF xs(2)] by (metis nth_take)
    then have "uni_out r s t ! 0 = hd (xs t)" using xs(2) [of t] by (simp add: hd_conv_nth [symmetric])
    then show ?thesis unfolding uni_handshake_sync_def msg by (simp add: uni_dup_def)
  qed
  have fr: "take (?n t) (drop (?z t) (uni_out r s t)) = fresh (last (?ll # concat (map xs [0..<t]))) (xs t)" if t: "t < NR_TASKLETS" for t
    unfolding uni_fresh [of xs, OF xs(2)] otake [OF t, symmetric] by (rule drop_take [symmetric])
  have all: "concat (map xs [0..<NR_TASKLETS]) = ?new"
    unfolding xs_def concat_blocks by simp
  have pack: "concat (map (\<lambda>t. take (?n t) (drop (?z t) (uni_out r s t))) [0..<NR_TASKLETS]) = fresh ?ll ?new"
  proof -
    have "concat (map (\<lambda>t. take (?n t) (drop (?z t) (uni_out r s t))) [0..<NR_TASKLETS])
        = concat (map (\<lambda>t. fresh (last (?ll # concat (map xs [0..<t]))) (xs t)) [0..<NR_TASKLETS])"
      by (rule arg_cong [where f = concat], rule map_cong) (simp_all add: fr)
    then show ?thesis by (simp only: fresh_blocks [symmetric] all)
  qed
  have tk: "?n t \<le> length (drop (?z t) (uni_out r s t))" if t: "t < NR_TASKLETS" for t
    using olen [OF t] uni_len_bounds(2) [of xs t] xs(1) [of t] by (simp add: diff_le_mono)
  have ns: "(\<Sum>t < NR_TASKLETS. ?n t) = length (fresh ?ll ?new)"
    unfolding pack [symmetric] by (rule pack_writes(2) [symmetric]) (rule tk)
  have pre_new: "map (sel_in m) [0..<Suc r * ?RW] = ?pre @ ?new"
    unfolding map_append [symmetric] by (rule arg_cong [where f = "map (sel_in m)"], subst upt_join) (simp_all add: add.commute)
  have new: "uni_spec m (Suc r * ?RW) = out @ fresh ?ll ?new"
    unfolding uni_spec_def out_def pre_new fresh_append ll ..
  have total: "length out + (\<Sum>t < NR_TASKLETS. ?n t) \<le> sel_words args"
    using r length_uni_spec [of m "Suc r * ?RW"] unfolding new ns by simp
  have s2': "s2 = s\<lparr>un_cache_B := (\<lambda>t. if t < NR_TASKLETS then uni_out r s t else un_cache_B s t),
    un_mram := fold (pack_write (\<lambda>t. drop (?z t) (uni_out r s t)) ?n (sel_B args + length out)) [0..<NR_TASKLETS] (un_mram s)\<rparr>"
    by (rule uni_phase [OF s2 ok r po l z count total])
  have mram2: "un_mram s2 j = (if sel_B args + length out \<le> j \<and> j < sel_B args + length out + (\<Sum>t < NR_TASKLETS. ?n t)
      then fresh ?ll ?new ! (j - (sel_B args + length out)) else un_mram s j)" for j
    using pack_writes(1) [of NR_TASKLETS ?n "\<lambda>t. drop (?z t) (uni_out r s t)", OF tk] by (simp add: s2' pack)
  have "un_mram s' j = (if sel_B args \<le> j \<and> j < sel_B args + length (uni_spec m (Suc r * ?RW))
      then uni_spec m (Suc r * ?RW) ! (j - sel_B args) else m j)" for j
  proof -
    have "un_mram s' j = un_mram s2 j" by (simp add: s' uni_update_def Let_def split: prod.splits)
    then show ?thesis unfolding mram2 mram new ns by (auto simp: nth_append)
  qed
  moreover have "un_count s' = of_nat (length (uni_spec m (Suc r * ?RW)))"
  proof -
    let ?t = "NR_TASKLETS - 1"
    have t: "?t < NR_TASKLETS" "Suc ?t = NR_TASKLETS" by simp_all
    have "(\<Sum>u < NR_TASKLETS. ?len u) = (\<Sum>u < NR_TASKLETS. ?n u) + (\<Sum>u < NR_TASKLETS. ?z u)"
      unfolding sum.distrib [symmetric] by (rule sum.cong) (use z in auto)
    then have "(\<Sum>u < ?t. ?len u) + ?len ?t = (\<Sum>u < NR_TASKLETS. ?n u) + ((\<Sum>u < ?t. ?z u) + ?z ?t)"
      by (metis t(2) sum.lessThan_Suc)
    then have eq: "of_nat (\<Sum>u < ?t. ?len u) + of_nat (?len ?t) = (of_nat (\<Sum>u < NR_TASKLETS. ?n u) + (of_nat (\<Sum>u < ?t. ?z u) + of_nat (?z ?t)) :: u32)"
      by (simp only: of_nat_add [symmetric])
    have "un_count s' = of_nat (length out) + of_nat (\<Sum>u < ?t. ?len u) + of_nat (?len ?t) - of_nat (\<Sum>u < ?t. ?z u) - of_nat (?z ?t)"
      unfolding s' uni_update_def Let_def po [OF t(1)] l [OF t(1)] by (simp add: s2' count)
    also have "\<dots> = of_nat (length out) + of_nat (\<Sum>u < NR_TASKLETS. ?n u)"
      using eq by (simp add: algebra_simps)
    finally show ?thesis unfolding new ns length_append of_nat_add .
  qed
  moreover have "un_last_from_last s' = last (0xFFFFFFFF # map (sel_in m) [0..<Suc r * ?RW])"
  proof -
    let ?t = "NR_TASKLETS - 1"
    have t: "?t < NR_TASKLETS" "[0..<NR_TASKLETS] = [0..<?t] @ [?t]" using upt_tasklets by auto
    have pos: "0 < ?len ?t" "?len ?t < 2 ^ 32" using uni_len_bounds(1) [of xs ?t, OF xs(2)] spec [OF z, of ?t] t(1) by auto
    then have "?l ?t \<noteq> 0" unfolding l [OF t(1)] by (metis less_not_refl unat_0 unat_of_nat32)
    moreover have e: "?l ?t - 1 = of_nat (?len ?t - 1)" using l [OF t(1)] pos by (simp add: of_nat_diff)
    have "unat (?l ?t - 1) = ?len ?t - 1" unfolding e by (rule unat_of_nat32) (use pos in simp)
    ultimately have "un_last_from_last s' = uni_out r s ?t ! (?len ?t - 1)"
      by (simp add: s' uni_update_def Let_def s2' split: prod.splits)
    also have "\<dots> = remdups_adj (xs ?t) ! (?len ?t - 1)" using otake [OF t(1)] pos by (metis diff_less nth_take zero_less_one)
    also have "\<dots> = last (xs ?t)" using last_conv_nth [of "remdups_adj (xs ?t)"] xs(2) [of ?t] by (simp add: uni_len_def)
    also have "\<dots> = last ?new" unfolding all [symmetric] t(2) using xs(2) [of ?t] by simp
    finally show ?thesis unfolding pre_new using sel_consts(3) NR_TASKLETS_pos by (auto simp del: NR_TASKLETS_pos)
  qed
  moreover have "length (un_cache_B s' t) = SEL_REGS" if "t < NR_TASKLETS" for t
    using olen [OF that] that by (simp add: s' uni_update_def Let_def s2' split: prod.splits)
  ultimately show ?thesis by (simp add: uni_inv_def Let_def)
qed


lemma uni_rounds_inv:
  assumes "sel_rounds (uni_round_late args) n s s'" "uni_inv args m 0 s" "sel_args_ok args"
    and "n * (SEL_REGS * NR_TASKLETS) \<le> sel_words args"
  shows "uni_inv args m n s'"
  using assms(1,4)
proof (induction n arbitrary: s')
  case (Suc n)
  then obtain s1 where "sel_rounds (uni_round_late args) n s s1" "uni_round_late args n s1 s'" by auto
  with Suc show ?case by (intro uni_round_inv [OF Suc.IH _ assms(3)]) auto
qed (use assms(2) in simp)

text \<open>
  C27: UNI writes the input without adjacent repetitions, in order and without gaps, and logs its length,
  in every run in which the shared words are updated after the writes of the round; a first word
  \<open>0xFFFFFFFF\<close> is taken for a repetition.
\<close>

theorem uni_main_correct:
  assumes "uni_main uni_round_late heap m m'" "args = sel_read_args_aligned m" "sel_args_ok args"
    and "\<forall>t < NR_TASKLETS. length (heap t) = SEL_REGS"
    and "out = tl (remdups_adj (0xFFFFFFFF # map (sel_in m) [0..<sel_words args]))"
  shows "(\<forall>k < length out. m' (sel_B args + k) = out ! k) \<and> m' (SK_LOG_OFFSET div 8) = of_nat (length out)"
proof -
  let ?m = "sk_log_init64 m" and ?n = "unat (sel_size args) div (SEL_BLOCK_SIZE * NR_TASKLETS)"
  let ?s = "\<lparr>un_mram = ?m, un_count = 0, un_last_from_last = 0xFFFFFFFF, un_cache_B = heap\<rparr>"
  obtain s where s: "sel_rounds (uni_round_late args) ?n ?s s"
    and m': "m' = sk_log_write_idx64 0 (ucast (un_count s)) (un_mram s)"
    using assms(1) by (auto simp: uni_main_def assms(2) [symmetric])
  note b = sel_bounds [OF assms(3)]
  have "uni_inv args ?m 0 ?s" using assms(4) by (auto simp: uni_inv_def uni_spec_def fresh_def)
  then have inv: "uni_inv args ?m ?n s" by (rule uni_rounds_inv [OF s _ assms(3)]) (simp add: b(3))
  have out: "uni_spec ?m (sel_words args) = out"
  proof -
    have "map (sel_in ?m) [0..<sel_words args] = map (sel_in m) [0..<sel_words args]"
      by (rule map_cong) (simp_all add: sel_in_def sel_below_log [OF assms(3)])
    then show ?thesis by (simp only: uni_spec_def fresh_def assms(5))
  qed
  have len: "length out \<le> sel_words args" using length_uni_spec [of ?m "sel_words args"] by (simp add: out)
  have s_out: "un_count s = of_nat (length out)"
    "\<And>j. un_mram s j = (if sel_B args \<le> j \<and> j < sel_B args + length out then out ! (j - sel_B args) else ?m j)"
    using inv unfolding uni_inv_def Let_def b(3) [symmetric] out by blast+
  have "m' (sel_B args + k) = out ! k" if "k < length out" for k
    using that len sel_below_log(2) [OF assms(3), of k] by (simp add: m' s_out)
  moreover have "length out < 2 ^ 32"
  proof -
    have "SK_LOG_OFFSET div 8 < 2 ^ 32" by (simp add: SK_LOG_OFFSET_def)
    then show ?thesis using len b(2) by linarith
  qed
  then have "m' (SK_LOG_OFFSET div 8) = of_nat (length out)"
    by (simp add: m' sk_log_write_idx64_cell s_out of_nat_ucast)
  ultimately show ?thesis by blast
qed

lemma uni_main_runs:
  assumes "sel_args_ok (sel_read_args_aligned m)"
  shows "\<exists>m'. uni_main uni_round_late heap m m'"
proof -
  let ?args = "sel_read_args_aligned m"
  have "\<exists>s'. sel_rounds (uni_round_late ?args) n s s'" for n s
  proof (induction n)
    case (Suc n)
    then obtain s1 where "sel_rounds (uni_round_late ?args) n s s1" by blast
    moreover have "\<exists>s2. uni_round_late ?args n s1 s2"
      unfolding uni_round_late_def late_last_def by (intro exI conjI, rule phase_seq) simp
    ultimately show ?case by auto
  qed auto
  then show ?thesis using assms by (auto simp: uni_main_def Let_def sel_args_ok_def)
qed

text \<open>One round of sevens.\<close>

definition uni_demo :: cells64 where
  "uni_demo j = (if j = 0x400 then 16384 else 7)"

theorem uni_main_correct_witness:
  "\<exists>m'. uni_main uni_round_late (\<lambda>_. replicate SEL_REGS 77) uni_demo m'
     \<and> m' (SK_LOG_OFFSET div 8) = 1 \<and> m' (sel_B (sel_read_args_aligned uni_demo)) = 7"
proof -
  let ?args = "\<lparr>sel_size = 16384, sel_kernel = 0\<rparr>"
  have args: "?args = sel_read_args_aligned uni_demo"
    by (simp add: sel_read_args_aligned_def mram_read64_def SEL_ARG_OFFSET_def uni_demo_def Let_def lo32_def hi32_def)
  have ok: "sel_args_ok ?args"
    by (simp add: sel_args_ok_def SEL_BLOCK_SIZE_def NR_TASKLETS_def SEL_A_OFFSET_def SEL_ARG_OFFSET_def SK_LOG_OFFSET_def)
  obtain m' where m': "uni_main uni_round_late (\<lambda>_. replicate SEL_REGS 77) uni_demo m'"
    using uni_main_runs [of uni_demo] ok unfolding args by blast
  have A: "sel_A = 0x420" by (simp add: sel_A_def SEL_A_OFFSET_def SEL_ARG_OFFSET_def)
  have "map (sel_in uni_demo) [0..<n] = replicate n 7" for n
    by (rule nth_equalityI) (simp_all add: sel_in_def uni_demo_def A)
  moreover have "sel_words ?args = Suc 2047" by (simp add: sel_words_def)
  ultimately have out: "tl (remdups_adj (0xFFFFFFFF # map (sel_in uni_demo) [0..<sel_words ?args])) = [7]"
    by (simp only: replicate_Suc remdups_adj.simps) (simp add: remdups_adj_replicate flip: replicate_Suc)
  have "(\<forall>k < length [7 :: u64]. m' (sel_B ?args + k) = [7] ! k) \<and> m' (SK_LOG_OFFSET div 8) = of_nat (length [7 :: u64])"
    by (rule uni_main_correct [OF m' args ok _ out [symmetric]]) simp
  then show ?thesis using m' unfolding args [symmetric] by auto
qed

end
