(* ===== verification/Kernel_GEMV.thy ===== *)
theory Kernel_GEMV imports SPMD
begin

text \<open>
  Matrix-vector product, \<^verbatim>\<open>src/src/gemv/main.c\<close>. The rows are shared out to the tasklets in pairs,
  so that the two results fill a DMA transfer of eight bytes. Rows are packed without padding: a row
  of an odd number of words may start in the middle of a DMA cell, and then the cache is shifted
  down by one word after the read (\<open>offset\<close>). The definitions take the block size, for
  \<^verbatim>\<open>MLP/main.c\<close> has the same loops over smaller blocks (\<open>Kernel_MLP\<close>).
\<close>

section \<open>The kernel\<close>

record gemv_arguments =
  ge_n_size :: u32
  ge_n_size_pad :: u32
  ge_nr_rows :: u32
  ge_max_rows :: u32

definition GEMV_BLOCK_SIZE :: nat where "GEMV_BLOCK_SIZE = 2 ^ 10"
definition GEMV_ARG_OFFSET :: nat where "GEMV_ARG_OFFSET = 0x2000"
definition GEMV_A_OFFSET :: nat where "GEMV_A_OFFSET = GEMV_ARG_OFFSET + (16 + 0xFF) div 0x100 * 0x100"

definition gemv_read_args :: "cells \<Rightarrow> gemv_arguments" where
  "gemv_read_args m =
     (let buf = mram_read m GEMV_ARG_OFFSET 16
      in \<lparr>ge_n_size = buf ! 0, ge_n_size_pad = buf ! 1, ge_nr_rows = buf ! 2, ge_max_rows = buf ! 3\<rparr>)"

definition element_per_cacheC :: nat where "element_per_cacheC = 8 div 4"

definition gemv_rows_per_tasklet :: "nat \<Rightarrow> nat \<Rightarrow> nat" where
  "gemv_rows_per_tasklet nrows tasklet_id =
     (let chunks = nrows div (NR_TASKLETS * element_per_cacheC);
          dbl_chunks = chunks * element_per_cacheC;
          rest_rows = nrows mod (NR_TASKLETS * element_per_cacheC)
      in if tasklet_id * element_per_cacheC < rest_rows then dbl_chunks + element_per_cacheC else dbl_chunks)"

definition gemv_start_row :: "nat \<Rightarrow> nat \<Rightarrow> nat" where
  "gemv_start_row nrows tasklet_id =
     (let chunks = nrows div (NR_TASKLETS * element_per_cacheC);
          dbl_chunks = chunks * element_per_cacheC;
          rest_rows = nrows mod (NR_TASKLETS * element_per_cacheC)
      in if 0 < rest_rows then
           if rest_rows \<le> tasklet_id * element_per_cacheC then
             if rest_rows mod element_per_cacheC \<noteq> 0
             then rest_rows div element_per_cacheC * element_per_cacheC + element_per_cacheC + tasklet_id * dbl_chunks
             else rest_rows + tasklet_id * dbl_chunks
           else tasklet_id * (dbl_chunks + element_per_cacheC)
         else tasklet_id * dbl_chunks)"

definition gemv_base_B :: "gemv_arguments \<Rightarrow> nat" where
  "gemv_base_B args = GEMV_A_OFFSET + unat (ge_max_rows args) * unat (ge_n_size_pad args) * 4"

definition gemv_base_C :: "gemv_arguments \<Rightarrow> nat \<Rightarrow> nat" where
  "gemv_base_C args start_row = gemv_base_B args + unat (ge_n_size_pad args) * 4 + start_row * 4"

definition gemv_inner :: "nat \<Rightarrow> u32 list \<Rightarrow> u32 list \<Rightarrow> u32 list \<Rightarrow> nat \<Rightarrow> u32 list" where
  "gemv_inner blk bufferC bufferA bufferB pos =
     fold (\<lambda>i bufferC. bufferC[pos := bufferC ! pos + bufferA ! i * bufferB ! i]) [0..<blk div 4] bufferC"

definition gemv_load_A :: "nat \<Rightarrow> cells \<Rightarrow> nat \<Rightarrow> bool \<Rightarrow> u32 list" where
  "gemv_load_A blk m addr_A offset =
     (let cache_A = mram_read m addr_A blk
      in if offset then
           (let cache_A = fold (\<lambda>off cache_A. cache_A[off := cache_A ! (off + 1)]) [0..<blk div 4 - 1] cache_A;
                cache_A_aux = mram_read m (addr_A + blk) 8
            in cache_A[blk div 4 - 1 := cache_A_aux ! 0])
         else cache_A)"

text \<open>One row: the loop over whole blocks, then the last block, of which \<open>n_size - n\<close> words count.\<close>

definition gemv_row :: "nat \<Rightarrow> u32 \<Rightarrow> nat \<Rightarrow> cells \<Rightarrow> nat \<Rightarrow> nat \<times> bool \<times> u32 list \<Rightarrow> nat \<times> bool \<times> u32 list" where
  "gemv_row blk n_size base_B m pos s =
     (let (addr_A, offset, cache_C) = s;
          w = blk div 4;
          ns = stride_list w 0 (nat (sint (n_size - of_nat w)));
          (addr_A, addr_B, cache_C) =
            fold (\<lambda>n (addr_A, addr_B, cache_C).
                (addr_A + blk, addr_B + blk,
                 gemv_inner blk cache_C (gemv_load_A blk m addr_A offset) (mram_read m addr_B blk) pos))
              ns (addr_A, base_B, cache_C);
          n = w * length ns;
          cache_A = gemv_load_A blk m addr_A offset;
          cache_B = mram_read m addr_B blk;
          rest = nat (sint n_size - int n);
          cache_C = fold (\<lambda>j cache_C. cache_C[pos := cache_C ! pos + cache_A ! j * cache_B ! j]) [0..<min rest w] cache_C;
          addr_A = addr_A + (blk - (w - rest) * 4)
      in (addr_A, addr_A mod 8 \<noteq> 0, cache_C))"

text \<open>A pair of rows from row \<open>i\<close> on; the result is what goes to MRAM and the \<open>offset\<close> left behind.\<close>

definition gemv_pair :: "nat \<Rightarrow> gemv_arguments \<Rightarrow> cells \<Rightarrow> nat \<Rightarrow> bool \<Rightarrow> bool \<times> u32 list" where
  "gemv_pair blk args m i offset =
     snd (fold (\<lambda>pos s. if unat (ge_nr_rows args) \<le> i + pos then s
                         else gemv_row blk (ge_n_size args) (gemv_base_B args) m pos s)
            [0..<element_per_cacheC] (GEMV_A_OFFSET + i * unat (ge_n_size args) * 4, offset, replicate element_per_cacheC 0))"

text \<open>
  The variable \<open>offset\<close> lives on from one pair of a tasklet to the next. It depends on addresses only,
  so that any memory, here that at the start, gives its values.
\<close>

fun gemv_offset :: "nat \<Rightarrow> gemv_arguments \<Rightarrow> cells \<Rightarrow> nat \<Rightarrow> nat \<Rightarrow> bool" where
  "gemv_offset blk args m start_row 0 = False"
| "gemv_offset blk args m start_row (Suc k) =
     fst (gemv_pair blk args m (start_row + k * element_per_cacheC) (gemv_offset blk args m start_row k))"

definition gemv_step :: "nat \<Rightarrow> gemv_arguments \<Rightarrow> cells \<Rightarrow> nat \<times> nat \<Rightarrow> cells \<Rightarrow> cells" where
  "gemv_step blk args m0 tk m =
     (let (tasklet_id, k) = tk; start_row = gemv_start_row (unat (ge_nr_rows args)) tasklet_id;
          i = start_row + k * element_per_cacheC
      in mram_write (snd (gemv_pair blk args m i (gemv_offset blk args m0 start_row k))) (gemv_base_C args start_row + 8 * k) 8 m)"

definition gemv_pairs :: "gemv_arguments \<Rightarrow> nat \<Rightarrow> (nat \<times> nat) list" where
  "gemv_pairs args tasklet_id =
     map (Pair tasklet_id) [0..<gemv_rows_per_tasklet (unat (ge_nr_rows args)) tasklet_id div element_per_cacheC]"

definition gemv_compute :: "nat \<Rightarrow> gemv_arguments \<Rightarrow> cells \<Rightarrow> cells \<Rightarrow> bool" where
  "gemv_compute blk args m m' \<longleftrightarrow> phase (map (\<lambda>t. map (gemv_step blk args m) (gemv_pairs args t)) [0..<NR_TASKLETS]) m m'"

definition gemv_main :: "cells \<Rightarrow> cells \<Rightarrow> bool" where
  "gemv_main m m' \<longleftrightarrow> (let m = sk_log_init m in gemv_compute GEMV_BLOCK_SIZE (gemv_read_args m) m m')"

section \<open>The share of a tasklet\<close>

lemma elements [simp]: "element_per_cacheC = 2"
  by (simp add: element_per_cacheC_def)

lemma gemv_rows_even: "even (gemv_rows_per_tasklet n t)" "even (gemv_start_row n t)"
  by (auto simp: gemv_rows_per_tasklet_def gemv_start_row_def Let_def)

lemma gemv_start_row_Suc:
  "gemv_start_row n (Suc t) = gemv_start_row n t + gemv_rows_per_tasklet n t"
proof -
  define r where "r = n mod (NR_TASKLETS * 2)"
  define d where "d = n div (NR_TASKLETS * 2) * 2"
  obtain k where "r = 2 * k \<or> r = Suc (2 * k)" by (metis evenE oddE add.commute plus_1_eq_Suc)
  then show ?thesis
    unfolding gemv_start_row_def gemv_rows_per_tasklet_def Let_def elements r_def [symmetric] d_def [symmetric]
    by (elim disjE) (simp_all, (auto simp: algebra_simps)[1], presburger+)
qed

lemma gemv_start_row_0: "gemv_start_row n 0 = 0"
  by (simp add: gemv_start_row_def Let_def)

lemma gemv_start_row_end:
  "gemv_start_row n NR_TASKLETS = n + n mod 2"
proof -
  define r where "r = n mod (NR_TASKLETS * 2)"
  define q where "q = n div (NR_TASKLETS * 2)"
  have n: "n = NR_TASKLETS * (q * 2) + r" unfolding r_def q_def by (metis div_mult_mod_eq mult.assoc mult.commute)
  have r: "r < NR_TASKLETS * 2" unfolding r_def by simp
  have "n mod 2 = r mod 2" unfolding n by (simp flip: mult.assoc)
  then show ?thesis
    using r n unfolding gemv_start_row_def Let_def elements r_def [symmetric] q_def [symmetric]
    by (cases "even r") (auto elim!: evenE oddE)
qed

lemma gemv_start_row_mono: "t \<le> u \<Longrightarrow> gemv_start_row n t \<le> gemv_start_row n u"
  by (rule lift_Suc_mono_le) (simp_all add: gemv_start_row_Suc)

text \<open>Every row is in the share of one tasklet.\<close>

lemma gemv_row_owner:
  assumes "i < gemv_start_row n T"
  shows "\<exists>t < T. gemv_start_row n t \<le> i \<and> i < gemv_start_row n t + gemv_rows_per_tasklet n t"
  using assms
proof (induction T)
  case (Suc T)
  show ?case
  proof (cases "i < gemv_start_row n T")
    case True
    with Suc obtain t where "t < T" "gemv_start_row n t \<le> i \<and> i < gemv_start_row n t + gemv_rows_per_tasklet n t" by blast
    then show ?thesis by (metis less_SucI)
  next
    case False
    then show ?thesis using Suc.prems by (auto simp: gemv_start_row_Suc)
  qed
qed (simp add: gemv_start_row_0)


section \<open>A row\<close>

lemma length_stride_list:
  assumes "0 < w"
  shows "length (stride_list w b n) = (n - b + w - 1) div w"
  using assms
proof (induction w b n rule: stride_list.induct)
  case (1 w b n)
  show ?case
  proof (cases "b < n")
    case True
    have "(n - b + w - 1) div w = Suc ((n - (b + w) + w - 1) div w)"
    proof (cases "n - b \<le> w")
      case le: True
      then have "(n - b + w - 1) div w = 1" using True 1(2) by (intro div_nat_eqI) auto
      then show ?thesis using le 1(2) by simp
    next
      case False
      then have "n - b + w - 1 = (n - (b + w) + w - 1) + w" by simp
      moreover have "((n - (b + w) + w - 1) + w) div w = Suc ((n - (b + w) + w - 1) div w)"
        using div_add_self2 [of w "n - (b + w) + w - 1"] 1(2) by linarith
      ultimately show ?thesis by (simp only:)
    qed
    then show ?thesis using True 1 by (simp add: stride_list.simps [of w b n])
  next
    case False
    then show ?thesis using 1(2) by (simp add: stride_list.simps [of w b n])
  qed
qed

lemma sint_small:
  assumes "unat (x :: u32) < 2 ^ 31"
  shows "sint x = int (unat x)"
proof -
  have bounds: "int (unat x) < 2 ^ 31" "0 \<le> int (unat x)" "(0 :: int) \<le> 2 ^ 31" using assms by (simp_all only: of_nat_less_iff [where 'a = int, symmetric] of_nat_power of_nat_numeral of_nat_0_le_iff zero_le_power zero_le_numeral)
  have "uint x = int (unat x)" by simp
  then have "sint x = signed_take_bit 31 (int (unat x))" by (simp only: sint_uint) simp
  also have "\<dots> = int (unat x)" by (rule signed_take_bit_int_eq_self) (insert bounds, linarith+)
  finally show ?thesis .
qed
lemma sint_diff:
  assumes "unat (x :: u32) < 2 ^ 31" "w < 2 ^ 31"
  shows "sint (x - of_nat w) = int (unat x) - int w"
proof -
  have bounds: "int (unat x) < 2 ^ 31" "0 \<le> int (unat x)" "int w < 2 ^ 31" "0 \<le> int w" using assms by (simp_all only: of_nat_less_iff [where 'a = int, symmetric] of_nat_power of_nat_numeral of_nat_0_le_iff)
  have "sint (x - of_nat w) = sint (word_of_int (int (unat x) - int w) :: u32)" by simp
  also have "\<dots> = signed_take_bit 31 (int (unat x) - int w)" by (simp only: signed_of_int) simp
  also have "\<dots> = int (unat x) - int w" by (rule signed_take_bit_int_eq_self) (insert bounds, linarith+)
  finally show ?thesis .
qed

lemma fold_const: "fold (\<lambda>_. g) xs s = (g ^^ length xs) s"
  by (induction xs arbitrary: s) (simp_all add: funpow_swap1)

lemma fold_update_sum:
  "pos < length C \<Longrightarrow> fold (\<lambda>i C. C[pos := C ! pos + f i]) [0..<n] (C :: u32 list) = C[pos := C ! pos + (\<Sum>i < n. f i)]"
  by (induction n) (simp_all add: add.assoc)

lemma gemv_load_A_words:
  assumes "a mod 4 = 0" "blk mod 8 = 0" "0 < blk"
  shows "gemv_load_A blk m a (a mod 8 \<noteq> 0) = map (\<lambda>i. m (a div 4 + i)) [0..<blk div 4]"
proof (cases "a mod 8 = 0")
  case True
  then show ?thesis using assms by (simp add: gemv_load_A_def mram_read_cells)
next
  case False
  with assms(1) have "\<exists>b. a = 8 * b + 4" by presburger
  then obtain b where b: "a = 8 * b + 4" ..
  obtain n where n: "blk = 8 * Suc n" using assms(2,3) by (metis dvdE mod_eq_0_iff_dvd mult_0_right not_less_zero old.nat.exhaust)
  have eqs: "a div 8 = b" "a div 4 = 2 * b + 1" "(a + blk) div 8 = b + Suc n" "blk div 8 = Suc n" "blk div 4 = 2 * Suc n"
    unfolding b n by simp_all
  let ?c = "map (\<lambda>i. m (2 * b + i)) [0..<2 * Suc n]"
  have shift: "fold (\<lambda>off c. c[off := c ! (off + 1)]) [0..<k] (c :: u32 list) = map (\<lambda>i. if i < k then c ! Suc i else c ! i) [0..<length c]"
    if "k < length c" for k c
    using that by (induction k) (auto intro!: nth_equalityI simp: nth_list_update less_Suc_eq)
  let ?s = "map (\<lambda>i. if i < 2 * Suc n - 1 then ?c ! Suc i else ?c ! i) [0..<2 * Suc n]"
  have sh: "fold (\<lambda>off c. c[off := c ! (off + 1)]) [0..<2 * Suc n - 1] ?c = ?s"
    by (rule shift [THEN trans]) simp_all
  have c: "mram_read m a blk = ?c" by (simp only: mram_read_def eqs)
  have aux: "mram_read m (a + blk) 8 ! 0 = m (2 * (b + Suc n))" by (simp add: mram_read_def eqs)
  have "gemv_load_A blk m a True = ?s[2 * Suc n - 1 := m (2 * (b + Suc n))]"
    by (simp only: gemv_load_A_def Let_def c aux eqs if_True sh)
  also have "\<dots> = map (\<lambda>i. m (a div 4 + i)) [0..<blk div 4]"
  proof (rule nth_equalityI)
    fix i assume "i < length (?s[2 * Suc n - 1 := m (2 * (b + Suc n))])"
    then have i: "i < 2 * Suc n" by (simp del: upt_Suc)
    show "?s[2 * Suc n - 1 := m (2 * (b + Suc n))] ! i = map (\<lambda>i. m (a div 4 + i)) [0..<blk div 4] ! i"
    proof (cases "i = 2 * Suc n - 1")
      case True
      then show ?thesis using i by (simp add: eqs del: upt_Suc)
    next
      case False
      then have "Suc i < 2 * Suc n" "i < 2 * Suc n - 1" using i by auto
      then show ?thesis using i False by (simp add: eqs del: upt_Suc mult_Suc_right)
    qed
  qed (simp add: eqs del: upt_Suc)
  finally show ?thesis using False by simp
qed

definition dot :: "cells \<Rightarrow> nat \<Rightarrow> nat \<Rightarrow> nat \<Rightarrow> u32" where
  "dot m a b n = (\<Sum>k < n. m (a + k) * m (b + k))"

lemma dot_add: "dot m a b k + dot m (a + k) (b + k) n = dot m a b (k + n)"
  by (induction n) (simp_all add: dot_def add.assoc)

lemma gemv_row_spec:
  assumes blk: "blk mod 8 = 0" "0 < blk" "blk < 2 ^ 31" and n: "unat n_size < 2 ^ 31"
    and a: "a mod 4 = 0" "b mod 8 = 0" and pos: "pos < length C"
  shows "gemv_row blk n_size b m pos (a, a mod 8 \<noteq> 0, C)
    = (a + unat n_size * 4, (a + unat n_size * 4) mod 8 \<noteq> 0, C[pos := C ! pos + dot m (a div 4) (b div 4) (unat n_size)])"
proof -
  define w where "w = blk div 4"
  define K where "K = length (stride_list w 0 (nat (sint (n_size - of_nat w))))"
  obtain v where v: "blk = 8 * v" using blk(1) by (auto simp: mod_eq_0_iff_dvd elim!: dvdE)
  have w: "blk = 4 * w" "0 < w" "w < 2 ^ 31" "even w" using blk v by (auto simp: w_def)
  have sn: "sint n_size = int (unat n_size)" using n by (rule sint_small)
  have sd: "nat (sint (n_size - of_nat w)) = unat n_size - w"
    unfolding sint_diff [OF n w(3)] by (simp only: nat_diff_distrib' of_nat_0_le_iff nat_int)
  have K: "K = (unat n_size - w + w - 1) div w" unfolding K_def sd using w(2) by (simp add: length_stride_list)
  have Kn: "w * K \<le> unat n_size" "unat n_size - w * K \<le> w"
  proof -
    have "w * K \<le> unat n_size - w + w - 1" unfolding K by simp
    moreover have "unat n_size - w + w - 1 < w * K + w" unfolding K using w(2) by (metis add.commute div_mult_mod_eq mod_less_divisor mult.commute nat_add_left_cancel_less)
    moreover have "K = 0" if "unat n_size \<le> w" unfolding K using that w(2) by simp
    ultimately show "w * K \<le> unat n_size" "unat n_size - w * K \<le> w" by (cases "unat n_size \<le> w"; simp)+
  qed
  have off: "(a + blk * k) mod 8 = a mod 8" "(b + blk * k) mod 8 = 0" "(a + blk * k) mod 4 = 0" for k
    unfolding v using a by (simp_all add: mult.assoc)
      (metis (no_types) mod_mult_self2 mult.assoc mult.commute numeral_Bit0 mult_2)
  have dv: "(a + blk * k) div 4 = a div 4 + w * k" "(b + blk * k) div 4 = b div 4 + w * k" for k
    unfolding w(1) by (simp_all add: mult.assoc)
  have loadA: "gemv_load_A blk m (a + blk * k) (a mod 8 \<noteq> 0) = map (\<lambda>i. m (a div 4 + w * k + i)) [0..<w]" for k
    using gemv_load_A_words [of "a + blk * k" blk m] off blk dv by (simp add: w_def)
  have loadB: "mram_read m (b + blk * k) blk = map (\<lambda>i. m (b div 4 + w * k + i)) [0..<w]" for k
    using off blk dv by (simp add: mram_read_cells w_def)
  let ?A = "a div 4" and ?B = "b div 4"
  let ?g = "\<lambda>(addr_A, addr_B, c). (addr_A + blk, addr_B + blk, gemv_inner blk c (gemv_load_A blk m addr_A (a mod 8 \<noteq> 0)) (mram_read m addr_B blk) pos)"
  have part: "fold (\<lambda>j c. c[pos := c ! pos + map (\<lambda>i. m (?A + w * k + i)) [0..<w] ! j * map (\<lambda>i. m (?B + w * k + i)) [0..<w] ! j]) [0..<l] c
      = c[pos := c ! pos + dot m (?A + w * k) (?B + w * k) l]" if "l \<le> w" "pos < length c" for l k c
  proof -
    have "fold (\<lambda>j c. c[pos := c ! pos + map (\<lambda>i. m (?A + w * k + i)) [0..<w] ! j * map (\<lambda>i. m (?B + w * k + i)) [0..<w] ! j]) [0..<l] c
        = fold (\<lambda>j c. c[pos := c ! pos + m (?A + w * k + j) * m (?B + w * k + j)]) [0..<l] c"
      by (rule fold_cong) (use that in auto)
    then show ?thesis by (simp add: fold_update_sum that(2) dot_def)
  qed
  have loop: "(?g ^^ k) (a, b, C) = (a + blk * k, b + blk * k, C[pos := C ! pos + dot m ?A ?B (w * k)])" for k
  proof (induction k)
    case (Suc k)
    have "gemv_inner blk (C[pos := C ! pos + dot m ?A ?B (w * k)]) (gemv_load_A blk m (a + blk * k) (a mod 8 \<noteq> 0)) (mram_read m (b + blk * k) blk) pos
        = (C[pos := C ! pos + dot m ?A ?B (w * k)])[pos := C ! pos + dot m ?A ?B (w * k) + dot m (?A + w * k) (?B + w * k) w]"
      unfolding gemv_inner_def w_def [symmetric] loadA loadB using part [of w] pos by simp
    then show ?case using Suc by (simp add: dot_add add.assoc add.commute [of "w * k" w])
  qed (use pos in \<open>simp add: dot_def\<close>)
  have rest: "nat (sint n_size - int (w * K)) = unat n_size - w * K" unfolding sn by (simp only: nat_diff_distrib' of_nat_0_le_iff nat_int)
  have addr: "a + blk * K + (blk - (w - (unat n_size - w * K)) * 4) = a + unat n_size * 4"
    unfolding w(1) using Kn by (simp add: algebra_simps)
  show ?thesis
    unfolding gemv_row_def Let_def prod.case w_def [symmetric] K_def [symmetric] fold_const loop rest loadA loadB addr
    using part [of "unat n_size - w * K"] Kn pos by (simp add: min_absorb1 dot_add add.assoc)
qed


section \<open>A pair of rows, and all of them\<close>

definition gemv_args_ok :: "gemv_arguments \<Rightarrow> bool" where
  "gemv_args_ok args \<longleftrightarrow> unat (ge_n_size args) < 2 ^ 31
     \<and> even (unat (ge_n_size_pad args)) \<and> even (unat (ge_max_rows args) * unat (ge_n_size_pad args))
     \<and> unat (ge_n_size args) \<le> unat (ge_n_size_pad args) \<and> unat (ge_nr_rows args) \<le> unat (ge_max_rows args)
     \<and> gemv_base_C args (unat (ge_nr_rows args) + 1) \<le> SK_LOG_OFFSET"

text \<open>Words of MRAM: the matrix from \<open>gemv_A\<close> on, row by row, the vector, and the result.\<close>

definition gemv_A :: nat where "gemv_A = GEMV_A_OFFSET div 4"
definition gemv_B :: "gemv_arguments \<Rightarrow> nat" where "gemv_B args = gemv_base_B args div 4"
definition gemv_C :: "gemv_arguments \<Rightarrow> nat" where "gemv_C args = gemv_base_C args 0 div 4"

definition gemv_entry :: "gemv_arguments \<Rightarrow> cells \<Rightarrow> nat \<Rightarrow> u32" where
  "gemv_entry args m i = (if i < unat (ge_nr_rows args)
     then dot m (gemv_A + i * unat (ge_n_size args)) (gemv_B args) (unat (ge_n_size args)) else 0)"

lemma gemv_layout:
  assumes "gemv_args_ok args"
  shows "GEMV_A_OFFSET = 4 * gemv_A" "gemv_A mod 2 = 0" "gemv_base_B args = 4 * gemv_B args" "gemv_base_B args mod 8 = 0"
    "gemv_base_C args s = 4 * (gemv_C args + s)" "even (gemv_C args)"
    "gemv_B args = gemv_A + unat (ge_max_rows args) * unat (ge_n_size_pad args)"
    "gemv_C args = gemv_B args + unat (ge_n_size_pad args)"
proof -
  let ?P = "unat (ge_n_size_pad args)" and ?M = "unat (ge_max_rows args) * unat (ge_n_size_pad args)"
  show A: "GEMV_A_OFFSET = 4 * gemv_A" "gemv_A mod 2 = 0" by (simp_all add: gemv_A_def GEMV_A_OFFSET_def GEMV_ARG_OFFSET_def)
  have B: "gemv_base_B args = 4 * (gemv_A + ?M)" by (simp add: gemv_base_B_def A)
  then show gB: "gemv_B args = gemv_A + ?M" by (simp add: gemv_B_def)
  then show B4: "gemv_base_B args = 4 * gemv_B args" using B by simp
  have C: "gemv_base_C args s = 4 * (gemv_B args + ?P + s)" for s by (simp add: gemv_base_C_def B4)
  then show gC: "gemv_C args = gemv_B args + ?P" by (simp add: gemv_C_def)
  then show "gemv_base_C args s = 4 * (gemv_C args + s)" using C by simp
  have "even (gemv_B args)" using assms A(2) by (simp add: gB gemv_args_ok_def mod_2_eq_odd)
  then show "gemv_base_B args mod 8 = 0" "even (gemv_C args)" using assms by (auto simp: B4 gC gemv_args_ok_def elim!: evenE)
qed

lemma gemv_pair_spec:
  assumes ok: "gemv_args_ok args" and blk: "blk mod 8 = 0" "0 < blk" "blk < 2 ^ 31" and i: "even i"
  shows "snd (gemv_pair blk args m i False) = [gemv_entry args m i, gemv_entry args m (Suc i)]"
    "Suc i < unat (ge_nr_rows args) \<Longrightarrow> \<not> fst (gemv_pair blk args m i False)"
proof -
  let ?n = "unat (ge_n_size args)" and ?r = "unat (ge_nr_rows args)" and ?b = "gemv_base_B args"
  define a where "a = GEMV_A_OFFSET + i * ?n * 4"
  note lay = gemv_layout [OF ok]
  have n: "?n < 2 ^ 31" using ok by (simp add: gemv_args_ok_def)
  have a: "a = 4 * (gemv_A + i * ?n)" "a + ?n * 4 = 4 * (gemv_A + Suc i * ?n)" by (simp_all add: a_def lay(1))
  then have a4: "a div 4 = gemv_A + i * ?n" "(a + ?n * 4) div 4 = gemv_A + Suc i * ?n" "a mod 4 = 0" "(a + ?n * 4) mod 4 = 0" "?b div 4 = gemv_B args"
    using lay(3) by simp_all
  have a8: "a mod 8 = 0" "(a + ?n * 4 + ?n * 4) mod 8 = 0"
  proof -
    obtain g j where "gemv_A = 2 * g" "i = 2 * j" using lay(2) i by (auto simp: mod_eq_0_iff_dvd elim!: evenE dvdE)
    then have "a = 8 * (g + j * ?n)" "a + ?n * 4 + ?n * 4 = 8 * (g + j * ?n + ?n)" by (simp_all add: a_def lay(1) algebra_simps)
    then show "a mod 8 = 0" "(a + ?n * 4 + ?n * 4) mod 8 = 0" by (simp_all only: mod_mult_self1_is_0)
  qed
  define o1 where "o1 \<longleftrightarrow> (a + ?n * 4) mod 8 \<noteq> 0"
  define d where "d i = dot m (gemv_A + i * ?n) (gemv_B args) ?n" for i
  note row = gemv_row_spec [OF blk n]
  have row0: "gemv_row blk (ge_n_size args) ?b m 0 (a, False, [0, 0])
      = (a + ?n * 4, o1, [d i, 0])"
    using row [OF a4(3) lay(4), of 0 "[0, 0]" m] unfolding a4(1,5) a8(1) o1_def [symmetric] d_def [symmetric] by simp
  have row1: "gemv_row blk (ge_n_size args) ?b m (Suc 0) (a + ?n * 4, o1, [x, 0])
      = (a + ?n * 4 + ?n * 4, False, [x, d (Suc i)])" for x
    using row [OF a4(4) lay(4), of "Suc 0" "[x, 0]" m] unfolding a4(2,5) a8(2) o1_def [symmetric] d_def [symmetric] by simp
  have two: "[0..<2] = [0, Suc 0]" "replicate 2 (0 :: u32) = [0, 0]" by (simp_all add: numeral_2_eq_2)
  consider "Suc i < ?r" | "Suc i = ?r" | "?r \<le> i" by linarith
  then show "snd (gemv_pair blk args m i False) = [gemv_entry args m i, gemv_entry args m (Suc i)]"
    unfolding gemv_pair_def elements two gemv_entry_def a_def [symmetric] d_def [symmetric]
    by cases (simp_all add: row0 row1)
  show "\<not> fst (gemv_pair blk args m i False)" if "Suc i < ?r"
    using that unfolding gemv_pair_def elements two a_def [symmetric] by (simp add: row0 row1)
qed

lemma gemv_offset_False:
  assumes "gemv_args_ok args" "blk mod 8 = 0" "0 < blk" "blk < 2 ^ 31" "even start" "start + 2 * k < unat (ge_nr_rows args)"
  shows "\<not> gemv_offset blk args m start k"
  using assms(6)
proof (induction k)
  case (Suc k)
  then have "\<not> gemv_offset blk args m start k" by simp
  moreover have "start + 2 * k = k * 2 + start" by simp
  ultimately show ?case using gemv_pair_spec(2) [OF assms(1-4), of "start + k * 2" m] Suc.prems assms(5) by simp
qed simp

definition gemv_index :: "gemv_arguments \<Rightarrow> nat \<times> nat \<Rightarrow> nat" where
  "gemv_index args tk = gemv_start_row (unat (ge_nr_rows args)) (fst tk) + 2 * snd tk"

definition gemv_indices :: "nat \<Rightarrow> gemv_arguments \<Rightarrow> (nat \<times> nat) set" where
  "gemv_indices blk args = {(t, k). gemv_args_ok args \<and> blk mod 8 = 0 \<and> 0 < blk \<and> blk < 2 ^ 31
     \<and> t < NR_TASKLETS \<and> 2 * k < gemv_rows_per_tasklet (unat (ge_nr_rows args)) t}"

lemma gemv_index_bounds:
  assumes "(t, k) \<in> gemv_indices blk args"
  shows "even (gemv_index args (t, k))" "gemv_start_row (unat (ge_nr_rows args)) t \<le> gemv_index args (t, k)"
    "Suc (gemv_index args (t, k)) < gemv_start_row (unat (ge_nr_rows args)) (Suc t)"
    "gemv_index args (t, k) < unat (ge_nr_rows args)"
proof -
  let ?n = "unat (ge_nr_rows args)"
  have e: "even (gemv_rows_per_tasklet ?n t)" "even (gemv_start_row ?n t)" by (rule gemv_rows_even)+
  have tk: "t < NR_TASKLETS" "2 * k < gemv_rows_per_tasklet ?n t" using assms by (auto simp: gemv_indices_def)
  show ev: "even (gemv_index args (t, k))" "gemv_start_row ?n t \<le> gemv_index args (t, k)"
    using e by (simp_all add: gemv_index_def)
  show lt: "Suc (gemv_index args (t, k)) < gemv_start_row ?n (Suc t)"
    using tk(2) e(1) by (auto simp: gemv_index_def gemv_start_row_Suc elim!: evenE)
  have "gemv_start_row ?n (Suc t) \<le> gemv_start_row ?n NR_TASKLETS" by (rule gemv_start_row_mono) (use tk in simp)
  then have "Suc (gemv_index args (t, k)) < ?n + ?n mod 2" using lt gemv_start_row_end [of ?n] by linarith
  then show "gemv_index args (t, k) < ?n" by linarith
qed

lemma gemv_step_cell:
  assumes "tk \<in> gemv_indices blk args"
  shows "gemv_step blk args m0 tk m j =
    (if j \<in> {gemv_C args + gemv_index args tk, Suc (gemv_C args + gemv_index args tk)}
     then gemv_entry args m (j - gemv_C args) else m j)"
proof -
  obtain t k where tk: "tk = (t, k)" by fastforce
  have ok: "gemv_args_ok args" "blk mod 8 = 0" "0 < blk" "blk < 2 ^ 31" using assms by (auto simp: gemv_indices_def)
  let ?s = "gemv_start_row (unat (ge_nr_rows args)) t" and ?i = "gemv_index args (t, k)"
  note b = gemv_index_bounds [OF assms [unfolded tk]]
  have i: "?s + k * 2 = ?i" by (simp add: gemv_index_def)
  have off: "gemv_offset blk args m0 ?s k = False"
    using gemv_offset_False [OF ok gemv_rows_even(2), of "unat (ge_nr_rows args)" t k m0] b(4) by (simp add: gemv_index_def)
  have addr: "gemv_base_C args ?s + 8 * k = 4 * (gemv_C args + ?i)"
    using gemv_layout(5) [OF ok(1), of ?s] by (simp add: gemv_index_def algebra_simps)
  obtain c where c: "gemv_C args + ?i = 2 * c" using b(1) gemv_layout(6) [OF ok(1)] by (metis even_add evenE)
  have al: "4 * (gemv_C args + ?i) mod 8 = 0" unfolding c by simp
  have "gemv_step blk args m0 tk m = mram_write [gemv_entry args m ?i, gemv_entry args m (Suc ?i)] (4 * (gemv_C args + ?i)) 8 m"
    unfolding gemv_step_def tk Let_def prod.case elements i off addr gemv_pair_spec(1) [OF ok b(1)] ..
  then show ?thesis using al by (auto simp: tk mram_write_cells nth_Cons' less_Suc_eq)
qed

lemma gemv_dot_cong:
  assumes "gemv_args_ok args" "i < unat (ge_nr_rows args)" "\<And>j. gemv_A \<le> j \<Longrightarrow> j < gemv_C args \<Longrightarrow> m j = m' j"
  shows "dot m (gemv_A + i * unat (ge_n_size args)) (gemv_B args) (unat (ge_n_size args))
    = dot m' (gemv_A + i * unat (ge_n_size args)) (gemv_B args) (unat (ge_n_size args))"
  unfolding dot_def
proof (rule sum.cong)
  let ?n = "unat (ge_n_size args)"
  fix k assume k: "k \<in> {..< ?n}"
  have np: "?n \<le> unat (ge_n_size_pad args)" "unat (ge_nr_rows args) \<le> unat (ge_max_rows args)"
    using assms(1) by (auto simp: gemv_args_ok_def)
  have "i * ?n + k < Suc i * ?n" using k by simp
  also have "\<dots> \<le> unat (ge_max_rows args) * unat (ge_n_size_pad args)" using assms(2) np by (intro mult_le_mono) auto
  finally have "m (gemv_A + i * ?n + k) = m' (gemv_A + i * ?n + k)" using gemv_layout(7,8) [OF assms(1)] by (intro assms(3)) simp_all
  moreover have "m (gemv_B args + k) = m' (gemv_B args + k)" using k np gemv_layout(7,8) [OF assms(1)] by (intro assms(3)) simp_all
  ultimately show "m (gemv_A + i * ?n + k) * m (gemv_B args + k) = m' (gemv_A + i * ?n + k) * m' (gemv_B args + k)" by simp
qed simp

interpretation ge: disjoint_steps "gemv_step blk args m0" "gemv_indices blk args"
  "\<lambda>tk. {gemv_C args + gemv_index args tk, Suc (gemv_C args + gemv_index args tk)}" "\<lambda>_. {gemv_A ..< gemv_C args}" for blk args m0
proof unfold_locales
  fix b j and m m' :: cells
  assume b: "b \<in> gemv_indices blk args" "j \<in> {gemv_C args + gemv_index args b, Suc (gemv_C args + gemv_index args b)}"
    and eq: "\<And>i. i \<in> {gemv_A ..< gemv_C args} \<Longrightarrow> m i = m' i"
  have ok: "gemv_args_ok args" using b(1) by (auto simp: gemv_indices_def)
  have "gemv_entry args m i = gemv_entry args m' i" for i
    using gemv_dot_cong [OF ok, of i m m'] eq by (simp add: gemv_entry_def)
  then show "gemv_step blk args m0 b m j = gemv_step blk args m0 b m' j" using b by (simp add: gemv_step_cell)
next
  fix b c assume bc: "b \<in> gemv_indices blk args" "c \<in> gemv_indices blk args" "b \<noteq> c"
  obtain t k u l where tk: "b = (t, k)" "c = (u, l)" by fastforce
  have "gemv_index args b \<noteq> gemv_index args c"
  proof (cases "t = u")
    case True
    then show ?thesis using bc(3) by (simp add: tk gemv_index_def)
  next
    case False
    have "gemv_index args (t, k) < gemv_index args (u, l)" if "t < u" "(t, k) \<in> gemv_indices blk args" "(u, l) \<in> gemv_indices blk args" for t k u l
      using gemv_index_bounds(3) [OF that(2)] gemv_index_bounds(2) [OF that(3)] gemv_start_row_mono [of "Suc t" u "unat (ge_nr_rows args)"] that(1)
      by linarith
    then show ?thesis using False bc unfolding tk by (metis linorder_neqE_nat less_irrefl)
  qed
  moreover have "even (gemv_index args b)" "even (gemv_index args c)"
    using gemv_index_bounds(1) bc unfolding tk by blast+
  ultimately show "{gemv_C args + gemv_index args b, Suc (gemv_C args + gemv_index args b)} \<inter>
      ({gemv_C args + gemv_index args c, Suc (gemv_C args + gemv_index args c)} \<union> {gemv_A ..< gemv_C args}) = {}"
    by (auto elim!: evenE)
qed (simp add: gemv_step_cell)

lemma gemv_compute_result:
  assumes "gemv_compute blk args m m'" and ok: "gemv_args_ok args" and blk: "blk mod 8 = 0" "0 < blk" "blk < 2 ^ 31"
  shows "i < unat (ge_nr_rows args) \<Longrightarrow> m' (gemv_C args + i) = dot m (gemv_A + i * unat (ge_n_size args)) (gemv_B args) (unat (ge_n_size args))"
    "j < gemv_C args \<Longrightarrow> m' j = m j"
proof -
  let ?n = "unat (ge_nr_rows args)"
  have idx: "(\<exists>t. t \<in> set [0..<NR_TASKLETS] \<and> tk \<in> set (gemv_pairs args t)) \<longleftrightarrow> tk \<in> gemv_indices blk args" for tk
    using gemv_rows_even(1) [of ?n "fst tk"] ok blk
    by (cases tk) (auto simp: gemv_pairs_def gemv_indices_def elim!: evenE)
  have sub: "set (gemv_pairs args t) \<subseteq> gemv_indices blk args" if "t \<in> set [0..<NR_TASKLETS]" for t
    using that idx by blast
  have "distinct (concat (map (gemv_pairs args) [0..<k]))" for k
    by (induction k) (auto simp: gemv_pairs_def distinct_map inj_on_def)
  note res = ge.phase_blocks [OF assms(1) [unfolded gemv_compute_def] sub this]
  show "m' (gemv_C args + i) = dot m (gemv_A + i * unat (ge_n_size args)) (gemv_B args) (unat (ge_n_size args))" if i: "i < ?n"
  proof -
    have "i < gemv_start_row ?n NR_TASKLETS" using i gemv_start_row_end [of ?n] by simp
    then obtain t where t: "t < NR_TASKLETS" "gemv_start_row ?n t \<le> i" "i < gemv_start_row ?n t + gemv_rows_per_tasklet ?n t"
      using gemv_row_owner by blast
    define k where "k = (i - gemv_start_row ?n t) div 2"
    have ev: "even (gemv_start_row ?n t)" "even (gemv_rows_per_tasklet ?n t)" by (rule gemv_rows_even)+
    have k: "i = gemv_index args (t, k) \<or> i = Suc (gemv_index args (t, k))" using t unfolding gemv_index_def k_def by (simp, presburger)
    have "2 * k < gemv_rows_per_tasklet ?n t" using t unfolding k_def by linarith
    then have tk: "(t, k) \<in> gemv_indices blk args" using t(1) ok blk by (simp add: gemv_indices_def)
    then obtain u where u: "u \<in> set [0..<NR_TASKLETS]" "(t, k) \<in> set (gemv_pairs args u)" using idx by blast
    have "m' (gemv_C args + i) = gemv_step blk args m (t, k) m (gemv_C args + i)"
      using res(1) [of u "(t, k)" "gemv_C args + i"] u k by auto
    also have "\<dots> = gemv_entry args m i" using k by (simp add: gemv_step_cell [OF tk])
    finally show ?thesis using i by (simp add: gemv_entry_def)
  qed
  show "m' j = m j" if "j < gemv_C args" using res(2) [of j] that by auto
qed


section \<open>The result\<close>

lemma gemv_below_log:
  assumes "gemv_args_ok args"
  shows "gemv_C args + unat (ge_nr_rows args) < SK_LOG_OFFSET div 4" "gemv_A \<le> gemv_B args" "gemv_B args \<le> gemv_C args"
proof -
  have "4 * (gemv_C args + (unat (ge_nr_rows args) + 1)) \<le> SK_LOG_OFFSET"
    using assms gemv_layout(5) [OF assms] by (simp add: gemv_args_ok_def)
  then show "gemv_C args + unat (ge_nr_rows args) < SK_LOG_OFFSET div 4" by (simp add: less_eq_div_iff_mult_less_eq Suc_le_eq [symmetric])
  show "gemv_A \<le> gemv_B args" "gemv_B args \<le> gemv_C args" using gemv_layout(7,8) [OF assms] by simp_all
qed

lemma gemv_read_args_log [simp]: "gemv_read_args (sk_log_init m) = gemv_read_args m"
  by (simp add: gemv_read_args_def mram_read_def GEMV_ARG_OFFSET_def SK_LOG_OFFSET_def)

lemma gemv_main_runs: "\<exists>m'. gemv_main m m'"
  unfolding gemv_main_def Let_def gemv_compute_def by (rule exI, rule phase_seq)

text \<open>
  C28: The matrix-vector product is right for every interleaving of the tasklets, whatever the number of
  rows and the alignment of a row: the host finds the dot products modulo \<open>2 ^ 32\<close>.
\<close>

theorem gemv_main_correct:
  assumes "gemv_main m m'" "args = gemv_read_args m" "gemv_args_ok args" "i < unat (ge_nr_rows args)"
  shows "m' (gemv_C args + i)
    = (\<Sum>k < unat (ge_n_size args). m (gemv_A + i * unat (ge_n_size args) + k) * m (gemv_B args + k))"
proof -
  have "gemv_compute GEMV_BLOCK_SIZE args (sk_log_init m) m'"
    using assms(1,2) by (simp add: gemv_main_def Let_def)
  then have "m' (gemv_C args + i) = dot (sk_log_init m) (gemv_A + i * unat (ge_n_size args)) (gemv_B args) (unat (ge_n_size args))"
    by (rule gemv_compute_result(1) [OF _ assms(3)]) (simp_all add: GEMV_BLOCK_SIZE_def assms(4))
  also have "\<dots> = dot m (gemv_A + i * unat (ge_n_size args)) (gemv_B args) (unat (ge_n_size args))"
    using gemv_below_log(1) [OF assms(3)] by (intro gemv_dot_cong [OF assms(3,4)]) simp
  finally show ?thesis by (simp add: dot_def)
qed

text \<open>Three rows of three words: the second one starts in the middle of a DMA cell.\<close>

definition gemv_demo :: cells where
  "gemv_demo j = (if j = 0x800 then 3 else if j = 0x801 then 4 else if j = 0x802 then 3 else if j = 0x803 then 3
     else if j < 0x84C then 2 else 5)"

theorem gemv_main_correct_witness:
  "\<exists>m'. gemv_main gemv_demo m' \<and> m' (gemv_C (gemv_read_args gemv_demo) + 1) = 30"
proof -
  let ?args = "\<lparr>ge_n_size = 3, ge_n_size_pad = 4, ge_nr_rows = 3, ge_max_rows = 3\<rparr>"
  have args: "?args = gemv_read_args gemv_demo"
    by (simp add: gemv_read_args_def mram_read_def GEMV_ARG_OFFSET_def gemv_demo_def Let_def)
  have A: "gemv_A = 0x840" by (simp add: gemv_A_def GEMV_A_OFFSET_def GEMV_ARG_OFFSET_def)
  have B: "gemv_B ?args = 0x84C" by (simp add: gemv_B_def gemv_base_B_def GEMV_A_OFFSET_def GEMV_ARG_OFFSET_def)
  have ok: "gemv_args_ok ?args"
    by (simp add: gemv_args_ok_def gemv_base_C_def gemv_base_B_def GEMV_A_OFFSET_def GEMV_ARG_OFFSET_def SK_LOG_OFFSET_def)
  obtain m' where m': "gemv_main gemv_demo m'" using gemv_main_runs by blast
  have "m' (gemv_C ?args + 1) = 30"
    using gemv_main_correct [OF m' args ok, of 1] by (simp add: A B gemv_demo_def lessThan_nat_numeral)
  then show ?thesis using m' unfolding args [symmetric] by blast
qed

end
