(* ===== verification/Kernel_MLP.thy ===== *)
theory Kernel_MLP imports Kernel_GEMV
begin

text \<open>
  Matrix-vector products as a service, \<^verbatim>\<open>src/src/MLP/main.c\<close>: the kernel computes one layer, yields
  the DPU to the host, and takes the next layer's arguments and matrix from MRAM when it is woken,
  until the host sends the command to exit. The loops are those of \<open>Kernel_GEMV\<close> over blocks of 256
  bytes; what the host does with MRAM while it owns the DPU is the relation \<open>host\<close>.
\<close>

section \<open>One layer\<close>

definition MLP_BLOCK_SIZE :: nat where "MLP_BLOCK_SIZE = 2 ^ 8"

definition mlp_rows_per_tasklet :: "nat \<Rightarrow> nat \<Rightarrow> nat" where
  "mlp_rows_per_tasklet nrows tasklet_id =
     (let chunks = nrows div (NR_TASKLETS + NR_TASKLETS); dbl_chunks = chunks + chunks;
          rest_rows = nrows mod (NR_TASKLETS + NR_TASKLETS)
      in if tasklet_id + tasklet_id < rest_rows then dbl_chunks + 2 else dbl_chunks)"

definition mlp_start_row :: "nat \<Rightarrow> nat \<Rightarrow> nat" where
  "mlp_start_row nrows tasklet_id =
     (let chunks = nrows div (NR_TASKLETS + NR_TASKLETS); dbl_chunks = chunks + chunks;
          rest_rows = nrows mod (NR_TASKLETS + NR_TASKLETS)
      in if 0 < rest_rows then
           if rest_rows \<le> tasklet_id + tasklet_id then
             (let hlf_rest_rows = rest_rows div 2
              in if rest_rows mod 2 = 1
                 then (hlf_rest_rows + 1) * (dbl_chunks + 2) + (tasklet_id - 1 - hlf_rest_rows) * dbl_chunks
                 else hlf_rest_rows * (dbl_chunks + 2) + (tasklet_id - hlf_rest_rows) * dbl_chunks)
           else tasklet_id * (dbl_chunks + 2)
         else tasklet_id * dbl_chunks)"

definition mlp_step :: "gemv_arguments \<Rightarrow> cells \<Rightarrow> nat \<times> nat \<Rightarrow> cells \<Rightarrow> cells" where
  "mlp_step args m0 tk m =
     (let (tasklet_id, k) = tk; start_row = mlp_start_row (unat (ge_nr_rows args)) tasklet_id; i = start_row + 2 * k
      in mram_write (snd (gemv_pair MLP_BLOCK_SIZE args m i (gemv_offset MLP_BLOCK_SIZE args m0 start_row k)))
           (gemv_base_C args start_row + 8 * k) 8 m)"

definition mlp_compute :: "gemv_arguments \<Rightarrow> cells \<Rightarrow> cells \<Rightarrow> bool" where
  "mlp_compute args m m' \<longleftrightarrow>
     phase (map (\<lambda>t. map (\<lambda>k. mlp_step args m (t, k)) [0..<mlp_rows_per_tasklet (unat (ge_nr_rows args)) t div 2]) [0..<NR_TASKLETS]) m m'"

section \<open>The service\<close>

record ctrl_t =
  ct_cmd :: u32
  ct_job_id :: u32
  ct_status :: u32
  ct_pad :: u32

definition CTRL_OFFSET :: nat where "CTRL_OFFSET = GEMV_ARG_OFFSET + 0x40"
definition CMD_EXIT :: u32 where "CMD_EXIT = 2"
definition ST_RUNNING :: u32 where "ST_RUNNING = 1"

definition fetch_ctrl :: "cells \<Rightarrow> ctrl_t" where
  "fetch_ctrl m = (let buf = mram_read m CTRL_OFFSET 16
     in \<lparr>ct_cmd = buf ! 0, ct_job_id = buf ! 1, ct_status = buf ! 2, ct_pad = buf ! 3\<rparr>)"

definition set_running :: "ctrl_t \<Rightarrow> cells \<Rightarrow> ctrl_t \<times> cells" where
  "set_running g m =
     (let g = g\<lparr>ct_status := ST_RUNNING\<rparr>
      in (g, mram_write [ct_cmd g, ct_job_id g, ct_status g, ct_pad g] CTRL_OFFSET 16 m))"

text \<open>
  The loop, with the memory at the start of each job and when it is handed to the host. Every
  command but \<open>CMD_EXIT\<close> runs a job.
\<close>

inductive mlp_loop :: "(cells \<Rightarrow> cells \<Rightarrow> bool) \<Rightarrow> ctrl_t \<Rightarrow> cells \<Rightarrow> (cells \<times> cells) list \<Rightarrow> cells \<Rightarrow> bool" for host where
  exit: "ct_cmd g = CMD_EXIT \<Longrightarrow> mlp_loop host g m [] m"
| job: "ct_cmd g \<noteq> CMD_EXIT \<Longrightarrow> set_running g m = (g1, m1) \<Longrightarrow> mlp_compute (gemv_read_args m) m1 m2 \<Longrightarrow>
    host m2 m3 \<Longrightarrow> set_running (fetch_ctrl m3) m3 = (g4, m4) \<Longrightarrow> mlp_loop host g4 m4 js m' \<Longrightarrow>
    mlp_loop host g m ((m, m2) # js) m'"

inductive_cases mlp_loopE: "mlp_loop host g m js m'"

definition mlp_main :: "(cells \<Rightarrow> cells \<Rightarrow> bool) \<Rightarrow> cells \<Rightarrow> (cells \<times> cells) list \<Rightarrow> cells \<Rightarrow> bool" where
  "mlp_main host m js m' \<longleftrightarrow> (\<exists>m1. host (sk_log_init m) m1 \<and> mlp_loop host (fetch_ctrl m1) m1 js m')"

section \<open>The result\<close>

text \<open>The two ways to share out the rows agree.\<close>

lemma mlp_rows_is_gemv: "mlp_rows_per_tasklet n t = gemv_rows_per_tasklet n t"
  by (simp add: mlp_rows_per_tasklet_def gemv_rows_per_tasklet_def Let_def mult_2_right)

lemma mlp_start_is_gemv: "mlp_start_row n t = gemv_start_row n t"
proof -
  define r where "r = n mod (NR_TASKLETS * 2)"
  define d where "d = n div (NR_TASKLETS * 2) * 2"
  have rd: "n mod (NR_TASKLETS + NR_TASKLETS) = r" "n div (NR_TASKLETS + NR_TASKLETS) + n div (NR_TASKLETS + NR_TASKLETS) = d"
    by (simp_all add: r_def d_def mult_2_right)
  obtain h where h: "r = 2 * h \<or> r = Suc (2 * h)" by (metis evenE oddE add.commute plus_1_eq_Suc)
  have split: "(h + 1) * (d + 2) + (t - 1 - h) * d = 2 * h + 2 + t * d" if "h < t"
    using that by (auto simp: algebra_simps dest!: less_imp_Suc_add)
  have split': "h * (d + 2) + (t - h) * d = 2 * h + t * d" if "h \<le> t"
    using that by (auto simp: algebra_simps le_iff_add)
  show ?thesis
    unfolding mlp_start_row_def gemv_start_row_def Let_def elements rd r_def [symmetric] d_def [symmetric]
    using h split split' by (elim disjE) (auto simp: algebra_simps)
qed

lemma mlp_step_is_gemv: "mlp_step args m0 = gemv_step MLP_BLOCK_SIZE args m0"
  by (simp add: fun_eq_iff mlp_step_def gemv_step_def mlp_start_is_gemv Let_def ac_simps split: prod.split)

lemma mlp_compute_is_gemv: "mlp_compute args m m' \<longleftrightarrow> gemv_compute MLP_BLOCK_SIZE args m m'"
  by (simp add: mlp_compute_def gemv_compute_def gemv_pairs_def mlp_step_is_gemv mlp_rows_is_gemv comp_def)

text \<open>The control block lies between the arguments and the matrix.\<close>

lemma set_running_cell:
  assumes "set_running g m = (g1, m1)"
  shows "gemv_A \<le> j \<Longrightarrow> m1 j = m j" "fetch_ctrl m1 = g\<lparr>ct_status := ST_RUNNING\<rparr>" "gemv_read_args m1 = gemv_read_args m"
proof -
  have m1: "m1 = mram_write [ct_cmd g, ct_job_id g, ST_RUNNING, ct_pad g] CTRL_OFFSET 16 m"
    using assms by (auto simp: set_running_def Let_def)
  have c: "CTRL_OFFSET div 4 = 0x810" "CTRL_OFFSET mod 8 = 0" "CTRL_OFFSET div 8 = 0x408" by (simp_all add: CTRL_OFFSET_def GEMV_ARG_OFFSET_def)
  show "m1 j = m j" if "gemv_A \<le> j"
    using that c by (simp add: m1 mram_write_cells gemv_A_def GEMV_A_OFFSET_def GEMV_ARG_OFFSET_def)
  show "fetch_ctrl m1 = g\<lparr>ct_status := ST_RUNNING\<rparr>"
    using c by (simp add: fetch_ctrl_def m1 mram_read_def mram_write_def Let_def)
  show "gemv_read_args m1 = gemv_read_args m"
    using c by (simp add: gemv_read_args_def m1 mram_read_def mram_write_def Let_def GEMV_ARG_OFFSET_def)
qed

lemma mlp_job_result:
  assumes "set_running g m = (g1, m1)" "mlp_compute (gemv_read_args m) m1 m2" "gemv_args_ok (gemv_read_args m)"
  shows "i < unat (ge_nr_rows (gemv_read_args m)) \<Longrightarrow> m2 (gemv_C (gemv_read_args m) + i)
      = dot m (gemv_A + i * unat (ge_n_size (gemv_read_args m))) (gemv_B (gemv_read_args m)) (unat (ge_n_size (gemv_read_args m)))"
    "ct_status (fetch_ctrl m2) = ST_RUNNING"
proof -
  let ?args = "gemv_read_args m"
  note res = gemv_compute_result [OF assms(2) [unfolded mlp_compute_is_gemv] assms(3)]
  have blk: "MLP_BLOCK_SIZE mod 8 = 0" "0 < MLP_BLOCK_SIZE" "MLP_BLOCK_SIZE < 2 ^ 31" by (simp_all add: MLP_BLOCK_SIZE_def)
  show "m2 (gemv_C ?args + i) = dot m (gemv_A + i * unat (ge_n_size ?args)) (gemv_B ?args) (unat (ge_n_size ?args))"
    if i: "i < unat (ge_nr_rows ?args)"
    unfolding res(1) [OF blk i] by (rule gemv_dot_cong [OF assms(3) i]) (rule set_running_cell(1) [OF assms(1)])
  have "gemv_A \<le> gemv_C ?args" using gemv_below_log [OF assms(3)] by linarith
  then have "m2 j = m1 j" if "j < 0x840" for j
    using res(2) [OF blk, of j] that by (simp add: gemv_A_def GEMV_A_OFFSET_def GEMV_ARG_OFFSET_def)
  then have "fetch_ctrl m2 = fetch_ctrl m1"
    by (simp add: fetch_ctrl_def mram_read_def CTRL_OFFSET_def GEMV_ARG_OFFSET_def)
  then show "ct_status (fetch_ctrl m2) = ST_RUNNING" by (simp add: set_running_cell(2) [OF assms(1)])
qed

text \<open>
  C29: Whatever the host does between the jobs, every job it started with well-formed arguments hands
  over the product of the matrix and the vector that were in MRAM when the job began; the status word
  the host reads then still says that the job is running.
\<close>

theorem mlp_jobs_correct:
  assumes "mlp_main host m js m'"
  shows "\<forall>(s, e) \<in> set js. gemv_args_ok (gemv_read_args s) \<longrightarrow>
    (\<forall>i < unat (ge_nr_rows (gemv_read_args s)). e (gemv_C (gemv_read_args s) + i) =
       (\<Sum>k < unat (ge_n_size (gemv_read_args s)).
          s (gemv_A + i * unat (ge_n_size (gemv_read_args s)) + k) * s (gemv_B (gemv_read_args s) + k)))
    \<and> ct_status (fetch_ctrl e) = ST_RUNNING"
proof -
  obtain g m1 where "mlp_loop host g m1 js m'" using assms by (auto simp: mlp_main_def)
  then show ?thesis
  proof (induction rule: mlp_loop.induct)
    case (job g m g1 m1 m2 m3 g4 m4 js m')
    have "\<forall>i < unat (ge_nr_rows (gemv_read_args m)). m2 (gemv_C (gemv_read_args m) + i) =
       (\<Sum>k < unat (ge_n_size (gemv_read_args m)).
          m (gemv_A + i * unat (ge_n_size (gemv_read_args m)) + k) * m (gemv_B (gemv_read_args m) + k))"
      "ct_status (fetch_ctrl m2) = ST_RUNNING" if "gemv_args_ok (gemv_read_args m)"
      using mlp_job_result [OF job.hyps(2,3) that] by (simp_all add: dot_def)
    then show ?case using job.IH by auto
  qed simp
qed

text \<open>A host that starts one job and then sends \<open>CMD_EXIT\<close>.\<close>

definition mlp_host :: "cells \<Rightarrow> cells \<Rightarrow> bool" where
  "mlp_host m m' \<longleftrightarrow> m' = (if m 0x812 = ST_RUNNING then m(0x810 := CMD_EXIT) else (\<lambda>j. if j = 0x810 then 1 else gemv_demo j))"

theorem mlp_jobs_correct_witness:
  "\<exists>e m'. mlp_main mlp_host (\<lambda>_. 0) [(\<lambda>j. if j = 0x810 then 1 else gemv_demo j, e)] m'
     \<and> e (gemv_C \<lparr>ge_n_size = 3, ge_n_size_pad = 4, ge_nr_rows = 3, ge_max_rows = 3\<rparr> + 1) = 30"
proof -
  let ?args = "\<lparr>ge_n_size = 3, ge_n_size_pad = 4, ge_nr_rows = 3, ge_max_rows = 3\<rparr>"
  let ?m = "\<lambda>j :: nat. if j = 0x810 then 1 else gemv_demo j"
  have args: "gemv_read_args ?m = ?args"
    by (simp add: gemv_read_args_def mram_read_def GEMV_ARG_OFFSET_def gemv_demo_def Let_def)
  have A: "gemv_A = 0x840" by (simp add: gemv_A_def GEMV_A_OFFSET_def GEMV_ARG_OFFSET_def)
  have B: "gemv_B ?args = 0x84C" by (simp add: gemv_B_def gemv_base_B_def GEMV_A_OFFSET_def GEMV_ARG_OFFSET_def)
  have ok: "gemv_args_ok ?args"
    by (simp add: gemv_args_ok_def gemv_base_C_def gemv_base_B_def GEMV_A_OFFSET_def GEMV_ARG_OFFSET_def SK_LOG_OFFSET_def)
  have ctrl: "fetch_ctrl m = \<lparr>ct_cmd = m 0x810, ct_job_id = m 0x811, ct_status = m 0x812, ct_pad = m 0x813\<rparr>" for m
    by (simp add: fetch_ctrl_def mram_read_def CTRL_OFFSET_def GEMV_ARG_OFFSET_def Let_def)
  obtain g1 m1 where run: "set_running (fetch_ctrl ?m) ?m = (g1, m1)" by fastforce
  have "\<exists>e. mlp_compute ?args m1 e"
    unfolding mlp_compute_is_gemv gemv_compute_def by (rule exI, rule phase_seq)
  then obtain e where e: "mlp_compute ?args m1 e" ..
  have st: "e 0x812 = ST_RUNNING" using mlp_job_result(2) [OF run, of e] e ok by (simp add: args ctrl)
  obtain g4 m4 where run': "set_running (fetch_ctrl (e(0x810 := CMD_EXIT))) (e(0x810 := CMD_EXIT)) = (g4, m4)" by fastforce
  have "ct_cmd g4 = CMD_EXIT" using run' by (auto simp: set_running_def Let_def ctrl)
  then have "mlp_loop mlp_host (fetch_ctrl ?m) ?m [(?m, e)] m4"
    using run e run' st by (intro mlp_loop.intros) (auto simp: args mlp_host_def ctrl CMD_EXIT_def intro: mlp_loop.exit)
  moreover have "mlp_host (sk_log_init (\<lambda>_. 0)) ?m"
    by (simp add: mlp_host_def ST_RUNNING_def SK_LOG_OFFSET_def)
  ultimately have main: "mlp_main mlp_host (\<lambda>_. 0) [(?m, e)] m4" by (auto simp: mlp_main_def)
  have "\<forall>i < 3. e (gemv_C ?args + i) = 30"
    using mlp_jobs_correct [OF main] ok by (simp add: args A B gemv_demo_def lessThan_nat_numeral)
  then have "e (gemv_C ?args + 1) = 30" by (metis one_less_numeral_iff semiring_norm(77))
  then show ?thesis using main by blast
qed

end
