(* ===== verification/Kernel_BS.thy ===== *)
theory Kernel_BS imports SPMD
begin

text \<open>
  Binary search, \<^verbatim>\<open>src/src/BS/main.c\<close>. Every tasklet looks its share of the queries up in the sorted
  array, halving an address range by blocks of 256 bytes, and keeps the index for the last query
  it found; tasklet 0 logs the greatest of these. A DMA transfer beyond the end of the cache
  has no result.
\<close>

unbundle bit_operations_syntax

section \<open>The kernel\<close>

record bs_arguments =
  bs_input_size :: u64
  bs_slice_per_dpu :: u64
  bs_kernel :: u32

definition BS_BLOCK_SIZE :: nat where "BS_BLOCK_SIZE = 2 ^ 8"
definition BS_ARG_OFFSET :: nat where "BS_ARG_OFFSET = 0x2000"
definition BS_A_OFFSET :: nat where "BS_A_OFFSET = BS_ARG_OFFSET + (24 + 0xFF) div 0x100 * 0x100"
definition BS_WORD_MASK :: u32 where "BS_WORD_MASK = 0xfffffff8"

definition bs_read_args_aligned :: "cells64 \<Rightarrow> bs_arguments" where
  "bs_read_args_aligned m =
     (let buf = mram_read64 m BS_ARG_OFFSET 24
      in \<lparr>bs_input_size = buf ! 0, bs_slice_per_dpu = buf ! 1, bs_kernel = lo32 (buf ! 2)\<rparr>)"

definition bs_search :: "u64 list \<Rightarrow> u64 \<Rightarrow> nat \<Rightarrow> int" where
  "bs_search bufferA searching_for search_size =
     (if sint (bufferA ! 0) \<le> sint searching_for then
        (case find (\<lambda>i. bufferA ! i = searching_for) [0..<search_size div 8] of
           None \<Rightarrow> -1
         | Some i \<Rightarrow> int i)
      else -2)"

definition bs_index :: "u32 \<Rightarrow> u32 \<Rightarrow> int \<Rightarrow> int" where
  "bs_index A_base addr f = f + int (unat ((addr - A_base) div 8))"

text \<open>The boundary case: the first block of the range, then what remains of it.\<close>

definition bs_boundary :: "cells64 \<Rightarrow> u32 \<Rightarrow> u64 \<Rightarrow> u32 \<Rightarrow> u32 \<Rightarrow> int \<Rightarrow> int option" where
  "bs_boundary m A_base searching_for L R found =
     (let f = bs_search (mram_read64 m (unat L) BS_BLOCK_SIZE) searching_for BS_BLOCK_SIZE
      in if f > -1 then Some (bs_index A_base L f)
         else
           let start2 = L + of_nat BS_BLOCK_SIZE;
               remain = (R - start2) AND NOT 7
           in if remain \<noteq> 0 then
                if unat remain > BS_BLOCK_SIZE then None
                else
                  let f = bs_search (mram_read64 m (unat start2) (unat remain)) searching_for (unat remain)
                  in if f > -1 then Some (bs_index A_base start2 f) else Some found
              else Some found)"

partial_function (option) bs_loop :: "cells64 \<Rightarrow> u32 \<Rightarrow> u64 \<Rightarrow> int \<Rightarrow> u32 \<Rightarrow> u32 \<Rightarrow> int option" where
  "bs_loop m A_base searching_for found L R =
     (let mid = (L + R) div 2 AND BS_WORD_MASK
      in if mid < L + of_nat BS_BLOCK_SIZE then bs_boundary m A_base searching_for L R found
         else
           let f = bs_search (mram_read64 m (unat mid) BS_BLOCK_SIZE) searching_for BS_BLOCK_SIZE
           in if f > -1 then Some (bs_index A_base mid f)
              else if f = -2 then bs_loop m A_base searching_for found L mid
              else bs_loop m A_base searching_for found mid R)"

definition bs_A_base :: u32 where "bs_A_base = of_nat BS_A_OFFSET"

definition bs_A_end :: "bs_arguments \<Rightarrow> u32" where
  "bs_A_end args = bs_A_base + ucast (bs_input_size args * 8)"

definition bs_query_addr :: "bs_arguments \<Rightarrow> nat \<Rightarrow> u32" where
  "bs_query_addr args tasklet_id = bs_A_end args + of_nat tasklet_id * ucast (bs_slice_per_dpu args div of_nat NR_TASKLETS * 8)"

definition bs_query :: "cells64 \<Rightarrow> bs_arguments \<Rightarrow> u32 \<Rightarrow> int \<Rightarrow> int option" where
  "bs_query m args query_addr found =
     (let searching_for = mram_read64 m (unat query_addr) 8 ! 0
      in bs_loop m bs_A_base searching_for found bs_A_base (bs_A_end args))"

definition bs_queries_per_tasklet :: "bs_arguments \<Rightarrow> nat" where
  "bs_queries_per_tasklet args = unat (bs_slice_per_dpu args div of_nat NR_TASKLETS)"

definition bs_tasklet :: "cells64 \<Rightarrow> bs_arguments \<Rightarrow> nat \<Rightarrow> (int option \<Rightarrow> int option) list" where
  "bs_tasklet m args tasklet_id =
     map (\<lambda>t found. Option.bind found (bs_query m args (bs_query_addr args tasklet_id + 8 * of_nat t)))
       [0..<bs_queries_per_tasklet args]"

definition bs_maxf :: "(nat \<Rightarrow> int) \<Rightarrow> int" where
  "bs_maxf found = fold (\<lambda>t maxf. if found t > maxf then found t else maxf) [0..<NR_TASKLETS] (-1)"

definition bs_main :: "cells64 \<Rightarrow> cells64 \<Rightarrow> bool" where
  "bs_main m m' \<longleftrightarrow>
     (let m = sk_log_init64 m; args = bs_read_args_aligned m
      in \<exists>DPU_RESULTS found.
           phase (map (\<lambda>t. map (at_slot t) (bs_tasklet m args t)) [0..<NR_TASKLETS]) (\<lambda>t. Some (-1)) DPU_RESULTS
         \<and> (\<forall>t < NR_TASKLETS. DPU_RESULTS t = Some (found t))
         \<and> m' = sk_log_write_idx64 0 (of_int (bs_maxf found)) m)"

section \<open>Addresses\<close>

lemma and_word_mask: "unat (x AND 0xfffffff8 :: u32) = unat x div 8 * 8"
proof -
  have "x AND 0xfffffff8 = push_bit 3 (drop_bit 3 x)"
  proof (rule bit_word_eqI)
    fix n
    assume "n < LENGTH(32)"
    then have "n \<in> {..<32}" by simp
    then show "bit (x AND 0xfffffff8) n = bit (push_bit 3 (drop_bit 3 x)) n"
      by (auto simp: bit_simps lessThan_nat_numeral bit_numeral_rec)
  qed
  moreover have "unat (push_bit 3 (drop_bit 3 x)) = unat x div 8 * 8"
  proof -
    have "unat x div 8 * 8 < 2 ^ 32" using u32_bound [of x] by (simp add: le_less_trans [OF div_times_less_eq_dividend])
    then show ?thesis
      unfolding unsigned_push_bit_eq unsigned_drop_bit_eq
      by (simp add: push_bit_eq_mult drop_bit_eq_div take_bit_nat_eq_self)
  qed
  ultimately show ?thesis by simp
qed

lemma and_minus_8: "unat (x AND - 8 :: u32) = unat x div 8 * 8"
proof -
  have "(- 8 :: u32) = 0xfffffff8" by simp
  then show ?thesis by (simp only: and_word_mask)
qed

lemma bs_mid:
  assumes "a + b < 2 ^ 32"
  shows "(of_nat a + of_nat b) div 2 AND BS_WORD_MASK = (of_nat ((a + b) div 2 div 8 * 8) :: u32)"
proof -
  have "(a + b) div 2 div 8 * 8 < 2 ^ 32" using assms by (intro le_less_trans [OF _ assms]) linarith
  moreover have "unat ((of_nat a + of_nat b) div 2 :: u32) = (a + b) div 2"
    unfolding of_nat_add [symmetric] unat_div using assms by (simp add: unat_of_nat32 del: of_nat_add)
  ultimately show ?thesis
    unfolding BS_WORD_MASK_def by (intro word_unat_eq_iff [THEN iffD2]) (simp only: and_word_mask unat_of_nat32)
qed

lemma bs_less: "a < 2 ^ 32 \<Longrightarrow> b < 2 ^ 32 \<Longrightarrow> (of_nat a :: u32) < of_nat b \<longleftrightarrow> a < b"
  by (simp add: word_less_nat_alt unat_of_nat32)

lemma bs_diff: "b \<le> a \<Longrightarrow> (of_nat a - of_nat b :: u32) = of_nat (a - b)"
  by (simp add: of_nat_diff)

lemma bs_index_words:
  assumes "b mod 8 = 0" "b + 8 * k < 2 ^ 32"
  shows "bs_index (of_nat b) (of_nat (b + 8 * k)) f = f + int k"
proof -
  have "(of_nat (b + 8 * k) - of_nat b :: u32) = of_nat (8 * k)" by (simp add: bs_diff)
  then have "unat ((of_nat (b + 8 * k) - of_nat b :: u32) div 8) = k"
    using assms by (simp add: unat_div unat_of_nat32 del: of_nat_add of_nat_mult)
  then show ?thesis by (simp add: bs_index_def del: of_nat_add of_nat_mult)
qed

section \<open>The search\<close>

lemma bs_search_cases:
  assumes "n = length buf" "0 < n"
  shows "(sint x < sint (buf ! 0) \<and> bs_search buf x (8 * n) = -2)
    \<or> (sint (buf ! 0) \<le> sint x \<and> x \<notin> set buf \<and> bs_search buf x (8 * n) = -1)
    \<or> (\<exists>i < n. bs_search buf x (8 * n) = int i \<and> buf ! i = x)"
proof (cases "find (\<lambda>i. buf ! i = x) [0..<n]")
  case None
  then have "x \<notin> set buf" using assms(1) by (auto simp: find_None_iff in_set_conv_nth)
  then show ?thesis using None by (auto simp: bs_search_def)
next
  case (Some i)
  then have "i < n \<and> buf ! i = x" by (auto simp: find_Some_iff)
  then show ?thesis using Some by (auto simp: bs_search_def)
qed

text \<open>
  The array: \<open>n\<close> words in ascending order, read as signed integers, from cell \<open>b\<close> on. A search gives
  an index of the value if the array has it, and otherwise keeps the value of \<open>found\<close>.
\<close>

definition bs_sorted :: "cells64 \<Rightarrow> nat \<Rightarrow> nat \<Rightarrow> bool" where
  "bs_sorted m b n \<longleftrightarrow> (\<forall>i j. i \<le> j \<longrightarrow> j < n \<longrightarrow> sint (m (b + i)) \<le> sint (m (b + j)))"

definition bs_result :: "cells64 \<Rightarrow> nat \<Rightarrow> nat \<Rightarrow> u64 \<Rightarrow> int \<Rightarrow> int \<Rightarrow> bool" where
  "bs_result m b n x found y \<longleftrightarrow>
     (if \<exists>k < n. m (b + k) = x then \<exists>k < n. y = int k \<and> m (b + k) = x else y = found)"

lemma bs_result_hit: "k < n \<Longrightarrow> m (b + k) = x \<Longrightarrow> y = int k \<Longrightarrow> bs_result m b n x found y"
  by (auto simp: bs_result_def)

lemma bs_result_absent: "\<nexists>k. k < n \<and> m (b + k) = x \<Longrightarrow> bs_result m b n x found found"
  by (auto simp: bs_result_def)

text \<open>A block of \<open>w\<close> words from word \<open>l\<close> on.\<close>

lemma bs_block:
  fixes m :: cells64 and x :: u64
  assumes "0 < w" "b < 2 ^ 28" "8 * (b + l) < 2 ^ 32"
  defines "f \<equiv> bs_search (mram_read64 m (unat (of_nat (8 * (b + l)) :: u32)) (8 * w)) x (8 * w)"
  shows "(f = -2 \<and> sint x < sint (m (b + l)))
    \<or> (f = -1 \<and> sint (m (b + l)) \<le> sint x \<and> (\<forall>i < w. m (b + l + i) \<noteq> x))
    \<or> (\<exists>i < w. f = int i \<and> m (b + l + i) = x)"
proof -
  have "mram_read64 m (unat (of_nat (8 * (b + l)) :: u32)) (8 * w) = map (\<lambda>i. m (b + l + i)) [0..<w]"
    using assms(3) by (simp only: unat_of_nat32 mram_read64_cells)
  then show ?thesis
    using bs_search_cases [of w "map (\<lambda>i. m (b + l + i)) [0..<w]" x] assms(1) unfolding f_def by auto
qed

lemma bs_boundary_result:
  assumes srt: "bs_sorted m b n" and "8 * (b + n) < 2 ^ 31" "b < 2 ^ 28" "l + 32 \<le> r" "r \<le> n" "r < l + 64"
    and x: "(\<exists>k < n. m (b + k) = x) \<Longrightarrow> \<exists>k. l \<le> k \<and> k < r \<and> m (b + k) = x"
  shows "\<exists>y. bs_boundary m (of_nat (8 * b)) x (of_nat (8 * (b + l))) (of_nat (8 * (b + r))) found = Some y
    \<and> bs_result m b n x found y"
proof -
  let ?L = "of_nat (8 * (b + l)) :: u32" and ?R = "of_nat (8 * (b + r)) :: u32"
  have bs: "BS_BLOCK_SIZE = 8 * 32" by (simp add: BS_BLOCK_SIZE_def)
  define f where "f = bs_search (mram_read64 m (unat ?L) (8 * 32)) x (8 * 32)"
  have f: "(f = -2 \<and> sint x < sint (m (b + l)))
    \<or> (f = -1 \<and> sint (m (b + l)) \<le> sint x \<and> (\<forall>i < 32. m (b + l + i) \<noteq> x))
    \<or> (\<exists>i < 32. f = int i \<and> m (b + l + i) = x)"
    unfolding f_def by (rule bs_block) (use assms in simp_all)
  have absent: "\<nexists>k. k < n \<and> m (b + k) = x" if "\<And>k. l \<le> k \<Longrightarrow> k < r \<Longrightarrow> m (b + k) \<noteq> x"
    using x that by blast
  have above: "m (b + k) \<noteq> x" if "sint x < sint (m (b + i))" "i \<le> k" "k < r" for i k
    using srt that assms(5) by (fastforce simp: bs_sorted_def)
  define w where "w = r - (l + 32)"
  have start2: "?L + of_nat BS_BLOCK_SIZE = of_nat (8 * (b + (l + 32)))" by (simp add: BS_BLOCK_SIZE_def)
  have "?R - of_nat (8 * (b + (l + 32))) = of_nat (8 * w)"
    using assms(4) unfolding w_def by (subst bs_diff) (simp_all add: diff_mult_distrib2 [symmetric])
  moreover have w: "8 * w < 2 ^ 32" "w < 32" using assms(4,6) unfolding w_def by simp_all
  ultimately have remain: "(?R - (?L + of_nat BS_BLOCK_SIZE)) AND NOT 7 = of_nat (8 * w)"
    unfolding start2 by (intro word_unat_eq_iff [THEN iffD2]) (simp add: and_minus_8 unat_of_nat32 del: of_nat_mult)
  have un: "unat (of_nat (8 * w) :: u32) = 8 * w" using w(1) by (rule unat_of_nat32)
  then have nz: "(of_nat (8 * w) :: u32) \<noteq> 0 \<longleftrightarrow> w \<noteq> 0" by (metis mult_is_0 unat_eq_zero zero_neq_numeral)
  have small: "\<not> 8 * 32 < 8 * w" using w by simp
  define f2 where "f2 = bs_search (mram_read64 m (unat (of_nat (8 * (b + (l + 32))) :: u32)) (8 * w)) x (8 * w)"
  have f2: "(f2 = -2 \<and> sint x < sint (m (b + (l + 32))))
    \<or> (f2 = -1 \<and> sint (m (b + (l + 32))) \<le> sint x \<and> (\<forall>i < w. m (b + (l + 32) + i) \<noteq> x))
    \<or> (\<exists>i < w. f2 = int i \<and> m (b + (l + 32) + i) = x)" if "w \<noteq> 0"
    unfolding f2_def by (rule bs_block) (use that assms in simp_all)
  have idx: "bs_index (of_nat (8 * b)) (of_nat (8 * (b + k))) f = f + int k" if "k < n" for k f
    using bs_index_words [of "8 * b" k f] that assms(2) by (simp add: algebra_simps)
  have eq: "bs_boundary m (of_nat (8 * b)) x ?L ?R found =
    (if f > -1 then Some (f + int l) else if w = 0 then Some found
     else if f2 > -1 then Some (f2 + int (l + 32)) else Some found)" (is "_ = ?rhs")
    unfolding bs_boundary_def Let_def unfolding remain un nz unfolding start2 unfolding bs
    unfolding f_def [symmetric] f2_def [symmetric]
  proof (cases "w = 0")
    case True
    then show "(if - 1 < f then Some (bs_index (of_nat (8 * b)) ?L f)
      else if w \<noteq> 0 then if 8 * 32 < 8 * w then None
        else if - 1 < f2 then Some (bs_index (of_nat (8 * b)) (of_nat (8 * (b + (l + 32)))) f2) else Some found
      else Some found) = ?rhs"
      using idx [of l f] assms(4,5) by (simp only: simp_thms if_True if_False idx)
  next
    case False
    then show "(if - 1 < f then Some (bs_index (of_nat (8 * b)) ?L f)
      else if w \<noteq> 0 then if 8 * 32 < 8 * w then None
        else if - 1 < f2 then Some (bs_index (of_nat (8 * b)) (of_nat (8 * (b + (l + 32)))) f2) else Some found
      else Some found) = ?rhs"
      using idx [of l f] idx [of "l + 32" f2] assms(4,5) small unfolding w_def by (simp only: simp_thms if_True if_False)
  qed
  show ?thesis
  proof (cases "\<exists>i < 32. f = int i \<and> m (b + l + i) = x")
    case True
    then obtain i where i: "i < 32" "f = int i" "m (b + (l + i)) = x" by (auto simp: add.assoc)
    then have "bs_result m b n x found (f + int l)"
      using assms(4,5) by (intro bs_result_hit [of "l + i"]) simp_all
    then show ?thesis unfolding eq using i(2) by simp
  next
    case no1: False
    then have f': "\<not> f > -1" using f by auto
    have low: "m (b + k) \<noteq> x" if "l \<le> k" "k < r" "k < l + 32" for k
      using f no1 above [of l k] that by (auto simp: le_iff_add add.assoc)
    show ?thesis
    proof (cases "w \<noteq> 0 \<and> (\<exists>i < w. f2 = int i \<and> m (b + (l + 32) + i) = x)")
      case True
      then obtain i where i: "w \<noteq> 0" "i < w" "f2 = int i" "m (b + (l + 32 + i)) = x" by (auto simp: add.assoc)
      then have "bs_result m b n x found (f2 + int (l + 32))"
        using assms(4,5) unfolding w_def by (intro bs_result_hit [of "l + 32 + i"]) simp_all
      then show ?thesis unfolding eq using i(1,3) f' by simp
    next
      case no2: False
      have "m (b + k) \<noteq> x" if k: "l \<le> k" "k < r" for k
      proof (cases "k < l + 32")
        case False
        then have "w \<noteq> 0" using k unfolding w_def by simp
        obtain i where i: "k = l + 32 + i" using False by (metis le_iff_add linorder_not_less)
        then have "i < w" using k unfolding w_def by simp
        then show ?thesis using f2 [OF \<open>w \<noteq> 0\<close>] no2 \<open>w \<noteq> 0\<close> above [of "l + 32" k] k False by (auto simp: i add.assoc)
      qed (use low k in auto)
      then have "\<nexists>k. k < n \<and> m (b + k) = x" by (rule absent)
      moreover have "w \<noteq> 0 \<longrightarrow> \<not> f2 > -1" using f2 no2 by auto
      ultimately show ?thesis unfolding eq using f' bs_result_absent by auto
    qed
  qed
qed

lemma bs_loop_result:
  assumes srt: "bs_sorted m b n" and bnd: "8 * (b + n) < 2 ^ 31" "b < 2 ^ 28"
  shows "l + 32 \<le> r \<Longrightarrow> r \<le> n \<Longrightarrow> ((\<exists>k < n. m (b + k) = x) \<Longrightarrow> \<exists>k. l \<le> k \<and> k < r \<and> m (b + k) = x) \<Longrightarrow>
    \<exists>y. bs_loop m (of_nat (8 * b)) x found (of_nat (8 * (b + l))) (of_nat (8 * (b + r))) = Some y \<and> bs_result m b n x found y"
proof (induction "r - l" arbitrary: l r rule: less_induct)
  case less
  let ?L = "of_nat (8 * (b + l)) :: u32" and ?R = "of_nat (8 * (b + r)) :: u32"
  define h where "h = (l + r) div 2"
  have bs: "BS_BLOCK_SIZE = 8 * 32" by (simp add: BS_BLOCK_SIZE_def)
  have h8: "(8 * (b + l) + 8 * (b + r)) div 2 div 8 * 8 = 8 * (b + h)"
    unfolding h_def by (simp add: div_mult2_eq [symmetric]) 
  have mid: "(?L + ?R) div 2 AND BS_WORD_MASK = of_nat (8 * (b + h))"
  proof -
    have "8 * (b + l) + 8 * (b + r) < 2 ^ 32" using less.prems(1,2) bnd(1) by simp
    from bs_mid [OF this] show ?thesis unfolding h8 .
  qed
  have L32: "?L + of_nat BS_BLOCK_SIZE = of_nat (8 * (b + (l + 32)))" by (simp add: BS_BLOCK_SIZE_def)
  have lt: "(of_nat (8 * (b + h)) :: u32) < of_nat (8 * (b + (l + 32))) \<longleftrightarrow> h < l + 32"
    using less.prems bnd by (subst bs_less) (auto simp: h_def)
  define f where "f = bs_search (mram_read64 m (unat (of_nat (8 * (b + h)) :: u32)) (8 * 32)) x (8 * 32)"
  have step: "bs_loop m (of_nat (8 * b)) x found ?L ?R =
    (if h < l + 32 then bs_boundary m (of_nat (8 * b)) x ?L ?R found
     else if f > -1 then Some (bs_index (of_nat (8 * b)) (of_nat (8 * (b + h))) f)
     else if f = -2 then bs_loop m (of_nat (8 * b)) x found ?L (of_nat (8 * (b + h)))
     else bs_loop m (of_nat (8 * b)) x found (of_nat (8 * (b + h))) ?R)"
    by (subst bs_loop.simps) (simp only: mid L32 lt Let_def, simp only: bs f_def)
  show ?case
  proof (cases "h < l + 32")
    case True
    then have "r < l + 64" unfolding h_def by linarith
    then show ?thesis
      using bs_boundary_result [OF srt bnd less.prems(1,2) _ less.prems(3), of found] True unfolding step by (simp only: if_True)
  next
    case False
    then have h: "l + 32 \<le> h" "h + 32 \<le> r" "h < n" using less.prems unfolding h_def by linarith+
    have "(f = -2 \<and> sint x < sint (m (b + h)))
      \<or> (f = -1 \<and> sint (m (b + h)) \<le> sint x \<and> (\<forall>i < 32. m (b + h + i) \<noteq> x))
      \<or> (\<exists>i < 32. f = int i \<and> m (b + h + i) = x)"
      unfolding f_def by (rule bs_block) (use h bnd in simp_all)
    then consider (left) "f = -2" "sint x < sint (m (b + h))"
      | (right) "f = -1" "sint (m (b + h)) \<le> sint x" "\<forall>i < 32. m (b + h + i) \<noteq> x"
      | (hit) i where "i < 32" "f = int i" "m (b + h + i) = x" by blast
    then show ?thesis
    proof cases
      case left
      have "\<exists>k. l \<le> k \<and> k < h \<and> m (b + k) = x" if ex: "\<exists>k < n. m (b + k) = x"
      proof -
        obtain k where k: "l \<le> k" "k < r" "m (b + k) = x" using less.prems(3) [OF ex] by blast
        have "k < h"
        proof (rule ccontr)
          assume "\<not> k < h"
          then have "sint (m (b + h)) \<le> sint (m (b + k))" using srt k less.prems(2) by (auto simp: bs_sorted_def)
          then show False using left(2) k(3) by simp
        qed
        then show ?thesis using k by blast
      qed
      then have "\<exists>y. bs_loop m (of_nat (8 * b)) x found ?L (of_nat (8 * (b + h))) = Some y \<and> bs_result m b n x found y"
        using h by (intro less.hyps) auto
      then show ?thesis using False left(1) unfolding step by (simp del: of_nat_add of_nat_mult)
    next
      case right
      have "\<exists>k. h \<le> k \<and> k < r \<and> m (b + k) = x" if ex: "\<exists>k < n. m (b + k) = x"
      proof -
        obtain k where k: "l \<le> k" "k < r" "m (b + k) = x" using less.prems(3) [OF ex] by blast
        show ?thesis
        proof (cases "k < h")
          case True
          then have "sint (m (b + k)) \<le> sint (m (b + h))" using srt h by (auto simp: bs_sorted_def)
          then have "sint (m (b + h)) = sint x" using right(2) k(3) by simp
          then have "m (b + h) = x" by (rule signed_word_eqI)
          then show ?thesis using right(3) [rule_format, of 0] by simp
        next
          case False
          then show ?thesis using k by (intro exI [of _ k]) simp
        qed
      qed
      then have "\<exists>y. bs_loop m (of_nat (8 * b)) x found (of_nat (8 * (b + h))) ?R = Some y \<and> bs_result m b n x found y"
        using h less.prems by (intro less.hyps) auto
      then show ?thesis using False right(1) unfolding step by (simp del: of_nat_add of_nat_mult)
    next
      case hit
      have "bs_index (of_nat (8 * b)) (of_nat (8 * (b + h))) f = int (h + i)"
        using bs_index_words [of "8 * b" h f] h bnd hit(2) by (simp add: algebra_simps)
      moreover have "bs_result m b n x found (int (h + i))"
        using hit h less.prems by (intro bs_result_hit [of "h + i"]) (simp_all add: add.assoc)
      ultimately show ?thesis using False hit(2) unfolding step by (simp del: of_nat_add of_nat_mult)
    qed
  qed
qed

section \<open>Tasklets\<close>

definition bs_words :: "bs_arguments \<Rightarrow> nat" where "bs_words args = unat (bs_input_size args)"
definition bs_A :: nat where "bs_A = BS_A_OFFSET div 8"

definition bs_queries :: "cells64 \<Rightarrow> bs_arguments \<Rightarrow> nat \<Rightarrow> nat \<Rightarrow> u64" where
  "bs_queries m args t q = m (bs_A + bs_words args + t * bs_queries_per_tasklet args + q)"

definition bs_ok :: "cells64 \<Rightarrow> bs_arguments \<Rightarrow> bool" where
  "bs_ok m args \<longleftrightarrow> 32 \<le> bs_words args
     \<and> BS_A_OFFSET + 8 * (bs_words args + NR_TASKLETS * bs_queries_per_tasklet args) \<le> SK_LOG_OFFSET
     \<and> bs_sorted m bs_A (bs_words args)"

text \<open>What a tasklet finds: an index for the last of its first \<open>j\<close> queries that is in the array.\<close>

definition bs_found :: "cells64 \<Rightarrow> nat \<Rightarrow> (nat \<Rightarrow> u64) \<Rightarrow> nat \<Rightarrow> int \<Rightarrow> bool" where
  "bs_found m n qs j y \<longleftrightarrow>
     (let absent = (\<lambda>q. \<forall>k < n. m (bs_A + k) \<noteq> qs q)
      in (y = -1 \<and> (\<forall>q < j. absent q))
       \<or> (\<exists>q < j. \<exists>k < n. y = int k \<and> m (bs_A + k) = qs q \<and> (\<forall>r. q < r \<and> r < j \<longrightarrow> absent r)))"

lemma bs_found_step:
  "bs_found m n qs j y \<Longrightarrow> bs_result m bs_A n (qs j) y z \<Longrightarrow> bs_found m n qs (Suc j) z"
proof (cases "\<exists>k < n. m (bs_A + k) = qs j")
  case True
  moreover assume "bs_result m bs_A n (qs j) y z"
  ultimately obtain k where "k < n" "z = int k" "m (bs_A + k) = qs j" by (auto simp: bs_result_def)
  then show ?thesis unfolding bs_found_def Let_def
    by (intro disjI2 exI [of _ j] conjI lessI exI [of _ k]) auto
next
  case False
  moreover assume "bs_result m bs_A n (qs j) y z"
  ultimately have "z = y" by (simp only: bs_result_def if_False)
  moreover assume "bs_found m n qs j y"
  ultimately show ?thesis
    using False unfolding bs_found_def Let_def by (metis less_SucE less_SucI)
qed

lemma bs_addresses:
  assumes "bs_ok m args" "t < NR_TASKLETS" "q < bs_queries_per_tasklet args"
  shows "bs_A_base = of_nat (8 * bs_A)" "bs_A_end args = of_nat (8 * (bs_A + bs_words args))"
    "mram_read64 m (unat (bs_query_addr args t + 8 * of_nat q)) 8 ! 0 = bs_queries m args t q"
    "8 * (bs_A + bs_words args) < 2 ^ 31" "bs_A < 2 ^ 28"
proof -
  let ?S = "bs_queries_per_tasklet args"
  have a: "BS_A_OFFSET = 8 * bs_A" by (simp add: bs_A_def BS_A_OFFSET_def BS_ARG_OFFSET_def)
  show base: "bs_A_base = of_nat (8 * bs_A)" by (simp add: bs_A_base_def a)
  have "bs_input_size args * 8 = of_nat (8 * bs_words args)" by (simp add: bs_words_def)
  then show e: "bs_A_end args = of_nat (8 * (bs_A + bs_words args))"
    unfolding bs_A_end_def base by (simp only: ucast_of_nat64 of_nat_add distrib_left)
  have "bs_slice_per_dpu args div of_nat NR_TASKLETS * 8 = of_nat (8 * ?S)"
    by (simp add: bs_queries_per_tasklet_def)
  then have "bs_query_addr args t + 8 * of_nat q = of_nat (8 * (bs_A + bs_words args + t * ?S + q))"
    unfolding bs_query_addr_def e by (simp only: ucast_of_nat64) (simp add: algebra_simps)
  moreover have "t * ?S + q < NR_TASKLETS * ?S"
  proof -
    have "t * ?S + q < t * ?S + ?S" using assms(3) by simp
    also have "\<dots> = Suc t * ?S" by simp
    also have "\<dots> \<le> NR_TASKLETS * ?S" using assms(2) by (intro mult_le_mono1) simp
    finally show ?thesis .
  qed
  then have lt: "8 * (bs_A + bs_words args + t * ?S + q) < 2 ^ 26"
    using assms(1) unfolding bs_ok_def a SK_LOG_OFFSET_def by simp
  then have "8 * (bs_A + bs_words args + t * ?S + q) < 2 ^ 32" by simp
  ultimately have "unat (bs_query_addr args t + 8 * of_nat q) = 8 * (bs_A + bs_words args + t * ?S + q)"
    by (simp only: unat_of_nat32)
  then show "mram_read64 m (unat (bs_query_addr args t + 8 * of_nat q)) 8 ! 0 = bs_queries m args t q"
    using mram_read64_cells [of m "bs_A + bs_words args + t * ?S + q" 1] by (simp add: bs_queries_def)
  show "8 * (bs_A + bs_words args) < 2 ^ 31" using lt by simp
  show "bs_A < 2 ^ 28" by (simp add: bs_A_def BS_A_OFFSET_def BS_ARG_OFFSET_def)
qed

lemma bs_query_result:
  assumes "bs_ok m args" "t < NR_TASKLETS" "q < bs_queries_per_tasklet args"
  shows "\<exists>z. bs_query m args (bs_query_addr args t + 8 * of_nat q) y = Some z
    \<and> bs_result m bs_A (bs_words args) (bs_queries m args t q) y z"
proof -
  note a = bs_addresses [OF assms]
  have s: "bs_sorted m bs_A (bs_words args)" "0 + 32 \<le> bs_words args" using assms(1) by (simp_all add: bs_ok_def)
  show ?thesis
    using bs_loop_result [OF s(1) a(4,5) s(2) order_refl, of "bs_queries m args t q" y]
    unfolding bs_query_def a(3) Let_def unfolding a(1,2) by simp
qed

lemma bs_tasklet_found:
  assumes "bs_ok m args" "t < NR_TASKLETS"
  shows "\<exists>y. run_seq (bs_tasklet m args t) (Some (-1)) = Some y
    \<and> bs_found m (bs_words args) (bs_queries m args t) (bs_queries_per_tasklet args) y"
proof -
  have "\<exists>y. fold (\<lambda>q r. Option.bind r (bs_query m args (bs_query_addr args t + 8 * of_nat q))) [0..<j] (Some (-1)) = Some y
    \<and> bs_found m (bs_words args) (bs_queries m args t) j y" if "j \<le> bs_queries_per_tasklet args" for j
    using that
  proof (induction j)
    case 0
    then show ?case by (simp add: bs_found_def)
  next
    case (Suc j)
    then obtain y where y: "fold (\<lambda>q r. Option.bind r (bs_query m args (bs_query_addr args t + 8 * of_nat q))) [0..<j] (Some (-1)) = Some y"
      "bs_found m (bs_words args) (bs_queries m args t) j y" by auto
    obtain z where "bs_query m args (bs_query_addr args t + 8 * of_nat j) y = Some z"
      "bs_result m bs_A (bs_words args) (bs_queries m args t j) y z"
      using bs_query_result [OF assms, of j y] Suc.prems by auto
    then show ?case using y bs_found_step by auto
  qed
  then show ?thesis by (auto simp: bs_tasklet_def run_seq_map)
qed

lemma bs_maxf_Max: "bs_maxf found = Max (insert (-1) (found ` {..<NR_TASKLETS}))"
proof -
  have "fold (\<lambda>t. max (found t)) ts a = Max (insert a (found ` set ts))" for ts a
  proof (induction ts rule: rev_induct)
    case (snoc t ts)
    have "insert a (found ` set (ts @ [t])) = insert (found t) (insert a (found ` set ts))" by auto
    then have "Max (insert a (found ` set (ts @ [t]))) = max (found t) (Max (insert a (found ` set ts)))"
      by (simp only:) (rule Max_insert; simp)
    then show ?case by (simp only: fold_append comp_apply fold_simps snoc)
  qed simp
  moreover have "(if y < x then x else y) = max x y" for x y :: int by (simp add: max_def)
  ultimately show ?thesis by (simp add: bs_maxf_def lessThan_atLeast0)
qed

section \<open>The result\<close>

lemma bs_read_args_log [simp]: "bs_read_args_aligned (sk_log_init64 m) = bs_read_args_aligned m"
  by (simp add: bs_read_args_aligned_def mram_read64_def BS_ARG_OFFSET_def SK_LOG_OFFSET_def)

lemma bs_ok_log:
  assumes "bs_ok m args"
  shows "bs_ok (sk_log_init64 m) args"
    "t < NR_TASKLETS \<Longrightarrow> bs_found (sk_log_init64 m) (bs_words args) (bs_queries (sk_log_init64 m) args t) (bs_queries_per_tasklet args) y
      \<longleftrightarrow> bs_found m (bs_words args) (bs_queries m args t) (bs_queries_per_tasklet args) y"
proof -
  have a: "BS_A_OFFSET = 8 * bs_A" by (simp add: bs_A_def BS_A_OFFSET_def BS_ARG_OFFSET_def)
  have l: "SK_LOG_OFFSET = 8 * (SK_LOG_OFFSET div 8)" by (simp add: SK_LOG_OFFSET_def)
  have top: "bs_A + bs_words args + NR_TASKLETS * bs_queries_per_tasklet args \<le> SK_LOG_OFFSET div 8"
    using assms unfolding bs_ok_def a by (subst (asm) l) simp
  then have same: "sk_log_init64 m (bs_A + k) = m (bs_A + k)" if "k < bs_words args" for k
    using that by simp
  then show "bs_ok (sk_log_init64 m) args"
    using assms by (auto simp: bs_ok_def bs_sorted_def)
  show "bs_found (sk_log_init64 m) (bs_words args) (bs_queries (sk_log_init64 m) args t) (bs_queries_per_tasklet args) y
      \<longleftrightarrow> bs_found m (bs_words args) (bs_queries m args t) (bs_queries_per_tasklet args) y" if t: "t < NR_TASKLETS"
  proof -
    have "bs_queries (sk_log_init64 m) args t q = bs_queries m args t q" if "q < bs_queries_per_tasklet args" for q
    proof -
      let ?S = "bs_queries_per_tasklet args"
      have "t * ?S + q < Suc t * ?S" using that by simp
      also have "\<dots> \<le> NR_TASKLETS * ?S" using t by (intro mult_le_mono1) simp
      finally show ?thesis using top by (simp add: bs_queries_def)
    qed
    then show ?thesis using same unfolding bs_found_def Let_def by (metis (no_types, lifting))
  qed
qed

text \<open>
  C33: Binary search in a sorted array of at least 32 words: the loop of every query ends, with its last
  transfer inside the cache; every tasklet is left with an index of the last of its queries that is
  in the array, or with -1 when none is; and the log gets the greatest of these. Below the log
  nothing changes.
\<close>

theorem bs_main_correct:
  assumes "args = bs_read_args_aligned m" "bs_ok m args"
  shows "(\<exists>m'. bs_main m m') \<and> (\<forall>m'. bs_main m m' \<longrightarrow>
    (\<exists>found. (\<forall>t < NR_TASKLETS. bs_found m (bs_words args) (bs_queries m args t) (bs_queries_per_tasklet args) (found t))
      \<and> m' (SK_LOG_OFFSET div 8) = of_int (Max (insert (-1) (found ` {..<NR_TASKLETS})))
      \<and> (\<forall>j < SK_LOG_OFFSET div 8. m' j = m j)))"
proof -
  let ?m = "sk_log_init64 m"
  let ?progs = "map (\<lambda>t. map (at_slot t) (bs_tasklet ?m args t)) [0..<NR_TASKLETS]"
  have slots: "\<exists>y. res t = Some y \<and> bs_found m (bs_words args) (bs_queries m args t) (bs_queries_per_tasklet args) y"
    if "phase ?progs (\<lambda>t. Some (-1)) res" "t < NR_TASKLETS" for res t
    using phase_slots [OF that(1), of t] that(2) bs_tasklet_found [OF bs_ok_log(1) [OF assms(2)], of t] bs_ok_log(2) [OF assms(2)]
    by auto
  have "\<exists>res. phase ?progs (\<lambda>t. Some (-1)) res" by (rule exI, rule phase_seq)
  then obtain res where res: "phase ?progs (\<lambda>t. Some (-1)) res" by blast
  have some: "res t = Some (the (res t))" if "t < NR_TASKLETS" for t
    using slots [OF res that] by auto
  have "\<exists>m'. bs_main m m'"
    unfolding bs_main_def Let_def
    by (rule exI, rule exI [of _ res], rule exI [of _ "\<lambda>t. the (res t)"], intro conjI allI impI)
      (use res some assms(1) in simp_all)
  moreover have "\<exists>found. (\<forall>t < NR_TASKLETS. bs_found m (bs_words args) (bs_queries m args t) (bs_queries_per_tasklet args) (found t))
      \<and> m' (SK_LOG_OFFSET div 8) = of_int (Max (insert (-1) (found ` {..<NR_TASKLETS})))
      \<and> (\<forall>j < SK_LOG_OFFSET div 8. m' j = m j)" if main: "bs_main m m'" for m'
  proof -
    obtain res found where r: "phase ?progs (\<lambda>t. Some (-1)) res" "\<forall>t < NR_TASKLETS. res t = Some (found t)"
      "m' = sk_log_write_idx64 0 (of_int (bs_maxf found)) ?m"
      using main by (auto simp: bs_main_def Let_def assms(1))
    have "\<forall>t < NR_TASKLETS. bs_found m (bs_words args) (bs_queries m args t) (bs_queries_per_tasklet args) (found t)"
      using slots [OF r(1)] r(2) by force
    then show ?thesis
      using r(3) by (intro exI [of _ found]) (simp add: bs_maxf_Max sk_log_write_idx64_cell)
  qed
  ultimately show ?thesis by blast
qed

text \<open>An input of 64 even numbers and one query per tasklet, three apart.\<close>

definition bs_demo :: cells64 where
  "bs_demo = (\<lambda>j. if j = BS_ARG_OFFSET div 8 then 64 else if j = BS_ARG_OFFSET div 8 + 1 then 16
     else if bs_A \<le> j \<and> j < bs_A + 64 then of_nat (2 * (j - bs_A)) else of_nat (3 * (j - (bs_A + 64))))"

theorem bs_main_correct_witness:
  "\<exists>m' (found :: nat \<Rightarrow> int). bs_main bs_demo m' \<and> bs_found bs_demo 64 (\<lambda>q. bs_demo (bs_A + 64 + 7 + q)) 1 (found 7)
     \<and> m' (SK_LOG_OFFSET div 8) = of_int (Max (insert (-1) (found ` {..<16})))"
proof -
  let ?args = "\<lparr>bs_input_size = 64, bs_slice_per_dpu = 16, bs_kernel = lo32 (bs_demo (BS_ARG_OFFSET div 8 + 2))\<rparr>"
  have args: "bs_read_args_aligned bs_demo = ?args"
    by (simp add: bs_read_args_aligned_def mram_read64_def BS_ARG_OFFSET_def upt_rec bs_demo_def)
  have n: "bs_words \<lparr>bs_input_size = 64, bs_slice_per_dpu = 16, bs_kernel = k\<rparr> = 64"
    "bs_queries_per_tasklet \<lparr>bs_input_size = 64, bs_slice_per_dpu = 16, bs_kernel = k\<rparr> = 1" for k
    by (simp_all add: bs_words_def bs_queries_per_tasklet_def NR_TASKLETS_def)
  have A: "bs_demo (bs_A + i) = of_nat (2 * i)" if "i < 64" for i
    using that by (simp add: bs_demo_def bs_A_def BS_A_OFFSET_def BS_ARG_OFFSET_def)
  have "sint (of_nat (2 * i) :: u64) = int (2 * i)" if "i < 64" for i
    using that by (simp add: signed_of_nat signed_take_bit_int_eq_self_iff del: of_nat_mult)
  then have "bs_sorted bs_demo bs_A 64"
    by (auto simp: bs_sorted_def A simp del: of_nat_mult)
  then have "bs_ok bs_demo ?args"
    by (simp add: bs_ok_def n BS_A_OFFSET_def BS_ARG_OFFSET_def SK_LOG_OFFSET_def NR_TASKLETS_def)
  note bs_main_correct [OF args [symmetric] this, unfolded n]
  then obtain m' found where main: "bs_main bs_demo m'"
    and found: "\<forall>t < NR_TASKLETS. bs_found bs_demo 64 (bs_queries bs_demo ?args t) 1 (found t)"
    and log: "m' (SK_LOG_OFFSET div 8) = of_int (Max (insert (-1) (found ` {..<NR_TASKLETS})))" by blast
  have q: "bs_queries bs_demo ?args 7 = (\<lambda>q. bs_demo (bs_A + 64 + 7 + q))"
    by (rule ext) (simp only: bs_queries_def n mult_1_right)
  have "7 < NR_TASKLETS" by (simp add: NR_TASKLETS_def)
  from found [rule_format, OF this] have "bs_found bs_demo 64 (\<lambda>q. bs_demo (bs_A + 64 + 7 + q)) 1 (found 7)"
    unfolding q .
  then show ?thesis using main log unfolding NR_TASKLETS_def by blast
qed

end
