(* ===== verification/Kernel_TS.thy ===== *)
theory Kernel_TS imports Kernel_GEMV "HOL-Library.Signed_Division"
begin

text \<open>
  Time series, \<^verbatim>\<open>src/src/TS/main.c\<close>: the window of the series closest to a query. Every tasklet slides
  over its share of the series in blocks of 64 windows, whose dot products with the query it
  accumulates block by block from two neighbouring blocks of the series; it keeps the least
  distance and the window where it first occurs, and writes both to its result in MRAM. Arithmetic is on 32-bit
  words; a division by zero has no result.
\<close>

section \<open>The kernel\<close>

record ts_arguments =
  ts_input_size_n :: u64
  ts_query_length :: u32
  ts_query_mean :: u32
  ts_query_std :: u32
  ts_slice_per_dpu :: u32
  ts_exclusion_zone :: u32
  ts_kernel :: u32

definition TS_BLOCK_SIZE :: nat where "TS_BLOCK_SIZE = 2 ^ 8"
definition TS_DOTPIP :: nat where "TS_DOTPIP = TS_BLOCK_SIZE div 4"
definition TS_ARG_OFFSET :: nat where "TS_ARG_OFFSET = 0x2000"
definition TS_A_OFFSET :: nat where "TS_A_OFFSET = TS_ARG_OFFSET + (32 + 0xFF) div 0x100 * 0x100"
definition TS_DTYPE_MAX :: u32 where "TS_DTYPE_MAX = 0x7FFFFFFF"

definition ts_read_args_aligned :: "cells \<Rightarrow> ts_arguments" where
  "ts_read_args_aligned m =
     (let buf = mram_read m TS_ARG_OFFSET 32
      in \<lparr>ts_input_size_n = u64_of (buf ! 0) (buf ! 1), ts_query_length = buf ! 2, ts_query_mean = buf ! 3, ts_query_std = buf ! 4,
          ts_slice_per_dpu = buf ! 5, ts_exclusion_zone = buf ! 6, ts_kernel = buf ! 7\<rparr>)"

definition ts_dot_product :: "u32 list \<Rightarrow> u32 list \<Rightarrow> u32 list \<Rightarrow> u32 list \<Rightarrow> u32 list" where
  "ts_dot_product vectorA vectorA_aux vectorB result =
     fold (\<lambda>i result.
         fold (\<lambda>j result. result[j := result ! j +
             (if j + i > TS_DOTPIP - 1 then vectorA_aux ! (j + i - TS_DOTPIP) * vectorB ! i else vectorA ! (j + i) * vectorB ! i)])
           [0..<TS_DOTPIP] result)
       [0..<TS_DOTPIP] result"

definition ts_dotprods :: "cells \<Rightarrow> nat \<Rightarrow> nat \<Rightarrow> nat \<Rightarrow> u32 list" where
  "ts_dotprods m addr_TS addr_query query_length =
     snd (snd (fold (\<lambda>j (addr_TS, addr_query, cache_dotprods).
         (addr_TS + TS_BLOCK_SIZE, addr_query + TS_BLOCK_SIZE,
          ts_dot_product (mram_read m addr_TS TS_BLOCK_SIZE) (mram_read m (addr_TS + TS_BLOCK_SIZE) TS_BLOCK_SIZE)
            (mram_read m addr_query TS_BLOCK_SIZE) cache_dotprods))
       [0..<query_length div TS_DOTPIP] (addr_TS, addr_query, replicate TS_DOTPIP 0)))"

definition ts_distance :: "ts_arguments \<Rightarrow> u32 \<Rightarrow> u32 \<Rightarrow> u32 \<Rightarrow> u32 option" where
  "ts_distance args dotprod mean sigma =
     (let query_length = ts_query_length args; den = sigma * ts_query_std args
      in if den = 0 then None
         else Some (2 * (query_length - of_int (sint (dotprod - query_length * mean * ts_query_mean args) sdiv sint den))))"

definition ts_update :: "u32 option \<Rightarrow> u32 \<Rightarrow> (u32 \<times> u32) option \<Rightarrow> (u32 \<times> u32) option" where
  "ts_update distance index best =
     Option.bind best (\<lambda>(min_distance, min_index). Option.bind distance (\<lambda>distance.
       if sint distance < sint min_distance then Some (distance, index) else Some (min_distance, min_index)))"

definition ts_base :: "ts_arguments \<Rightarrow> nat" where
  "ts_base args = TS_A_OFFSET + unat (ts_query_length args) * 4"

definition ts_chunk_bytes :: "ts_arguments \<Rightarrow> nat" where
  "ts_chunk_bytes args = (unat (ts_slice_per_dpu args) + unat (ts_query_length args)) * 4"

definition ts_mean_base :: "ts_arguments \<Rightarrow> nat" where "ts_mean_base args = ts_base args + ts_chunk_bytes args"
definition ts_sigma_base :: "ts_arguments \<Rightarrow> nat" where "ts_sigma_base args = ts_mean_base args + ts_chunk_bytes args"
definition ts_results_base :: "ts_arguments \<Rightarrow> nat" where "ts_results_base args = ts_sigma_base args + ts_chunk_bytes args"

definition ts_myStartElem :: "ts_arguments \<Rightarrow> nat \<Rightarrow> u32" where
  "ts_myStartElem args tasklet_id = of_nat tasklet_id * (ts_slice_per_dpu args div of_nat NR_TASKLETS)"

definition ts_myEndElem :: "ts_arguments \<Rightarrow> nat \<Rightarrow> u32" where
  "ts_myEndElem args tasklet_id =
     (let e = ts_myStartElem args tasklet_id + ts_slice_per_dpu args div of_nat NR_TASKLETS - 1;
          limit = ts_slice_per_dpu args - ts_query_length args
      in if e > limit then limit else e)"

text \<open>
  One block of windows, from window \<open>i\<close> on. The addresses of the means and deviations run
  along with \<open>i\<close>.
\<close>

definition ts_block :: "cells \<Rightarrow> ts_arguments \<Rightarrow> nat \<Rightarrow> nat \<Rightarrow> (u32 \<times> u32) option \<Rightarrow> (u32 \<times> u32) option" where
  "ts_block m args start i best =
     (let starting_offset_ts = ts_base args + start * 4;
          cache_dotprods = ts_dotprods m (starting_offset_ts + (i - start) * 4) TS_A_OFFSET (unat (ts_query_length args));
          cache_TSMean = mram_read m (ts_mean_base args + start * 4 + (i - start) * 4) TS_BLOCK_SIZE;
          cache_TSSigma = mram_read m (ts_sigma_base args + start * 4 + (i - start) * 4) TS_BLOCK_SIZE
      in fold (\<lambda>k best. ts_update (ts_distance args (cache_dotprods ! k) (cache_TSMean ! k) (cache_TSSigma ! k))
                          (of_nat (i + k)) best)
           [0..<TS_DOTPIP] best)"

definition ts_tasklet :: "cells \<Rightarrow> ts_arguments \<Rightarrow> nat \<Rightarrow> ((u32 \<times> u32) option \<Rightarrow> (u32 \<times> u32) option) list" where
  "ts_tasklet m args tasklet_id =
     (let start = unat (ts_myStartElem args tasklet_id)
      in map (ts_block m args start) (stride_list TS_DOTPIP start (unat (ts_myEndElem args tasklet_id))))"

text \<open>The result of a tasklet in MRAM: least value, its index, and two unused words.\<close>

definition ts_store_result :: "ts_arguments \<Rightarrow> (nat \<Rightarrow> u32 \<times> u32) \<Rightarrow> nat \<Rightarrow> cells \<Rightarrow> cells" where
  "ts_store_result args results tasklet_id =
     mram_write [fst (results tasklet_id), snd (results tasklet_id), 0, 0] (ts_results_base args + tasklet_id * 16) 16"

definition ts_main :: "cells \<Rightarrow> cells \<Rightarrow> bool" where
  "ts_main m m' \<longleftrightarrow>
     (let m = sk_log_init m; args = ts_read_args_aligned m
      in \<exists>found results.
           phase (map (\<lambda>t. map (at_slot t) (ts_tasklet m args t)) [0..<NR_TASKLETS]) (\<lambda>t. Some (TS_DTYPE_MAX, 0)) found
         \<and> (\<forall>t < NR_TASKLETS. found t = Some (results t))
         \<and> phase (map (\<lambda>t. [ts_store_result args results t]) [0..<NR_TASKLETS]) m m')"

section \<open>Sliding dot products\<close>

lemma nth_fold_add:
  "n \<le> length xs \<Longrightarrow>
   fold (\<lambda>i xs. xs[i := xs ! i + g i]) [0..<n] xs ! k = (if k < n then xs ! k + g k else xs ! k)"
  using nth_fold_update [where g = "\<lambda>i x. x + g i" and n = n and xs = xs and k = k] by simp

lemma ts_dot_product_nth:
  assumes "length A = TS_DOTPIP" "length aux = TS_DOTPIP" "length result = TS_DOTPIP" "k < TS_DOTPIP"
  shows "ts_dot_product A aux B result ! k = result ! k + (\<Sum>i < TS_DOTPIP. (A @ aux) ! (k + i) * B ! i)"
    "length (ts_dot_product A aux B result) = TS_DOTPIP"
proof -
  let ?in = "\<lambda>i result. fold (\<lambda>j result. result[j := result ! j +
      (if j + i > TS_DOTPIP - 1 then aux ! (j + i - TS_DOTPIP) * B ! i else A ! (j + i) * B ! i)]) [0..<TS_DOTPIP] result"
  have len: "length (fold ?in is r) = length r" for "is" r
    by (induction "is" arbitrary: r) simp_all
  have "fold ?in [0..<n] result ! k = result ! k + (\<Sum>i < n. (A @ aux) ! (k + i) * B ! i)" if "n \<le> TS_DOTPIP" for n
    using that
  proof (induction n)
    case (Suc n)
    have "fold ?in [0..<Suc n] result ! k = ?in n (fold ?in [0..<n] result) ! k" by simp
    also have "\<dots> = fold ?in [0..<n] result ! k + (A @ aux) ! (k + n) * B ! n"
      using assms len [of "[0..<n]" result]
      by (subst nth_fold_add) (auto simp: nth_append)
    finally show ?case using Suc by (simp add: add.assoc)
  qed simp
  then show "ts_dot_product A aux B result ! k = result ! k + (\<Sum>i < TS_DOTPIP. (A @ aux) ! (k + i) * B ! i)"
    by (simp add: ts_dot_product_def)
  show "length (ts_dot_product A aux B result) = TS_DOTPIP"
    using len assms(3) by (simp add: ts_dot_product_def)
qed

lemma ts_sizes: "TS_BLOCK_SIZE = 4 * TS_DOTPIP" "0 < TS_DOTPIP" "TS_DOTPIP mod 2 = 0" "TS_BLOCK_SIZE mod 8 = 0" "TS_BLOCK_SIZE div 4 = TS_DOTPIP" "4 * TS_DOTPIP mod 8 = 0"
  by (simp_all add: TS_DOTPIP_def TS_BLOCK_SIZE_def)

lemma ts_dotprods_nth:
  assumes "a mod 8 = 0" "b mod 8 = 0" "k < TS_DOTPIP"
  shows "ts_dotprods m a b q ! k = dot m (a div 4 + k) (b div 4) (TS_DOTPIP * (q div TS_DOTPIP))"
proof -
  let ?f = "\<lambda>j (a, b, c). (a + TS_BLOCK_SIZE, b + TS_BLOCK_SIZE,
      ts_dot_product (mram_read m a TS_BLOCK_SIZE) (mram_read m (a + TS_BLOCK_SIZE) TS_BLOCK_SIZE) (mram_read m b TS_BLOCK_SIZE) c)"
  have "\<exists>c. fold ?f [0..<n] (a, b, replicate TS_DOTPIP 0) = (a + TS_BLOCK_SIZE * n, b + TS_BLOCK_SIZE * n, c)
    \<and> length c = TS_DOTPIP \<and> c ! k = dot m (a div 4 + k) (b div 4) (TS_DOTPIP * n)" for n
  proof (induction n)
    case 0
    then show ?case using assms(3) by (simp add: dot_def)
  next
    case (Suc n)
    let ?a = "a + TS_BLOCK_SIZE * n" and ?b = "b + TS_BLOCK_SIZE * n"
    obtain c where c: "fold ?f [0..<n] (a, b, replicate TS_DOTPIP 0) = (?a, ?b, c)"
      "length c = TS_DOTPIP" "c ! k = dot m (a div 4 + k) (b div 4) (TS_DOTPIP * n)"
      using Suc by blast
    have al: "?a mod 8 = 0" "?b mod 8 = 0" "(?a + TS_BLOCK_SIZE) mod 8 = 0"
      using assms(1,2) ts_sizes(4) by (auto simp: mod_eq_0_iff_dvd)
    have div: "?a div 4 = a div 4 + TS_DOTPIP * n" "?b div 4 = b div 4 + TS_DOTPIP * n"
      "(?a + TS_BLOCK_SIZE) div 4 = a div 4 + TS_DOTPIP * n + TS_DOTPIP"
      unfolding ts_sizes(1) mult.assoc add.assoc distrib_left [symmetric] by simp_all
    let ?A = "mram_read m ?a TS_BLOCK_SIZE" and ?X = "mram_read m (?a + TS_BLOCK_SIZE) TS_BLOCK_SIZE"
      and ?B = "mram_read m ?b TS_BLOCK_SIZE"
    have rd: "mram_read m x TS_BLOCK_SIZE = map (\<lambda>i. m (x div 4 + i)) [0..<TS_DOTPIP]" if "x mod 8 = 0" for x
      using mram_read_cells [OF that ts_sizes(4)] by (simp add: ts_sizes(5))
    have A: "?A @ ?X = map (\<lambda>i. m (a div 4 + TS_DOTPIP * n + i)) [0..<2 * TS_DOTPIP]"
      unfolding rd [OF al(1)] rd [OF al(3)] div by (rule nth_equalityI) (auto simp: nth_append add.assoc)
    have B: "?B ! i = m (b div 4 + TS_DOTPIP * n + i)" if "i < TS_DOTPIP" for i
      unfolding rd [OF al(2)] div using that by simp
    have len: "length ?A = TS_DOTPIP" "length ?X = TS_DOTPIP"
      unfolding rd [OF al(1)] rd [OF al(3)] by simp_all
    have "ts_dot_product ?A ?X ?B c ! k = c ! k + dot m (a div 4 + k + TS_DOTPIP * n) (b div 4 + TS_DOTPIP * n) TS_DOTPIP"
      unfolding ts_dot_product_nth(1) [OF len c(2) assms(3)] A dot_def
      using assms(3) by (intro arg_cong2 [where f = "(+)"] sum.cong refl) (simp add: B ac_simps)
    also have "\<dots> = dot m (a div 4 + k) (b div 4) (TS_DOTPIP * Suc n)"
      unfolding c(3) dot_add by (simp add: add.commute)
    finally show ?case
      using c(1) ts_dot_product_nth(2) [OF len c(2) assms(3)] by (simp add: algebra_simps)
  qed
  from this [of "q div TS_DOTPIP"] show ?thesis unfolding ts_dotprods_def by force
qed

section \<open>The least distance\<close>

definition ts_least :: "(nat \<Rightarrow> u32 option) \<Rightarrow> nat \<Rightarrow> nat \<Rightarrow> u32 \<times> u32 \<Rightarrow> bool" where
  "ts_least d a b vi \<longleftrightarrow>
     (\<forall>p. a \<le> p \<and> p < b \<longrightarrow> (\<exists>w. d p = Some w \<and> sint (fst vi) \<le> sint w))
   \<and> (vi = (TS_DTYPE_MAX, 0)
      \<or> (\<exists>p. a \<le> p \<and> p < b \<and> d p = Some (fst vi) \<and> snd vi = of_nat p \<and> (\<forall>r. a \<le> r \<and> r < p \<longrightarrow> d r \<noteq> Some (fst vi))))"

lemma ts_least_step:
  assumes "ts_least d a b vi" "a \<le> b" "d b = Some v"
  shows "\<exists>wi. ts_update (Some v) (of_nat b) (Some vi) = Some wi \<and> ts_least d a (Suc b) wi"
proof (cases "sint v < sint (fst vi)")
  case True
  have all: "\<exists>w. d r = Some w \<and> sint (fst vi) \<le> sint w" if "a \<le> r" "r < b" for r
    using assms(1) that by (simp add: ts_least_def)
  have "\<exists>w. d r = Some w \<and> sint v \<le> sint w" if "a \<le> r" "r < Suc b" for r
    using all [of r] that assms(3) True by (cases "r = b") auto
  moreover have "d r \<noteq> Some v" if "a \<le> r" "r < b" for r
    using all [OF that] True by auto
  ultimately have "ts_least d a (Suc b) (v, of_nat b)"
    using assms(2,3) unfolding ts_least_def by (intro conjI disjI2 exI [of _ b]) auto
  then show ?thesis using True by (auto simp: ts_update_def split: prod.splits)
next
  case False
  have "ts_least d a (Suc b) vi"
    using assms(1) False assms(3) unfolding ts_least_def less_Suc_eq by (metis linorder_not_less)
  then show ?thesis using False by (auto simp: ts_update_def split: prod.splits)
qed

lemma ts_scan_least:
  assumes "a \<le> b" "\<And>p. a \<le> p \<Longrightarrow> p < b \<Longrightarrow> d p \<noteq> None"
  shows "\<exists>vi. fold (\<lambda>p. ts_update (d p) (of_nat p)) [a..<b] (Some (TS_DTYPE_MAX, 0)) = Some vi \<and> ts_least d a b vi"
  using assms
proof (induction b rule: dec_induct)
  case base
  show ?case by (auto simp: ts_least_def)
next
  case (step b)
  then obtain vi v where vi: "fold (\<lambda>p. ts_update (d p) (of_nat p)) [a..<b] (Some (TS_DTYPE_MAX, 0)) = Some vi" "ts_least d a b vi"
    and v: "d b = Some v" by fastforce
  from ts_least_step [OF vi(2) step.hyps(1) v] show ?case using vi(1) v step.hyps(1) by auto
qed

section \<open>Tasklets\<close>

definition ts_Q :: "ts_arguments \<Rightarrow> nat" where "ts_Q args = unat (ts_query_length args)"
definition ts_S :: "ts_arguments \<Rightarrow> nat" where "ts_S args = unat (ts_slice_per_dpu args)"

text \<open>The distance of the window at position \<open>p\<close>.\<close>

definition ts_dist :: "cells \<Rightarrow> ts_arguments \<Rightarrow> nat \<Rightarrow> u32 option" where
  "ts_dist m args p =
     ts_distance args (dot m (ts_base args div 4 + p) (TS_A_OFFSET div 4) (ts_Q args))
       (m (ts_mean_base args div 4 + p)) (m (ts_sigma_base args div 4 + p))"

text \<open>Query and share of a tasklet are whole blocks, everything lies below the log, and no deviation is zero.\<close>

definition ts_ok :: "cells \<Rightarrow> ts_arguments \<Rightarrow> bool" where
  "ts_ok m args \<longleftrightarrow> TS_DOTPIP dvd ts_Q args \<and> (TS_DOTPIP * NR_TASKLETS) dvd ts_S args \<and> ts_Q args \<le> ts_S args
     \<and> ts_results_base args + NR_TASKLETS * 16 \<le> SK_LOG_OFFSET
     \<and> (\<forall>p < ts_S args. m (ts_sigma_base args div 4 + p) * ts_query_std args \<noteq> 0)"

definition ts_first :: "ts_arguments \<Rightarrow> nat \<Rightarrow> nat" where "ts_first args t = t * (ts_S args div NR_TASKLETS)"
definition ts_last :: "ts_arguments \<Rightarrow> nat \<Rightarrow> nat" where "ts_last args t = min (ts_first args (Suc t)) (ts_S args - ts_Q args)"

lemma ts_aligned:
  assumes "ts_ok m args"
  shows "ts_base args mod 8 = 0" "ts_mean_base args mod 8 = 0" "ts_sigma_base args mod 8 = 0" "ts_results_base args mod 8 = 0" "TS_A_OFFSET mod 8 = 0"
proof -
  obtain q where q: "ts_Q args = TS_DOTPIP * q" using assms by (auto simp: ts_ok_def)
  obtain s where s: "ts_S args = TS_DOTPIP * NR_TASKLETS * s" using assms by (auto simp: ts_ok_def)
  have d: "TS_DOTPIP = 64" by (simp add: TS_DOTPIP_def TS_BLOCK_SIZE_def)
  have "unat (ts_query_length args) = 64 * q" "unat (ts_slice_per_dpu args) = 1024 * s"
    using q s by (simp_all add: ts_Q_def ts_S_def d NR_TASKLETS_def)
  then show "ts_base args mod 8 = 0" "ts_mean_base args mod 8 = 0" "ts_sigma_base args mod 8 = 0" "ts_results_base args mod 8 = 0" "TS_A_OFFSET mod 8 = 0"
    by (simp_all add: ts_results_base_def ts_sigma_base_def ts_mean_base_def ts_chunk_bytes_def ts_base_def TS_A_OFFSET_def TS_ARG_OFFSET_def mod_eq_0_iff_dvd)
qed

lemma ts_block_fold:
  assumes "ts_ok m args" "start \<le> i" "i mod TS_DOTPIP = 0"
  shows "ts_block m args start i best = fold (\<lambda>p. ts_update (ts_dist m args p) (of_nat p)) [i..<i + TS_DOTPIP] best"
proof -
  note al = ts_aligned [OF assms(1)]
  obtain c where c: "i = TS_DOTPIP * c" using assms(3) by (auto simp: mod_eq_0_iff_dvd)
  have i4: "i * 4 mod 8 = 0" using c by (simp add: TS_DOTPIP_def TS_BLOCK_SIZE_def mod_eq_0_iff_dvd)
  have addr: "x + start * 4 + (i - start) * 4 = x + i * 4" "(x + i * 4) div 4 = x div 4 + i" for x using assms(2) by simp_all
  have a8: "(x + i * 4) mod 8 = 0" if "x mod 8 = 0" for x using that i4 by (simp add: mod_add_eq [symmetric])
  have q: "TS_DOTPIP * (unat (ts_query_length args) div TS_DOTPIP) = ts_Q args"
    using assms(1) by (simp add: ts_ok_def ts_Q_def)
  have "ts_block m args start i best = fold (\<lambda>k. ts_update (ts_dist m args (i + k)) (of_nat (i + k))) [0..<TS_DOTPIP] best"
    unfolding ts_block_def Let_def addr(1)
    by (rule fold_cong) (simp_all add: ts_dist_def ts_dotprods_nth al a8 q addr mram_read_cells ts_sizes add.assoc)
  also have "\<dots> = fold (\<lambda>p. ts_update (ts_dist m args p) (of_nat p)) (map ((+) i) [0..<TS_DOTPIP]) best"
    by (simp add: fold_map comp_def)
  also have "map ((+) i) [0..<TS_DOTPIP] = [i..<i + TS_DOTPIP]"
    by (rule nth_equalityI) simp_all
  finally show ?thesis .
qed

lemma stride_blocks_concat:
  assumes "0 < w"
  shows "concat (map (\<lambda>b. [b..<b + w]) (stride_list w a n)) = [a..<a + w * length (stride_list w a n)]"
  using assms
proof (induction w a n rule: stride_list.induct)
  case (1 w a n)
  show ?case
  proof (cases "a < n")
    case True
    then show ?thesis using 1 upt_join [of a "a + w" "a + w + w * length (stride_list w (a + w) n)"]
      by (simp add: stride_list.simps [of w a n] add.assoc)
  qed (simp add: stride_list.simps [of w a n])
qed

lemma ts_range:
  assumes "ts_ok m args" "t < NR_TASKLETS"
  shows "unat (ts_myStartElem args t) = ts_first args t" "ts_first args t mod TS_DOTPIP = 0" "ts_last args t \<le> ts_S args"
    "ts_first args t \<le> ts_S args - ts_Q args \<Longrightarrow> ts_first args t \<le> ts_last args t"
    "ts_first args t + TS_DOTPIP * length (stride_list TS_DOTPIP (ts_first args t) (unat (ts_myEndElem args t)))
      = max (ts_first args t) (ts_last args t)"
proof -
  define D where "D = TS_DOTPIP"
  have D: "D = 64" by (simp add: D_def TS_DOTPIP_def TS_BLOCK_SIZE_def)
  obtain q where q: "ts_Q args = D * q" using assms by (auto simp: ts_ok_def D_def)
  obtain c where c: "ts_S args = D * NR_TASKLETS * c" using assms by (auto simp: ts_ok_def D_def)
  have S: "ts_S args < 2 ^ 26" 
    using assms(1) by (simp add: ts_ok_def ts_S_def ts_results_base_def ts_sigma_base_def ts_mean_base_def ts_base_def ts_chunk_bytes_def SK_LOG_OFFSET_def)
  have share: "ts_S args div NR_TASKLETS = D * c" unfolding c by (simp add: NR_TASKLETS_def)
  have share_word: "ts_slice_per_dpu args div of_nat NR_TASKLETS = of_nat (D * c)"
  proof (rule word_unat_eq_iff [THEN iffD2])
    have "D * c < 2 ^ 32" using S share div_le_dividend [of "ts_S args" NR_TASKLETS] by simp
    then show "unat (ts_slice_per_dpu args div of_nat NR_TASKLETS) = unat (of_nat (D * c) :: u32)"
      using share unat_of_nat32 [OF \<open>D * c < 2 ^ 32\<close>] by (simp add: unat_div ts_S_def NR_TASKLETS_def del: of_nat_mult)
  qed
  have first: "ts_first args t = D * (t * c)" by (simp add: ts_first_def share)
  have t: "t * c \<le> NR_TASKLETS * c" using assms(2) by simp
  have le: "D * (t * c) + D * c \<le> D * NR_TASKLETS * c"
  proof -
    have "D * (t * c) + D * c = D * (Suc t * c)" by (simp add: distrib_left)
    also have "\<dots> \<le> D * (NR_TASKLETS * c)" using assms(2) by (intro mult_le_mono2 mult_le_mono1) simp
    finally show ?thesis by simp
  qed
  have start_word: "ts_myStartElem args t = of_nat (D * (t * c))"
    by (simp add: ts_myStartElem_def share_word ac_simps)
  show start: "unat (ts_myStartElem args t) = ts_first args t"
    unfolding start_word first using S le c by (intro unat_of_nat32) simp
  show "ts_first args t mod TS_DOTPIP = 0" by (simp add: first D_def)
  show "ts_last args t \<le> ts_S args" by (simp add: ts_last_def)
  show "ts_first args t \<le> ts_S args - ts_Q args \<Longrightarrow> ts_first args t \<le> ts_last args t"
    by (simp add: ts_last_def ts_first_def)
  have last: "ts_last args t = min (D * (t * c) + D * c) (ts_S args - ts_Q args)"
    by (simp add: ts_last_def ts_first_def share algebra_simps)
  have limit: "unat (ts_slice_per_dpu args - ts_query_length args) = ts_S args - ts_Q args"
    using assms(1) by (simp add: ts_ok_def ts_S_def ts_Q_def unat_sub word_le_nat_alt)
  show "ts_first args t + TS_DOTPIP * length (stride_list TS_DOTPIP (ts_first args t) (unat (ts_myEndElem args t)))
      = max (ts_first args t) (ts_last args t)"
  proof -
    define u where "u = t * c"
    define v where "v = NR_TASKLETS * c - q"
    have v: "ts_S args - ts_Q args = D * v" unfolding q c v_def by (simp add: diff_mult_distrib2)
    have E: "unat (ts_myEndElem args t) = (if c = 0 then 0 else min (D * (u + c) - 1) (D * v))"
    proof (cases "c = 0")
      case True
      then have "ts_S args - ts_Q args = 0" unfolding c by simp
      then have "ts_slice_per_dpu args - ts_query_length args = 0" using limit by (simp add: unat_eq_zero)
      then show ?thesis using True by (simp add: ts_myEndElem_def Let_def word_gt_0)
    next
      case False
      have "of_nat (D * u) + of_nat (D * c) - 1 = (of_nat (D * (u + c) - 1) :: u32)"
        using False D by (simp add: of_nat_diff algebra_simps)
      moreover have "D * (u + c) - 1 < 2 ^ 32" using le S c unfolding u_def by (simp add: distrib_left)
      ultimately have "unat (of_nat (D * u) + of_nat (D * c) - 1 :: u32) = D * (u + c) - 1"
        by (simp only: unat_of_nat32)
      then show ?thesis
        using False limit v unfolding ts_myEndElem_def start_word share_word u_def [symmetric]
        by (simp add: Let_def word_less_nat_alt min_def)
    qed
    have "D * u + D * ((unat (ts_myEndElem args t) - D * u + D - 1) div D) = max (D * u) (min (D * (u + c)) (D * v))"
    proof (cases "c = 0")
      case True
      then show ?thesis using E D unfolding u_def by simp
    next
      case False
      show ?thesis
      proof (cases "u + c \<le> v")
        case True
        then have "unat (ts_myEndElem args t) = D * u + D * c - 1" using E False D by (simp add: min_def distrib_left)
        then have "unat (ts_myEndElem args t) - D * u + D - 1 = c * D + (D - 2)" using False D by simp
        moreover have "(c * D + (D - 2)) div D = c" using D by simp
        ultimately show ?thesis using True D by (simp add: max_def min_def distrib_left)
      next
        case vu: False
        then have "D * v \<le> D * (u + c) - 1" using D by simp
        then have "unat (ts_myEndElem args t) = D * v" using E False by simp
        moreover have "(D * v - D * u + D - 1) div D = v - u" using D by simp
        ultimately show ?thesis using vu D by (auto simp: max_def min_def)
      qed
    qed
    then show ?thesis
      unfolding length_stride_list [OF ts_sizes(2)] unfolding last v first D_def [symmetric] u_def [symmetric] by (simp add: distrib_left)
  qed
qed

lemma ts_tasklet_least:
  assumes "ts_ok m args" "t < NR_TASKLETS"
  shows "\<exists>vi. run_seq (ts_tasklet m args t) (Some (TS_DTYPE_MAX, 0)) = Some vi
    \<and> ts_least (ts_dist m args) (ts_first args t) (ts_last args t) vi"
proof -
  note r = ts_range [OF assms]
  let ?a = "ts_first args t" and ?bs = "stride_list TS_DOTPIP (ts_first args t) (unat (ts_myEndElem args t))"
  let ?f = "\<lambda>p. ts_update (ts_dist m args p) (of_nat p)"
  have "fold (ts_block m args ?a) bs s = fold ?f (concat (map (\<lambda>b. [b..<b + TS_DOTPIP]) bs)) s" if "set bs \<subseteq> set ?bs" for bs s
    using that
  proof (induction bs arbitrary: s)
    case (Cons b bs)
    then obtain k where "b = ?a + k * TS_DOTPIP" by (auto simp: set_stride_list ts_sizes)
    then have "?a \<le> b" "b mod TS_DOTPIP = 0" using r(2) by simp_all
    then show ?case using Cons ts_block_fold [OF assms(1)] by simp
  qed simp
  from this [of ?bs] have "run_seq (ts_tasklet m args t) (Some (TS_DTYPE_MAX, 0)) = fold ?f [?a..<max ?a (ts_last args t)] (Some (TS_DTYPE_MAX, 0))"
    using stride_blocks_concat [OF ts_sizes(2), of ?a "unat (ts_myEndElem args t)"] r(5)
    by (simp add: ts_tasklet_def run_seq_map r(1) Let_def)
  moreover have "ts_dist m args p \<noteq> None" if "p < max ?a (ts_last args t)" "?a \<le> p" for p
    using that r(3) assms(1) by (auto simp: ts_dist_def ts_distance_def Let_def ts_ok_def max_def split: if_splits)
  then have "\<exists>vi. fold ?f [?a..<max ?a (ts_last args t)] (Some (TS_DTYPE_MAX, 0)) = Some vi
      \<and> ts_least (ts_dist m args) ?a (max ?a (ts_last args t)) vi"
    by (intro ts_scan_least) auto
  moreover have "ts_least d ?a (max ?a b) vi \<longleftrightarrow> ts_least d ?a b vi" for d b vi
    by (auto simp: ts_least_def max_def)
  ultimately show ?thesis by simp
qed

section \<open>The result\<close>

lemma ts_log [simp]:
  "ts_read_args_aligned (sk_log_init m) = ts_read_args_aligned m"
  by (simp add: ts_read_args_aligned_def mram_read_def TS_ARG_OFFSET_def SK_LOG_OFFSET_def upt_rec)

lemma ts_store_steps:
  assumes "ts_results_base args mod 8 = 0"
  shows "disjoint_steps (ts_store_result args results) UNIV
    (\<lambda>t. {ts_results_base args div 4 + 4 * t..<ts_results_base args div 4 + 4 * t + 4}) (\<lambda>t. {})"
proof -
  have cell: "ts_store_result args results t m j =
    (if ts_results_base args div 4 + 4 * t \<le> j \<and> j < ts_results_base args div 4 + 4 * t + 4
     then [fst (results t), snd (results t), 0, 0] ! (j - (ts_results_base args div 4 + 4 * t)) else m j)" for t m j
  proof -
    have "(ts_results_base args + t * 16) mod 8 = 0" using assms by (simp add: mod_eq_0_iff_dvd)
    moreover have "(ts_results_base args + t * 16) div 4 = ts_results_base args div 4 + 4 * t" by simp
    ultimately show ?thesis by (simp add: ts_store_result_def mram_write_cells)
  qed
  show ?thesis by unfold_locales (auto simp: cell)
qed

text \<open>
  C34: Time series: every tasklet leaves in its result in MRAM the least signed distance of the
  windows of its share that do not begin in the last \<open>query_length\<close> positions, and the position where
  it first occurs (or the greatest integer and zero when no window is nearer). A distance is computed from the dot product of
  the query with the window, the mean and the deviation there, in 32-bit arithmetic.
\<close>

theorem ts_main_correct:
  assumes "args = ts_read_args_aligned m" "ts_ok (sk_log_init m) args"
  shows "(\<exists>m'. ts_main m m') \<and> (\<forall>m'. ts_main m m' \<longrightarrow> (\<forall>t < NR_TASKLETS.
    ts_least (ts_dist (sk_log_init m) args) (ts_first args t) (ts_last args t)
      (m' (ts_results_base args div 4 + 4 * t), m' (ts_results_base args div 4 + 4 * t + 1))))"
proof -
  let ?m = "sk_log_init m"
  let ?progs = "map (\<lambda>t. map (at_slot t) (ts_tasklet ?m args t)) [0..<NR_TASKLETS]"
  have slots: "\<exists>vi. found t = Some vi \<and> ts_least (ts_dist ?m args) (ts_first args t) (ts_last args t) vi"
    if "phase ?progs (\<lambda>t. Some (TS_DTYPE_MAX, 0)) found" "t < NR_TASKLETS" for found t
    using phase_slots [OF that(1), of t] that(2) ts_tasklet_least [OF assms(2) that(2)] by auto
  have "\<exists>found. phase ?progs (\<lambda>t. Some (TS_DTYPE_MAX, 0)) found" by (rule exI, rule phase_seq)
  then obtain found where found: "phase ?progs (\<lambda>t. Some (TS_DTYPE_MAX, 0)) found" by blast
  have some: "found t = Some (the (found t))" if "t < NR_TASKLETS" for t
    using slots [OF found that] by auto
  have "\<exists>m'. phase (map (\<lambda>t. [ts_store_result args (\<lambda>t. the (found t)) t]) [0..<NR_TASKLETS]) ?m m'"
    by (rule exI, rule phase_seq)
  then obtain m' where m': "phase (map (\<lambda>t. [ts_store_result args (\<lambda>t. the (found t)) t]) [0..<NR_TASKLETS]) ?m m'" by blast
  have "ts_main m m'"
    unfolding ts_main_def Let_def
    by (rule exI [of _ found], rule exI [of _ "\<lambda>t. the (found t)"], intro conjI allI impI)
      (use found some m' assms(1) in simp_all)
  moreover have "ts_least (ts_dist ?m args) (ts_first args t) (ts_last args t)
      (m' (ts_results_base args div 4 + 4 * t), m' (ts_results_base args div 4 + 4 * t + 1))"
    if main: "ts_main m m'" and t: "t < NR_TASKLETS" for m' t
  proof -
    obtain found results where r: "phase ?progs (\<lambda>t. Some (TS_DTYPE_MAX, 0)) found" "\<forall>t < NR_TASKLETS. found t = Some (results t)"
      "phase (map (\<lambda>t. [ts_store_result args results t]) [0..<NR_TASKLETS]) ?m m'"
      using main by (auto simp: ts_main_def Let_def assms(1))
    note al = ts_aligned(4) [OF assms(2)]
    let ?b = "ts_results_base args div 4 + 4 * t"
    have ph: "phase (map (\<lambda>t. map (ts_store_result args results) [t]) [0..<NR_TASKLETS]) ?m m'" using r(3) by simp
    have "distinct (concat (map (\<lambda>t. [t]) [0..<NR_TASKLETS]))" by simp
    note res = disjoint_steps.phase_blocks(1) [OF ts_store_steps [OF al] ph _ this]
    have "m' j = ts_store_result args results t ?m j" if "j \<in> {?b..<?b + 4}" for j
      using res [of t t j] that t by simp
    moreover have "(ts_results_base args + t * 16) mod 8 = 0" "(ts_results_base args + t * 16) div 4 = ?b"
      using al by (simp_all add: mod_eq_0_iff_dvd)
    ultimately have "m' ?b = fst (results t)" "m' (?b + 1) = snd (results t)"
      by (simp_all add: ts_store_result_def mram_write_cells)
    then show ?thesis using slots [OF r(1) t] r(2) t by auto
  qed
  ultimately show ?thesis by blast
qed

text \<open>A query of 64 ones in a series of 1024 ones.\<close>

definition ts_demo :: cells where
  "ts_demo j = (if j = TS_ARG_OFFSET div 4 + 2 then 64 else if j = TS_ARG_OFFSET div 4 + 3 then 0
     else if j = TS_ARG_OFFSET div 4 + 5 then 1024 else 1)"

theorem ts_main_correct_witness:
  "\<exists>m'. ts_main ts_demo m' \<and> ts_least (ts_dist (sk_log_init ts_demo) (ts_read_args_aligned ts_demo)) 192 256
      (m' (ts_results_base (ts_read_args_aligned ts_demo) div 4 + 4 * 3), m' (ts_results_base (ts_read_args_aligned ts_demo) div 4 + 4 * 3 + 1))"
proof -
  let ?args = "ts_read_args_aligned ts_demo"
  have args: "ts_query_length ?args = 64" "ts_query_std ?args = 1" "ts_slice_per_dpu ?args = 1024"
    by (simp_all add: ts_read_args_aligned_def mram_read_def ts_demo_def TS_ARG_OFFSET_def upt_rec)
  have bases: "ts_sigma_base ?args = 17408" "ts_results_base ?args = 21760"
    by (simp_all add: ts_results_base_def ts_sigma_base_def ts_mean_base_def ts_base_def ts_chunk_bytes_def args TS_A_OFFSET_def TS_ARG_OFFSET_def)
  have "sk_log_init ts_demo (ts_sigma_base ?args div 4 + p) * ts_query_std ?args \<noteq> 0" if "p < ts_S ?args" for p
    using that by (simp add: bases args ts_S_def ts_demo_def TS_ARG_OFFSET_def SK_LOG_OFFSET_def)
  then have "ts_ok (sk_log_init ts_demo) ?args"
    by (simp add: ts_ok_def bases args ts_S_def ts_Q_def TS_DOTPIP_def TS_BLOCK_SIZE_def NR_TASKLETS_def SK_LOG_OFFSET_def)
  note ts_main_correct [OF refl this]
  then obtain m' where m': "ts_main ts_demo m'" "\<forall>t < NR_TASKLETS. ts_least (ts_dist (sk_log_init ts_demo) ?args) (ts_first ?args t) (ts_last ?args t)
      (m' (ts_results_base ?args div 4 + 4 * t), m' (ts_results_base ?args div 4 + 4 * t + 1))" by blast
  have "3 < NR_TASKLETS" by (simp add: NR_TASKLETS_def)
  note res = m'(2) [rule_format, OF this]
  have "ts_first ?args 3 = 192" "ts_last ?args 3 = 256"
    by (simp_all add: ts_first_def ts_last_def ts_S_def ts_Q_def args NR_TASKLETS_def)
  then show ?thesis using m'(1) res by auto
qed

end
