(* ===== verification/Kernel_TRNS.thy ===== *)
theory Kernel_TRNS imports SPMD
begin

text \<open>
  Matrix transposition in MRAM, \<^verbatim>\<open>src/src/TRNS/main.c\<close>. Kernel 1 transposes the \<open>m\<close> by \<open>n\<close> tiles, each
  within its place. Kernel 2 permutes the tiles of \<open>m\<close> words: the tasklets take starting tiles from
  a shared counter and follow the cycles of the permutation, and a bitmap in MRAM tells which
  places have got their new contents. Two tasklets may work on one cycle; the accesses to the counter and to
  the bitmap are atomic, for mutexes protect them, and so is every transfer of a tile.
\<close>

unbundle bit_operations_syntax

section \<open>The kernels\<close>

record trns_arguments =
  trns_m :: u32
  trns_n :: u32
  trns_M :: u32
  trns_kernel :: u32

definition TRNS_ARG_OFFSET :: nat where "TRNS_ARG_OFFSET = 0x2000"
definition TRNS_A_OFFSET :: nat where "TRNS_A_OFFSET = TRNS_ARG_OFFSET + (16 + 0xFF) div 0x100 * 0x100"

definition trns_read_args_aligned :: "cells64 \<Rightarrow> trns_arguments" where
  "trns_read_args_aligned m =
     (let buf = mram_read64 m TRNS_ARG_OFFSET 16
      in \<lparr>trns_m = lo32 (buf ! 0), trns_n = hi32 (buf ! 0), trns_M = lo32 (buf ! 1), trns_kernel = hi32 (buf ! 1)\<rparr>)"

text \<open>A tile in transfers of at most 2048 bytes: \<open>rest\<close> words are left of \<open>mn\<close>.\<close>

function read_tile_step2 :: "cells64 \<Rightarrow> nat \<Rightarrow> nat \<Rightarrow> nat \<Rightarrow> nat \<Rightarrow> u64 list" where
  "read_tile_step2 m A offset mn rest =
     (if rest = 0 then []
      else let transfer = (if rest * 8 > 2048 then 2048 div 8 else rest)
           in mram_read64 m (A + (offset + mn - rest) * 8) (8 * transfer) @ read_tile_step2 m A offset mn (rest - transfer))"
  by pat_completeness auto
termination by (relation "measure (\<lambda>(m, A, offset, mn, rest). rest)") auto

function write_tile_step2 :: "nat \<Rightarrow> nat \<Rightarrow> u64 list \<Rightarrow> nat \<Rightarrow> nat \<Rightarrow> cells64 \<Rightarrow> cells64" where
  "write_tile_step2 A offset variable mn rest m =
     (if rest = 0 then m
      else let transfer = (if rest * 8 > 2048 then 2048 div 8 else rest)
           in write_tile_step2 A offset variable mn (rest - transfer)
                (mram_write64 (drop (mn - rest) variable) (A + (offset + mn - rest) * 8) (8 * transfer) m))"
  by pat_completeness auto
termination by (relation "measure (\<lambda>(A, offset, variable, mn, rest, m). rest)") auto

declare read_tile_step2.simps [simp del] write_tile_step2.simps [simp del]

definition transpose_tile :: "nat \<Rightarrow> nat \<Rightarrow> u64 list \<Rightarrow> u64 list \<Rightarrow> u64 list" where
  "transpose_tile m n data backup =
     fold (\<lambda>i backup. backup[i * m - (m * n - 1) * (i div n) := data ! i]) [0..<m * n] backup"

definition trns_tile :: "trns_arguments \<Rightarrow> nat \<Rightarrow> cells64 \<Rightarrow> cells64" where
  "trns_tile args tile mem =
     (let m = unat (trns_m args); n = unat (trns_n args);
          data = read_tile_step2 mem TRNS_A_OFFSET (tile * m * n) (m * n) (m * n);
          backup = transpose_tile m n data (replicate (m * n) 0)
      in write_tile_step2 TRNS_A_OFFSET (tile * m * n) backup (m * n) (m * n) mem)"

definition trns_main_kernel1 :: "trns_arguments \<Rightarrow> cells64 \<Rightarrow> cells64 \<Rightarrow> bool" where
  "trns_main_kernel1 args =
     phase (map (\<lambda>t. map (trns_tile args) (stride_list NR_TASKLETS t (unat (trns_M args)))) [0..<NR_TASKLETS])"

definition tile_max :: "trns_arguments \<Rightarrow> u32" where
  "tile_max args = trns_M args * trns_n args - 1"

definition next_in_cycle :: "trns_arguments \<Rightarrow> u32 \<Rightarrow> u32" where
  "next_in_cycle args tile = tile * trns_M args - tile_max args * (tile div trns_n args)"

definition done_array :: "trns_arguments \<Rightarrow> nat" where
  "done_array args = TRNS_A_OFFSET + unat (trns_M args) * unat (trns_m args) * unat (trns_n args) * 8"

definition read_tile_step3 :: "cells64 \<Rightarrow> nat \<Rightarrow> u32 \<Rightarrow> u32 \<Rightarrow> u64 list" where
  "read_tile_step3 mem A offset m = mram_read64 mem (A + unat offset * 8) (8 * unat m)"

definition write_tile_step3 :: "nat \<Rightarrow> u32 \<Rightarrow> u64 list \<Rightarrow> u32 \<Rightarrow> cells64 \<Rightarrow> cells64" where
  "write_tile_step3 A offset variable m = mram_write64 variable (A + unat offset * 8) (8 * unat m)"

definition get_done :: "nat \<Rightarrow> u32 \<Rightarrow> cells64 \<Rightarrow> bool" where
  "get_done done_array_step3 address mem =
     (let read_done = mram_read64 mem (done_array_step3 + unat address) 8 ! 0
      in read_done AND push_bit (unat (address mod 8)) 1 \<noteq> 0)"

definition get_and_set_done :: "nat \<Rightarrow> u32 \<Rightarrow> cells64 \<Rightarrow> bool \<times> cells64" where
  "get_and_set_done done_array_step3 address mem =
     (let read_done = mram_read64 mem (done_array_step3 + unat address) 8 ! 0;
          result = read_done AND push_bit (unat (address mod 8)) 1 \<noteq> 0;
          read_done = read_done OR push_bit (unat (address mod 8)) 1
      in (result, mram_write64 [read_done] (done_array_step3 + unat address) 8 mem))"

datatype trns_pc = Get_tile | Read_start | Get_done | Read_next | Claim | Write_next | Finished

record trns_tasklet =
  tk_pc :: trns_pc
  tk_tile :: u32
  tk_next :: u32
  tk_data :: "u64 list"
  tk_backup :: "u64 list"

record trns_state =
  tr_mram :: cells64
  tr_curr_tile :: u32
  tr_tasklets :: "nat \<Rightarrow> trns_tasklet"

text \<open>One shared access of tasklet \<open>t\<close>, with the private statements up to the next one.\<close>

definition trns_step :: "trns_arguments \<Rightarrow> nat \<Rightarrow> trns_state \<Rightarrow> trns_state" where
  "trns_step args t s =
     (let k = tr_tasklets s t; m = trns_m args;
          set = (\<lambda>k. s\<lparr>tr_tasklets := (tr_tasklets s)(t := k)\<rparr>)
      in case tk_pc k of
           Get_tile \<Rightarrow>
             let tile = tr_curr_tile s; next = next_in_cycle args tile;
                 pc = (if \<not> tile < tile_max args then Finished else if next = tile then Get_tile else Read_start)
             in (set (k\<lparr>tk_pc := pc, tk_tile := tile, tk_next := next\<rparr>))\<lparr>tr_curr_tile := tile + 1\<rparr>
         | Read_start \<Rightarrow>
             set (k\<lparr>tk_pc := Get_done, tk_data := read_tile_step3 (tr_mram s) TRNS_A_OFFSET (tk_tile k * m) m\<rparr>)
         | Get_done \<Rightarrow>
             set (k\<lparr>tk_pc := (if get_done (done_array args) (tk_tile k) (tr_mram s) then Get_tile else Read_next)\<rparr>)
         | Read_next \<Rightarrow>
             set (k\<lparr>tk_pc := Claim, tk_backup := read_tile_step3 (tr_mram s) TRNS_A_OFFSET (tk_next k * m) m\<rparr>)
         | Claim \<Rightarrow>
             (case get_and_set_done (done_array args) (tk_next k) (tr_mram s) of
                (done, mem) \<Rightarrow>
                  (if done then set (k\<lparr>tk_pc := Get_tile, tk_data := tk_backup k, tk_next := next_in_cycle args (tk_next k)\<rparr>)
                   else set (k\<lparr>tk_pc := Write_next\<rparr>))\<lparr>tr_mram := mem\<rparr>)
         | Write_next \<Rightarrow>
             (set (k\<lparr>tk_pc := Read_next, tk_data := tk_backup k, tk_next := next_in_cycle args (tk_next k)\<rparr>))
               \<lparr>tr_mram := write_tile_step3 TRNS_A_OFFSET (tk_next k * m) (tk_data k) m (tr_mram s)\<rparr>
         | Finished \<Rightarrow> s)"

definition trns_start :: "(nat \<Rightarrow> trns_tasklet) \<Rightarrow> cells64 \<Rightarrow> trns_state" where
  "trns_start stack mem = \<lparr>tr_mram = mem, tr_curr_tile = 0, tr_tasklets = (\<lambda>t. (stack t)\<lparr>tk_pc := Get_tile\<rparr>)\<rparr>"

inductive trns_reachable :: "trns_arguments \<Rightarrow> trns_state \<Rightarrow> trns_state \<Rightarrow> bool" for args s0 where
  trns_refl: "trns_reachable args s0 s0"
| trns_go: "trns_reachable args s0 s \<Longrightarrow> t < NR_TASKLETS \<Longrightarrow> tk_pc (tr_tasklets s t) \<noteq> Finished \<Longrightarrow>
    trns_reachable args s0 (trns_step args t s)"

definition trns_finished :: "trns_state \<Rightarrow> bool" where
  "trns_finished s \<longleftrightarrow> (\<forall>t < NR_TASKLETS. tk_pc (tr_tasklets s t) = Finished)"

definition trns_main_kernel2 :: "trns_arguments \<Rightarrow> (nat \<Rightarrow> trns_tasklet) \<Rightarrow> cells64 \<Rightarrow> cells64 \<Rightarrow> bool" where
  "trns_main_kernel2 args stack mem mem' \<longleftrightarrow>
     (\<exists>s. trns_reachable args (trns_start stack mem) s \<and> trns_finished s \<and> mem' = tr_mram s)"

definition trns_main :: "(nat \<Rightarrow> trns_tasklet) \<Rightarrow> cells64 \<Rightarrow> cells64 \<Rightarrow> bool" where
  "trns_main stack mem mem' \<longleftrightarrow>
     (let args = trns_read_args_aligned mem; mem = sk_log_init64 mem
      in if trns_kernel args = 0 then trns_main_kernel1 args mem mem'
         else if trns_kernel args = 1 then trns_main_kernel2 args stack mem mem'
         else False)"

section \<open>Tiles\<close>

text \<open>The permutation of the places and its inverse.\<close>

definition trns_perm :: "nat \<Rightarrow> nat \<Rightarrow> nat \<Rightarrow> nat" where
  "trns_perm M n x = x mod n * M + x div n"

lemma trns_perm_lt:
  assumes "x < M * n"
  shows "trns_perm M n x < M * n"
proof -
  have n: "0 < n" using assms by (cases n) auto
  have d: "x div n < M" using assms by (simp add: less_mult_imp_div_less)
  have "x mod n * M + x div n < x mod n * M + M" using d by simp
  also have "\<dots> = Suc (x mod n) * M" by simp
  also have "\<dots> \<le> n * M" using n by (intro mult_le_mono1) (simp add: Suc_le_eq)
  finally show ?thesis by (simp add: trns_perm_def mult.commute)
qed

lemma trns_perm_inverse: "x < M * n \<Longrightarrow> trns_perm n M (trns_perm M n x) = x"
  using less_mult_imp_div_less [of x M n] by (auto simp: trns_perm_def)

lemma trns_perm_last:
  assumes "0 < M" "0 < n"
  shows "trns_perm M n (M * n - 1) = M * n - 1"
proof -
  obtain d r where d: "M = Suc d" "n = Suc r" using assms by (metis gr0_implies_Suc)
  then have "M * n - 1 = d * n + r" by simp
  moreover have "(d * n + r) div n = d" "(d * n + r) mod n = r"
    using d(2) by (simp_all only: div_mult_self3 mod_mult_self3 less_Suc_eq div_less mod_less simp_thms nat.distinct add_0_right)
  ultimately show ?thesis using d by (simp add: trns_perm_def algebra_simps)
qed

definition trns_ok :: "trns_arguments \<Rightarrow> bool" where
  "trns_ok args \<longleftrightarrow> 0 < unat (trns_m args) \<and> 0 < unat (trns_n args) \<and> 0 < unat (trns_M args)
     \<and> done_array args + unat (trns_M args) * unat (trns_n args) \<le> SK_LOG_OFFSET"

abbreviation "perm args \<equiv> trns_perm (unat (trns_M args)) (unat (trns_n args))"
abbreviation "tiles args \<equiv> unat (trns_M args) * unat (trns_n args)"

definition trns_A :: nat where "trns_A = TRNS_A_OFFSET div 8"

definition tile_at :: "trns_arguments \<Rightarrow> cells64 \<Rightarrow> nat \<Rightarrow> u64 list" where
  "tile_at args mem x = map (\<lambda>i. mem (trns_A + x * unat (trns_m args) + i)) [0..<unat (trns_m args)]"

definition done_at :: "trns_arguments \<Rightarrow> cells64 \<Rightarrow> nat \<Rightarrow> bool" where
  "done_at args mem x \<longleftrightarrow> bit (mem (done_array args div 8 + x div 8)) (x mod 8)"

lemma length_tile_at [simp]: "length (tile_at args mem x) = unat (trns_m args)"
  by (simp add: tile_at_def)

lemma trns_A: "TRNS_A_OFFSET = 8 * trns_A"
  by (simp add: trns_A_def TRNS_A_OFFSET_def TRNS_ARG_OFFSET_def)

lemma trns_bounds:
  assumes "trns_ok args"
  shows "tiles args * unat (trns_m args) < 2 ^ 26" "tiles args < 2 ^ 26"
    "done_array args div 8 = trns_A + tiles args * unat (trns_m args)" "done_array args mod 8 = 0"
    "done_array args < 2 ^ 26"
    "x < tiles args \<Longrightarrow> x * unat (trns_m args) + unat (trns_m args) \<le> tiles args * unat (trns_m args)"
proof -
  have d: "done_array args = 8 * (trns_A + tiles args * unat (trns_m args))"
    by (simp add: done_array_def trns_A algebra_simps)
  then show "done_array args div 8 = trns_A + tiles args * unat (trns_m args)" "done_array args mod 8 = 0" by simp_all
  have le: "done_array args + tiles args \<le> SK_LOG_OFFSET" using assms by (simp add: trns_ok_def)
  then show "tiles args * unat (trns_m args) < 2 ^ 26" "tiles args < 2 ^ 26" "done_array args < 2 ^ 26"
    unfolding d SK_LOG_OFFSET_def by simp_all
  show "x < tiles args \<Longrightarrow> x * unat (trns_m args) + unat (trns_m args) \<le> tiles args * unat (trns_m args)"
    by (metis Suc_leI mult_Suc add.commute mult_le_mono1)
qed

lemma next_in_cycle_perm:
  assumes "trns_ok args" "x < tiles args"
  shows "next_in_cycle args (of_nat x) = of_nat (perm args x)" "tile_max args = of_nat (tiles args - 1)"
proof -
  let ?M = "unat (trns_M args)" and ?n = "unat (trns_n args)"
  have pos: "0 < ?M" "0 < ?n" using assms(1) by (simp_all add: trns_ok_def)
  have "tile_max args = of_nat (?M * ?n) - 1" by (simp add: tile_max_def)
  then show tm: "tile_max args = of_nat (tiles args - 1)" using pos by (simp add: of_nat_diff)
  have "x < 2 ^ 32" using trns_bounds(2) [OF assms(1)] assms(2) by simp
  then have "unat (of_nat x div trns_n args :: u32) = x div ?n" by (simp add: unat_div unat_of_nat32)
  then have div: "of_nat x div trns_n args = (of_nat (x div ?n) :: u32)" 
    using unat_of_nat32 [OF le_less_trans [OF div_le_dividend \<open>x < 2 ^ 32\<close>], of ?n] by (simp add: word_unat_eq_iff)
  have "(?M * ?n - 1) * (x div ?n) + perm args x = x * ?M"
  proof -
    have "(?M * ?n - 1) * (x div ?n) + x div ?n = ?M * ?n * (x div ?n)"
      using pos by (simp add: diff_mult_distrib)
    moreover have "?M * ?n * (x div ?n) + x mod ?n * ?M = x * ?M"
      by (metis (no_types, lifting) add.commute distrib_right mod_div_mult_eq mult.assoc mult.commute)
    ultimately show ?thesis by (simp add: trns_perm_def)
  qed
  then have "(of_nat (x * ?M) :: u32) = of_nat ((?M * ?n - 1) * (x div ?n) + perm args x)" by simp
  then have "of_nat x * trns_M args = of_nat (tiles args - 1) * of_nat (x div ?n) + (of_nat (perm args x) :: u32)"
    by (simp del: of_nat_diff)
  then show "next_in_cycle args (of_nat x) = of_nat (perm args x)"
    by (simp add: next_in_cycle_def tm div)
qed

lemma tile_offset:
  assumes "trns_ok args" "x < tiles args"
  shows "TRNS_A_OFFSET + unat (of_nat x * trns_m args) * 8 = 8 * (trns_A + x * unat (trns_m args))"
proof -
  have "x * unat (trns_m args) < 2 ^ 32" 
    using trns_bounds(6) [OF assms] by (rule le_less_trans [OF add_leD1]) (use trns_bounds(1) [OF assms(1)] in simp)
  moreover have "of_nat x * trns_m args = of_nat (x * unat (trns_m args))" by simp
  ultimately have "unat (of_nat x * trns_m args) = x * unat (trns_m args)" by (simp only: unat_of_nat32)
  then show ?thesis by (simp add: trns_A)
qed

lemma read_tile_step3_at:
  assumes "trns_ok args" "x < tiles args"
  shows "read_tile_step3 mem TRNS_A_OFFSET (of_nat x * trns_m args) (trns_m args) = tile_at args mem x"
  unfolding read_tile_step3_def tile_offset [OF assms] by (simp only: mram_read64_cells tile_at_def)

lemma write_tile_step3_at:
  fixes mem :: cells64
  assumes "trns_ok args" "x < tiles args" "length data = unat (trns_m args)"
  defines "mem' \<equiv> write_tile_step3 TRNS_A_OFFSET (of_nat x * trns_m args) data (trns_m args) mem"
  shows "tile_at args mem' x = data" "y \<noteq> x \<Longrightarrow> tile_at args mem' y = tile_at args mem y"
    "done_at args mem' = done_at args mem"
    "\<And>j. j < trns_A \<or> done_array args div 8 \<le> j \<Longrightarrow> mem' j = mem j"
proof -
  let ?m = "unat (trns_m args)"
  have cell: "mem' j = (if trns_A + x * ?m \<le> j \<and> j < trns_A + x * ?m + ?m then data ! (j - (trns_A + x * ?m)) else mem j)" for j
    unfolding mem'_def write_tile_step3_def tile_offset [OF assms(1,2)] by (rule mram_write64_cells)
  show "tile_at args mem' x = data"
    using assms(3) by (intro nth_equalityI) (simp_all add: tile_at_def cell)
  show "tile_at args mem' y = tile_at args mem y" if "y \<noteq> x"
  proof (rule nth_equalityI)
    fix i
    assume "i < length (tile_at args mem' y)"
    then have i: "i < ?m" by simp
    have "y * ?m + ?m \<le> x * ?m \<or> x * ?m + ?m \<le> y * ?m"
      using that by (metis Suc_leI add.commute linorder_neqE_nat mult_Suc mult_le_mono1)
    then show "tile_at args mem' y ! i = tile_at args mem y ! i" using i by (auto simp: tile_at_def cell)
  qed simp
  show out: "mem' j = mem j" if "j < trns_A \<or> done_array args div 8 \<le> j" for j
    using that trns_bounds(3) [OF assms(1)] trns_bounds(6) [OF assms(1,2)] by (auto simp: cell)
  show "done_at args mem' = done_at args mem" by (simp add: done_at_def out fun_eq_iff)
qed

lemma done_cell:
  assumes "trns_ok args" "x < tiles args"
  shows "mram_read64 mem (done_array args + unat (of_nat x :: u32)) 8 ! 0 = mem (done_array args div 8 + x div 8)"
    "unat (of_nat x mod 8 :: u32) = x mod 8" "(done_array args + unat (of_nat x :: u32)) div 8 = done_array args div 8 + x div 8"
proof -
  have x: "unat (of_nat x :: u32) = x" using assms trns_bounds(2) [OF assms(1)] by (intro unat_of_nat32) simp
  show d: "(done_array args + unat (of_nat x :: u32)) div 8 = done_array args div 8 + x div 8"
    using trns_bounds(4) [OF assms(1)] unfolding x by (metis add.commute div_plus_div_distrib_dvd_right mod_eq_0_iff_dvd)
  show "mram_read64 mem (done_array args + unat (of_nat x :: u32)) 8 ! 0 = mem (done_array args div 8 + x div 8)"
    by (simp add: mram_read64_def d)
  show "unat (of_nat x mod 8 :: u32) = x mod 8" using x by (simp add: unat_mod)
qed

lemma get_done_at:
  assumes "trns_ok args" "x < tiles args"
  shows "get_done (done_array args) (of_nat x) mem = done_at args mem x"
  unfolding get_done_def Let_def done_cell [OF assms] done_at_def by (rule bit_iff_and_push_bit_not_eq_0 [symmetric])

lemma get_and_set_done_at:
  assumes "trns_ok args" "x < tiles args"
  shows "\<exists>mem'. get_and_set_done (done_array args) (of_nat x) mem = (done_at args mem x, mem')
    \<and> done_at args mem' = (done_at args mem)(x := True)
    \<and> (\<forall>y < tiles args. tile_at args mem' y = tile_at args mem y)
    \<and> (\<forall>j < done_array args div 8. mem' j = mem j)"
proof -
  let ?c = "done_array args div 8 + x div 8"
  define mem' where "mem' = mem(?c := mem ?c OR push_bit (x mod 8) 1)"
  have m8: "x mod 8 < 64" by (rule less_trans [OF mod_less_divisor]) simp_all
  have "mram_write64 [w] (done_array args + unat (of_nat x :: u32)) 8 mem = mem(?c := w)" for w
    unfolding mram_write64_def done_cell(3) [OF assms] by (auto simp: fun_eq_iff less_Suc_eq_le Let_def)
  then have e: "get_and_set_done (done_array args) (of_nat x) mem = (done_at args mem x, mem')"
    unfolding get_and_set_done_def Let_def done_cell(1,2) [OF assms] done_at_def mem'_def
    by (simp add: bit_iff_and_push_bit_not_eq_0)
  have "done_at args mem' y = ((done_at args mem)(x := True)) y" for y
  proof (cases "y = x")
    case True
    then show ?thesis using m8 by (simp add: done_at_def mem'_def bit_or_iff bit_push_bit_iff bit_exp_iff)
  next
    case False
    then have "y div 8 \<noteq> x div 8 \<or> y mod 8 \<noteq> x mod 8" by (metis div_mult_mod_eq)
    then show ?thesis
      using False by (auto simp: done_at_def mem'_def bit_or_iff bit_push_bit_iff bit_1_iff bit_exp_iff)
  qed
  moreover have low: "mem' j = mem j" if "j < done_array args div 8" for j
    using that by (simp add: mem'_def)
  moreover have "tile_at args mem' y = tile_at args mem y" if "y < tiles args" for y
  proof (rule nth_equalityI)
    fix i
    assume "i < length (tile_at args mem' y)"
    then have i: "i < unat (trns_m args)" by simp
    then have "y * unat (trns_m args) + i < y * unat (trns_m args) + unat (trns_m args)" by simp
    also have "\<dots> \<le> tiles args * unat (trns_m args)" using assms(1) that by (rule trns_bounds(6))
    finally show "tile_at args mem' y ! i = tile_at args mem y ! i"
      using i low trns_bounds(3) [OF assms(1)] by (simp add: tile_at_def)
  qed simp
  ultimately show ?thesis using e by blast
qed

section \<open>Walking along the cycles of a permutation\<close>

text \<open>
  The tasklets of kernel 2 on an abstract state: the contents of the places, which places are claimed,
  and for each tasklet the two place numbers as natural numbers.
\<close>

record 'd walker =
  w_pc :: trns_pc
  w_tile :: nat
  w_next :: nat
  w_data :: 'd
  w_backup :: 'd

record 'd walk =
  wk_tiles :: "nat \<Rightarrow> 'd"
  wk_claimed :: "nat \<Rightarrow> bool"
  wk_curr :: nat
  wk_walkers :: "nat \<Rightarrow> 'd walker"

definition walk_step :: "nat \<Rightarrow> (nat \<Rightarrow> nat) \<Rightarrow> nat \<Rightarrow> 'd walk \<Rightarrow> 'd walk" where
  "walk_step N g t s =
     (let k = wk_walkers s t; set = (\<lambda>k. s\<lparr>wk_walkers := (wk_walkers s)(t := k)\<rparr>)
      in case w_pc k of
           Get_tile \<Rightarrow>
             let x = wk_curr s
             in (set (k\<lparr>w_pc := (if \<not> x < N then Finished else if g x = x then Get_tile else Read_start), w_tile := x, w_next := g x\<rparr>))
                  \<lparr>wk_curr := x + 1\<rparr>
         | Read_start \<Rightarrow> set (k\<lparr>w_pc := Get_done, w_data := wk_tiles s (w_tile k)\<rparr>)
         | Get_done \<Rightarrow> set (k\<lparr>w_pc := (if wk_claimed s (w_tile k) then Get_tile else Read_next)\<rparr>)
         | Read_next \<Rightarrow> set (k\<lparr>w_pc := Claim, w_backup := wk_tiles s (w_next k)\<rparr>)
         | Claim \<Rightarrow>
             (if wk_claimed s (w_next k) then set (k\<lparr>w_pc := Get_tile, w_data := w_backup k, w_next := g (w_next k)\<rparr>)
              else (set (k\<lparr>w_pc := Write_next\<rparr>))\<lparr>wk_claimed := (wk_claimed s)(w_next k := True)\<rparr>)
         | Write_next \<Rightarrow>
             (set (k\<lparr>w_pc := Read_next, w_data := w_backup k, w_next := g (w_next k)\<rparr>))
               \<lparr>wk_tiles := (wk_tiles s)(w_next k := w_data k)\<rparr>
         | Finished \<Rightarrow> s)"

definition walker_ok :: "nat \<Rightarrow> (nat \<Rightarrow> nat) \<Rightarrow> (nat \<Rightarrow> nat) \<Rightarrow> (nat \<Rightarrow> 'd) \<Rightarrow> (nat \<Rightarrow> bool) \<Rightarrow> 'd walker \<Rightarrow> bool" where
  "walker_ok N g h orig C k \<longleftrightarrow>
     (case w_pc k of
        Get_tile \<Rightarrow> True
      | Read_start \<Rightarrow> w_tile k < N \<and> w_next k = g (w_tile k)
      | Get_done \<Rightarrow> w_tile k < N \<and> w_next k = g (w_tile k) \<and> (C (w_tile k) \<or> w_data k = orig (w_tile k))
      | Read_next \<Rightarrow> w_next k < N \<and> w_data k = orig (h (w_next k))
      | Claim \<Rightarrow> w_next k < N \<and> w_data k = orig (h (w_next k)) \<and> (C (w_next k) \<or> w_backup k = orig (w_next k))
      | Write_next \<Rightarrow> w_next k < N \<and> w_data k = orig (h (w_next k)) \<and> C (w_next k) \<and> w_backup k = orig (w_next k)
      | Finished \<Rightarrow> True)"

definition walk_pending :: "'d walk \<Rightarrow> nat \<Rightarrow> bool" where
  "walk_pending s y \<longleftrightarrow> (\<exists>t < NR_TASKLETS. w_pc (wk_walkers s t) = Write_next \<and> w_next (wk_walkers s t) = y)"

text \<open>Tasklet \<open>t\<close> will look at the place after \<open>y\<close>; tasklet \<open>t\<close> will start from \<open>x\<close>.\<close>

definition walk_moves :: "(nat \<Rightarrow> nat) \<Rightarrow> 'd walker \<Rightarrow> nat \<Rightarrow> bool" where
  "walk_moves g k y \<longleftrightarrow> (w_pc k \<in> {Read_next, Claim} \<and> w_next k = g y) \<or> (w_pc k = Write_next \<and> w_next k = y)"

definition walk_starts :: "(nat \<Rightarrow> nat) \<Rightarrow> 'd walker \<Rightarrow> nat \<Rightarrow> bool" where
  "walk_starts g k x \<longleftrightarrow> (w_pc k \<in> {Read_start, Get_done} \<and> w_tile k = x) \<or> (w_pc k \<in> {Read_next, Claim} \<and> w_next k = g x)"

definition walk_inv :: "nat \<Rightarrow> (nat \<Rightarrow> nat) \<Rightarrow> (nat \<Rightarrow> nat) \<Rightarrow> (nat \<Rightarrow> 'd) \<Rightarrow> 'd walk \<Rightarrow> bool" where
  "walk_inv N g h orig s \<longleftrightarrow>
     (\<forall>t < NR_TASKLETS. walker_ok N g h orig (wk_claimed s) (wk_walkers s t))
   \<and> (\<forall>y < N. wk_tiles s y = (if wk_claimed s y \<and> \<not> walk_pending s y then orig (h y) else orig y))
   \<and> (\<forall>t < NR_TASKLETS. \<forall>u < NR_TASKLETS. w_pc (wk_walkers s t) = Write_next \<longrightarrow> w_pc (wk_walkers s u) = Write_next
        \<longrightarrow> w_next (wk_walkers s t) = w_next (wk_walkers s u) \<longrightarrow> t = u)
   \<and> (\<forall>y < N. wk_claimed s y \<longrightarrow> wk_claimed s (g y) \<or> (\<exists>t < NR_TASKLETS. walk_moves g (wk_walkers s t) y))
   \<and> (\<forall>x < N. x < wk_curr s \<longrightarrow> g x = x \<or> wk_claimed s x \<or> wk_claimed s (g x) \<or> (\<exists>t < NR_TASKLETS. walk_starts g (wk_walkers s t) x))
   \<and> wk_curr s \<le> N + card {t. t < NR_TASKLETS \<and> w_pc (wk_walkers s t) = Finished}
   \<and> (\<forall>y \<ge> N. wk_tiles s y = orig y)
   \<and> (\<forall>t < NR_TASKLETS. w_pc (wk_walkers s t) = Finished \<longrightarrow> N \<le> wk_curr s)"

lemma walk_invD:
  assumes "walk_inv N g h orig s"
  shows "t < NR_TASKLETS \<Longrightarrow> walker_ok N g h orig (wk_claimed s) (wk_walkers s t)"
    "y < N \<Longrightarrow> wk_tiles s y = (if wk_claimed s y \<and> \<not> walk_pending s y then orig (h y) else orig y)"
    "t < NR_TASKLETS \<Longrightarrow> u < NR_TASKLETS \<Longrightarrow> w_pc (wk_walkers s t) = Write_next \<Longrightarrow> w_pc (wk_walkers s u) = Write_next
        \<Longrightarrow> w_next (wk_walkers s t) = w_next (wk_walkers s u) \<Longrightarrow> t = u"
    "y < N \<Longrightarrow> wk_claimed s y \<Longrightarrow> wk_claimed s (g y) \<or> (\<exists>t < NR_TASKLETS. walk_moves g (wk_walkers s t) y)"
    "x < N \<Longrightarrow> x < wk_curr s \<Longrightarrow> g x = x \<or> wk_claimed s x \<or> wk_claimed s (g x) \<or> (\<exists>t < NR_TASKLETS. walk_starts g (wk_walkers s t) x)"
    "wk_curr s \<le> N + card {t. t < NR_TASKLETS \<and> w_pc (wk_walkers s t) = Finished}"
    "N \<le> y \<Longrightarrow> wk_tiles s y = orig y"
    "t < NR_TASKLETS \<Longrightarrow> w_pc (wk_walkers s t) = Finished \<Longrightarrow> N \<le> wk_curr s"
  using assms unfolding walk_inv_def by blast+

locale cycle_walk =
  fixes N :: nat and g h :: "nat \<Rightarrow> nat"
  assumes g_range: "x < N \<Longrightarrow> g x < N" and h_range: "x < N \<Longrightarrow> h x < N" and inverse: "x < N \<Longrightarrow> h (g x) = x"
begin

lemma g_inj: "inj_on g {..<N}"
  by (rule inj_onI) (metis inverse lessThan_iff)

lemma g_image: "g ` {..<N} = {..<N}"
  using g_inj g_range by (intro endo_inj_surj) auto

lemma g_h: "y < N \<Longrightarrow> g (h y) = y"
  using g_image inverse by (metis imageE lessThan_iff)

text \<open>A set of places closed under the permutation has with a place every place of its cycle.\<close>

lemma closed_back:
  assumes closed: "\<And>y. y < N \<Longrightarrow> C y \<Longrightarrow> C (g y)" and x: "x < N" "C (g x)"
  shows "C x"
proof -
  let ?S = "{y. y < N \<and> C y}"
  have "finite ?S" by simp
  moreover have "g ` ?S \<subseteq> ?S" using closed g_range by auto
  moreover have "inj_on g ?S" using g_inj by (rule inj_on_subset) auto
  ultimately have "g ` ?S = ?S" by (rule endo_inj_surj)
  moreover have "g x \<in> ?S" using x g_range by simp
  ultimately have "g x \<in> g ` ?S" by (simp only:)
  then obtain y where "y < N" "C y" "g y = g x" by (metis (no_types, lifting) imageE mem_Collect_eq)
  then show ?thesis using x(1) by (metis inverse)
qed

lemma walk_inv_finished:
  assumes "walk_inv N g h orig s" "\<forall>t < NR_TASKLETS. w_pc (wk_walkers s t) = Finished"
  shows "x < N \<Longrightarrow> wk_tiles s (g x) = orig x" "y \<ge> N \<Longrightarrow> wk_tiles s y = orig y"
proof -
  have fin: "w_pc (wk_walkers s t) = Finished" if "t < NR_TASKLETS" for t using assms(2) that by blast
  note inv = walk_invD [OF assms(1)]
  have no: "\<not> walk_moves g (wk_walkers s t) y" "\<not> walk_starts g (wk_walkers s t) y" if "t < NR_TASKLETS" for t y
    using fin [OF that] by (simp_all add: walk_moves_def walk_starts_def)
  have closed: "wk_claimed s (g y)" if "y < N" "wk_claimed s y" for y
    using inv(4) [OF that] no(1) by blast
  have "N \<le> wk_curr s" using inv(8) [of 0] fin [of 0] by simp
  then have cover: "g x = x \<or> wk_claimed s x \<or> wk_claimed s (g x)" if "x < N" for x
    using inv(5) [OF that] that no(2) by (meson order_less_le_trans)
  have np: "\<not> walk_pending s y" for y using fin by (auto simp: walk_pending_def)
  show "wk_tiles s (g x) = orig x" if x: "x < N"
  proof (cases "g x = x")
    case True
    then have "h x = x" using inverse [OF x] by simp
    then show ?thesis using inv(2) [OF x] True by simp
  next
    case False
    then have "wk_claimed s (g x)" using cover [OF x] closed [OF x] by blast
    then show ?thesis using inv(2) [OF g_range [OF x]] inverse [OF x] np by simp
  qed
  show "y \<ge> N \<Longrightarrow> wk_tiles s y = orig y" by (rule inv(7))
qed

end

lemma walker_ok_mono:
  "walker_ok N g h orig C k \<Longrightarrow> (\<And>y. C y \<Longrightarrow> C' y) \<Longrightarrow> walker_ok N g h orig C' k"
  by (auto simp: walker_ok_def split: trns_pc.splits)

lemma walk_inv_update:
  assumes inv: "walk_inv N g h orig s" and t: "t < NR_TASKLETS" "w_pc (wk_walkers s t) \<noteq> Finished"
    and s': "wk_walkers s' = (wk_walkers s)(t := k')"
    and mono: "\<And>y. wk_claimed s y \<Longrightarrow> wk_claimed s' y"
    and ok: "walker_ok N g h orig (wk_claimed s') k'"
    and tiles: "\<And>y. y < N \<Longrightarrow> wk_tiles s' y = (if wk_claimed s' y \<and> \<not> walk_pending s' y then orig (h y) else orig y)"
    and uniq: "\<And>u. w_pc k' = Write_next \<Longrightarrow> u < NR_TASKLETS \<Longrightarrow> u \<noteq> t \<Longrightarrow> w_pc (wk_walkers s u) = Write_next \<Longrightarrow> w_next (wk_walkers s u) \<noteq> w_next k'"
    and moves: "\<And>y. y < N \<Longrightarrow> wk_claimed s' y \<Longrightarrow> \<not> wk_claimed s y \<or> walk_moves g (wk_walkers s t) y
      \<Longrightarrow> wk_claimed s' (g y) \<or> walk_moves g k' y"
    and starts: "\<And>x. x < N \<Longrightarrow> x < wk_curr s' \<Longrightarrow> \<not> x < wk_curr s \<or> walk_starts g (wk_walkers s t) x
      \<Longrightarrow> g x = x \<or> wk_claimed s' x \<or> wk_claimed s' (g x) \<or> walk_starts g k' x"
    and curr: "wk_curr s' = wk_curr s \<and> w_pc k' \<noteq> Finished
      \<or> wk_curr s' = wk_curr s + 1 \<and> (if wk_curr s < N then w_pc k' \<noteq> Finished else w_pc k' = Finished)"
    and high: "\<And>y. N \<le> y \<Longrightarrow> wk_tiles s' y = orig y"
  shows "walk_inv N g h orig s'"
proof -
  note i = walk_invD [OF inv]
  have w: "wk_walkers s' u = (if u = t then k' else wk_walkers s u)" for u by (simp add: s')
  have curr_le: "wk_curr s \<le> wk_curr s'" using curr by auto
  have a1: "walker_ok N g h orig (wk_claimed s') (wk_walkers s' u)" if "u < NR_TASKLETS" for u
    using ok i(1) [OF that] mono walker_ok_mono [of N g h orig "wk_claimed s"] by (auto simp: w)
  have a3: "u = v" if "u < NR_TASKLETS" "v < NR_TASKLETS" "w_pc (wk_walkers s' u) = Write_next" "w_pc (wk_walkers s' v) = Write_next"
    "w_next (wk_walkers s' u) = w_next (wk_walkers s' v)" for u v
    using that i(3) [of u v] uniq [of u] uniq [of v] by (auto simp: w split: if_splits)
  have a4: "wk_claimed s' (g y) \<or> (\<exists>u < NR_TASKLETS. walk_moves g (wk_walkers s' u) y)" if y: "y < N" "wk_claimed s' y" for y
  proof (cases "\<not> wk_claimed s y \<or> walk_moves g (wk_walkers s t) y")
    case True
    then have "wk_claimed s' (g y) \<or> walk_moves g (wk_walkers s' t) y" using moves [OF y] by (simp add: w)
    then show ?thesis using t(1) by blast
  next
    case False
    then have "wk_claimed s (g y) \<or> (\<exists>u < NR_TASKLETS. u \<noteq> t \<and> walk_moves g (wk_walkers s u) y)" using i(4) [OF y(1)] by blast
    then show ?thesis using mono w by metis
  qed
  have a5: "g x = x \<or> wk_claimed s' x \<or> wk_claimed s' (g x) \<or> (\<exists>u < NR_TASKLETS. walk_starts g (wk_walkers s' u) x)"
    if x: "x < N" "x < wk_curr s'" for x
  proof (cases "\<not> x < wk_curr s \<or> walk_starts g (wk_walkers s t) x")
    case True
    then have "g x = x \<or> wk_claimed s' x \<or> wk_claimed s' (g x) \<or> walk_starts g (wk_walkers s' t) x" using starts [OF x] by (simp add: w)
    then show ?thesis using t(1) by blast
  next
    case False
    then have "g x = x \<or> wk_claimed s x \<or> wk_claimed s (g x) \<or> (\<exists>u < NR_TASKLETS. u \<noteq> t \<and> walk_starts g (wk_walkers s u) x)"
      using i(5) [OF x(1)] by blast
    then show ?thesis using mono w by metis
  qed
  have a6: "wk_curr s' \<le> N + card {u. u < NR_TASKLETS \<and> w_pc (wk_walkers s' u) = Finished}"
  proof (cases "w_pc k' = Finished")
    case True
    then have "{u. u < NR_TASKLETS \<and> w_pc (wk_walkers s' u) = Finished} = insert t {u. u < NR_TASKLETS \<and> w_pc (wk_walkers s u) = Finished}"
      using t by (auto simp: w)
    moreover have "card (insert t {u. u < NR_TASKLETS \<and> w_pc (wk_walkers s u) = Finished})
        = Suc (card {u. u < NR_TASKLETS \<and> w_pc (wk_walkers s u) = Finished})"
      using t(2) by (intro card_insert_disjoint) auto
    ultimately show ?thesis using True curr i(6) by auto
  next
    case False
    then have "{u. u < NR_TASKLETS \<and> w_pc (wk_walkers s' u) = Finished} = {u. u < NR_TASKLETS \<and> w_pc (wk_walkers s u) = Finished}"
      using t by (auto simp: w)
    then have c: "card {u. u < NR_TASKLETS \<and> w_pc (wk_walkers s' u) = Finished} = card {u. u < NR_TASKLETS \<and> w_pc (wk_walkers s u) = Finished}"
      by (rule arg_cong)
    have "wk_curr s' = wk_curr s \<or> wk_curr s' \<le> N" using False curr by (cases "wk_curr s < N") auto
    then show ?thesis using i(6) unfolding c by (elim disjE) simp_all
  qed
  have a8: "N \<le> wk_curr s'" if "u < NR_TASKLETS" "w_pc (wk_walkers s' u) = Finished" for u
    using that i(8) [of u] curr curr_le t by (auto simp: w split: if_splits)
  show ?thesis
    unfolding walk_inv_def by (intro conjI allI impI) (rule a1 tiles a3 a4 a5 a6 high a8; assumption)+
qed

text \<open>A step that changes no tile changes no pending write either, except when it claims a place.\<close>

lemma walk_pending_update:
  "t < NR_TASKLETS \<Longrightarrow> wk_walkers s' = (wk_walkers s)(t := k') \<Longrightarrow> w_pc (wk_walkers s t) \<noteq> Write_next \<Longrightarrow>
   walk_pending s' y \<longleftrightarrow> walk_pending s y \<or> (w_pc k' = Write_next \<and> w_next k' = y)"
  unfolding walk_pending_def by auto

context cycle_walk
begin

lemma walk_inv_step:
  assumes inv: "walk_inv N g h orig s" and t: "t < NR_TASKLETS" "w_pc (wk_walkers s t) \<noteq> Finished"
  shows "walk_inv N g h orig (walk_step N g t s)"
proof -
  note i = walk_invD [OF inv]
  let ?k = "wk_walkers s t"
  define s' where "s' = walk_step N g t s"
  have ok: "walker_ok N g h orig (wk_claimed s) ?k" using i(1) t(1) by blast
  have "walk_inv N g h orig s'"
  proof (cases "w_pc ?k")
    case Get_tile
    let ?k' = "?k\<lparr>w_pc := (if \<not> wk_curr s < N then Finished else if g (wk_curr s) = wk_curr s then Get_tile else Read_start), w_tile := wk_curr s, w_next := g (wk_curr s)\<rparr>"
    have f: "wk_walkers s' = (wk_walkers s)(t := ?k')" "wk_tiles s' = wk_tiles s" "wk_claimed s' = wk_claimed s" "wk_curr s' = wk_curr s + 1"
      using Get_tile by (auto simp: s'_def walk_step_def Let_def)
    have pend: "walk_pending s' y \<longleftrightarrow> walk_pending s y" for y
      using Get_tile by (subst walk_pending_update [OF t(1) f(1)]) auto
    show ?thesis
      by (rule walk_inv_update [OF inv t f(1)])
        (use ok in \<open>auto simp: f(2-4) pend i(2,7) walker_ok_def walk_moves_def walk_starts_def Get_tile less_Suc_eq split: if_splits\<close>)
  next
    case Read_start
    let ?k' = "?k\<lparr>w_pc := Get_done, w_data := wk_tiles s (w_tile ?k)\<rparr>"
    have f: "wk_walkers s' = (wk_walkers s)(t := ?k')" "wk_tiles s' = wk_tiles s" "wk_claimed s' = wk_claimed s" "wk_curr s' = wk_curr s"
      using Read_start by (auto simp: s'_def walk_step_def Let_def)
    have pend: "walk_pending s' y \<longleftrightarrow> walk_pending s y" for y
      using Read_start by (subst walk_pending_update [OF t(1) f(1)]) auto
    show ?thesis
      by (rule walk_inv_update [OF inv t f(1)])
        (use ok in \<open>auto simp: f(2-4) pend i(2,7) walker_ok_def walk_moves_def walk_starts_def Read_start less_Suc_eq split: if_splits\<close>)
  next
    case Get_done
    let ?k' = "?k\<lparr>w_pc := (if wk_claimed s (w_tile ?k) then Get_tile else Read_next)\<rparr>"
    have f: "wk_walkers s' = (wk_walkers s)(t := ?k')" "wk_tiles s' = wk_tiles s" "wk_claimed s' = wk_claimed s" "wk_curr s' = wk_curr s"
      using Get_done by (auto simp: s'_def walk_step_def Let_def)
    have pend: "walk_pending s' y \<longleftrightarrow> walk_pending s y" for y
      using Get_done by (subst walk_pending_update [OF t(1) f(1)]) auto
    show ?thesis
      by (rule walk_inv_update [OF inv t f(1)])
        (use ok g_range inverse in \<open>auto simp: f(2-4) pend i(2,7) walker_ok_def walk_moves_def walk_starts_def Get_done less_Suc_eq split: if_splits\<close>)
  next
    case Read_next
    let ?k' = "?k\<lparr>w_pc := Claim, w_backup := wk_tiles s (w_next ?k)\<rparr>"
    have f: "wk_walkers s' = (wk_walkers s)(t := ?k')" "wk_tiles s' = wk_tiles s" "wk_claimed s' = wk_claimed s" "wk_curr s' = wk_curr s"
      using Read_next by (auto simp: s'_def walk_step_def Let_def)
    have pend: "walk_pending s' y \<longleftrightarrow> walk_pending s y" for y
      using Read_next by (subst walk_pending_update [OF t(1) f(1)]) auto
    show ?thesis
      by (rule walk_inv_update [OF inv t f(1)])
        (use ok in \<open>auto simp: f(2-4) pend i(2,7) walker_ok_def walk_moves_def walk_starts_def Read_next less_Suc_eq split: if_splits\<close>)
  next
    case Claim
    show ?thesis
    proof (cases "wk_claimed s (w_next ?k)")
      case True
      let ?k' = "?k\<lparr>w_pc := Get_tile, w_data := w_backup ?k, w_next := g (w_next ?k)\<rparr>"
      have f: "wk_walkers s' = (wk_walkers s)(t := ?k')" "wk_tiles s' = wk_tiles s" "wk_claimed s' = wk_claimed s" "wk_curr s' = wk_curr s"
        using Claim True by (auto simp: s'_def walk_step_def Let_def)
      have pend: "walk_pending s' y \<longleftrightarrow> walk_pending s y" for y
        using Claim by (subst walk_pending_update [OF t(1) f(1)]) auto
      show ?thesis
        by (rule walk_inv_update [OF inv t f(1)])
          (use True in \<open>auto simp: f(2-4) pend i(2,7) walker_ok_def walk_moves_def walk_starts_def Claim less_Suc_eq split: if_splits\<close>)
    next
      case False
      let ?k' = "?k\<lparr>w_pc := Write_next\<rparr>"
      have f: "wk_walkers s' = (wk_walkers s)(t := ?k')" "wk_tiles s' = wk_tiles s" "wk_claimed s' = (wk_claimed s)(w_next ?k := True)" "wk_curr s' = wk_curr s"
        using Claim False by (auto simp: s'_def walk_step_def Let_def)
      have pend: "walk_pending s' y \<longleftrightarrow> walk_pending s y \<or> w_next ?k = y" for y
        using Claim by (subst walk_pending_update [OF t(1) f(1)]) auto
      have uniq: "w_next (wk_walkers s u) \<noteq> w_next ?k" if "u < NR_TASKLETS" "w_pc (wk_walkers s u) = Write_next" for u
        using i(1) [OF that(1)] that(2) False by (auto simp: walker_ok_def)
      show ?thesis
        by (rule walk_inv_update [OF inv t f(1)])
          (use ok False uniq in \<open>auto simp: f(2-4) pend i(2,7) walker_ok_def walk_moves_def walk_starts_def Claim less_Suc_eq split: if_splits\<close>)
    qed
  next
    case Write_next
    let ?k' = "?k\<lparr>w_pc := Read_next, w_data := w_backup ?k, w_next := g (w_next ?k)\<rparr>"
    have f: "wk_walkers s' = (wk_walkers s)(t := ?k')" "wk_tiles s' = (wk_tiles s)(w_next ?k := w_data ?k)" "wk_claimed s' = wk_claimed s" "wk_curr s' = wk_curr s"
      using Write_next by (auto simp: s'_def walk_step_def Let_def)
    have pend: "walk_pending s' y \<longleftrightarrow> walk_pending s y \<and> w_next ?k \<noteq> y" for y
    proof
      assume "walk_pending s' y"
      then obtain u where "u < NR_TASKLETS" "u \<noteq> t" "w_pc (wk_walkers s u) = Write_next" "w_next (wk_walkers s u) = y"
        unfolding walk_pending_def by (auto simp: f(1) split: if_splits)
      then show "walk_pending s y \<and> w_next ?k \<noteq> y" using i(3) [of t u] t(1) Write_next by (auto simp: walk_pending_def)
    next
      assume "walk_pending s y \<and> w_next ?k \<noteq> y"
      then obtain u where "u < NR_TASKLETS" "u \<noteq> t" "w_pc (wk_walkers s u) = Write_next" "w_next (wk_walkers s u) = y"
        unfolding walk_pending_def by auto
      then show "walk_pending s' y" unfolding walk_pending_def by (intro exI [of _ u]) (simp add: f(1))
    qed
    have k: "w_next ?k < N" "w_data ?k = orig (h (w_next ?k))" "wk_claimed s (w_next ?k)" "w_backup ?k = orig (w_next ?k)"
      using ok Write_next by (simp_all add: walker_ok_def)
    show ?thesis
      by (rule walk_inv_update [OF inv t f(1)])
        (use k g_range inverse in \<open>auto simp: f(2-4) pend i(2,7) walker_ok_def walk_moves_def walk_starts_def Write_next less_Suc_eq split: if_splits\<close>)
  qed (use t(2) in simp)
  then show ?thesis by (simp only: s'_def)
qed

end

text \<open>Every step brings the end nearer.\<close>

primrec pc_weight :: "trns_pc \<Rightarrow> nat" where
  "pc_weight Read_start = 6"
| "pc_weight Get_done = 5"
| "pc_weight Write_next = 5"
| "pc_weight Read_next = 4"
| "pc_weight Claim = 3"
| "pc_weight Get_tile = 1"
| "pc_weight Finished = 0"

definition walk_measure :: "nat \<Rightarrow> 'd walk \<Rightarrow> nat" where
  "walk_measure N s = 8 * card {y. y < N \<and> \<not> wk_claimed s y} + 8 * (N - wk_curr s)
     + (\<Sum>t < NR_TASKLETS. pc_weight (w_pc (wk_walkers s t)))"

lemma sum_walker_update:
  fixes t n :: nat
  assumes "t < n"
  shows "(\<Sum>u < n. f ((K(t := k')) u)) + f (K t) = (\<Sum>u < n. f (K u)) + (f k' :: nat)"
proof -
  have "(\<Sum>u \<in> {..<n} - {t}. f ((K(t := k')) u)) = (\<Sum>u \<in> {..<n} - {t}. f (K u))"
    by (rule sum.cong) auto
  then show ?thesis
    using assms sum.remove [of "{..<n}" t "\<lambda>u. f ((K(t := k')) u)"] sum.remove [of "{..<n}" t "\<lambda>u. f (K u)"] by simp
qed

lemma walk_measure_step:
  assumes t: "t < NR_TASKLETS" "w_pc (wk_walkers s t) \<noteq> Finished"
    and inv: "walk_inv N g h orig s"
  shows "walk_measure N (walk_step N g t s) < walk_measure N s"
proof -
  let ?k = "wk_walkers s t" and ?s' = "walk_step N g t s"
  have w: "wk_walkers ?s' = (wk_walkers s)(t := wk_walkers ?s' t)"
    using t(2) by (cases "w_pc ?k") (auto simp: walk_step_def Let_def)
  have sum: "(\<Sum>u < NR_TASKLETS. pc_weight (w_pc (wk_walkers ?s' u))) + pc_weight (w_pc ?k)
      = (\<Sum>u < NR_TASKLETS. pc_weight (w_pc (wk_walkers s u))) + pc_weight (w_pc (wk_walkers ?s' t))"
    using sum_walker_update [OF t(1), of "\<lambda>k. pc_weight (w_pc k)" "wk_walkers s" "wk_walkers ?s' t"] w by simp
  show ?thesis
  proof (cases "w_pc ?k = Claim \<and> \<not> wk_claimed s (w_next ?k)")
    case True
    then have "w_next ?k < N" using walk_invD(1) [OF inv t(1)] by (simp add: walker_ok_def)
    then have i: "{y. y < N \<and> \<not> wk_claimed s y} = insert (w_next ?k) {y. y < N \<and> \<not> wk_claimed ?s' y}"
      and n: "w_next ?k \<notin> {y. y < N \<and> \<not> wk_claimed ?s' y}"
      using True by (auto simp: walk_step_def Let_def)
    have "card {y. y < N \<and> \<not> wk_claimed s y} = Suc (card {y. y < N \<and> \<not> wk_claimed ?s' y})"
      unfolding i by (rule card_insert_disjoint [OF _ n]) simp
    moreover have "pc_weight (w_pc (wk_walkers ?s' t)) = 5" "wk_curr ?s' = wk_curr s" "pc_weight (w_pc ?k) = 3"
      using True by (auto simp: walk_step_def Let_def)
    ultimately show ?thesis using sum by (simp add: walk_measure_def)
  next
    case False
    then have c: "wk_claimed ?s' = wk_claimed s"
      using t(2) by (cases "w_pc ?k") (auto simp: walk_step_def Let_def)
    have "8 * (N - wk_curr ?s') + pc_weight (w_pc (wk_walkers ?s' t)) < 8 * (N - wk_curr s) + pc_weight (w_pc ?k)"
      using t(2) False by (cases "w_pc ?k") (auto simp: walk_step_def Let_def)
    then show ?thesis using sum by (simp add: walk_measure_def c)
  qed
qed

section \<open>Kernel 2 is such a walk\<close>

definition trns_next :: "trns_arguments \<Rightarrow> nat \<Rightarrow> nat" where
  "trns_next args x = unat (next_in_cycle args (of_nat x))"

definition trns_abs :: "trns_arguments \<Rightarrow> trns_state \<Rightarrow> u64 list walk" where
  "trns_abs args s =
     \<lparr>wk_tiles = (\<lambda>y. if y < tiles args then tile_at args (tr_mram s) y else []),
      wk_claimed = done_at args (tr_mram s),
      wk_curr = unat (tr_curr_tile s),
      wk_walkers = (\<lambda>t. let k = tr_tasklets s t in
        \<lparr>w_pc = tk_pc k, w_tile = unat (tk_tile k), w_next = unat (tk_next k), w_data = tk_data k, w_backup = tk_backup k\<rparr>)\<rparr>"

lemma trns_cycle_walk:
  assumes "trns_ok args"
  shows "cycle_walk (tiles args - 1) (trns_next args) (trns_perm (unat (trns_n args)) (unat (trns_M args)))"
    "x < tiles args - 1 \<Longrightarrow> trns_next args x = perm args x"
proof -
  let ?M = "unat (trns_M args)" and ?n = "unat (trns_n args)" and ?N = "tiles args - 1"
  have pos: "0 < ?M" "0 < ?n" using assms by (simp_all add: trns_ok_def)
  have lt: "perm args x < ?N" if "x < ?N" for x
  proof -
    have x: "x < tiles args" using that by simp
    have "perm args x \<noteq> ?N"
    proof
      assume "perm args x = ?N"
      then have "trns_perm ?n ?M (perm args x) = trns_perm ?n ?M (perm args ?N)" using trns_perm_last [OF pos] by simp
      then show False using trns_perm_inverse [OF x] trns_perm_inverse [of ?N ?M ?n] pos that by simp
    qed
    then show ?thesis using trns_perm_lt [OF x] by simp
  qed
  have lt': "trns_perm ?n ?M x < ?N" if "x < ?N" for x
  proof -
    have x: "x < ?n * ?M" using that by (simp add: mult.commute)
    have "trns_perm ?n ?M x \<noteq> ?N"
    proof
      assume "trns_perm ?n ?M x = ?N"
      then have "perm args (trns_perm ?n ?M x) = perm args (trns_perm ?n ?M ?N)"
        using trns_perm_last [OF pos(2,1)] by (simp add: mult.commute)
      then show False using trns_perm_inverse [OF x] trns_perm_inverse [of ?N ?n ?M] pos that by (simp add: mult.commute)
    qed
    then show ?thesis using trns_perm_lt [OF x] by (simp add: mult.commute)
  qed
  have next': "trns_next args x = perm args x" if "x < ?N" for x
  proof -
    have x: "x < tiles args" using that by simp
    have "perm args x < 2 ^ 32" using trns_perm_lt [OF x] trns_bounds(2) [OF assms] by simp
    then show ?thesis unfolding trns_next_def next_in_cycle_perm(1) [OF assms x] by (rule unat_of_nat32)
  qed
  then show "x < ?N \<Longrightarrow> trns_next args x = perm args x" .
  show "cycle_walk ?N (trns_next args) (trns_perm ?n ?M)"
    by unfold_locales (use lt lt' next' trns_perm_inverse in auto)
qed

text \<open>The contract of the walk holds for the code's permutation.\<close>

definition trns_places :: "trns_arguments \<Rightarrow> nat" where
  "trns_places args = (if trns_ok args then tiles args - 1 else 0)"

lemma trns_places: "trns_ok args \<Longrightarrow> trns_places args = tiles args - 1"
  by (simp add: trns_places_def)

interpretation places: cycle_walk "trns_places args" "trns_next args" "trns_perm (unat (trns_n args)) (unat (trns_M args))" for args
proof (cases "trns_ok args")
  case True
  then show "cycle_walk (trns_places args) (trns_next args) (trns_perm (unat (trns_n args)) (unat (trns_M args)))"
    unfolding trns_places [OF True] by (rule trns_cycle_walk(1))
next
  case False
  then show "cycle_walk (trns_places args) (trns_next args) (trns_perm (unat (trns_n args)) (unat (trns_M args)))"
    by unfold_locales (simp_all add: trns_places_def)
qed

definition trns_orig :: "trns_arguments \<Rightarrow> cells64 \<Rightarrow> nat \<Rightarrow> u64 list" where
  "trns_orig args mem y = (if y < tiles args then tile_at args mem y else [])"

abbreviation "trns_inv args mem s \<equiv>
  walk_inv (tiles args - 1) (trns_next args) (trns_perm (unat (trns_n args)) (unat (trns_M args))) (trns_orig args mem) (trns_abs args s)"

lemma abs_walker [simp]:
  "w_pc (wk_walkers (trns_abs args s) t) = tk_pc (tr_tasklets s t)"
  "w_tile (wk_walkers (trns_abs args s) t) = unat (tk_tile (tr_tasklets s t))"
  "w_next (wk_walkers (trns_abs args s) t) = unat (tk_next (tr_tasklets s t))"
  "w_data (wk_walkers (trns_abs args s) t) = tk_data (tr_tasklets s t)"
  "w_backup (wk_walkers (trns_abs args s) t) = tk_backup (tr_tasklets s t)"
  "wk_curr (trns_abs args s) = unat (tr_curr_tile s)" "wk_claimed (trns_abs args s) = done_at args (tr_mram s)"
  "y < tiles args \<Longrightarrow> wk_tiles (trns_abs args s) y = tile_at args (tr_mram s) y"
  by (simp_all add: trns_abs_def Let_def)

lemma trns_next_word: "unat (next_in_cycle args x) = trns_next args (unat x)"
  by (simp add: trns_next_def)

lemma trns_step_simulates:
  assumes ok: "trns_ok args" and inv: "trns_inv args mem s" and t: "t < NR_TASKLETS" "tk_pc (tr_tasklets s t) \<noteq> Finished"
  shows "trns_abs args (trns_step args t s) = walk_step (tiles args - 1) (trns_next args) t (trns_abs args s)"
    "\<forall>j < trns_A. tr_mram (trns_step args t s) j = tr_mram s j"
proof -
  let ?N = "tiles args - 1" and ?k = "tr_tasklets s t"
  note i = walk_invD [OF inv]
  have wok: "walker_ok ?N (trns_next args) (trns_perm (unat (trns_n args)) (unat (trns_M args))) (trns_orig args mem)
      (done_at args (tr_mram s)) (wk_walkers (trns_abs args s) t)"
    using i(1) [OF t(1)] by simp
  have N: "tile_max args = of_nat ?N" "?N < 2 ^ 26" "?N < tiles args"
    using next_in_cycle_perm(2) [OF ok, of 0] trns_bounds(2) [OF ok] ok by (simp_all add: trns_ok_def)
  have lt: "x < tile_max args \<longleftrightarrow> unat x < ?N" for x
    using N by (simp add: word_less_nat_alt unat_of_nat32)
  have perm_lt: "trns_perm (unat (trns_n args)) (unat (trns_M args)) x < tiles args" if "x < tiles args" for x
    using trns_perm_lt [of x "unat (trns_n args)" "unat (trns_M args)"] that by (simp add: mult.commute)
  have of_nat_tile: "of_nat (unat x) = x" for x :: u32 by simp
  have "trns_abs args (trns_step args t s) = walk_step ?N (trns_next args) t (trns_abs args s)
    \<and> (\<forall>j < trns_A. tr_mram (trns_step args t s) j = tr_mram s j)"
  proof (cases "tk_pc ?k")
    case Get_tile
    have "card {u. u < NR_TASKLETS \<and> w_pc (wk_walkers (trns_abs args s) u) = Finished} \<le> card {..<NR_TASKLETS}"
      by (rule card_mono) auto
    then have "unat (tr_curr_tile s) \<le> ?N + 16" using i(6) by (simp add: NR_TASKLETS_def)
    then have "unat (tr_curr_tile s) + 1 < 2 ^ 32" using N(2) by simp
    from unat_of_nat32 [OF this] have c: "unat (tr_curr_tile s + 1) = unat (tr_curr_tile s) + 1" by (simp add: add.commute)
    have eq: "next_in_cycle args x = x \<longleftrightarrow> trns_next args (unat x) = unat x" for x
      by (simp add: trns_next_def word_unat_eq_iff)
    show ?thesis using Get_tile
      by (simp add: trns_step_def walk_step_def Let_def trns_abs_def fun_eq_iff c lt eq trns_next_word)
  next
    case Read_start
    then have "unat (tk_tile ?k) < tiles args" using wok N(3) by (simp add: walker_ok_def)
    from read_tile_step3_at [OF ok this, of "tr_mram s"] Read_start this show ?thesis
      by (simp add: trns_step_def walk_step_def Let_def trns_abs_def fun_eq_iff)
  next
    case Get_done
    then have "unat (tk_tile ?k) < tiles args" using wok N(3) by (simp add: walker_ok_def)
    from get_done_at [OF ok this, of "tr_mram s"] Get_done show ?thesis
      by (simp add: trns_step_def walk_step_def Let_def trns_abs_def fun_eq_iff)
  next
    case Read_next
    then have "unat (tk_next ?k) < tiles args" using wok N(3) by (simp add: walker_ok_def)
    from read_tile_step3_at [OF ok this, of "tr_mram s"] Read_next this show ?thesis
      by (simp add: trns_step_def walk_step_def Let_def trns_abs_def fun_eq_iff)
  next
    case Claim
    then have "unat (tk_next ?k) < tiles args" using wok N(3) by (simp add: walker_ok_def)
    from get_and_set_done_at [OF ok this, of "tr_mram s"] obtain mem'
      where m: "get_and_set_done (done_array args) (tk_next ?k) (tr_mram s) = (done_at args (tr_mram s) (unat (tk_next ?k)), mem')"
        "done_at args mem' = (done_at args (tr_mram s))(unat (tk_next ?k) := True)"
        "\<forall>y < tiles args. tile_at args mem' y = tile_at args (tr_mram s) y"
        "\<forall>j < done_array args div 8. mem' j = tr_mram s j" by auto
    then have "\<forall>j < trns_A. mem' j = tr_mram s j" using trns_bounds(3) [OF ok] by simp
    moreover have "(done_at args (tr_mram s))(unat (tk_next ?k) := True) = done_at args (tr_mram s)"
      if "done_at args (tr_mram s) (unat (tk_next ?k))" using that by (auto simp: fun_eq_iff)
    ultimately show ?thesis using Claim m(1,2,3)
      by (auto simp: trns_step_def walk_step_def Let_def trns_abs_def fun_eq_iff trns_next_word)
  next
    case Write_next
    then have n: "unat (tk_next ?k) < ?N" "tk_data ?k = trns_orig args mem (trns_perm (unat (trns_n args)) (unat (trns_M args)) (unat (tk_next ?k)))"
      using wok by (simp_all add: walker_ok_def)
    then have "unat (tk_next ?k) < tiles args" using N(3) by simp
    moreover from n perm_lt [OF this] have "length (tk_data ?k) = unat (trns_m args)" by (simp add: trns_orig_def)
    ultimately have w: "tile_at args (write_tile_step3 TRNS_A_OFFSET (tk_next ?k * trns_m args) (tk_data ?k) (trns_m args) (tr_mram s)) (unat (tk_next ?k)) = tk_data ?k"
      "y \<noteq> unat (tk_next ?k) \<Longrightarrow> tile_at args (write_tile_step3 TRNS_A_OFFSET (tk_next ?k * trns_m args) (tk_data ?k) (trns_m args) (tr_mram s)) y = tile_at args (tr_mram s) y"
      "done_at args (write_tile_step3 TRNS_A_OFFSET (tk_next ?k * trns_m args) (tk_data ?k) (trns_m args) (tr_mram s)) = done_at args (tr_mram s)"
      "j < trns_A \<Longrightarrow> write_tile_step3 TRNS_A_OFFSET (tk_next ?k * trns_m args) (tk_data ?k) (trns_m args) (tr_mram s) j = tr_mram s j" for y j
      using write_tile_step3_at [OF ok, where x = "unat (tk_next ?k)" and data = "tk_data ?k" and mem = "tr_mram s"] by simp_all
    then show ?thesis using Write_next \<open>unat (tk_next ?k) < tiles args\<close>
      by (auto simp: trns_step_def walk_step_def Let_def trns_abs_def fun_eq_iff trns_next_word)
  qed (use t(2) in simp)
  then show "trns_abs args (trns_step args t s) = walk_step ?N (trns_next args) t (trns_abs args s)"
    "\<forall>j < trns_A. tr_mram (trns_step args t s) j = tr_mram s j" by blast+
qed

definition trns_fresh :: "trns_arguments \<Rightarrow> cells64 \<Rightarrow> bool" where
  "trns_fresh args mem \<longleftrightarrow> (\<forall>x < tiles args. \<not> done_at args mem x)"

lemma trns_inv_start:
  assumes "trns_ok args" "trns_fresh args mem"
  shows "trns_inv args mem (trns_start stack mem)"
proof -
  have N: "y < tiles args - 1 \<Longrightarrow> y < tiles args" for y by simp
  show ?thesis
    using assms(2) N unfolding walk_inv_def walk_pending_def
    by (auto simp: trns_start_def trns_abs_def Let_def trns_fresh_def trns_orig_def walker_ok_def)
qed

lemma trns_reachable_inv:
  assumes "trns_ok args" "trns_fresh args mem" "trns_reachable args (trns_start stack mem) s"
  shows "trns_inv args mem s \<and> (\<forall>j < trns_A. tr_mram s j = mem j)"
  using assms(3)
proof induction
  case trns_refl
  then show ?case using trns_inv_start [OF assms(1,2)] by (simp add: trns_start_def)
next
  case (trns_go s t)
  then have inv: "trns_inv args mem s" by simp
  note step = trns_step_simulates [OF assms(1) inv trns_go.hyps(2,3)]
  have "trns_inv args mem (trns_step args t s)"
    unfolding step(1)
    by (rule places.walk_inv_step [of args, unfolded trns_places [OF assms(1)], OF inv]) (use trns_go.hyps in simp_all)
  then show ?case using step(2) trns_go.IH by simp
qed

lemma trns_runs_finish:
  assumes "trns_ok args" "trns_fresh args mem" "trns_reachable args (trns_start stack mem) s"
  shows "\<exists>s'. trns_reachable args (trns_start stack mem) s' \<and> trns_finished s'"
  using assms(3)
proof (induction "walk_measure (tiles args - 1) (trns_abs args s)" arbitrary: s rule: less_induct)
  case less
  show ?case
  proof (cases "trns_finished s")
    case True
    then show ?thesis using less.prems by blast
  next
    case False
    then obtain t where t: "t < NR_TASKLETS" "tk_pc (tr_tasklets s t) \<noteq> Finished" by (auto simp: trns_finished_def)
    have inv: "trns_inv args mem s" using trns_reachable_inv [OF assms(1,2) less.prems] by blast
    have "walk_measure (tiles args - 1) (trns_abs args (trns_step args t s)) < walk_measure (tiles args - 1) (trns_abs args s)"
      unfolding trns_step_simulates(1) [OF assms(1) inv t] by (rule walk_measure_step [OF t(1) _ inv]) (use t(2) in simp)
    then show ?thesis using less.hyps trns_reachable.trns_go [OF less.prems t] by blast
  qed
qed

section \<open>Kernel 1\<close>

lemma read_tile_step2_words:
  assumes "rest \<le> mn"
  shows "read_tile_step2 m (8 * a) offset mn rest = map (\<lambda>i. m (a + offset + i)) [mn - rest..<mn]"
  using assms
proof (induction m "8 * a" offset mn rest rule: read_tile_step2.induct)
  case (1 m offset mn rest)
  show ?case
  proof (cases "rest = 0")
    case True
    then show ?thesis by (simp add: read_tile_step2.simps)
  next
    case False
    define tr where "tr = (if rest * 8 > 2048 then 2048 div 8 else rest)"
    have tr: "tr \<le> rest" "0 < tr" using False by (auto simp: tr_def)
    have "8 * a + (offset + mn - rest) * 8 = 8 * (a + offset + (mn - rest))" using "1.prems" by simp
    then have "mram_read64 m (8 * a + (offset + mn - rest) * 8) (8 * tr) = map (\<lambda>i. m (a + offset + i)) [mn - rest..<mn - rest + tr]"
      unfolding mram_read64_def by (intro nth_equalityI) (simp_all add: add.assoc)
    moreover have "read_tile_step2 m (8 * a) offset mn (rest - tr) = map (\<lambda>i. m (a + offset + i)) [mn - rest + tr..<mn]"
      using "1.hyps" [OF False tr_def] "1.prems" tr by (simp add: diff_diff_right)
    moreover have "read_tile_step2 m (8 * a) offset mn rest =
        mram_read64 m (8 * a + (offset + mn - rest) * 8) (8 * tr) @ read_tile_step2 m (8 * a) offset mn (rest - tr)"
      using False unfolding tr_def by (subst read_tile_step2.simps) (simp only: if_False Let_def)
    moreover have "[mn - rest..<mn - rest + tr] @ [mn - rest + tr..<mn] = [mn - rest..<mn]"
      using "1.prems" tr by (intro upt_join) simp_all
    ultimately show ?thesis by (simp only: map_append [symmetric])
  qed
qed

lemma write_tile_step2_cells:
  assumes "rest \<le> mn" "length xs = mn"
  shows "write_tile_step2 (8 * a) offset xs mn rest m j =
    (if a + offset + (mn - rest) \<le> j \<and> j < a + offset + mn then xs ! (j - (a + offset)) else m j)"
  using assms
proof (induction "8 * a" offset xs mn rest m rule: write_tile_step2.induct)
  case (1 offset xs mn rest m)
  show ?case
  proof (cases "rest = 0")
    case True
    then show ?thesis by (auto simp: write_tile_step2.simps)
  next
    case False
    define tr where "tr = (if rest * 8 > 2048 then 2048 div 8 else rest)"
    have tr: "tr \<le> rest" "0 < tr" using False by (auto simp: tr_def)
    define m' where "m' = mram_write64 (drop (mn - rest) xs) (8 * a + (offset + mn - rest) * 8) (8 * tr) m"
    have "8 * a + (offset + mn - rest) * 8 = 8 * (a + offset + (mn - rest))" using "1.prems" by simp
    then have m': "m' j = (if a + offset + (mn - rest) \<le> j \<and> j < a + offset + (mn - rest) + tr
        then drop (mn - rest) xs ! (j - (a + offset + (mn - rest))) else m j)"
      unfolding m'_def by (simp only: mram_write64_cells)
    have "write_tile_step2 (8 * a) offset xs mn (rest - tr) m' j =
      (if a + offset + (mn - (rest - tr)) \<le> j \<and> j < a + offset + mn then xs ! (j - (a + offset)) else m' j)"
      using "1.hyps" [OF False tr_def] "1.prems" tr unfolding m'_def tr_def [symmetric] by simp
    moreover have "write_tile_step2 (8 * a) offset xs mn rest m = write_tile_step2 (8 * a) offset xs mn (rest - tr) m'"
      using False unfolding m'_def tr_def by (subst write_tile_step2.simps) (simp only: if_False Let_def)
    ultimately have eq: "write_tile_step2 (8 * a) offset xs mn rest m j =
      (if a + offset + (mn - (rest - tr)) \<le> j \<and> j < a + offset + mn then xs ! (j - (a + offset)) else m' j)" by (simp only:)
    have sum: "mn - (rest - tr) = mn - rest + tr" using "1.prems" tr by simp
    have "drop (mn - rest) xs ! (j - (a + offset + (mn - rest))) = xs ! (j - (a + offset))"
      if "a + offset + (mn - rest) \<le> j" "j < a + offset + (mn - rest) + tr"
      using that "1.prems" by (subst nth_drop) simp_all
    then show ?thesis unfolding eq m' sum using "1.prems" tr by auto
  qed
qed

lemma nth_fold_scatter:
  "inj_on p {..<k} \<Longrightarrow> (\<And>i. i < k \<Longrightarrow> p i < length b) \<Longrightarrow> i < k \<Longrightarrow>
   fold (\<lambda>i b. b[p i := f i]) [0..<k] b ! p i = f i"
proof (induction k)
  case (Suc k)
  show ?case
  proof (cases "i = k")
    case False
    then have "p k \<noteq> p i" using Suc.prems by (auto simp: inj_on_def)
    moreover have "fold (\<lambda>i b. b[p i := f i]) [0..<k] b ! p i = f i"
      using False Suc by (intro Suc.IH) (auto simp: inj_on_def)
    ultimately show ?thesis by simp
  qed (use Suc.prems in simp)
qed simp

lemma tile_index:
  assumes "0 < m" "0 < (n :: nat)"
  shows "i * m - (m * n - 1) * (i div n) = trns_perm m n i"
proof -
  have "(m * n - 1) * (i div n) + i div n = m * n * (i div n)"
    using assms by (simp add: diff_mult_distrib)
  moreover have "m * n * (i div n) + i mod n * m = i * m"
    by (metis (no_types, lifting) add.commute distrib_right mod_div_mult_eq mult.assoc mult.commute)
  ultimately show ?thesis by (simp add: trns_perm_def)
qed

lemma transpose_tile_nth:
  assumes "length backup = m * n" "i < m * n"
  shows "transpose_tile m n data backup ! trns_perm m n i = data ! i"
    "length (transpose_tile m n data backup) = m * n"
proof -
  have pos: "0 < m" "0 < n" using assms(2) by (auto intro: Nat.gr0I)
  have "inj_on (trns_perm m n) {..<m * n}"
    by (rule inj_on_inverseI [where g = "trns_perm n m"]) (simp add: trns_perm_inverse)
  then show "transpose_tile m n data backup ! trns_perm m n i = data ! i"
    unfolding transpose_tile_def tile_index [OF pos] using assms trns_perm_lt by (intro nth_fold_scatter) simp_all
  show "length (transpose_tile m n data backup) = m * n"
    using assms(1) by (simp add: transpose_tile_def)
qed

text \<open>Kernel 1 transposes every tile in its place, for every interleaving of the tasklets.\<close>

lemma trns_tile_cells:
  assumes "0 < unat (trns_m args)" "0 < unat (trns_n args)"
  defines "mn \<equiv> unat (trns_m args) * unat (trns_n args)"
  shows "j \<notin> {trns_A + tile * mn..<trns_A + tile * mn + mn} \<Longrightarrow> trns_tile args tile mem j = mem j"
    "i < mn \<Longrightarrow> trns_tile args tile mem (trns_A + tile * mn + trns_perm (unat (trns_m args)) (unat (trns_n args)) i)
      = mem (trns_A + tile * mn + i)"
proof -
  let ?m = "unat (trns_m args)" and ?n = "unat (trns_n args)"
  let ?b = "transpose_tile ?m ?n (map (\<lambda>i. mem (trns_A + tile * mn + i)) [0..<mn]) (replicate mn 0)"
  have len: "length ?b = mn" using transpose_tile_nth(2) [of "replicate mn 0" ?m ?n 0] assms by simp
  have eq: "trns_tile args tile mem = write_tile_step2 (8 * trns_A) (tile * mn) ?b mn mn mem"
    unfolding trns_tile_def Let_def trns_A mn_def [symmetric] mult.assoc read_tile_step2_words [OF order_refl] by simp
  have cells: "trns_tile args tile mem j = (if trns_A + tile * mn \<le> j \<and> j < trns_A + tile * mn + mn then ?b ! (j - (trns_A + tile * mn)) else mem j)" for j
    unfolding eq write_tile_step2_cells [OF order_refl len] by simp
  show "j \<notin> {trns_A + tile * mn..<trns_A + tile * mn + mn} \<Longrightarrow> trns_tile args tile mem j = mem j" by (auto simp: cells)
  show "i < mn \<Longrightarrow> trns_tile args tile mem (trns_A + tile * mn + trns_perm ?m ?n i) = mem (trns_A + tile * mn + i)"
    using transpose_tile_nth(1) [of "replicate mn 0" ?m ?n i] trns_perm_lt [of i ?m ?n] by (simp add: cells mn_def)
qed

lemma trns_kernel1_correct:
  assumes "trns_main_kernel1 args mem mem'" "0 < unat (trns_m args)" "0 < unat (trns_n args)"
    and "tile < unat (trns_M args)" "i < unat (trns_m args) * unat (trns_n args)"
  defines "mn \<equiv> unat (trns_m args) * unat (trns_n args)"
  shows "mem' (trns_A + tile * mn + trns_perm (unat (trns_m args)) (unat (trns_n args)) i) = mem (trns_A + tile * mn + i)"
proof -
  let ?W = "\<lambda>t. {trns_A + t * mn..<trns_A + t * mn + mn}"
  have mn: "0 < mn" using assms(2,3) by (simp add: mn_def)
  have apart: "?W b \<inter> (?W c \<union> ?W c) = {}" if "b \<noteq> c" for b c
  proof -
    have "b * mn + mn \<le> c * mn \<or> c * mn + mn \<le> b * mn"
      using that by (metis Suc_leI add.commute linorder_neqE_nat mult_Suc mult_le_mono1)
    then show ?thesis by auto
  qed
  have loc: "trns_tile args b m1 j = trns_tile args b m2 j" if "\<And>i. i \<in> ?W b \<Longrightarrow> m1 i = m2 i" "j \<in> ?W b" for b m1 m2 j
  proof -
    let ?p = "trns_perm (unat (trns_m args)) (unat (trns_n args))" and ?q = "trns_perm (unat (trns_n args)) (unat (trns_m args))"
    let ?y = "j - (trns_A + b * mn)"
    have y: "?y < unat (trns_n args) * unat (trns_m args)" using that(2) by (auto simp: mn_def mult.commute)
    then have x: "?q ?y < mn" "?p (?q ?y) = ?y"
      using trns_perm_lt [OF y] trns_perm_inverse [OF y] by (simp_all add: mn_def mult.commute)
    have "trns_A + b * mn + ?p (?q ?y) = j" using x(2) that(2) by simp
    then show ?thesis
      using trns_tile_cells(2) [OF assms(2,3), of "?q ?y" b m1] trns_tile_cells(2) [OF assms(2,3), of "?q ?y" b m2] x(1) that(1) [of "trns_A + b * mn + ?q ?y"]
      by (simp add: mn_def)
  qed
  note frame = trns_tile_cells(1) [OF assms(2,3), folded mn_def]
  have ds: "disjoint_steps (trns_tile args) UNIV ?W ?W"
    by (rule disjoint_steps.intro) ((rule frame, assumption) | (rule loc, assumption, assumption) | (rule apart, assumption))+
  have tile: "tile mod NR_TASKLETS \<in> set [0..<NR_TASKLETS]" "tile \<in> set (stride_list NR_TASKLETS (tile mod NR_TASKLETS) (unat (trns_M args)))"
    using assms(4) by (auto simp: set_stride_list intro!: exI [of _ "tile div NR_TASKLETS"])
  have "distinct (concat (map (\<lambda>t. stride_list (1 * NR_TASKLETS) (1 * t) (unat (trns_M args))) [0..<NR_TASKLETS]))"
    by (rule distinct_tasklet_strides) auto
  then have dist: "distinct (concat (map (\<lambda>t. stride_list NR_TASKLETS t (unat (trns_M args))) [0..<NR_TASKLETS]))" by simp
  have "trns_perm (unat (trns_m args)) (unat (trns_n args)) i < mn" using trns_perm_lt [OF assms(5)] by (simp add: mn_def)
  then have "mem' (trns_A + tile * mn + trns_perm (unat (trns_m args)) (unat (trns_n args)) i)
      = trns_tile args tile mem (trns_A + tile * mn + trns_perm (unat (trns_m args)) (unat (trns_n args)) i)"
    using disjoint_steps.phase_blocks(1) [OF ds assms(1) [unfolded trns_main_kernel1_def] _ dist tile] by simp
  then show ?thesis using trns_tile_cells(2) [OF assms(2,3), of i tile mem] assms(5) by (simp add: mn_def)
qed

section \<open>The result\<close>

text \<open>
  C35: The parallel in-place permutation of kernel 2 is right under every schedule of the tasklets,
  although several of them may follow the same cycle: when all tasklets have finished, every tile \<open>x\<close> is at place
  \<open>(x mod n) * M_ + x div n\<close>, the transposed place; every run can be continued until all have finished.
\<close>

theorem trns_kernel2_correct:
  assumes "trns_ok args" "trns_fresh args mem"
  shows "(\<exists>mem'. trns_main_kernel2 args stack mem mem') \<and> (\<forall>mem'. trns_main_kernel2 args stack mem mem' \<longrightarrow>
    (\<forall>x < tiles args. tile_at args mem' (perm args x) = tile_at args mem x) \<and> (\<forall>j < trns_A. mem' j = mem j))"
proof (intro conjI allI impI)
  show "\<exists>mem'. trns_main_kernel2 args stack mem mem'"
    using trns_runs_finish [OF assms trns_refl] by (auto simp: trns_main_kernel2_def)
next
  fix mem' j
  assume "trns_main_kernel2 args stack mem mem'" and "j < trns_A"
  then show "mem' j = mem j" using trns_reachable_inv [OF assms] by (auto simp: trns_main_kernel2_def)
next
  fix mem' x
  let ?N = "tiles args - 1"
  assume "trns_main_kernel2 args stack mem mem'" and x: "x < tiles args"
  then obtain s where s: "trns_reachable args (trns_start stack mem) s" "trns_finished s" "mem' = tr_mram s"
    by (auto simp: trns_main_kernel2_def)
  note inv = trns_reachable_inv [OF assms s(1), THEN conjunct1]
  note fin = places.walk_inv_finished [of args, unfolded trns_places [OF assms(1)], OF inv]
  have all: "\<forall>t < NR_TASKLETS. w_pc (wk_walkers (trns_abs args s) t) = Finished" using s(2) by (simp add: trns_finished_def)
  have lt: "perm args x < tiles args" using x by (rule trns_perm_lt)
  show "tile_at args mem' (perm args x) = tile_at args mem x"
  proof (cases "x < ?N")
    case True
    from fin(1) [OF all True] trns_cycle_walk(2) [OF assms(1) True] lt x s(3) show ?thesis
      by (simp add: trns_orig_def)
  next
    case False
    then have "x = ?N" using x by simp
    then have "perm args x = x" using trns_perm_last assms(1) by (simp add: trns_ok_def)
    then show ?thesis using fin(2) [OF all, of x] False x s(3) by (simp add: trns_orig_def)
  qed
qed

theorem trns_kernel2_correct_witness:
  "\<exists>mem'. trns_main_kernel2 \<lparr>trns_m = 1, trns_n = 2, trns_M = 3, trns_kernel = 1\<rparr>
      (\<lambda>t. \<lparr>tk_pc = Finished, tk_tile = 0, tk_next = 0, tk_data = [], tk_backup = []\<rparr>)
      (\<lambda>j. if j < trns_A + 6 then of_nat j else 0) mem'
    \<and> mem' (trns_A + 3) = of_nat (trns_A + 1)"
proof -
  let ?args = "\<lparr>trns_m = 1, trns_n = 2, trns_M = 3, trns_kernel = 1\<rparr>" and ?mem = "\<lambda>j. if j < trns_A + 6 then of_nat j else 0"
  have ok: "trns_ok ?args"
    by (simp add: trns_ok_def done_array_def TRNS_A_OFFSET_def TRNS_ARG_OFFSET_def SK_LOG_OFFSET_def)
  have "trns_fresh ?args ?mem"
    using trns_bounds(3) [OF ok] by (simp add: trns_fresh_def done_at_def)
  note trns_kernel2_correct [OF ok this, of "\<lambda>t. \<lparr>tk_pc = Finished, tk_tile = 0, tk_next = 0, tk_data = [], tk_backup = []\<rparr>"]
  then obtain mem' where m: "trns_main_kernel2 ?args (\<lambda>t. \<lparr>tk_pc = Finished, tk_tile = 0, tk_next = 0, tk_data = [], tk_backup = []\<rparr>) ?mem mem'"
    "\<forall>x < tiles ?args. tile_at ?args mem' (perm ?args x) = tile_at ?args ?mem x" by blast
  from m(2) [rule_format, of 1] have "mem' (trns_A + 3) = of_nat (trns_A + 1)"
    by (simp add: tile_at_def trns_perm_def)
  then show ?thesis using m(1) by blast
qed

end
