(* ===== verification/Kernel_BFS.thy ===== *)
theory Kernel_BFS imports SPMD
begin

text \<open>
  Breadth-first search, \<^verbatim>\<open>src/src/BFS/main.c\<close> with the accessors of \<^verbatim>\<open>src/src/BFS/dpu-utils.h\<close>: a
  service that computes one level per job. The node sets are bitmaps of 64-bit words, so MRAM is
  seen as its cells of eight bytes. In the first phase the tasklets take turns on the words of the
  global bitmaps: the next frontier of all DPUs becomes visited, and the part of this DPU its
  current frontier. In the second every tasklet follows the edges of its share of the nodes and
  collects the neighbours not yet visited in the next frontier, under a mutex.
\<close>

section \<open>The code\<close>

record bfs_params =
  bf_dpuNumNodes :: u32
  bf_numNodes :: u32
  bf_dpuStartNodeIdx :: u32
  bf_dpuNodePtrsOffset :: u32
  bf_level :: u32
  bf_dpuNodePtrs_m :: u32
  bf_dpuNeighborIdxs_m :: u32
  bf_dpuNodeLevel_m :: u32
  bf_dpuVisited_m :: u32
  bf_dpuCurrentFrontier_m :: u32
  bf_dpuNextFrontier_m :: u32

definition BFS_ARG_OFFSET :: nat where "BFS_ARG_OFFSET = 0x3000"
definition BFS_CTRL_OFFSET :: nat where "BFS_CTRL_OFFSET = BFS_ARG_OFFSET + 0x40"
definition BFS_CMD_EXIT :: u32 where "BFS_CMD_EXIT = 2"

definition load8B :: "cells64 \<Rightarrow> u32 \<Rightarrow> u32 \<Rightarrow> u64" where
  "load8B m ptr_m idx = mram_read64 m (unat (ptr_m + idx * 8)) 8 ! 0"

definition store8B :: "u64 \<Rightarrow> u32 \<Rightarrow> u32 \<Rightarrow> cells64 \<Rightarrow> cells64" where
  "store8B val ptr_m idx m = mram_write64 [val] (unat (ptr_m + idx * 8)) 8 m"

definition load4B :: "cells64 \<Rightarrow> u32 \<Rightarrow> u32 \<Rightarrow> u32" where
  "load4B m ptr_m idx =
     (let ptr_idx_m = ptr_m + idx * 4; offset = ptr_idx_m mod 8; ptr_block_m = ptr_idx_m - offset;
          cache_w = mram_read64 m (unat ptr_block_m) 8
      in if offset div 4 = 0 then lo32 (cache_w ! 0) else hi32 (cache_w ! 0))"

definition store4B :: "u32 \<Rightarrow> u32 \<Rightarrow> u32 \<Rightarrow> cells64 \<Rightarrow> cells64" where
  "store4B val ptr_m idx m =
     (let ptr_idx_m = ptr_m + idx * 4; offset = ptr_idx_m mod 8; ptr_block_m = ptr_idx_m - offset;
          cache_w = mram_read64 m (unat ptr_block_m) 8;
          cache_w = (if offset div 4 = 0 then [u64_of val (hi32 (cache_w ! 0))] else [u64_of (lo32 (cache_w ! 0)) val])
      in mram_write64 cache_w (unat ptr_block_m) 8 m)"

definition isSet :: "u64 \<Rightarrow> nat \<Rightarrow> bool" where "isSet val idx \<longleftrightarrow> val AND push_bit idx 1 \<noteq> 0"
definition setBit :: "u64 \<Rightarrow> nat \<Rightarrow> u64" where "setBit val idx = val OR push_bit idx 1"

definition bfs_fetch_params :: "cells64 \<Rightarrow> bfs_params" where
  "bfs_fetch_params m =
     (let buf = mram_read64 m BFS_ARG_OFFSET 48
      in \<lparr>bf_dpuNumNodes = lo32 (buf ! 0), bf_numNodes = hi32 (buf ! 0),
          bf_dpuStartNodeIdx = lo32 (buf ! 1), bf_dpuNodePtrsOffset = hi32 (buf ! 1),
          bf_level = lo32 (buf ! 2), bf_dpuNodePtrs_m = hi32 (buf ! 2),
          bf_dpuNeighborIdxs_m = lo32 (buf ! 3), bf_dpuNodeLevel_m = hi32 (buf ! 3),
          bf_dpuVisited_m = lo32 (buf ! 4), bf_dpuCurrentFrontier_m = hi32 (buf ! 4),
          bf_dpuNextFrontier_m = lo32 (buf ! 5)\<rparr>)"

definition bfs_fetch_cmd :: "cells64 \<Rightarrow> u32" where
  "bfs_fetch_cmd m = lo32 (mram_read64 m BFS_CTRL_OFFSET 8 ! 0)"

text \<open>One word of the global bitmaps.\<close>

definition bfs_levels :: "bfs_params \<Rightarrow> u64 \<Rightarrow> nat \<Rightarrow> cells64 \<Rightarrow> cells64" where
  "bfs_levels p nf tile m =
     fold (\<lambda>node m. if isSet nf (node mod 64)
        then store4B (bf_level p) (bf_dpuNodeLevel_m p) (of_nat node - bf_dpuStartNodeIdx p) m else m)
       [tile * 64 ..< (tile + 1) * 64] m"

definition bfs_tile :: "bfs_params \<Rightarrow> nat \<Rightarrow> cells64 \<Rightarrow> cells64" where
  "bfs_tile p tile m =
     (let startTileIdx = unat (bf_dpuStartNodeIdx p) div 64; numTilesLocal = unat (bf_dpuNumNodes p) div 64;
          nf = load8B m (bf_dpuNextFrontier_m p) (of_nat tile);
          m = (if nf \<noteq> 0 then
                 (let vis = load8B m (bf_dpuVisited_m p) (of_nat tile);
                      m = store8B (vis OR nf) (bf_dpuVisited_m p) (of_nat tile) m
                  in store8B 0 (bf_dpuNextFrontier_m p) (of_nat tile) m)
               else m)
      in if startTileIdx \<le> tile \<and> tile < startTileIdx + numTilesLocal then
           (let m = store8B nf (bf_dpuCurrentFrontier_m p) (of_nat (tile - startTileIdx)) m
            in if nf \<noteq> 0 then bfs_levels p nf tile m else m)
         else m)"

definition bfs_tiles :: "bfs_params \<Rightarrow> nat \<Rightarrow> nat list" where
  "bfs_tiles p tasklet_id = stride_list NR_TASKLETS tasklet_id (unat (bf_numNodes p) div 64)"

text \<open>
  The nodes of a tasklet, the indices of their edges, and what is done for an edge. The phase
  below only writes the next frontier, so that the loops over nodes and edges run over what they
  find at its start (\<open>bfs_edges_stable\<close>).
\<close>

definition bfs_tasklet_nodes :: "bfs_params \<Rightarrow> nat \<Rightarrow> nat list" where
  "bfs_tasklet_nodes p tasklet_id =
     (let numNodes = unat (bf_dpuNumNodes p);
          numNodesPerTasklet = (numNodes + NR_TASKLETS - 1) div NR_TASKLETS;
          taskletNodesStart = tasklet_id * numNodesPerTasklet;
          taskletNumNodes = (if numNodes \<le> taskletNodesStart then 0
            else if numNodes < taskletNodesStart + numNodesPerTasklet then numNodes - taskletNodesStart
            else numNodesPerTasklet)
      in [taskletNodesStart ..< taskletNodesStart + taskletNumNodes])"

definition bfs_edges :: "bfs_params \<Rightarrow> cells64 \<Rightarrow> nat \<Rightarrow> nat list" where
  "bfs_edges p m node =
     (let cf = load8B m (bf_dpuCurrentFrontier_m p) (of_nat (node div 64))
      in if isSet cf (node mod 64) then
           (let ptr = load4B m (bf_dpuNodePtrs_m p) (of_nat node) - bf_dpuNodePtrsOffset p;
                nxt = load4B m (bf_dpuNodePtrs_m p) (of_nat (node + 1)) - bf_dpuNodePtrsOffset p
            in [unat ptr ..< unat nxt])
         else [])"

definition bfs_visit :: "bfs_params \<Rightarrow> nat \<Rightarrow> cells64 \<Rightarrow> cells64" where
  "bfs_visit p i m =
     (let nb = load4B m (bf_dpuNeighborIdxs_m p) (of_nat i); nbTile = nb div 64;
          vis = load8B m (bf_dpuVisited_m p) nbTile
      in if \<not> isSet vis (unat (nb mod 64)) then
           (let nft = setBit (load8B m (bf_dpuNextFrontier_m p) nbTile) (unat (nb mod 64))
            in store8B nft (bf_dpuNextFrontier_m p) nbTile m)
         else m)"

definition bfs_tasklet :: "bfs_params \<Rightarrow> cells64 \<Rightarrow> nat \<Rightarrow> nat list" where
  "bfs_tasklet p m tasklet_id =
     (if 0 < bf_dpuNumNodes p then concat (map (bfs_edges p m) (bfs_tasklet_nodes p tasklet_id)) else [])"

definition bfs_job :: "bfs_params \<Rightarrow> cells64 \<Rightarrow> cells64 \<Rightarrow> bool" where
  "bfs_job p m m' \<longleftrightarrow>
     (\<exists>m1. phase (map (\<lambda>t. map (bfs_tile p) (bfs_tiles p t)) [0..<NR_TASKLETS]) m m1
       \<and> phase (map (\<lambda>t. map (bfs_visit p) (bfs_tasklet p m1 t)) [0..<NR_TASKLETS]) m1 m')"

text \<open>
  The service: the host is woken, changes MRAM as it likes and hands it back, with the command
  and the parameters in it. The list holds the memory at the start and at the end of every job.
\<close>

inductive bfs_main :: "(cells64 \<Rightarrow> cells64 \<Rightarrow> bool) \<Rightarrow> cells64 \<Rightarrow> (cells64 \<times> cells64) list \<Rightarrow> cells64 \<Rightarrow> bool" for host where
  exit: "host m m1 \<Longrightarrow> bfs_fetch_cmd m1 = BFS_CMD_EXIT \<Longrightarrow> bfs_main host m [] m1"
| job: "host m m1 \<Longrightarrow> bfs_fetch_cmd m1 \<noteq> BFS_CMD_EXIT \<Longrightarrow> bfs_job (bfs_fetch_params m1) m1 m2 \<Longrightarrow>
    bfs_main host m2 js m' \<Longrightarrow> bfs_main host m ((m1, m2) # js) m'"

section \<open>The accessors\<close>

text \<open>A region of MRAM: aligned, and all of it below 64 MiB.\<close>

definition bfs_region :: "u32 \<Rightarrow> nat \<Rightarrow> bool" where
  "bfs_region base words \<longleftrightarrow> unat base mod 8 = 0 \<and> unat base + 8 * words \<le> 2 ^ 26"

lemma bfs_address:
  fixes base :: u32
  assumes "unat base + k * n < 2 ^ 32"
  shows "unat (base + of_nat n * of_nat k) = unat base + k * n"
proof -
  have "base + of_nat n * of_nat k = of_nat (unat base + k * n)" by simp
  then show ?thesis by (simp only: unat_of_nat32 [OF assms])
qed

lemma load8B_cell:
  assumes "bfs_region base words" "k < words"
  shows "load8B m base (of_nat k) = m (unat base div 8 + k)"
proof -
  have "unat (base + of_nat k * 8) = unat base + 8 * k"
    using bfs_address [of base 8 k] assms by (simp add: bfs_region_def)
  then show ?thesis by (simp add: load8B_def mram_read64_def add.commute)
qed

lemma store8B_cell:
  assumes "bfs_region base words" "k < words"
  shows "store8B v base (of_nat k) m = m(unat base div 8 + k := v)"
proof -
  have "unat (base + of_nat k * 8) = unat base + 8 * k"
    using bfs_address [of base 8 k] assms by (simp add: bfs_region_def)
  then show ?thesis by (auto simp: store8B_def mram_write64_def fun_eq_iff Let_def)
qed

lemma aligned_block: "a mod 8 = 0 \<Longrightarrow> (a + 4 * k - 4 * (k mod 2)) div 8 = a div 8 + k div (2 :: nat)"
proof -
  assume a: "a mod 8 = 0"
  have "a + 4 * k - 4 * (k mod 2) = 8 * (a div 8) + 8 * (k div 2)"
    using a div_mult_mod_eq [of k 2] div_mult_mod_eq [of a 8] by linarith
  then show ?thesis by simp
qed

lemma bfs_block:
  assumes "bfs_region base words" "k < 2 * words"
  shows "unat ((base + of_nat k * 4) - (base + of_nat k * 4) mod 8) div 8 = unat base div 8 + k div 2"
    "(base + of_nat k * 4) mod 8 div 4 = 0 \<longleftrightarrow> even k"
proof -
  have b: "unat base mod 8 = 0" "unat base + 4 * k < 2 ^ 32" using assms by (auto simp: bfs_region_def)
  have a: "unat (base + of_nat k * 4) = unat base + 4 * k" using bfs_address [of base 4 k] b(2) by simp
  have m8: "(unat base + 4 * k) mod 8 = 4 * (k mod 2)"
    using b(1) by (simp add: mod_add_left_eq [symmetric, of "unat base"] mult_mod_right)
  have r: "unat ((base + of_nat k * 4) mod 8) = 4 * (k mod 2)"
    using m8 by (simp add: unat_mod a)
  have le: "(base + of_nat k * 4) mod 8 \<le> base + of_nat k * 4" by (simp add: word_le_nat_alt unat_mod)
  have "unat ((base + of_nat k * 4) - (base + of_nat k * 4) mod 8) = unat base + 4 * k - 4 * (k mod 2)"
    by (simp only: unat_sub [OF le] a r)
  then show "unat ((base + of_nat k * 4) - (base + of_nat k * 4) mod 8) div 8 = unat base div 8 + k div 2"
    using aligned_block [OF b(1)] by simp
  have "(base + of_nat k * 4) mod 8 div 4 = 0 \<longleftrightarrow> unat ((base + of_nat k * 4) mod 8 div 4) = 0" by (metis unat_0 unat_eq_zero)
  also have "\<dots> \<longleftrightarrow> even k" unfolding unat_div r by (simp add: unat_numeral even_iff_mod_2_eq_zero)
  finally show "(base + of_nat k * 4) mod 8 div 4 = 0 \<longleftrightarrow> even k" .
qed

definition half :: "u64 \<Rightarrow> nat \<Rightarrow> u32" where "half w k = (if even k then lo32 w else hi32 w)"

lemma load4B_cell:
  assumes "bfs_region base words" "k < 2 * words"
  shows "load4B m base (of_nat k) = half (m (unat base div 8 + k div 2)) k"
  using bfs_block [OF assms] by (simp add: load4B_def half_def mram_read64_def Let_def)

lemma store4B_cell:
  assumes "bfs_region base words" "k < 2 * words"
  shows "store4B v base (of_nat k) m =
    m(unat base div 8 + k div 2 := (let w = m (unat base div 8 + k div 2) in if even k then u64_of v (hi32 w) else u64_of (lo32 w) v))"
  using bfs_block [OF assms]
  by (auto simp: store4B_def mram_read64_def mram_write64_def fun_eq_iff Let_def)

lemma store4B_half:
  assumes "bfs_region base words" "k < 2 * words"
  shows "half (store4B v base (of_nat k) m (unat base div 8 + q div 2)) q = (if q = k then v else half (m (unat base div 8 + q div 2)) q)"
    "j \<noteq> unat base div 8 + k div 2 \<Longrightarrow> store4B v base (of_nat k) m j = m j"
proof -
  have *: "q = k" if "q div 2 = k div 2" "even q \<longleftrightarrow> even k" using that by presburger
  show "half (store4B v base (of_nat k) m (unat base div 8 + q div 2)) q = (if q = k then v else half (m (unat base div 8 + q div 2)) q)"
  proof (cases "q div 2 = k div 2")
    case True
    then show ?thesis using * [OF True] by (cases "even q"; cases "even k") (auto simp: store4B_cell [OF assms] half_def Let_def)
  qed (auto simp: store4B_cell [OF assms])
qed (simp add: store4B_cell [OF assms])

lemma half_eqI: "half w 0 = half v 0 \<Longrightarrow> half w 1 = half v 1 \<Longrightarrow> w = v"
  by (simp add: half_def) (metis lo_hi(3))

lemma isSet_bit [simp]: "isSet w k \<longleftrightarrow> bit w k"
  by (simp add: isSet_def bit_iff_and_push_bit_not_eq_0)

lemma bit_setBit: "bit (setBit w k) i \<longleftrightarrow> bit w i \<or> (i = k \<and> k < 64)"
  by (auto simp: setBit_def bit_simps)

section \<open>The first phase\<close>

definition bfs_cells :: "u32 \<Rightarrow> nat \<Rightarrow> nat set" where
  "bfs_cells base words = {unat base div 8 ..< unat base div 8 + words}"

abbreviation "bfs_G p \<equiv> unat (bf_numNodes p) div 64"
abbreviation "bfs_L p \<equiv> unat (bf_dpuNumNodes p) div 64"
abbreviation "bfs_start p \<equiv> unat (bf_dpuStartNodeIdx p) div 64"
abbreviation "bfs_V p \<equiv> bfs_cells (bf_dpuVisited_m p) (bfs_G p)"
abbreviation "bfs_N p \<equiv> bfs_cells (bf_dpuNextFrontier_m p) (bfs_G p)"
abbreviation "bfs_C p \<equiv> bfs_cells (bf_dpuCurrentFrontier_m p) (bfs_L p)"
abbreviation "bfs_Lv p \<equiv> bfs_cells (bf_dpuNodeLevel_m p) (32 * bfs_L p)"

definition bfs_maps_ok :: "bfs_params \<Rightarrow> bool" where
  "bfs_maps_ok p \<longleftrightarrow> unat (bf_numNodes p) mod 64 = 0 \<and> unat (bf_dpuNumNodes p) mod 64 = 0
     \<and> unat (bf_dpuStartNodeIdx p) mod 64 = 0 \<and> bfs_start p + bfs_L p \<le> bfs_G p
     \<and> bfs_region (bf_dpuVisited_m p) (bfs_G p) \<and> bfs_region (bf_dpuNextFrontier_m p) (bfs_G p)
     \<and> bfs_region (bf_dpuCurrentFrontier_m p) (bfs_L p) \<and> bfs_region (bf_dpuNodeLevel_m p) (32 * bfs_L p)
     \<and> bfs_V p \<inter> (bfs_N p \<union> bfs_C p \<union> bfs_Lv p) = {} \<and> bfs_N p \<inter> (bfs_C p \<union> bfs_Lv p) = {} \<and> bfs_C p \<inter> bfs_Lv p = {}"

lemma bfs_apart:
  assumes "bfs_maps_ok p"
  shows "bfs_V p \<inter> bfs_N p = {}" "bfs_V p \<inter> bfs_C p = {}" "bfs_V p \<inter> bfs_Lv p = {}"
    "bfs_N p \<inter> bfs_C p = {}" "bfs_N p \<inter> bfs_Lv p = {}" "bfs_C p \<inter> bfs_Lv p = {}"
  using assms unfolding bfs_maps_ok_def by (simp_all add: Int_Un_distrib)

lemma bfs_regions:
  assumes "bfs_maps_ok p"
  shows "bfs_region (bf_dpuVisited_m p) (bfs_G p)" "bfs_region (bf_dpuNextFrontier_m p) (bfs_G p)"
    "bfs_region (bf_dpuCurrentFrontier_m p) (bfs_L p)" "bfs_region (bf_dpuNodeLevel_m p) (32 * bfs_L p)"
    "bfs_start p + bfs_L p \<le> bfs_G p"
  using assms by (simp_all add: bfs_maps_ok_def)

lemma bfs_sizes:
  assumes "bfs_maps_ok p"
  shows "64 * bfs_G p = unat (bf_numNodes p)" "64 * bfs_L p = unat (bf_dpuNumNodes p)" "64 * bfs_start p = unat (bf_dpuStartNodeIdx p)"
  using assms by (auto simp: bfs_maps_ok_def)

lemma apart_neq: "A \<inter> B = {} \<Longrightarrow> x \<in> A \<Longrightarrow> y \<in> B \<Longrightarrow> x \<noteq> y"
  by blast

lemma apart_notin: "A \<inter> B = {} \<Longrightarrow> x \<in> A \<Longrightarrow> S \<subseteq> B \<Longrightarrow> x \<notin> S"
  by blast

text \<open>The levels of the nodes of one word, in the cells that hold them.\<close>

definition bfs_level_cell :: "bfs_params \<Rightarrow> u64 \<Rightarrow> nat \<Rightarrow> u64 \<Rightarrow> u64" where
  "bfs_level_cell p nf q w =
     u64_of (if bit nf (2 * q) then bf_level p else lo32 w) (if bit nf (2 * q + 1) then bf_level p else hi32 w)"

lemma bfs_levels_fold:
  fixes p nf t q n m
  assumes ok: "bfs_maps_ok p" and t: "bfs_start p \<le> t" "t < bfs_start p + bfs_L p" and n: "n \<le> 64"
  defines "f \<equiv> \<lambda>node m. if isSet nf (node mod 64) then store4B (bf_level p) (bf_dpuNodeLevel_m p) (of_nat node - bf_dpuStartNodeIdx p) m else m"
    and "B \<equiv> unat (bf_dpuNodeLevel_m p) div 8 + 32 * (t - bfs_start p)"
  shows "half (fold f [t * 64 ..< t * 64 + n] m (B + q div 2)) q
      = (if q < n \<and> bit nf q then bf_level p else half (m (B + q div 2)) q)
    \<and> (\<forall>j. j \<notin> {B ..< B + 32} \<longrightarrow> fold f [t * 64 ..< t * 64 + n] m j = m j)"
  using n
proof (induction n)
  case (Suc n)
  define d where "d = t - bfs_start p"
  let ?m = "fold f [t * 64 ..< t * 64 + n] m"
  have d: "d < bfs_L p" "t = bfs_start p + d" using t by (auto simp: d_def)
  have reg: "bfs_region (bf_dpuNodeLevel_m p) (32 * bfs_L p)" "unat (bf_dpuStartNodeIdx p) mod 64 = 0" using ok by (simp_all add: bfs_maps_ok_def)
  have k: "64 * d + n < 2 * (32 * bfs_L p)" using d(1) Suc.prems by linarith
  have "64 * bfs_start p = unat (bf_dpuStartNodeIdx p)" using reg(2) mult_div_mod_eq [of 64 "unat (bf_dpuStartNodeIdx p)"] by linarith
  then have start: "bf_dpuStartNodeIdx p = of_nat (64 * bfs_start p)" by (metis of_nat_unat ucast_id)
  have idx: "of_nat (t * 64 + n) - bf_dpuStartNodeIdx p = of_nat (64 * d + n)"
    by (subst start) (simp add: d(2) algebra_simps)
  have B: "B = unat (bf_dpuNodeLevel_m p) div 8 + 32 * d" by (simp add: B_def d_def)
  have step: "fold f [t * 64 ..< t * 64 + Suc n] m = (if bit nf n then store4B (bf_level p) (bf_dpuNodeLevel_m p) (of_nat (64 * d + n)) ?m else ?m)"
    using Suc.prems by (simp add: f_def idx del: of_nat_add of_nat_mult)
  have c: "B + q div 2 = unat (bf_dpuNodeLevel_m p) div 8 + (64 * d + q) div 2" for q by (simp add: B)
  have h: "half w (64 * d + q) = half w q" for w q by (simp add: half_def)
  note st = store4B_half [OF reg(1) k, where v = "bf_level p"]
  have IH: "half (?m (B + q div 2)) q = (if q < n \<and> bit nf q then bf_level p else half (m (B + q div 2)) q)"
    "j \<notin> {B ..< B + 32} \<Longrightarrow> ?m j = m j" for j
    using Suc by auto
  have "half (store4B (bf_level p) (bf_dpuNodeLevel_m p) (of_nat (64 * d + n)) ?m (B + q div 2)) q
      = (if q = n then bf_level p else half (?m (B + q div 2)) q)"
    using st(1) [where m = ?m and q = "64 * d + q"] by (simp only: c h) simp
  moreover have "store4B (bf_level p) (bf_dpuNodeLevel_m p) (of_nat (64 * d + n)) ?m j = ?m j" if "j \<notin> {B ..< B + 32}" for j
  proof (rule st(2))
    have "B + n div 2 \<in> {B ..< B + 32}" using Suc.prems by auto
    then show "j \<noteq> unat (bf_dpuNodeLevel_m p) div 8 + (64 * d + n) div 2" using that c [of n] by auto
  qed
  ultimately show ?case unfolding step using IH by (auto simp: less_Suc_eq)
qed simp

lemma bfs_levels_cell:
  assumes "bfs_maps_ok p" "bfs_start p \<le> t" "t < bfs_start p + bfs_L p"
  defines "B \<equiv> unat (bf_dpuNodeLevel_m p) div 8 + 32 * (t - bfs_start p)"
  shows "bfs_levels p nf t m j = (if j \<in> {B ..< B + 32} then bfs_level_cell p nf (j - B) (m j) else m j)"
proof -
  have l: "bfs_levels p nf t m = fold (\<lambda>node m. if isSet nf (node mod 64)
        then store4B (bf_level p) (bf_dpuNodeLevel_m p) (of_nat node - bf_dpuStartNodeIdx p) m else m)
       [t * 64 ..< t * 64 + 64] m" by (simp add: bfs_levels_def add.commute)
  note fold = bfs_levels_fold [OF assms(1-3), of 64 nf m, folded l B_def]
  show ?thesis
  proof (cases "j \<in> {B ..< B + 32}")
    case True
    define i where "i = j - B"
    have i: "i < 32" "j = B + i" using True by (auto simp: i_def)
    have "half (bfs_levels p nf t m j) 0 = (if bit nf (2 * i) then bf_level p else lo32 (m j))"
      "half (bfs_levels p nf t m j) 1 = (if bit nf (2 * i + 1) then bf_level p else hi32 (m j))"
      using fold [of "2 * i"] fold [of "2 * i + 1"] i by (simp_all add: half_def)
    then have "bfs_levels p nf t m j = bfs_level_cell p nf i (m j)"
      by (intro half_eqI) (simp_all add: bfs_level_cell_def half_def)
    then show ?thesis using i by simp
  next
    case False
    then have "bfs_levels p nf t m j = m j" using fold [of 0] by blast
    then show ?thesis by (simp only: False if_False)
  qed
qed

definition bfs_local :: "bfs_params \<Rightarrow> nat \<Rightarrow> bool" where
  "bfs_local p t \<longleftrightarrow> bfs_start p \<le> t \<and> t < bfs_start p + bfs_L p"

definition bfs_tile_levels :: "bfs_params \<Rightarrow> nat \<Rightarrow> nat set" where
  "bfs_tile_levels p t = (let B = unat (bf_dpuNodeLevel_m p) div 8 + 32 * (t - bfs_start p) in {B ..< B + 32})"

definition bfs_tile_cells :: "bfs_params \<Rightarrow> nat \<Rightarrow> nat set" where
  "bfs_tile_cells p t = {unat (bf_dpuVisited_m p) div 8 + t, unat (bf_dpuNextFrontier_m p) div 8 + t}
     \<union> (if bfs_local p t then insert (unat (bf_dpuCurrentFrontier_m p) div 8 + (t - bfs_start p)) (bfs_tile_levels p t) else {})"

lemma bfs_tile_cells_in:
  assumes "bfs_maps_ok p" "t < bfs_G p"
  shows "unat (bf_dpuVisited_m p) div 8 + t \<in> bfs_V p" "unat (bf_dpuNextFrontier_m p) div 8 + t \<in> bfs_N p"
    "bfs_local p t \<Longrightarrow> unat (bf_dpuCurrentFrontier_m p) div 8 + (t - bfs_start p) \<in> bfs_C p"
    "bfs_local p t \<Longrightarrow> bfs_tile_levels p t \<subseteq> bfs_Lv p"
proof -
  show "unat (bf_dpuVisited_m p) div 8 + t \<in> bfs_V p" "unat (bf_dpuNextFrontier_m p) div 8 + t \<in> bfs_N p"
    using assms(2) by (auto simp: bfs_cells_def)
  assume "bfs_local p t"
  then have "t - bfs_start p < bfs_L p" by (auto simp: bfs_local_def)
  then show "unat (bf_dpuCurrentFrontier_m p) div 8 + (t - bfs_start p) \<in> bfs_C p" "bfs_tile_levels p t \<subseteq> bfs_Lv p"
    by (auto simp: bfs_cells_def bfs_tile_levels_def Let_def)
qed

lemma bfs_tile_cell:
  assumes ok: "bfs_maps_ok p" and t: "t < bfs_G p"
  shows "bfs_tile p t m j =
    (let nf = m (unat (bf_dpuNextFrontier_m p) div 8 + t)
     in if j = unat (bf_dpuNextFrontier_m p) div 8 + t then 0
        else if j = unat (bf_dpuVisited_m p) div 8 + t then m j OR nf
        else if bfs_local p t \<and> j = unat (bf_dpuCurrentFrontier_m p) div 8 + (t - bfs_start p) then nf
        else if bfs_local p t \<and> j \<in> bfs_tile_levels p t
        then bfs_level_cell p nf (j - (unat (bf_dpuNodeLevel_m p) div 8 + 32 * (t - bfs_start p))) (m j)
        else m j)"
proof -
  let ?V = "unat (bf_dpuVisited_m p) div 8 + t" and ?N = "unat (bf_dpuNextFrontier_m p) div 8 + t"
    and ?C = "unat (bf_dpuCurrentFrontier_m p) div 8 + (t - bfs_start p)"
  define nf where "nf = m ?N"
  note reg = bfs_regions [OF ok] and ap = bfs_apart [OF ok]
  note ins = bfs_tile_cells_in [OF ok t]
  have VN: "?V \<noteq> ?N" by (rule apart_neq [OF ap(1) ins(1,2)])
  define m1 where "m1 = m(?V := m ?V OR nf, ?N := 0)"
  have m1: "(if nf \<noteq> 0 then
       (let vis = load8B m (bf_dpuVisited_m p) (of_nat t);
            m = store8B (vis OR nf) (bf_dpuVisited_m p) (of_nat t) m
        in store8B 0 (bf_dpuNextFrontier_m p) (of_nat t) m) else m) = m1"
  proof (cases "nf = 0")
    case True
    then show ?thesis using VN by (auto simp: m1_def nf_def fun_eq_iff)
  next
    case False
    then show ?thesis using reg t by (simp add: m1_def Let_def load8B_cell [where words = "bfs_G p"] store8B_cell [where words = "bfs_G p"])
  qed
  have nf: "load8B m (bf_dpuNextFrontier_m p) (of_nat t) = nf"
    using reg t by (simp add: nf_def load8B_cell [where words = "bfs_G p"])
  have tile: "bfs_tile p t m = (if bfs_local p t then
      (let m = store8B nf (bf_dpuCurrentFrontier_m p) (of_nat (t - bfs_start p)) m1
       in if nf \<noteq> 0 then bfs_levels p nf t m else m) else m1)"
    unfolding bfs_tile_def bfs_local_def Let_def nf using m1 by (simp only: Let_def)
  show ?thesis
  proof (cases "bfs_local p t")
    case False
    then show ?thesis using VN by (auto simp: tile m1_def nf_def Let_def)
  next
    case True
    then have l: "t - bfs_start p < bfs_L p" "bfs_start p \<le> t" "t < bfs_start p + bfs_L p" by (auto simp: bfs_local_def)
    have C: "store8B nf (bf_dpuCurrentFrontier_m p) (of_nat (t - bfs_start p)) m1 = m1(?C := nf)"
      using reg l(1) by (simp add: store8B_cell [where words = "bfs_L p"] del: of_nat_diff)
    have zero: "bfs_level_cell p 0 q w = w" for q w by (simp add: bfs_level_cell_def)
    have lev: "bfs_tile p t m j = (if j \<in> bfs_tile_levels p t
        then bfs_level_cell p nf (j - (unat (bf_dpuNodeLevel_m p) div 8 + 32 * (t - bfs_start p))) ((m1(?C := nf)) j) else (m1(?C := nf)) j)"
      unfolding tile C Let_def using True zero bfs_levels_cell [OF ok l(2,3)]
      by (simp add: bfs_tile_levels_def Let_def del: of_nat_diff)
    have "?C \<notin> bfs_tile_levels p t" "?V \<notin> bfs_tile_levels p t" "?N \<notin> bfs_tile_levels p t" "?C \<noteq> ?V" "?C \<noteq> ?N"
      using apart_notin [OF ap(6) ins(3) [OF True] ins(4) [OF True]] apart_notin [OF ap(3) ins(1) ins(4) [OF True]]
        apart_notin [OF ap(5) ins(2) ins(4) [OF True]] apart_neq [OF ap(2) ins(1) ins(3) [OF True]]
        apart_neq [OF ap(4) ins(2) ins(3) [OF True]] by simp_all
    then show ?thesis using True VN unfolding lev by (auto simp: m1_def nf_def Let_def)
  qed
qed

text \<open>Every cell that a tasklet may touch belongs to one word of the global bitmaps.\<close>

definition bfs_owner :: "bfs_params \<Rightarrow> nat \<Rightarrow> nat" where
  "bfs_owner p j =
     (if j \<in> bfs_V p then j - unat (bf_dpuVisited_m p) div 8
      else if j \<in> bfs_N p then j - unat (bf_dpuNextFrontier_m p) div 8
      else if j \<in> bfs_C p then j - unat (bf_dpuCurrentFrontier_m p) div 8 + bfs_start p
      else (j - unat (bf_dpuNodeLevel_m p) div 8) div 32 + bfs_start p)"

lemma bfs_owner:
  assumes ok: "bfs_maps_ok p" and t: "t < bfs_G p" and j: "j \<in> bfs_tile_cells p t"
  shows "bfs_owner p j = t" "j \<in> bfs_V p \<union> bfs_N p \<union> bfs_C p \<union> bfs_Lv p"
proof -
  note ap = bfs_apart [OF ok] and ins = bfs_tile_cells_in [OF ok t]
  consider (V) "j = unat (bf_dpuVisited_m p) div 8 + t" | (N) "j = unat (bf_dpuNextFrontier_m p) div 8 + t"
    | (C) "bfs_local p t" "j = unat (bf_dpuCurrentFrontier_m p) div 8 + (t - bfs_start p)"
    | (L) "bfs_local p t" "j \<in> bfs_tile_levels p t"
    using j unfolding bfs_tile_cells_def by (auto split: if_splits)
  then have "bfs_owner p j = t \<and> j \<in> bfs_V p \<union> bfs_N p \<union> bfs_C p \<union> bfs_Lv p"
  proof cases
    case V
    then show ?thesis using ins(1) by (simp add: bfs_owner_def)
  next
    case N
    then have "j \<in> bfs_N p" using ins(2) by simp
    moreover from this have "j \<notin> bfs_V p" using ap(1) by blast
    ultimately show ?thesis using N by (simp add: bfs_owner_def)
  next
    case C
    then have "j \<in> bfs_C p" using ins(3) by simp
    moreover from this have "j \<notin> bfs_V p" "j \<notin> bfs_N p" using ap(2,4) by blast+
    ultimately show ?thesis using C by (simp add: bfs_owner_def bfs_local_def)
  next
    case L
    then have "j \<in> bfs_Lv p" using ins(4) by blast
    moreover from this have "j \<notin> bfs_V p" "j \<notin> bfs_N p" "j \<notin> bfs_C p" using ap(3,5,6) by blast+
    moreover obtain q where "j = unat (bf_dpuNodeLevel_m p) div 8 + 32 * (t - bfs_start p) + q" "q < 32"
      using L(2) unfolding bfs_tile_levels_def Let_def by (metis add_less_cancel_left atLeastLessThan_iff le_iff_add)
    ultimately show ?thesis using L(1) by (simp add: bfs_owner_def bfs_local_def)
  qed
  then show "bfs_owner p j = t" "j \<in> bfs_V p \<union> bfs_N p \<union> bfs_C p \<union> bfs_Lv p" by blast+
qed

definition bfs_words :: "bfs_params \<Rightarrow> nat set" where
  "bfs_words p = {t. bfs_maps_ok p \<and> t < bfs_G p}"

interpretation bfs: disjoint_steps "bfs_tile p" "bfs_words p" "bfs_tile_cells p" "bfs_tile_cells p" for p
proof unfold_locales
  fix b j and m :: cells64
  assume "b \<in> bfs_words p" "j \<notin> bfs_tile_cells p b"
  then show "bfs_tile p b m j = m j"
    by (auto simp: bfs_words_def bfs_tile_cells_def bfs_tile_cell Let_def split: if_splits)
next
  fix b j and m m' :: cells64
  assume b: "b \<in> bfs_words p" "j \<in> bfs_tile_cells p b" and eq: "\<And>i. i \<in> bfs_tile_cells p b \<Longrightarrow> m i = m' i"
  have "unat (bf_dpuNextFrontier_m p) div 8 + b \<in> bfs_tile_cells p b" by (simp add: bfs_tile_cells_def)
  from eq [OF this] eq [OF b(2)] show "bfs_tile p b m j = bfs_tile p b m' j"
    using b(1) by (simp only: bfs_words_def mem_Collect_eq bfs_tile_cell)
next
  fix b c
  assume "b \<in> bfs_words p" "c \<in> bfs_words p" "b \<noteq> c"
  then show "bfs_tile_cells p b \<inter> (bfs_tile_cells p c \<union> bfs_tile_cells p c) = {}"
    using bfs_owner(1) [of p] unfolding bfs_words_def by blast
qed

lemma bfs_phase1:
  assumes ph: "phase (map (\<lambda>t. map (bfs_tile p) (bfs_tiles p t)) [0..<NR_TASKLETS]) m m1" and ok: "bfs_maps_ok p"
  shows "t < bfs_G p \<Longrightarrow> j \<in> bfs_tile_cells p t \<Longrightarrow> m1 j = bfs_tile p t m j"
    "j \<notin> bfs_V p \<union> bfs_N p \<union> bfs_C p \<union> bfs_Lv p \<Longrightarrow> m1 j = m j"
proof -
  have tiles: "(\<exists>i < NR_TASKLETS. t \<in> set (bfs_tiles p i)) \<longleftrightarrow> t \<in> bfs_words p" for t
    using tasklet_indices(1) [of 1 t "bfs_G p"] ok by (simp add: bfs_tiles_def bfs_words_def)
  have dist: "distinct (concat (map (bfs_tiles p) [0..<NR_TASKLETS]))"
    unfolding bfs_tiles_def using tasklet_indices(2) [of 1 "bfs_G p"] by simp
  have sub: "set (bfs_tiles p i) \<subseteq> bfs_words p" if "i \<in> set [0..<NR_TASKLETS]" for i
    using that tiles by auto
  note res = bfs.phase_blocks [OF ph sub dist]
  show "m1 j = bfs_tile p t m j" if t: "t < bfs_G p" "j \<in> bfs_tile_cells p t"
  proof -
    obtain i where "i < NR_TASKLETS" "t \<in> set (bfs_tiles p i)" using tiles [of t] t(1) ok by (auto simp: bfs_words_def)
    then show ?thesis using res(1) [of i t j] t(2) by simp
  qed
  show "m1 j = m j" if j: "j \<notin> bfs_V p \<union> bfs_N p \<union> bfs_C p \<union> bfs_Lv p"
  proof (rule res(2))
    fix i t assume "i \<in> set [0..<NR_TASKLETS]" "t \<in> set (bfs_tiles p i)"
    then have "t \<in> bfs_words p" using sub by blast
    then show "j \<notin> bfs_tile_cells p t" using bfs_owner(2) [OF ok, of t j] j by (auto simp: bfs_words_def)
  qed
qed

lemma bfs_phase1_words:
  assumes ph: "phase (map (\<lambda>t. map (bfs_tile p) (bfs_tiles p t)) [0..<NR_TASKLETS]) m m1" and ok: "bfs_maps_ok p"
  shows "t < bfs_G p \<Longrightarrow> m1 (unat (bf_dpuVisited_m p) div 8 + t) = m (unat (bf_dpuVisited_m p) div 8 + t) OR m (unat (bf_dpuNextFrontier_m p) div 8 + t)"
    "t < bfs_G p \<Longrightarrow> m1 (unat (bf_dpuNextFrontier_m p) div 8 + t) = 0"
    "d < bfs_L p \<Longrightarrow> m1 (unat (bf_dpuCurrentFrontier_m p) div 8 + d) = m (unat (bf_dpuNextFrontier_m p) div 8 + (bfs_start p + d))"
    "d < bfs_L p \<Longrightarrow> q < 32 \<Longrightarrow> m1 (unat (bf_dpuNodeLevel_m p) div 8 + 32 * d + q)
       = bfs_level_cell p (m (unat (bf_dpuNextFrontier_m p) div 8 + (bfs_start p + d))) q (m (unat (bf_dpuNodeLevel_m p) div 8 + 32 * d + q))"
proof -
  note ap = bfs_apart [OF ok] and res = bfs_phase1(1) [OF ph ok]
  show "m1 (unat (bf_dpuVisited_m p) div 8 + t) = m (unat (bf_dpuVisited_m p) div 8 + t) OR m (unat (bf_dpuNextFrontier_m p) div 8 + t)"
    "m1 (unat (bf_dpuNextFrontier_m p) div 8 + t) = 0" if t: "t < bfs_G p"
    using res [OF t] apart_neq [OF ap(1) bfs_tile_cells_in(1) [OF ok t] bfs_tile_cells_in(2) [OF ok t]]
    by (simp_all add: bfs_tile_cells_def bfs_tile_cell [OF ok t] Let_def)
  show "m1 (unat (bf_dpuCurrentFrontier_m p) div 8 + d) = m (unat (bf_dpuNextFrontier_m p) div 8 + (bfs_start p + d))"
    "q < 32 \<Longrightarrow> m1 (unat (bf_dpuNodeLevel_m p) div 8 + 32 * d + q)
       = bfs_level_cell p (m (unat (bf_dpuNextFrontier_m p) div 8 + (bfs_start p + d))) q (m (unat (bf_dpuNodeLevel_m p) div 8 + 32 * d + q))"
    if d: "d < bfs_L p"
  proof -
    let ?t = "bfs_start p + d"
    have t: "?t < bfs_G p" using bfs_regions(5) [OF ok] d by simp
    have loc: "bfs_local p ?t" using d by (simp add: bfs_local_def)
    note ins = bfs_tile_cells_in [OF ok t]
    have C: "unat (bf_dpuCurrentFrontier_m p) div 8 + d \<in> bfs_C p" using ins(3) [OF loc] by simp
    show "m1 (unat (bf_dpuCurrentFrontier_m p) div 8 + d) = m (unat (bf_dpuNextFrontier_m p) div 8 + ?t)"
      using res [OF t] loc apart_neq [OF ap(2) ins(1) C] apart_neq [OF ap(4) ins(2) C]
      by (simp add: bfs_tile_cells_def bfs_tile_cell [OF ok t] Let_def)
    assume q: "q < 32"
    let ?j = "unat (bf_dpuNodeLevel_m p) div 8 + 32 * d + q"
    have j: "?j \<in> bfs_tile_levels p ?t" using q by (simp add: bfs_tile_levels_def Let_def)
    then have L: "?j \<in> bfs_Lv p" using ins(4) [OF loc] by blast
    show "m1 ?j = bfs_level_cell p (m (unat (bf_dpuNextFrontier_m p) div 8 + ?t)) q (m ?j)"
      using res [OF t] j loc apart_neq [OF ap(3) ins(1) L] apart_neq [OF ap(5) ins(2) L] apart_neq [OF ap(6) C L]
      by (simp add: bfs_tile_cells_def bfs_tile_cell [OF ok t] Let_def)
  qed
qed

section \<open>The second phase\<close>

definition bfs_ptr :: "bfs_params \<Rightarrow> cells64 \<Rightarrow> nat \<Rightarrow> nat" where
  "bfs_ptr p m v = unat (load4B m (bf_dpuNodePtrs_m p) (of_nat v) - bf_dpuNodePtrsOffset p)"

definition bfs_nb :: "bfs_params \<Rightarrow> cells64 \<Rightarrow> nat \<Rightarrow> nat" where
  "bfs_nb p m i = unat (load4B m (bf_dpuNeighborIdxs_m p) (of_nat i))"

text \<open>The graph of the parameters is stored away from the bitmaps and the levels; its edges end in the global nodes.\<close>

definition bfs_graph :: "bfs_params \<Rightarrow> nat \<Rightarrow> nat set" where
  "bfs_graph p E = bfs_cells (bf_dpuNodePtrs_m p) (32 * bfs_L p + 1) \<union> bfs_cells (bf_dpuNeighborIdxs_m p) E"

definition bfs_ok :: "bfs_params \<Rightarrow> nat \<Rightarrow> cells64 \<Rightarrow> bool" where
  "bfs_ok p E m \<longleftrightarrow> bfs_maps_ok p \<and> bfs_region (bf_dpuNodePtrs_m p) (32 * bfs_L p + 1) \<and> bfs_region (bf_dpuNeighborIdxs_m p) E
     \<and> bfs_graph p E \<inter> (bfs_V p \<union> bfs_N p \<union> bfs_C p \<union> bfs_Lv p) = {}
     \<and> (\<forall>v < unat (bf_dpuNumNodes p). bfs_ptr p m v < bfs_ptr p m (v + 1) \<longrightarrow> bfs_ptr p m (v + 1) \<le> 2 * E)
     \<and> (\<forall>v < unat (bf_dpuNumNodes p). \<forall>i \<in> {bfs_ptr p m v ..< bfs_ptr p m (v + 1)}. bfs_nb p m i < unat (bf_numNodes p))"

lemma bfs_graph_apart:
  assumes "bfs_ok p E m" "j \<in> bfs_graph p E"
  shows "j \<notin> bfs_V p \<union> bfs_N p \<union> bfs_C p \<union> bfs_Lv p"
  using assms unfolding bfs_ok_def by blast

text \<open>A node is in a bitmap.\<close>

definition bfs_in :: "cells64 \<Rightarrow> u32 \<Rightarrow> nat \<Rightarrow> bool" where
  "bfs_in m base v \<longleftrightarrow> isSet (load8B m base (of_nat (v div 64))) (v mod 64)"

lemma bfs_in_bit: "bfs_region base words \<Longrightarrow> v < 64 * words \<Longrightarrow> bfs_in m base v \<longleftrightarrow> bit (m (unat base div 8 + v div 64)) (v mod 64)"
  by (simp add: bfs_in_def load8B_cell less_mult_imp_div_less mult.commute)

definition bfs_unchanged :: "bfs_params \<Rightarrow> cells64 \<Rightarrow> cells64 \<Rightarrow> bool" where
  "bfs_unchanged p m m' \<longleftrightarrow> (\<forall>j. j \<notin> bfs_N p \<longrightarrow> m' j = m j)"

lemma load4B_cong:
  assumes "bfs_region base words" "k < 2 * words" "\<And>j. j \<in> bfs_cells base words \<Longrightarrow> m' j = m j"
  shows "load4B m' base (of_nat k) = load4B m base (of_nat k)"
proof -
  have "unat base div 8 + k div 2 \<in> bfs_cells base words" using assms(2) by (auto simp: bfs_cells_def)
  then show ?thesis using assms(3) by (simp only: load4B_cell [OF assms(1,2)])
qed

lemma bfs_nb_cong:
  assumes ok: "bfs_ok p E m" and i: "i < 2 * E" and same: "\<And>j. j \<in> bfs_graph p E \<Longrightarrow> m' j = m j"
  shows "bfs_nb p m' i = bfs_nb p m i"
  unfolding bfs_nb_def using ok same i
  by (subst load4B_cong [where words = E and m = m]) (auto simp: bfs_ok_def bfs_graph_def)

lemma bfs_ptr_cong:
  assumes ok: "bfs_ok p E m" and v: "v \<le> unat (bf_dpuNumNodes p)" and same: "\<And>j. j \<in> bfs_graph p E \<Longrightarrow> m' j = m j"
  shows "bfs_ptr p m' v = bfs_ptr p m v"
proof -
  have "64 * bfs_L p = unat (bf_dpuNumNodes p)" using ok bfs_sizes by (simp add: bfs_ok_def)
  then have "v < 2 * (32 * bfs_L p + 1)" using v by simp
  then show ?thesis unfolding bfs_ptr_def using ok same
    by (subst load4B_cong [where words = "32 * bfs_L p + 1" and m = m]) (auto simp: bfs_ok_def bfs_graph_def)
qed

lemma bfs_visit_cells:
  assumes ok: "bfs_maps_ok p" and w: "bfs_nb p m i < unat (bf_numNodes p)"
  shows "bfs_unchanged p m (bfs_visit p i m)"
    "t < bfs_G p \<Longrightarrow> k < 64 \<Longrightarrow> bit (bfs_visit p i m (unat (bf_dpuNextFrontier_m p) div 8 + t)) k
       \<longleftrightarrow> bit (m (unat (bf_dpuNextFrontier_m p) div 8 + t)) k
         \<or> bfs_nb p m i = 64 * t + k \<and> \<not> bit (m (unat (bf_dpuVisited_m p) div 8 + t)) k"
proof -
  define w where "w = bfs_nb p m i"
  let ?nb = "load4B m (bf_dpuNeighborIdxs_m p) (of_nat i)"
  let ?N = "unat (bf_dpuNextFrontier_m p) div 8" and ?V = "unat (bf_dpuVisited_m p) div 8"
  have G: "64 * bfs_G p = unat (bf_numNodes p)" using bfs_sizes [OF ok] by simp
  have d: "w div 64 < bfs_G p" using assms(2) G by (simp add: w_def)
  have nb: "?nb div 64 = of_nat (w div 64)" "unat (?nb mod 64) = w mod 64"
    by (simp_all add: w_def bfs_nb_def unat_mod word_arith_nat_div)
  note reg = bfs_regions [OF ok]
  have visit: "bfs_visit p i m = (if bit (m (?V + w div 64)) (w mod 64) then m
      else m(?N + w div 64 := setBit (m (?N + w div 64)) (w mod 64)))"
    unfolding bfs_visit_def Let_def nb load8B_cell [OF reg(1) d] load8B_cell [OF reg(2) d] store8B_cell [OF reg(2) d] by simp
  have "?N + w div 64 \<in> bfs_N p" using d by (auto simp: bfs_cells_def)
  then show "bfs_unchanged p m (bfs_visit p i m)" by (auto simp: bfs_unchanged_def visit)
  show "bit (bfs_visit p i m (?N + t)) k \<longleftrightarrow> bit (m (?N + t)) k \<or> bfs_nb p m i = 64 * t + k \<and> \<not> bit (m (?V + t)) k"
    if "k < 64"
  proof -
    have "w = 64 * t + k \<longleftrightarrow> w div 64 = t \<and> w mod 64 = k" using that by auto
    then show ?thesis unfolding w_def [symmetric] by (auto simp: visit bit_setBit)
  qed
qed

lemma bfs_visits:
  assumes ok: "bfs_ok p E m" and "\<And>i. i \<in> set is \<Longrightarrow> i < 2 * E \<and> bfs_nb p m i < unat (bf_numNodes p)"
  shows "bfs_unchanged p m (fold (bfs_visit p) is m)
    \<and> (\<forall>t < bfs_G p. \<forall>k < 64. bit (fold (bfs_visit p) is m (unat (bf_dpuNextFrontier_m p) div 8 + t)) k
       \<longleftrightarrow> bit (m (unat (bf_dpuNextFrontier_m p) div 8 + t)) k
         \<or> (\<exists>i \<in> set is. bfs_nb p m i = 64 * t + k) \<and> \<not> bit (m (unat (bf_dpuVisited_m p) div 8 + t)) k)"
  using assms(2)
proof (induction "is" rule: rev_induct)
  case Nil
  show ?case by (simp add: bfs_unchanged_def)
next
  case (snoc i js)
  have maps: "bfs_maps_ok p" using ok by (simp add: bfs_ok_def)
  let ?m = "fold (bfs_visit p) js m"
  have IH: "bfs_unchanged p m ?m" "\<And>t k. t < bfs_G p \<Longrightarrow> k < 64 \<Longrightarrow> bit (?m (unat (bf_dpuNextFrontier_m p) div 8 + t)) k
       \<longleftrightarrow> bit (m (unat (bf_dpuNextFrontier_m p) div 8 + t)) k
         \<or> (\<exists>i \<in> set js. bfs_nb p m i = 64 * t + k) \<and> \<not> bit (m (unat (bf_dpuVisited_m p) div 8 + t)) k"
    using snoc by auto
  have i: "bfs_nb p ?m i = bfs_nb p m i"
    by (rule bfs_nb_cong [OF ok]) (use snoc.prems IH(1) bfs_graph_apart [OF ok] in \<open>auto simp: bfs_unchanged_def\<close>)
  have V: "?m (unat (bf_dpuVisited_m p) div 8 + t) = m (unat (bf_dpuVisited_m p) div 8 + t)" if "t < bfs_G p" for t
    using IH(1) bfs_apart(1) [OF maps] bfs_tile_cells_in(1) [OF maps that] by (auto simp: bfs_unchanged_def)
  have nb: "bfs_nb p ?m i < unat (bf_numNodes p)" using snoc.prems i by simp
  note visit = bfs_visit_cells [OF maps nb]
  have "bfs_unchanged p m (bfs_visit p i ?m)" using visit(1) IH(1) by (simp add: bfs_unchanged_def)
  then show ?case using visit(2) IH(2) V i by auto
qed

section \<open>One level\<close>

lemma bfs_tasklet_nodes_cover:
  "(\<exists>t < NR_TASKLETS. v \<in> set (bfs_tasklet_nodes p t)) \<longleftrightarrow> v < unat (bf_dpuNumNodes p)"
proof -
  define n where "n = unat (bf_dpuNumNodes p)"
  define c where "c = (n + NR_TASKLETS - 1) div NR_TASKLETS"
  have set: "set (bfs_tasklet_nodes p t) = {t * c ..< min n (t * c + c)}" for t
    unfolding bfs_tasklet_nodes_def Let_def n_def [symmetric] c_def [symmetric] by auto
  have "n \<le> c * NR_TASKLETS" unfolding c_def NR_TASKLETS_def by linarith
  then have "v div c < NR_TASKLETS \<and> v div c * c \<le> v \<and> v < v div c * c + c" if "v < n"
  proof -
    have "0 < c" using that \<open>n \<le> c * NR_TASKLETS\<close> by (cases c) auto
    then show ?thesis using that \<open>n \<le> c * NR_TASKLETS\<close> dividend_less_div_times [of c v]
      by (auto simp: less_mult_imp_div_less mult.commute)
  qed
  then show ?thesis unfolding set n_def [symmetric] by auto
qed

lemma bfs_edges_set:
  assumes "bfs_ok p E m" "v < unat (bf_dpuNumNodes p)"
  shows "i \<in> set (bfs_edges p m v) \<longleftrightarrow> bfs_in m (bf_dpuCurrentFrontier_m p) v \<and> i \<in> {bfs_ptr p m v ..< bfs_ptr p m (v + 1)}"
  by (auto simp: bfs_edges_def bfs_in_def bfs_ptr_def Let_def)

lemma shuffles_map:
  "zs \<in> shuffles (map f xs) (map f ys) \<Longrightarrow> \<exists>us \<in> shuffles xs ys. zs = map f us"
proof (induction xs ys arbitrary: zs rule: shuffles.induct)
  case (3 x xs y ys)
  from "3.prems" consider (l) zs' where "zs = f x # zs'" "zs' \<in> shuffles (map f xs) (map f (y # ys))"
    | (r) zs' where "zs = f y # zs'" "zs' \<in> shuffles (map f (x # xs)) (map f ys)" by auto
  then show ?case
  proof cases
    case l
    then show ?thesis using "3.IH"(1) [OF l(2)] by (auto intro: bexI [of _ "x # _"])
  next
    case r
    then show ?thesis using "3.IH"(2) [OF r(2)] by (auto intro: bexI [of _ "y # _"])
  qed
qed auto

lemma interleavings_map:
  "zs \<in> interleavings (map (map f) xss) \<Longrightarrow> \<exists>ys \<in> interleavings xss. zs = map f ys"
proof (induction xss arbitrary: zs)
  case (Cons xs xss)
  then obtain us where us: "us \<in> interleavings (map (map f) xss)" "zs \<in> shuffles (map f xs) us" by auto
  then obtain ys where ys: "ys \<in> interleavings xss" "us = map f ys" using Cons.IH by blast
  then obtain vs where "vs \<in> shuffles xs ys" "zs = map f vs" using shuffles_map us(2) by blast
  then show ?case using ys(1) by auto
qed simp

text \<open>A phase of one kind of action is the fold over a list with the indices of all tasklets.\<close>

lemma phase_fold:
  assumes "phase (map (\<lambda>t. map f (idx t)) ts) s s'"
  shows "\<exists>is. s' = fold f is s \<and> set is = (\<Union>t \<in> set ts. set (idx t))"
proof -
  have "map (\<lambda>t. map f (idx t)) ts = map (map f) (map idx ts)" by simp
  then obtain zs where zs: "zs \<in> interleavings (map (map f) (map idx ts))" "s' = run_seq zs s"
    using assms unfolding phase_def by metis
  obtain ys where ys: "ys \<in> interleavings (map idx ts)" "zs = map f ys" using interleavings_map [OF zs(1)] by blast
  have "s' = fold f ys s" by (simp only: zs(2) ys(2) run_seq_map)
  moreover have "set ys = (\<Union>t \<in> set ts. set (idx t))" using set_interleavings [OF ys(1)] by auto
  ultimately show ?thesis by blast
qed

text \<open>What the loops of the second phase read does not change while it runs.\<close>

lemma bfs_edges_stable:
  assumes "bfs_ok p E m" "bfs_unchanged p m m'" "v < unat (bf_dpuNumNodes p)"
  shows "bfs_edges p m' v = bfs_edges p m v"
proof -
  have maps: "bfs_maps_ok p" using assms(1) by (simp add: bfs_ok_def)
  note reg = bfs_regions(3) [OF maps]
  have d: "v div 64 < bfs_L p" using assms(3) bfs_sizes(2) [OF maps] by linarith
  then have "unat (bf_dpuCurrentFrontier_m p) div 8 + v div 64 \<in> bfs_C p" by (auto simp: bfs_cells_def)
  then have "load8B m' (bf_dpuCurrentFrontier_m p) (of_nat (v div 64)) = load8B m (bf_dpuCurrentFrontier_m p) (of_nat (v div 64))"
    using assms(2) bfs_apart(4) [OF maps] unfolding load8B_cell [OF reg d] bfs_unchanged_def by blast
  moreover have "bfs_ptr p m' v = bfs_ptr p m v" "bfs_ptr p m' (v + 1) = bfs_ptr p m (v + 1)"
    by (rule bfs_ptr_cong [OF assms(1)]; use assms(2,3) bfs_graph_apart [OF assms(1)] in \<open>auto simp: bfs_unchanged_def\<close>)+
  ultimately show ?thesis unfolding bfs_edges_def Let_def bfs_ptr_def by simp
qed

definition bfs_adjacent :: "bfs_params \<Rightarrow> cells64 \<Rightarrow> nat \<Rightarrow> nat \<Rightarrow> bool" where
  "bfs_adjacent p m v w \<longleftrightarrow> (\<exists>i \<in> {bfs_ptr p m v ..< bfs_ptr p m (v + 1)}. bfs_nb p m i = w)"

lemma bfs_level_read:
  assumes ph: "phase (map (\<lambda>t. map (bfs_tile p) (bfs_tiles p t)) [0..<NR_TASKLETS]) m m1" and ok: "bfs_maps_ok p"
    and same: "bfs_unchanged p m1 m'" and v: "v < unat (bf_dpuNumNodes p)"
  shows "load4B m' (bf_dpuNodeLevel_m p) (of_nat v) =
    (if bfs_in m (bf_dpuNextFrontier_m p) (unat (bf_dpuStartNodeIdx p) + v) then bf_level p else load4B m (bf_dpuNodeLevel_m p) (of_nat v))"
proof -
  note reg = bfs_regions [OF ok] and sz = bfs_sizes [OF ok]
  define d where "d = v div 64"
  define k where "k = v mod 64"
  have vdk: "v = 64 * d + k" "k < 64" by (simp_all add: d_def k_def)
  have d: "d < bfs_L p" "bfs_start p + d < bfs_G p" using v sz(2) vdk reg(5) by linarith+
  have v2: "v < 2 * (32 * bfs_L p)" using v sz(2) by simp
  have c: "v div 2 = 32 * d + k div 2" "even v \<longleftrightarrow> even k" unfolding vdk(1) by simp_all
  let ?j = "unat (bf_dpuNodeLevel_m p) div 8 + 32 * d + k div 2"
  have "?j \<in> bfs_Lv p" using d(1) vdk(2) by (auto simp: bfs_cells_def)
  then have "m' ?j = m1 ?j" using same bfs_apart(5) [OF ok] unfolding bfs_unchanged_def by blast
  also have "\<dots> = bfs_level_cell p (m (unat (bf_dpuNextFrontier_m p) div 8 + (bfs_start p + d))) (k div 2) (m ?j)"
    by (rule bfs_phase1_words(4) [OF ph ok d(1)]) (use vdk(2) in simp)
  finally have cell: "m' ?j = bfs_level_cell p (m (unat (bf_dpuNextFrontier_m p) div 8 + (bfs_start p + d))) (k div 2) (m ?j)" .
  have start: "unat (bf_dpuStartNodeIdx p) + v = k + 64 * (bfs_start p + d)" using sz(3) vdk(1) by simp
  have q: "(unat (bf_dpuStartNodeIdx p) + v) div 64 = bfs_start p + d" "(unat (bf_dpuStartNodeIdx p) + v) mod 64 = k"
    using arg_cong [OF start, of "\<lambda>x. x div 64"] arg_cong [OF start, of "\<lambda>x. x mod 64"] vdk(2) by (simp_all del: distrib_left_numeral)
  have nf: "bfs_in m (bf_dpuNextFrontier_m p) (unat (bf_dpuStartNodeIdx p) + v) \<longleftrightarrow> bit (m (unat (bf_dpuNextFrontier_m p) div 8 + (bfs_start p + d))) k"
    unfolding bfs_in_def q load8B_cell [OF reg(2) d(2)] by simp
  have par: "k = 2 * (k div 2) \<or> k = 2 * (k div 2) + 1" by presburger
  have j: "unat (bf_dpuNodeLevel_m p) div 8 + v div 2 = ?j" by (simp add: c(1))
  show ?thesis unfolding load4B_cell [OF reg(4) v2] nf j cell
    using c(2) par by (cases "even k") (auto simp: half_def bfs_level_cell_def)
qed

lemma bfs_ok_cong:
  assumes ok: "bfs_ok p E m" and same: "\<And>j. j \<in> bfs_graph p E \<Longrightarrow> m' j = m j"
  shows "bfs_ok p E m'" "v < unat (bf_dpuNumNodes p) \<Longrightarrow> bfs_adjacent p m' v w \<longleftrightarrow> bfs_adjacent p m v w"
proof -
  have ptr: "bfs_ptr p m' v = bfs_ptr p m v" if "v \<le> unat (bf_dpuNumNodes p)" for v
    by (rule bfs_ptr_cong [OF ok that]) (rule same)
  have nb: "bfs_nb p m' i = bfs_nb p m i" if "v < unat (bf_dpuNumNodes p)" "i \<in> {bfs_ptr p m v ..< bfs_ptr p m (v + 1)}" for v i
  proof (rule bfs_nb_cong [OF ok _ same])
    have "bfs_ptr p m (v + 1) \<le> 2 * E" using ok that by (auto simp: bfs_ok_def)
    then show "i < 2 * E" using that(2) by simp
  qed
  show "bfs_ok p E m'"
    using ok ptr nb unfolding bfs_ok_def by (simp add: Suc_le_eq)
  show "bfs_adjacent p m' v w \<longleftrightarrow> bfs_adjacent p m v w" if "v < unat (bf_dpuNumNodes p)"
    using ptr [of v] ptr [of "v + 1"] nb [OF that] that unfolding bfs_adjacent_def by simp
qed

lemma bfs_is_edges:
  assumes "set is = (\<Union>t \<in> set [0..<NR_TASKLETS]. set (bfs_tasklet p m t))" "bfs_ok p E m"
  shows "(\<exists>i \<in> set is. bfs_nb p m i = w) \<longleftrightarrow> (\<exists>v < unat (bf_dpuNumNodes p). bfs_in m (bf_dpuCurrentFrontier_m p) v \<and> bfs_adjacent p m v w)"
    "i \<in> set is \<Longrightarrow> i < 2 * E \<and> bfs_nb p m i < unat (bf_numNodes p)"
proof -
  have edges: "i \<in> set is \<longleftrightarrow> (\<exists>v < unat (bf_dpuNumNodes p). bfs_in m (bf_dpuCurrentFrontier_m p) v \<and> i \<in> {bfs_ptr p m v ..< bfs_ptr p m (v + 1)})" for i
  proof -
    have "i \<in> set is \<longleftrightarrow> (\<exists>t < NR_TASKLETS. \<exists>v \<in> set (bfs_tasklet_nodes p t). i \<in> set (bfs_edges p m v))"
      unfolding assms(1) using bfs_tasklet_nodes_cover [of _ p] by (auto simp: bfs_tasklet_def word_greater_zero_iff)
    also have "\<dots> \<longleftrightarrow> (\<exists>v < unat (bf_dpuNumNodes p). i \<in> set (bfs_edges p m v))"
      using bfs_tasklet_nodes_cover [of _ p] by blast
    finally show ?thesis using bfs_edges_set [OF assms(2)] by auto
  qed
  then show "(\<exists>i \<in> set is. bfs_nb p m i = w) \<longleftrightarrow> (\<exists>v < unat (bf_dpuNumNodes p). bfs_in m (bf_dpuCurrentFrontier_m p) v \<and> bfs_adjacent p m v w)"
    unfolding bfs_adjacent_def by blast
  assume "i \<in> set is"
  then obtain v where v: "v < unat (bf_dpuNumNodes p)" "i \<in> {bfs_ptr p m v ..< bfs_ptr p m (v + 1)}" using edges by blast
  then have "bfs_ptr p m (v + 1) \<le> 2 * E" using assms(2) by (auto simp: bfs_ok_def)
  then show "i < 2 * E \<and> bfs_nb p m i < unat (bf_numNodes p)" using v assms(2) unfolding bfs_ok_def by auto
qed

lemma bfs_sets:
  assumes ph: "phase (map (\<lambda>t. map (bfs_tile p) (bfs_tiles p t)) [0..<NR_TASKLETS]) m m1" and maps: "bfs_maps_ok p"
    and un: "bfs_unchanged p m1 m'"
  shows "v < unat (bf_dpuNumNodes p) \<Longrightarrow> bfs_in m1 (bf_dpuCurrentFrontier_m p) v \<longleftrightarrow> bfs_in m (bf_dpuNextFrontier_m p) (unat (bf_dpuStartNodeIdx p) + v)"
    "v < unat (bf_dpuNumNodes p) \<Longrightarrow> bfs_in m' (bf_dpuCurrentFrontier_m p) v \<longleftrightarrow> bfs_in m1 (bf_dpuCurrentFrontier_m p) v"
    "w < unat (bf_numNodes p) \<Longrightarrow> bfs_in m' (bf_dpuVisited_m p) w \<longleftrightarrow> bit (m1 (unat (bf_dpuVisited_m p) div 8 + w div 64)) (w mod 64)"
    "w < unat (bf_numNodes p) \<Longrightarrow> bfs_in m' (bf_dpuVisited_m p) w \<longleftrightarrow> bfs_in m (bf_dpuVisited_m p) w \<or> bfs_in m (bf_dpuNextFrontier_m p) w"
proof -
  note reg = bfs_regions [OF maps] and sz = bfs_sizes [OF maps] and ap = bfs_apart [OF maps] and w1 = bfs_phase1_words [OF ph maps]
  show "bfs_in m1 (bf_dpuCurrentFrontier_m p) v \<longleftrightarrow> bfs_in m (bf_dpuNextFrontier_m p) (unat (bf_dpuStartNodeIdx p) + v)"
    "bfs_in m' (bf_dpuCurrentFrontier_m p) v \<longleftrightarrow> bfs_in m1 (bf_dpuCurrentFrontier_m p) v" if v: "v < unat (bf_dpuNumNodes p)"
  proof -
    have d: "v div 64 < bfs_L p" "bfs_start p + v div 64 < bfs_G p" using v sz(2) reg(5) by linarith+
    have "unat (bf_dpuCurrentFrontier_m p) div 8 + v div 64 \<in> bfs_C p" using d by (auto simp: bfs_cells_def)
    then have "m' (unat (bf_dpuCurrentFrontier_m p) div 8 + v div 64) = m1 (unat (bf_dpuCurrentFrontier_m p) div 8 + v div 64)"
      using un ap(4) unfolding bfs_unchanged_def by blast
    then show "bfs_in m' (bf_dpuCurrentFrontier_m p) v \<longleftrightarrow> bfs_in m1 (bf_dpuCurrentFrontier_m p) v"
      unfolding bfs_in_def load8B_cell [OF reg(3) d(1)] by simp
    have start: "unat (bf_dpuStartNodeIdx p) + v = v + 64 * bfs_start p" using sz(3) by simp
    have q: "(unat (bf_dpuStartNodeIdx p) + v) div 64 = bfs_start p + v div 64" "(unat (bf_dpuStartNodeIdx p) + v) mod 64 = v mod 64"
      unfolding start by simp_all
    show "bfs_in m1 (bf_dpuCurrentFrontier_m p) v \<longleftrightarrow> bfs_in m (bf_dpuNextFrontier_m p) (unat (bf_dpuStartNodeIdx p) + v)"
      unfolding bfs_in_def q load8B_cell [OF reg(3) d(1)] load8B_cell [OF reg(2) d(2)] w1(3) [OF d(1)] by (rule refl)
  qed
  show "bfs_in m' (bf_dpuVisited_m p) w \<longleftrightarrow> bit (m1 (unat (bf_dpuVisited_m p) div 8 + w div 64)) (w mod 64)"
    "bfs_in m' (bf_dpuVisited_m p) w \<longleftrightarrow> bfs_in m (bf_dpuVisited_m p) w \<or> bfs_in m (bf_dpuNextFrontier_m p) w"
    if w: "w < unat (bf_numNodes p)"
  proof -
    have t: "w div 64 < bfs_G p" using w sz(1) by linarith
    have "m' (unat (bf_dpuVisited_m p) div 8 + w div 64) = m1 (unat (bf_dpuVisited_m p) div 8 + w div 64)"
      using un ap(1) bfs_tile_cells_in(1) [OF maps t] unfolding bfs_unchanged_def by blast
    then show "bfs_in m' (bf_dpuVisited_m p) w \<longleftrightarrow> bit (m1 (unat (bf_dpuVisited_m p) div 8 + w div 64)) (w mod 64)"
      "bfs_in m' (bf_dpuVisited_m p) w \<longleftrightarrow> bfs_in m (bf_dpuVisited_m p) w \<or> bfs_in m (bf_dpuNextFrontier_m p) w"
      unfolding bfs_in_def load8B_cell [OF reg(1) t] load8B_cell [OF reg(2) t] w1(1) [OF t] by (simp_all add: bit_or_iff)
  qed
qed

text \<open>
  One level of the search, in every order in which the tasklets take their turns: the nodes of the
  next frontier become visited; those of this DPU are its current frontier and get the level; the
  new next frontier are the neighbours of the current frontier that are not visited. Nothing but
  the bitmaps and the levels changes.
\<close>

lemma bfs_job_correct:
  assumes job: "bfs_job p m m'" and ok: "bfs_ok p E m"
  shows "(\<forall>v < unat (bf_numNodes p). bfs_in m' (bf_dpuVisited_m p) v \<longleftrightarrow> bfs_in m (bf_dpuVisited_m p) v \<or> bfs_in m (bf_dpuNextFrontier_m p) v)
    \<and> (\<forall>v < unat (bf_dpuNumNodes p). bfs_in m' (bf_dpuCurrentFrontier_m p) v \<longleftrightarrow> bfs_in m (bf_dpuNextFrontier_m p) (unat (bf_dpuStartNodeIdx p) + v))
    \<and> (\<forall>v < unat (bf_dpuNumNodes p). load4B m' (bf_dpuNodeLevel_m p) (of_nat v)
         = (if bfs_in m (bf_dpuNextFrontier_m p) (unat (bf_dpuStartNodeIdx p) + v) then bf_level p else load4B m (bf_dpuNodeLevel_m p) (of_nat v)))
    \<and> (\<forall>w < unat (bf_numNodes p). bfs_in m' (bf_dpuNextFrontier_m p) w
         \<longleftrightarrow> \<not> bfs_in m' (bf_dpuVisited_m p) w
           \<and> (\<exists>v < unat (bf_dpuNumNodes p). bfs_in m (bf_dpuNextFrontier_m p) (unat (bf_dpuStartNodeIdx p) + v) \<and> bfs_adjacent p m v w))
    \<and> (\<forall>j. j \<notin> bfs_V p \<union> bfs_N p \<union> bfs_C p \<union> bfs_Lv p \<longrightarrow> m' j = m j)"
proof -
  have maps: "bfs_maps_ok p" using ok by (simp add: bfs_ok_def)
  note reg = bfs_regions [OF maps] and sz = bfs_sizes [OF maps] and ap = bfs_apart [OF maps]
  obtain m1 where ph: "phase (map (\<lambda>t. map (bfs_tile p) (bfs_tiles p t)) [0..<NR_TASKLETS]) m m1"
    and ph2: "phase (map (\<lambda>t. map (bfs_visit p) (bfs_tasklet p m1 t)) [0..<NR_TASKLETS]) m1 m'"
    using job unfolding bfs_job_def by blast
  note w1 = bfs_phase1_words [OF ph maps] and other = bfs_phase1(2) [OF ph maps]
  obtain "is" where fold: "m' = fold (bfs_visit p) is m1"
    and iset: "set is = (\<Union>t \<in> set [0..<NR_TASKLETS]. set (bfs_tasklet p m1 t))"
    using phase_fold [OF ph2] by blast
  have ok1: "bfs_ok p E m1" by (rule bfs_ok_cong(1) [OF ok]) (rule other [OF bfs_graph_apart [OF ok]])
  have adj: "bfs_adjacent p m1 v w \<longleftrightarrow> bfs_adjacent p m v w" if "v < unat (bf_dpuNumNodes p)" for v w
    by (rule bfs_ok_cong(2) [OF ok _ that]) (rule other [OF bfs_graph_apart [OF ok]])
  note edges = bfs_is_edges [OF iset ok1]
  have un: "bfs_unchanged p m1 m'"
    and nxt: "\<And>t k. t < bfs_G p \<Longrightarrow> k < 64 \<Longrightarrow> bit (m' (unat (bf_dpuNextFrontier_m p) div 8 + t)) k
       \<longleftrightarrow> bit (m1 (unat (bf_dpuNextFrontier_m p) div 8 + t)) k
         \<or> (\<exists>i \<in> set is. bfs_nb p m1 i = 64 * t + k) \<and> \<not> bit (m1 (unat (bf_dpuVisited_m p) div 8 + t)) k"
    using bfs_visits [OF ok1 edges(2)] unfolding fold by blast+
  note cur = bfs_sets(1,2) [OF ph maps un] and vis = bfs_sets(3,4) [OF ph maps un]
  have new: "bfs_in m' (bf_dpuNextFrontier_m p) w \<longleftrightarrow> \<not> bfs_in m' (bf_dpuVisited_m p) w
      \<and> (\<exists>v < unat (bf_dpuNumNodes p). bfs_in m (bf_dpuNextFrontier_m p) (unat (bf_dpuStartNodeIdx p) + v) \<and> bfs_adjacent p m v w)"
    if w: "w < unat (bf_numNodes p)" for w
  proof -
    have t: "w div 64 < bfs_G p" using w sz(1) by linarith
    have "bfs_in m' (bf_dpuNextFrontier_m p) w \<longleftrightarrow> \<not> bfs_in m' (bf_dpuVisited_m p) w \<and> (\<exists>i \<in> set is. bfs_nb p m1 i = w)"
      unfolding vis(1) [OF w] using nxt [OF t, of "w mod 64"] w1(2) [OF t] by (auto simp: bfs_in_def load8B_cell [OF reg(2) t])
    then show ?thesis unfolding edges(1) using cur(1) adj by blast
  qed
  have frame: "m' j = m j" if "j \<notin> bfs_V p \<union> bfs_N p \<union> bfs_C p \<union> bfs_Lv p" for j
    using un other [OF that] that by (simp add: bfs_unchanged_def)
  show ?thesis
    using vis(2) cur bfs_level_read [OF ph maps un] new frame by (intro conjI allI impI) blast+
qed

section \<open>The search\<close>

text \<open>The nodes at distance \<open>k\<close>: a walk of \<open>k\<close> edges leads there and no shorter one.\<close>

fun walk :: "(nat \<Rightarrow> nat \<Rightarrow> bool) \<Rightarrow> nat \<Rightarrow> nat \<Rightarrow> nat \<Rightarrow> bool" where
  "walk E 0 u v \<longleftrightarrow> u = v"
| "walk E (Suc k) u w \<longleftrightarrow> (\<exists>v. walk E k u v \<and> E v w)"

definition at_distance :: "(nat \<Rightarrow> nat \<Rightarrow> bool) \<Rightarrow> nat \<Rightarrow> nat \<Rightarrow> nat \<Rightarrow> bool" where
  "at_distance E k u v \<longleftrightarrow> walk E k u v \<and> (\<forall>j < k. \<not> walk E j u v)"

lemma at_distance_le: "(\<exists>j \<le> k. walk E j u v) \<longleftrightarrow> (\<exists>j \<le> k. at_distance E j u v)"
proof
  assume "\<exists>j \<le> k. walk E j u v"
  then obtain j where j: "j \<le> k" "walk E j u v" by blast
  define l where "l = (LEAST l. walk E l u v)"
  have "walk E l u v" unfolding l_def by (rule LeastI [of "\<lambda>l. walk E l u v", OF j(2)])
  moreover have "\<not> walk E i u v" if "i < l" for i using that not_less_Least unfolding l_def by blast
  moreover have "l \<le> j" unfolding l_def by (rule Least_le [of "\<lambda>l. walk E l u v", OF j(2)])
  ultimately show "\<exists>j \<le> k. at_distance E j u v" using j(1) unfolding at_distance_def by (meson le_trans)
qed (auto simp: at_distance_def)

text \<open>The nodes at the next distance are the neighbours of those at this one that have not been reached.\<close>

lemma at_distance_Suc:
  "at_distance E (Suc k) u w \<longleftrightarrow> (\<not> (\<exists>j \<le> k. at_distance E j u w)) \<and> (\<exists>v. at_distance E k u v \<and> E v w)"
proof
  assume d: "at_distance E (Suc k) u w"
  then have no: "\<not> walk E j u w" if "j \<le> k" for j using that by (simp add: at_distance_def)
  obtain v where v: "walk E k u v" "E v w" using d by (auto simp: at_distance_def)
  have "\<not> walk E j u v" if "j < k" for j
  proof
    assume "walk E j u v"
    then have "walk E (Suc j) u w" using v(2) by auto
    then show False using no [of "Suc j"] that by simp
  qed
  then show "\<not> (\<exists>j \<le> k. at_distance E j u w) \<and> (\<exists>v. at_distance E k u v \<and> E v w)"
    using v no at_distance_le [of k E u w] by (auto simp: at_distance_def)
next
  assume r: "\<not> (\<exists>j \<le> k. at_distance E j u w) \<and> (\<exists>v. at_distance E k u v \<and> E v w)"
  then have "walk E (Suc k) u w" by (auto simp: at_distance_def)
  moreover have "\<not> walk E j u w" if "j < Suc k" for j
    using r that at_distance_le [of k E u w] by (auto simp: less_Suc_eq_le)
  ultimately show "at_distance E (Suc k) u w" by (simp add: at_distance_def)
qed

text \<open>The edges of the graph in MRAM.\<close>

definition bfs_edge :: "bfs_params \<Rightarrow> cells64 \<Rightarrow> nat \<Rightarrow> nat \<Rightarrow> bool" where
  "bfs_edge p m v w \<longleftrightarrow> v < unat (bf_dpuNumNodes p) \<and> bfs_adjacent p m v w"

text \<open>
  What the search of one DPU relies on from the host: the level counts up, everything else in the
  parameters stays, and the graph, the bitmaps and the levels are left alone between the jobs.
\<close>

definition bfs_run :: "bfs_params \<Rightarrow> nat \<Rightarrow> (cells64 \<times> cells64) list \<Rightarrow> bool" where
  "bfs_run p E js \<longleftrightarrow> (\<forall>k < length js. bfs_fetch_params (fst (js ! k)) = p\<lparr>bf_level := of_nat k\<rparr>
     \<and> (\<forall>j \<in> bfs_graph p E \<union> (bfs_V p \<union> bfs_N p \<union> bfs_C p \<union> bfs_Lv p). 0 < k \<longrightarrow> fst (js ! k) j = snd (js ! (k - 1)) j))"

lemma bfs_main_jobs: "bfs_main host m js m' \<Longrightarrow> k < length js \<Longrightarrow> bfs_job (bfs_fetch_params (fst (js ! k))) (fst (js ! k)) (snd (js ! k))"
  by (induction arbitrary: k rule: bfs_main.induct) (auto simp: nth_Cons split: nat.splits)

lemma bfs_level_irrelevant [simp]:
  "bfs_ok (p\<lparr>bf_level := l\<rparr>) E m \<longleftrightarrow> bfs_ok p E m" "bfs_adjacent (p\<lparr>bf_level := l\<rparr>) m v w \<longleftrightarrow> bfs_adjacent p m v w"
  by (simp_all add: bfs_ok_def bfs_maps_ok_def bfs_ptr_def bfs_nb_def bfs_graph_def bfs_adjacent_def)

text \<open>The state before the job for the nodes at distance \<open>k\<close>.\<close>

definition bfs_state :: "bfs_params \<Rightarrow> nat \<Rightarrow> (nat \<Rightarrow> nat \<Rightarrow> bool) \<Rightarrow> nat \<Rightarrow> nat \<Rightarrow> cells64 \<Rightarrow> bool" where
  "bfs_state p E adj src k m \<longleftrightarrow> bfs_ok p E m \<and> bfs_edge p m = adj
     \<and> (\<forall>v < unat (bf_dpuNumNodes p). (bfs_in m (bf_dpuVisited_m p) v \<longleftrightarrow> (\<exists>j < k. at_distance adj j src v))
       \<and> (bfs_in m (bf_dpuNextFrontier_m p) v \<longleftrightarrow> at_distance adj k src v)
       \<and> (\<forall>j < k. at_distance adj j src v \<longrightarrow> load4B m (bf_dpuNodeLevel_m p) (of_nat v) = of_nat j))"

lemma bfs_job_state:
  assumes job: "bfs_job (p\<lparr>bf_level := of_nat k\<rparr>) m m'" and st: "bfs_state p E adj src k m"
    and whole: "bf_numNodes p = bf_dpuNumNodes p" "bf_dpuStartNodeIdx p = 0"
  shows "bfs_state p E adj src (Suc k) m'"
proof -
  let ?n = "unat (bf_dpuNumNodes p)"
  have ok: "bfs_ok p E m" "bfs_ok (p\<lparr>bf_level := of_nat k\<rparr>) E m" and edge: "bfs_edge p m = adj"
    and vis: "\<And>v. v < ?n \<Longrightarrow> bfs_in m (bf_dpuVisited_m p) v \<longleftrightarrow> (\<exists>j < k. at_distance adj j src v)"
    and nxt: "\<And>v. v < ?n \<Longrightarrow> bfs_in m (bf_dpuNextFrontier_m p) v \<longleftrightarrow> at_distance adj k src v"
    and lev: "\<And>v j. v < ?n \<Longrightarrow> j < k \<Longrightarrow> at_distance adj j src v \<Longrightarrow> load4B m (bf_dpuNodeLevel_m p) (of_nat v) = of_nat j"
    using st by (auto simp: bfs_state_def)
  have res: "\<And>v. v < ?n \<Longrightarrow> bfs_in m' (bf_dpuVisited_m p) v \<longleftrightarrow> bfs_in m (bf_dpuVisited_m p) v \<or> bfs_in m (bf_dpuNextFrontier_m p) v"
    "\<And>v. v < ?n \<Longrightarrow> load4B m' (bf_dpuNodeLevel_m p) (of_nat v) = (if bfs_in m (bf_dpuNextFrontier_m p) v then of_nat k else load4B m (bf_dpuNodeLevel_m p) (of_nat v))"
    "\<And>w. w < ?n \<Longrightarrow> bfs_in m' (bf_dpuNextFrontier_m p) w \<longleftrightarrow> \<not> bfs_in m' (bf_dpuVisited_m p) w \<and> (\<exists>v < ?n. bfs_in m (bf_dpuNextFrontier_m p) v \<and> bfs_adjacent p m v w)"
    "\<And>j. j \<notin> bfs_V p \<union> bfs_N p \<union> bfs_C p \<union> bfs_Lv p \<Longrightarrow> m' j = m j"
    using bfs_job_correct [OF job ok(2)] by (simp_all add: whole)
  have frame: "m' j = m j" if "j \<in> bfs_graph p E" for j
    by (rule res(4)) (rule bfs_graph_apart [OF ok(1) that])
  have graph: "bfs_ok p E m'" "bfs_edge p m' = adj"
    using bfs_ok_cong [OF ok(1) frame] edge by (auto simp: bfs_edge_def fun_eq_iff)
  have vis': "bfs_in m' (bf_dpuVisited_m p) v \<longleftrightarrow> (\<exists>j < Suc k. at_distance adj j src v)" if "v < ?n" for v
    using res(1) [OF that] vis [OF that] nxt [OF that] by (auto simp: less_Suc_eq)
  have "bfs_in m' (bf_dpuNextFrontier_m p) w \<longleftrightarrow> at_distance adj (Suc k) src w" if w: "w < ?n" for w
  proof -
    have "bfs_in m' (bf_dpuNextFrontier_m p) w \<longleftrightarrow> \<not> bfs_in m' (bf_dpuVisited_m p) w \<and> (\<exists>v < ?n. bfs_in m (bf_dpuNextFrontier_m p) v \<and> bfs_adjacent p m v w)"
      by (rule res(3) [OF w])
    also have "\<dots> \<longleftrightarrow> \<not> (\<exists>j < Suc k. at_distance adj j src w) \<and> (\<exists>v < ?n. at_distance adj k src v \<and> bfs_adjacent p m v w)"
      using vis' [OF w] nxt by blast
    also have "\<dots> \<longleftrightarrow> at_distance adj (Suc k) src w"
      unfolding at_distance_Suc less_Suc_eq_le by (auto simp: edge [symmetric] bfs_edge_def)
    finally show ?thesis .
  qed
  moreover have "load4B m' (bf_dpuNodeLevel_m p) (of_nat v) = of_nat j"
    if v: "v < ?n" "j < Suc k" "at_distance adj j src v" for v j
  proof (cases "j = k")
    case True
    then show ?thesis using res(2) nxt v by auto
  next
    case False
    then have "j < k" using v(2) by simp
    moreover from this have "\<not> at_distance adj k src v" using v(3) unfolding at_distance_def by blast
    ultimately show ?thesis using res(2) nxt lev v by auto
  qed
  ultimately show ?thesis using graph vis' by (simp add: bfs_state_def)
qed

lemma bfs_in_cong:
  assumes "bfs_region base words" "v < 64 * words" "\<And>j. j \<in> bfs_cells base words \<Longrightarrow> m' j = m j"
  shows "bfs_in m' base v = bfs_in m base v"
proof -
  have "unat base div 8 + v div 64 \<in> bfs_cells base words" using assms(2) by (auto simp: bfs_cells_def less_mult_imp_div_less mult.commute)
  then show ?thesis using assms(3) by (simp add: bfs_in_bit [OF assms(1,2)])
qed

text \<open>The state survives the host.\<close>

lemma bfs_state_cong:
  assumes st: "bfs_state p E adj src k m" and whole: "bf_numNodes p = bf_dpuNumNodes p"
    and same: "\<And>j. j \<in> bfs_graph p E \<union> (bfs_V p \<union> bfs_N p \<union> bfs_C p \<union> bfs_Lv p) \<Longrightarrow> m' j = m j"
  shows "bfs_state p E adj src k m'"
proof -
  have ok: "bfs_ok p E m" and maps: "bfs_maps_ok p" using st by (simp_all add: bfs_state_def bfs_ok_def)
  note reg = bfs_regions [OF maps] and sz = bfs_sizes [OF maps]
  have "bfs_ok p E m'" by (rule bfs_ok_cong(1) [OF ok]) (use same in blast)
  moreover have "bfs_edge p m' = bfs_edge p m"
    using bfs_ok_cong(2) [OF ok, of m'] same by (auto simp: bfs_edge_def fun_eq_iff)
  moreover have "bfs_in m' (bf_dpuVisited_m p) v = bfs_in m (bf_dpuVisited_m p) v" if "v < unat (bf_dpuNumNodes p)" for v
    by (rule bfs_in_cong [OF reg(1)]) (use that sz(1) whole same in auto)
  moreover have "bfs_in m' (bf_dpuNextFrontier_m p) v = bfs_in m (bf_dpuNextFrontier_m p) v" if "v < unat (bf_dpuNumNodes p)" for v
    by (rule bfs_in_cong [OF reg(2)]) (use that sz(1) whole same in auto)
  moreover have "load4B m' (bf_dpuNodeLevel_m p) (of_nat v) = load4B m (bf_dpuNodeLevel_m p) (of_nat v)" if "v < unat (bf_dpuNumNodes p)" for v
    by (rule load4B_cong [OF reg(4)]) (use that sz(2) same in auto)
  ultimately show ?thesis using st by (simp add: bfs_state_def)
qed

text \<open>
  C36: Breadth-first search on one DPU that holds the whole graph: if the host starts the first job with
  the source as next frontier and nothing visited, and after that only counts the level up, then job
  \<open>k\<close> ends with exactly the nodes at distance \<open>k + 1\<close> in the next frontier and those at distance at
  most \<open>k\<close> visited, and every node at distance \<open>j \<le> k\<close> from the source has the level \<open>j\<close>.
\<close>

theorem bfs_main_correct:
  assumes main: "bfs_main host m js m'" and run: "bfs_run p E js" and k: "k < length js"
    and ok: "bfs_ok p E (fst (js ! 0))" and whole: "bf_numNodes p = bf_dpuNumNodes p" "bf_dpuStartNodeIdx p = 0"
    and init: "\<forall>v < unat (bf_dpuNumNodes p). \<not> bfs_in (fst (js ! 0)) (bf_dpuVisited_m p) v
      \<and> (bfs_in (fst (js ! 0)) (bf_dpuNextFrontier_m p) v \<longleftrightarrow> v = src)"
  shows "\<forall>v < unat (bf_dpuNumNodes p).
      (bfs_in (snd (js ! k)) (bf_dpuNextFrontier_m p) v \<longleftrightarrow> at_distance (bfs_edge p (fst (js ! 0))) (Suc k) src v)
    \<and> (bfs_in (snd (js ! k)) (bf_dpuVisited_m p) v \<longleftrightarrow> (\<exists>j \<le> k. walk (bfs_edge p (fst (js ! 0))) j src v))
    \<and> (\<forall>j \<le> k. at_distance (bfs_edge p (fst (js ! 0))) j src v \<longrightarrow> load4B (snd (js ! k)) (bf_dpuNodeLevel_m p) (of_nat v) = of_nat j)"
proof -
  let ?adj = "bfs_edge p (fst (js ! 0))"
  have job: "bfs_state p E ?adj src (Suc i) (snd (js ! i))" if "i < length js" "bfs_state p E ?adj src i (fst (js ! i))" for i
    using bfs_job_state [OF _ that(2) whole] bfs_main_jobs [OF main that(1)] run that(1) by (simp add: bfs_run_def)
  have "bfs_state p E ?adj src k (fst (js ! k))"
    using k
  proof (induction k)
    case 0
    have "at_distance ?adj 0 src v \<longleftrightarrow> v = src" for v by (auto simp: at_distance_def)
    then show ?case using ok init by (simp add: bfs_state_def)
  next
    case (Suc k)
    show ?case
    proof (rule bfs_state_cong [OF job [OF _ Suc.IH] whole(1)])
      show "fst (js ! Suc k) j = snd (js ! k) j" if "j \<in> bfs_graph p E \<union> (bfs_V p \<union> bfs_N p \<union> bfs_C p \<union> bfs_Lv p)" for j
        using run Suc.prems that unfolding bfs_run_def by (metis diff_Suc_1 zero_less_Suc)
    qed (use Suc.prems in simp_all)
  qed
  from job [OF k this] show ?thesis
    unfolding at_distance_le by (auto simp: bfs_state_def less_Suc_eq_le)
qed

text \<open>A path 0, 1, 2 among 64 nodes, searched for two levels.\<close>

definition bfs_demo_params :: bfs_params where
  "bfs_demo_params = \<lparr>bf_dpuNumNodes = 64, bf_numNodes = 64, bf_dpuStartNodeIdx = 0, bf_dpuNodePtrsOffset = 0,
     bf_level = 0, bf_dpuNodePtrs_m = 0x4200, bf_dpuNeighborIdxs_m = 0x4400, bf_dpuNodeLevel_m = 0x4018,
     bf_dpuVisited_m = 0x4000, bf_dpuCurrentFrontier_m = 0x4010, bf_dpuNextFrontier_m = 0x4008\<rparr>"

definition bfs_demo :: "u32 \<Rightarrow> cells64" where
  "bfs_demo l = (\<lambda>j. if 0x841 \<le> j \<and> j < 0x861 then u64_of 2 2 else 0)(0x600 := u64_of 64 64, 0x602 := u64_of l 0x4200, 0x603 := u64_of 0x4400 0x4018, 0x604 := u64_of 0x4000 0x4010,
     0x605 := u64_of 0x4008 0, 0x608 := 1, 0x801 := 1, 
     0x840 := u64_of 0 1, 0x880 := u64_of 1 2)"

lemma bfs_demo_fetch:
  assumes "\<And>j. j < 0x800 \<Longrightarrow> m j = bfs_demo l j"
  shows "bfs_fetch_params m = bfs_demo_params\<lparr>bf_level := l\<rparr>" "bfs_fetch_cmd m = 1"
proof -
  have "lo32 0 = 0" "hi32 0 = 0" "lo32 1 = 1" by (simp_all add: lo32_def hi32_def)
  then show "bfs_fetch_params m = bfs_demo_params\<lparr>bf_level := l\<rparr>" "bfs_fetch_cmd m = 1"
    using assms by (simp_all add: bfs_fetch_params_def bfs_fetch_cmd_def mram_read64_def BFS_ARG_OFFSET_def BFS_CTRL_OFFSET_def
      bfs_demo_def bfs_demo_params_def Let_def upt_rec)
qed

lemma bfs_demo_maps:
  "bfs_V bfs_demo_params = {0x800}" "bfs_N bfs_demo_params = {0x801}" "bfs_C bfs_demo_params = {0x802}"
  "bfs_Lv bfs_demo_params = {0x803 ..< 0x823}" "bfs_graph bfs_demo_params 1 = {0x840 ..< 0x861} \<union> {0x880}"
  by (auto simp: bfs_demo_params_def bfs_cells_def bfs_graph_def)

lemma bfs_demo_graph:
  "v \<le> 64 \<Longrightarrow> bfs_ptr bfs_demo_params (bfs_demo 0) v = (if v = 0 then 0 else if v = 1 then 1 else 2)"
  "bfs_nb bfs_demo_params (bfs_demo 0) 0 = 1" "bfs_nb bfs_demo_params (bfs_demo 0) (Suc 0) = 2"
proof -
  have P: "bfs_region 0x4200 33" "bfs_region 0x4400 1" by (simp_all add: bfs_region_def)
  show "bfs_ptr bfs_demo_params (bfs_demo 0) v = (if v = 0 then 0 else if v = 1 then 1 else 2)" if "v \<le> 64"
  proof -
    have "v < 2 * 33" using that by simp
    then have "bfs_ptr bfs_demo_params (bfs_demo 0) v = unat (half (bfs_demo 0 (0x840 + v div 2)) v)"
      by (simp add: bfs_ptr_def bfs_demo_params_def load4B_cell [OF P(1)])
    moreover have "v div 2 = 0 \<longleftrightarrow> v = 0 \<or> v = 1" "v div 2 < 33" using that by auto
    ultimately show ?thesis by (auto simp: bfs_demo_def half_def)
  qed
  show "bfs_nb bfs_demo_params (bfs_demo 0) 0 = 1" "bfs_nb bfs_demo_params (bfs_demo 0) (Suc 0) = 2"
    using load4B_cell [OF P(2), of 0 "bfs_demo 0"] load4B_cell [OF P(2), of "Suc 0" "bfs_demo 0"]
    by (simp_all add: bfs_nb_def bfs_demo_params_def half_def bfs_demo_def)
qed

lemma bfs_demo_edge: "bfs_edge bfs_demo_params (bfs_demo 0) v w \<longleftrightarrow> v = 0 \<and> w = 1 \<or> v = 1 \<and> w = 2"
proof (cases "v < 64")
  case True
  then have "bfs_edge bfs_demo_params (bfs_demo 0) v w \<longleftrightarrow> (\<exists>i \<in> {bfs_ptr bfs_demo_params (bfs_demo 0) v ..< bfs_ptr bfs_demo_params (bfs_demo 0) (v + 1)}. bfs_nb bfs_demo_params (bfs_demo 0) i = w)"
    by (simp add: bfs_edge_def bfs_adjacent_def bfs_demo_params_def)
  then show ?thesis using True bfs_demo_graph by (auto simp: atLeastLessThan_nat_numeral)
next
  case False
  then show ?thesis by (auto simp: bfs_edge_def bfs_demo_params_def)
qed

lemma bfs_demo_ok: "bfs_ok bfs_demo_params 1 (bfs_demo 0)"
proof -
  have "bfs_maps_ok bfs_demo_params"
    unfolding bfs_maps_ok_def bfs_demo_maps by (simp add: bfs_demo_params_def bfs_region_def)
  moreover have "bfs_nb bfs_demo_params (bfs_demo 0) i < 64"
    if "v < 64" "i \<in> {bfs_ptr bfs_demo_params (bfs_demo 0) v ..< bfs_ptr bfs_demo_params (bfs_demo 0) (v + 1)}" for v i
  proof -
    have "bfs_adjacent bfs_demo_params (bfs_demo 0) v (bfs_nb bfs_demo_params (bfs_demo 0) i)"
      unfolding bfs_adjacent_def using that(2) by blast
    then have "bfs_edge bfs_demo_params (bfs_demo 0) v (bfs_nb bfs_demo_params (bfs_demo 0) i)"
      using that(1) by (simp add: bfs_edge_def) (simp add: bfs_demo_params_def)
    then have "bfs_nb bfs_demo_params (bfs_demo 0) i = 1 \<or> bfs_nb bfs_demo_params (bfs_demo 0) i = 2"
      unfolding bfs_demo_edge by blast
    then show ?thesis by linarith
  qed
  ultimately show ?thesis
    unfolding bfs_ok_def bfs_demo_maps using bfs_demo_graph(1) by (auto simp: bfs_demo_params_def bfs_region_def)
qed

theorem bfs_main_correct_witness:
  "\<exists>js m'. bfs_main (\<lambda>_ _. True) (\<lambda>_. 0) js m' \<and> length js = 2 \<and> bfs_in (snd (js ! 1)) 0x4008 2
     \<and> load4B (snd (js ! 1)) 0x4018 1 = 1"
proof -
  let ?p = bfs_demo_params
  have runs: "\<exists>e. bfs_job p s e" for p s unfolding bfs_job_def by (intro exI conjI; rule phase_seq)
  define s0 where "s0 = bfs_demo 0"
  obtain e0 where e0: "bfs_job (?p\<lparr>bf_level := 0\<rparr>) s0 e0" using runs by blast
  define s1 where "s1 = (\<lambda>j. if j < 0x800 then bfs_demo 1 j else e0 j)"
  obtain e1 where e1: "bfs_job (?p\<lparr>bf_level := 1\<rparr>) s1 e1" using runs by blast
  let ?js = "[(s0, e0), (s1, e1)]"
  have f0: "bfs_fetch_params s0 = ?p\<lparr>bf_level := 0\<rparr>" "bfs_fetch_cmd s0 = 1" by (rule bfs_demo_fetch; simp add: s0_def)+
  have f1: "bfs_fetch_params s1 = ?p\<lparr>bf_level := 1\<rparr>" "bfs_fetch_cmd s1 = 1" by (rule bfs_demo_fetch; simp add: s1_def)+
  have fin: "bfs_fetch_cmd (\<lambda>_. u64_of BFS_CMD_EXIT 0) = BFS_CMD_EXIT" by (simp add: bfs_fetch_cmd_def mram_read64_def)
  have main: "bfs_main (\<lambda>_ _. True) (\<lambda>_. 0) ?js (\<lambda>_. u64_of BFS_CMD_EXIT 0)"
    by (intro bfs_main.intros TrueI) (use f0 f1 fin e0 e1 in \<open>simp_all add: BFS_CMD_EXIT_def\<close>)
  have run: "bfs_run ?p 1 ?js"
    unfolding bfs_run_def bfs_demo_maps using f0 f1 by (auto simp: less_Suc_eq s1_def)
  have init: "\<forall>v < unat (bf_dpuNumNodes ?p). \<not> bfs_in (fst (?js ! 0)) (bf_dpuVisited_m ?p) v \<and> (bfs_in (fst (?js ! 0)) (bf_dpuNextFrontier_m ?p) v \<longleftrightarrow> v = 0)"
    by (auto simp: s0_def bfs_demo_params_def bfs_in_bit [where words = 1] bfs_region_def bfs_demo_def bit_1_iff)
  have adj: "bfs_edge ?p s0 v w \<longleftrightarrow> v = 0 \<and> w = Suc 0 \<or> v = Suc 0 \<and> w = Suc (Suc 0)" for v w by (simp add: s0_def bfs_demo_edge numeral_2_eq_2)
  have d: "at_distance (bfs_edge ?p s0) (Suc 1) 0 2" "at_distance (bfs_edge ?p s0) 1 0 1"
    unfolding at_distance_def by (auto simp: adj less_Suc_eq numeral_2_eq_2)
  have sel: "bf_dpuNextFrontier_m ?p = 0x4008" "bf_dpuNodeLevel_m ?p = 0x4018" "2 < unat (bf_dpuNumNodes ?p)" "1 < unat (bf_dpuNumNodes ?p)"
    "bf_numNodes ?p = bf_dpuNumNodes ?p" "bf_dpuStartNodeIdx ?p = 0" by (simp_all add: bfs_demo_params_def)
  have "bfs_ok ?p 1 (fst (?js ! 0))" "1 < length ?js" using bfs_demo_ok by (simp_all add: s0_def)
  note res = bfs_main_correct [OF main run this(2,1) sel(5,6) init, THEN spec, THEN mp]
  have "bfs_in (snd (?js ! 1)) 0x4008 2" using res [OF sel(3)] d(1) by (simp add: sel(1))
  moreover have "\<forall>j \<le> 1. at_distance (bfs_edge ?p s0) j 0 1 \<longrightarrow> load4B (snd (?js ! 1)) 0x4018 (of_nat 1) = of_nat j"
    using res [OF sel(4)] unfolding sel(2) by simp
  then have "load4B (snd (?js ! 1)) 0x4018 1 = 1" using d(2) by (metis le_refl of_nat_1)
  ultimately show ?thesis using main by (intro exI [of _ ?js] exI [of _ "\<lambda>_. u64_of BFS_CMD_EXIT 0"]) simp
qed

end
