(* ===== verification/FSL_Boot.thy ===== *)
theory FSL_Boot imports Core_Loader "HOL-Library.Monad_Syntax"
begin

text \<open>
  The first-stage loader, \<^verbatim>\<open>src/src/fsl\<close>: it draws the system key and seals the four subkernels
  that are linked into its image, hands the key and the start value of the counter to the two key
  threads (\<^verbatim>\<open>boot.S\<close>), and replaces itself by the trusted loader (\<^verbatim>\<open>replace.S\<close>). mbedtls is a record of
  functions; what \<open>main\<close> relies on of it are the predicates \<open>drbg_ok\<close> and \<open>chachapoly_ok\<close>. A
  violated \<open>assert\<close> is \<open>None\<close>. The loops of \<open>enc_sk\<close> count in unbounded numbers: sizes whose sum with
  the 2048 bytes of the buffer exceeds 32 bits are beyond MRAM.
\<close>

unbundle bit_operations_syntax

section \<open>The code\<close>

record ('c, 'g) mbedtls =
  hmac_drbg_seed :: "(nat \<Rightarrow> 8 word list) \<Rightarrow> string \<Rightarrow> 'g option"
  hmac_drbg_update :: "'g \<Rightarrow> u32 list \<Rightarrow> 'g option"
  hmac_drbg_random :: "'g \<Rightarrow> nat \<Rightarrow> (u32 list \<times> 'g) option"
  chachapoly_starts :: "u32 list \<Rightarrow> u32 list \<Rightarrow> 'c"
  chachapoly_update_aad :: "'c \<Rightarrow> u32 list \<Rightarrow> 'c option"
  chachapoly_update :: "'c \<Rightarrow> u32 list \<Rightarrow> (u32 list \<times> 'c) option"
  chachapoly_finish :: "'c \<Rightarrow> u32 list option"

record fsl_symbols =
  g_sk_xchg_1 :: nat
  g_sk_xchg_2 :: nat
  g_sk_xchg_3 :: nat
  g_sk_msg :: nat
  g_tl :: nat
  sys_key_buf :: nat

text \<open>The entropy callback, and the two chunks of 128 double words that \<open>calloc\<close> hands out.\<close>

definition nop :: "nat \<Rightarrow> 8 word list" where "nop sz = replicate sz 0"

definition fsl_calloc :: "nat \<Rightarrow> (nat \<times> nat) option" where
  "fsl_calloc ptr = (if ptr < 2 then Some (ptr * 128, Suc ptr) else None)"

definition FSL_BUFFER :: nat where "FSL_BUFFER = 2048"

definition fsl_feed_aad :: "('c, 'g) mbedtls \<Rightarrow> nat \<Rightarrow> cells \<Rightarrow> nat \<Rightarrow> 'c \<Rightarrow> 'c option" where
  "fsl_feed_aad mb sk m aad ctx =
     for_stride FSL_BUFFER 64 (aad - (FSL_BUFFER - 1))
       (\<lambda>i ctx. do { ctx \<leftarrow> ctx; let sz = min (aad - i) FSL_BUFFER;
          chachapoly_update_aad mb ctx (mram_read m (sk + i) sz) }) (Some ctx)"

definition fsl_feed_text :: "('c, 'g) mbedtls \<Rightarrow> nat \<Rightarrow> cells \<Rightarrow> nat \<Rightarrow> nat \<Rightarrow> 'c \<Rightarrow> 'c option" where
  "fsl_feed_text mb sk m aad all ctx =
     for_stride FSL_BUFFER aad (all - (FSL_BUFFER - 1))
       (\<lambda>i ctx. do { ctx \<leftarrow> ctx; let sz = min (all - i) FSL_BUFFER;
          (buffer, ctx) \<leftarrow> chachapoly_update mb ctx (mram_read m (sk + i) sz); Some ctx }) (Some ctx)"

definition fsl_store :: "nat \<Rightarrow> nat \<Rightarrow> u32 list \<Rightarrow> cells \<Rightarrow> cells" where
  "fsl_store a n xs m = fold (\<lambda>i m. m(a + i := xs ! i)) [0..<n] m"

definition enc_sk :: "('c, 'g) mbedtls \<Rightarrow> nat \<Rightarrow> u32 list \<Rightarrow> 'g \<times> cells \<Rightarrow> ('g \<times> cells) option" where
  "enc_sk mb sk key gm = (let (g, m) = gm in do {
     (nonce, g) \<leftarrow> hmac_drbg_random mb g 3;
     let ctx = chachapoly_starts mb key nonce;
     let header = mram_read m (sk + 32) 32;
     ctx \<leftarrow> chachapoly_update_aad mb ctx [0xA5A5A5A5, 0, 0, 0, 0, 0, 0, 0];
     ctx \<leftarrow> chachapoly_update_aad mb ctx header;
     let hdr = sk_header m sk;
     ctx \<leftarrow> fsl_feed_aad mb sk m (unat (size_aad hdr)) ctx;
     ctx \<leftarrow> fsl_feed_text mb sk m (unat (size_aad hdr)) (unat (size_total hdr)) ctx;
     t \<leftarrow> chachapoly_finish mb ctx;
     Some (g, fsl_store (sk div 4 + 5) 3 nonce (fsl_store (sk div 4 + 1) 4 t m)) })"

text \<open>\<open>main\<close> up to the calls of the assembly routines: the key, the counter's start value and MRAM.\<close>

definition fsl_main :: "('c, 'g) mbedtls \<Rightarrow> fsl_symbols \<Rightarrow> u32 list \<Rightarrow> u32 \<Rightarrow> cells \<Rightarrow> (u32 list \<times> u32 \<times> cells) option" where
  "fsl_main mb sy key_seed dpu_index m = do {
     g \<leftarrow> hmac_drbg_seed mb nop ''ime-first-stage-loader'';
     g \<leftarrow> hmac_drbg_update mb g key_seed;
     (sys_key, g) \<leftarrow> hmac_drbg_random mb g 8;
     gm \<leftarrow> enc_sk mb (g_sk_xchg_1 sy) sys_key (g, m);
     gm \<leftarrow> enc_sk mb (g_sk_xchg_2 sy) sys_key gm;
     gm \<leftarrow> enc_sk mb (g_sk_xchg_3 sy) sys_key gm;
     gm \<leftarrow> enc_sk mb (g_sk_msg sy) sys_key gm;
     Some (sys_key, dpu_index_seed dpu_index, snd gm) }"

text \<open>\<open>boot.S\<close>: thread 22 loads the key into \<open>r16\<close> to \<open>r23\<close>, thread 23 the counter; only thread 0 may ask.\<close>

definition on_thread_22 :: "u32 list \<Rightarrow> u32 list" where
  "on_thread_22 sys_key = map ((!) sys_key) [0..<8]"

definition install_keys :: "nat \<Rightarrow> u32 list \<Rightarrow> u32 \<Rightarrow> (u32 list \<times> u32 list) option" where
  "install_keys me sys_key dpu_index = (if me = 0 then Some (on_thread_22 sys_key, on_thread_23 dpu_index) else None)"

text \<open>\<open>replace.S\<close>: four chunks of the trusted loader; then its entry with the message subkernel.\<close>

definition fsl_replace :: "nat \<Rightarrow> cells \<Rightarrow> (nat \<Rightarrow> u64) \<Rightarrow> nat \<Rightarrow> u64" where
  "fsl_replace base m = fold (\<lambda>k. ldmai_chunk m (256 * k) (base + 2048 * k)) [0..<4]"

text \<open>
  The whole start: \<open>stk\<close> is what the loader's C code leaves on its stack, the result the registers
  of the key threads and the state in which the message subkernel runs.
\<close>

definition fsl_state :: "fsl_symbols \<Rightarrow> u32 list \<Rightarrow> cells \<Rightarrow> tl_state \<Rightarrow> tl_state" where
  "fsl_state sy sys_key m s = s\<lparr>mram := m, wram_cells := wram_store sys_key (sys_key_buf sy) 32 (wram_cells s),
     iram := fsl_replace (g_tl sy) m (iram s), running := {0}\<rparr>"

definition fsl_boot ::
  "('c, 'g) mbedtls \<Rightarrow> fsl_symbols \<Rightarrow> u32 list \<Rightarrow> u32 \<Rightarrow> cells \<Rightarrow> tl_state \<Rightarrow> (u32 list \<times> u32 list \<times> (ime_fault + tl_state)) option" where
  "fsl_boot mb sy key_seed dpu_index stk s = do {
     (sys_key, idx, m) \<leftarrow> fsl_main mb sy key_seed dpu_index (mram s);
     (t22, t23) \<leftarrow> install_keys 0 sys_key idx;
     r \<leftarrow> ime_replace_sk 0 t22 stk (g_sk_msg sy) 0 (of_nat (sys_key_buf sy)) 0 (fsl_state sy sys_key m s);
     Some (t22, t23, r) }"

section \<open>What is assumed of mbedtls\<close>

definition drbg_ok :: "('c, 'g) mbedtls \<Rightarrow> bool" where
  "drbg_ok mb \<longleftrightarrow> hmac_drbg_seed mb nop ''ime-first-stage-loader'' \<noteq> None
     \<and> (\<forall>g xs. hmac_drbg_update mb g xs \<noteq> None)
     \<and> (\<forall>g n. \<exists>xs g'. hmac_drbg_random mb g n = Some (xs, g') \<and> length xs = n)"

fun blocks4 :: "'a list \<Rightarrow> 'a list list" where
  "blocks4 (a # b # c # d # xs) = [a, b, c, d] # blocks4 xs"
| "blocks4 _ = []"

definition feed_chunks :: "('c, 'g) mbedtls \<Rightarrow> u32 list list \<Rightarrow> 'c \<Rightarrow> 'c option" where
  "feed_chunks mb chunks ctx = fold (\<lambda>c ctx. Option.bind ctx (\<lambda>ctx. chachapoly_update_aad mb ctx c)) chunks (Some ctx)"

text \<open>RFC 8439: associated data in chunks of whole blocks, and no text.\<close>

definition chachapoly_ok :: "('c, 'g) mbedtls \<Rightarrow> bool" where
  "chachapoly_ok mb \<longleftrightarrow>
     (\<forall>key nonce chunks. length key = 8 \<and> length nonce = 3 \<and> (\<forall>c \<in> set chunks. length c mod 4 = 0) \<and> 4 * length (concat chunks) < 2 ^ 32 \<longrightarrow>
       (\<exists>ctx t. feed_chunks mb chunks (chachapoly_starts mb key nonce) = Some ctx \<and> chachapoly_finish mb ctx = Some t \<and> length t = 4
         \<and> val32 t = poly1305_mac (chacha20_block key 0 nonce) (blocks4 (concat chunks) @ [[of_nat (4 * length (concat chunks)), 0, 0, 0]])))"

section \<open>Sealing an image\<close>

lemma fsl_store_cell: "fsl_store a n xs m j = (if a \<le> j \<and> j < a + n then xs ! (j - a) else m j)"
  by (induction n) (auto simp: fsl_store_def less_Suc_eq)

lemma fsl_stride:
  "stride_list FSL_BUFFER b (b + FSL_BUFFER * q - (FSL_BUFFER - 1)) = map (\<lambda>k. b + FSL_BUFFER * k) [0..<q]"
proof (induction q arbitrary: b)
  case 0
  then show ?case by (simp add: stride_list.simps FSL_BUFFER_def)
next
  case (Suc q)
  have "stride_list FSL_BUFFER b (b + FSL_BUFFER * Suc q - (FSL_BUFFER - 1))
      = b # stride_list FSL_BUFFER (b + FSL_BUFFER) (b + FSL_BUFFER + FSL_BUFFER * q - (FSL_BUFFER - 1))"
    by (subst stride_list.simps) (simp add: FSL_BUFFER_def algebra_simps)
  also have "\<dots> = map (\<lambda>k. b + FSL_BUFFER * k) (0 # map Suc [0..<q])"
    unfolding Suc.IH by (simp add: algebra_simps)
  finally show ?case by (simp only: map_Suc_upt upt_conv_Cons [OF zero_less_Suc])
qed

lemma feed_chunks_None: "fold (\<lambda>c ctx. Option.bind ctx (\<lambda>ctx. chachapoly_update_aad mb ctx c)) cs None = None"
  by (induction cs) simp_all

lemma feed_chunks_simps:
  "feed_chunks mb [] ctx = Some ctx"
  "feed_chunks mb (c # cs) ctx = Option.bind (chachapoly_update_aad mb ctx c) (feed_chunks mb cs)"
  by (simp add: feed_chunks_def) (cases "chachapoly_update_aad mb ctx c"; simp add: feed_chunks_def feed_chunks_None)

lemma fsl_feed_aad_eq:
  assumes "aad = 64 + FSL_BUFFER * q"
  shows "fsl_feed_aad mb sk m aad ctx = feed_chunks mb (map (\<lambda>k. mram_read m (sk + (64 + FSL_BUFFER * k)) FSL_BUFFER) [0..<q]) ctx"
proof -
  have sz: "min (64 + FSL_BUFFER * q - (64 + FSL_BUFFER * k)) FSL_BUFFER = FSL_BUFFER" if "k < q" for k
  proof -
    have "FSL_BUFFER * (k + 1) \<le> FSL_BUFFER * q" using that by (intro mult_le_mono2) simp
    then show ?thesis unfolding min_def by (auto simp: algebra_simps)
  qed
  have "fsl_feed_aad mb sk m aad ctx = fold (\<lambda>k ctx. Option.bind ctx (\<lambda>ctx. chachapoly_update_aad mb ctx (mram_read m (sk + (64 + FSL_BUFFER * k)) (min (aad - (64 + FSL_BUFFER * k)) FSL_BUFFER)))) [0..<q] (Some ctx)"
    unfolding fsl_feed_aad_def for_stride_fold assms fsl_stride fold_map Let_def by (simp add: comp_def)
  also have "\<dots> = fold (\<lambda>k ctx. Option.bind ctx (\<lambda>ctx. chachapoly_update_aad mb ctx (mram_read m (sk + (64 + FSL_BUFFER * k)) FSL_BUFFER))) [0..<q] (Some ctx)"
    by (rule fold_cong) (use sz in \<open>simp_all add: assms\<close>)
  finally show ?thesis by (simp add: feed_chunks_def fold_map comp_def)
qed

lemma fsl_feed_text_none: "fsl_feed_text mb sk m aad aad ctx = Some ctx"
proof -
  have "stride_list FSL_BUFFER aad (aad - (FSL_BUFFER - 1)) = []"
    using fsl_stride [of aad 0] by simp
  then show ?thesis by (simp add: fsl_feed_text_def for_stride_fold)
qed

lemma blocks4_concat: "\<forall>x \<in> set xs. length x = 4 \<Longrightarrow> blocks4 (concat xs) = xs"
proof (induction xs)
  case (Cons x xs)
  then obtain a b c d where "x = [a, b, c, d]" by (auto simp: length_4_conv)
  then show ?case using Cons by simp
qed simp

lemma mram_read_chunks:
  assumes "sk mod 8 = 0"
  shows "mram_read m (sk + 16 * a) (16 * n) = concat (map (fetch_sk_chunk m sk) [a..<a + n])"
proof (induction n)
  case (Suc n)
  have i: "2 * ((sk + 16 * k) div 8) = sk div 4 + 4 * k" for k using assms by presburger
  have len: "2 * (16 * n div 8) = 4 * n" for n :: nat by simp
  have u: "[0..<4 * Suc n] = [0..<4 * n] @ [4 * n..<4 * n + 4]"
    using upt_add_eq_append [of 0 "4 * n" 4] by (simp add: add.commute)
  have "mram_read m (sk + 16 * a) (16 * Suc n) = map (\<lambda>j. m (sk div 4 + 4 * a + j)) ([0..<4 * n] @ [4 * n..<4 * n + 4])"
    unfolding mram_read_def i len u by simp
  also have "\<dots> = mram_read m (sk + 16 * a) (16 * n) @ fetch_sk_chunk m sk (a + n)"
    unfolding fetch_sk_chunk_def mram_read_def i len by (simp add: upt_rec algebra_simps)
  finally show ?case using Suc by simp
qed (simp add: mram_read_def)

text \<open>An image as the build makes it with authentication only: all of it is associated data.\<close>

definition auth_only :: "nat \<Rightarrow> cells \<Rightarrow> bool" where
  "auth_only sk m \<longleftrightarrow>
     (let h = sk_header m sk; n = unat (text_size h); sz = unat (size_total h) in
      sk mod 8 = 0 \<and> sk + sz \<le> ime_scratch_a \<and> size_aad h = size_total h \<and> 64 \<le> sz \<and> (sz - 64) mod FSL_BUFFER = 0
      \<and> 64 + 2048 * (n + unat (data_size h)) \<le> sz \<and> magic h = 0xA5A5A5A5 \<and> 1 \<le> n \<and> n < 16
      \<and> (\<forall>i < 256 * n. \<not> banned (read_u64 m (sk + 64 + 8 * i))))"

text \<open>The tag in the header is the one of RFC 8439; the repository's Poly1305 gives the same unless the last accumulator is too big.\<close>

definition sealed :: "u32 list \<Rightarrow> nat \<Rightarrow> cells \<Rightarrow> bool" where
  "sealed key sk m \<longleftrightarrow> val32 (tag (sk_header m sk)) = poly1305_mac (chacha20_block key 0 (iv (sk_header m sk))) (image_blocks sk m)"

definition poly_fits :: "u32 list \<Rightarrow> nat \<Rightarrow> cells \<Rightarrow> bool" where
  "poly_fits key sk m \<longleftrightarrow> ctx_a (poly_feed_all (poly_init (chacha20_block key 0 (iv (sk_header m sk)))) (image_blocks sk m)) ! 4 \<le> 3"

lemma sk_header_words:
  assumes "sk mod 8 = 0"
  shows "magic (sk_header m sk) = m (sk div 4)" "tag (sk_header m sk) = map (\<lambda>i. m (sk div 4 + 1 + i)) [0..<4]"
    "iv (sk_header m sk) = map (\<lambda>i. m (sk div 4 + 5 + i)) [0..<3]" "size_aad (sk_header m sk) = m (sk div 4 + 8)"
    "size_total (sk_header m sk) = m (sk div 4 + 9)" "text_size (sk_header m sk) = m (sk div 4 + 10)" "data_size (sk_header m sk) = m (sk div 4 + 11)"
proof -
  have h: "mram_read m sk 64 = map (\<lambda>i. m (sk div 4 + i)) [0..<16]" using assms by (simp add: mram_read_def dma_index)
  have t: "take 4 (drop 1 (mram_read m sk 64)) = map (\<lambda>i. m (sk div 4 + 1 + i)) [0..<4]"
    "take 3 (drop 5 (mram_read m sk 64)) = map (\<lambda>i. m (sk div 4 + 5 + i)) [0..<3]"
    unfolding h by (rule nth_equalityI; simp add: add.assoc)+
  show "magic (sk_header m sk) = m (sk div 4)" "size_aad (sk_header m sk) = m (sk div 4 + 8)"
    "size_total (sk_header m sk) = m (sk div 4 + 9)" "text_size (sk_header m sk) = m (sk div 4 + 10)" "data_size (sk_header m sk) = m (sk div 4 + 11)"
    by (simp_all add: sk_header_def Let_def h del: upt_rec_numeral)
  show "tag (sk_header m sk) = map (\<lambda>i. m (sk div 4 + 1 + i)) [0..<4]" "iv (sk_header m sk) = map (\<lambda>i. m (sk div 4 + 5 + i)) [0..<3]"
    unfolding sk_header_def Let_def ime_sk.select_convs by (rule t)+
qed

lemma body_fits: "i < 256 * n \<Longrightarrow> 64 + 2048 * (n + d) \<le> z \<Longrightarrow> 16 + 2 * i + 1 < z div (4 :: nat)"
  by (simp add: less_eq_div_iff_mult_less_eq Suc_le_eq [symmetric])

text \<open>What a change of the tag and the IV leaves of an image.\<close>

lemma auth_only_cong:
  assumes "auth_only sk m" and same: "\<And>j. j < unat (size_total (sk_header m sk)) div 4 \<Longrightarrow> j \<notin> {1..<8} \<Longrightarrow> m' (sk div 4 + j) = m (sk div 4 + j)"
  shows "auth_only sk m'" "2 \<le> i \<Longrightarrow> i < unat (size_total (sk_header m sk)) div 16 \<Longrightarrow> fetch_sk_chunk m' sk i = fetch_sk_chunk m sk i"
    "size_total (sk_header m' sk) = size_total (sk_header m sk)" "size_aad (sk_header m' sk) = size_total (sk_header m' sk)"
proof -
  let ?sz = "unat (size_total (sk_header m sk))" and ?n = "unat (text_size (sk_header m sk))"
  have sk: "sk mod 8 = 0" and sz: "64 \<le> ?sz" "64 + 2048 * (?n + unat (data_size (sk_header m sk))) \<le> ?sz"
    using assms(1) by (auto simp: auth_only_def Let_def)
  have hdr: "m' (sk div 4 + j) = m (sk div 4 + j)" if "j = 0 \<or> 8 \<le> j" "j < 16" for j using same [of j] that sz(1) by auto
  have h: "magic (sk_header m' sk) = magic (sk_header m sk)" "size_aad (sk_header m' sk) = size_aad (sk_header m sk)"
    "size_total (sk_header m' sk) = size_total (sk_header m sk)" "text_size (sk_header m' sk) = text_size (sk_header m sk)"
    "data_size (sk_header m' sk) = data_size (sk_header m sk)"
    using hdr [of 0] hdr [of 8] hdr [of 9] hdr [of 10] hdr [of 11] by (simp_all add: sk_header_words [OF sk])
  then show "size_total (sk_header m' sk) = size_total (sk_header m sk)" "size_aad (sk_header m' sk) = size_total (sk_header m' sk)"
    using assms(1) by (simp_all add: auth_only_def Let_def)
  have "read_u64 m' (sk + 64 + 8 * i) = read_u64 m (sk + 64 + 8 * i)" if "i < 256 * ?n" for i
  proof (rule read_u64_cong)
    have i: "16 + 2 * i + 1 < ?sz div 4" by (rule body_fits [OF that sz(2)])
    show "m' (2 * ((sk + 64 + 8 * i) div 8)) = m (2 * ((sk + 64 + 8 * i) div 8))"
      unfolding body_index [OF sk] using same [of "16 + 2 * i"] i by simp
    show "m' (2 * ((sk + 64 + 8 * i) div 8) + 1) = m (2 * ((sk + 64 + 8 * i) div 8) + 1)"
      unfolding body_index [OF sk] using same [of "16 + 2 * i + 1"] i by (simp add: ac_simps)
  qed
  then show "auth_only sk m'" using assms(1) by (simp add: auth_only_def Let_def h)
  show "fetch_sk_chunk m' sk i = fetch_sk_chunk m sk i" if "2 \<le> i" "i < ?sz div 16"
  proof (rule fetch_sk_chunk_cong [OF sk])
    fix j :: nat
    assume "j < 4"
    then have "4 * i + j < ?sz div 4" "4 * i + j \<notin> {1..<8}" using that by auto
    then show "m' (sk div 4 + 4 * i + j) = m (sk div 4 + 4 * i + j)" using same [of "4 * i + j"] by (simp add: add.assoc)
  qed
qed

lemma auth_only_blocks:
  assumes "auth_only sk m"
  shows "image_blocks sk m = [[0xA5A5A5A5, 0, 0, 0], [0, 0, 0, 0]] @ map (fetch_sk_chunk m sk) [2..<unat (size_total (sk_header m sk)) div 16]
    @ [[size_total (sk_header m sk), 0, 0, 0]]"
  using assms by (simp add: image_blocks_def auth_only_def Let_def)

lemma auth_only_size:
  assumes "auth_only sk m"
  obtains q where "unat (size_total (sk_header m sk)) = 64 + FSL_BUFFER * q"
proof -
  have "64 \<le> unat (size_total (sk_header m sk))" "FSL_BUFFER dvd unat (size_total (sk_header m sk)) - 64"
    using assms by (auto simp: auth_only_def Let_def mod_eq_0_iff_dvd)
  then show thesis using that by (metis dvdE le_add_diff_inverse)
qed

lemma length_concat4: "\<forall>x \<in> set xs. length x = 4 \<Longrightarrow> length (concat xs) = 4 * length xs"
  by (induction xs) auto

lemma concat_upt: "concat (map (\<lambda>k. [a + b * k ..< a + b * k + b]) [0..<q]) = [a ..< a + b * q]"
proof (induction q)
  case (Suc q)
  have "[a ..< a + b * Suc q] = [a ..< a + b * q] @ [a + b * q ..< a + b * q + b]"
    using upt_add_eq_append [of a "a + b * q" b] by (simp add: algebra_simps)
  then show ?case by (simp add: Suc)
qed simp

lemma concat_concat_map: "concat (map (\<lambda>k. concat (map f (g k))) xs) = concat (map f (concat (map g xs)))"
  by (induction xs) simp_all

lemma auth_only_accepted:
  assumes ok: "auth_only sk m" and seal: "sealed key sk m" "poly_fits key sk m" and key: "length key = 8" "key_words K = key"
  shows "image_ok K sk m"
proof -
  have "val32 (tag (sk_header m sk)) = val32 (image_tag K sk m)"
    using seal poly_tag_exact [where key = "chacha20_block key 0 (iv (sk_header m sk))" and blocks = "image_blocks sk m"]
    by (simp add: sealed_def image_tag_def poly_fits_def key(2) auth_only_blocks [OF ok])
  then have "tag (sk_header m sk) = image_tag K sk m"
    by (intro val32_inj) (simp_all add: length_image_tag)
  moreover have "image_decrypted K sk m = m" using ok by (auto simp: image_decrypted_def auth_only_def Let_def fun_eq_iff)
  moreover have "unat (size_total (sk_header m sk)) mod 8 = 0"
  proof -
    obtain q where "unat (size_total (sk_header m sk)) = 64 + FSL_BUFFER * q" using ok by (rule auth_only_size)
    then have "unat (size_total (sk_header m sk)) = 8 * (8 + 256 * q)" by (simp add: FSL_BUFFER_def)
    then show ?thesis by (simp only: mod_mult_self1_is_0)
  qed
  ultimately show ?thesis using ok by (simp add: image_ok_def auth_only_def Let_def)
qed

lemma enc_sk_seals:
  assumes mb: "drbg_ok mb" "chachapoly_ok mb" and ok: "auth_only sk m" and key: "length key = 8"
  shows "\<exists>g' m'. enc_sk mb sk key (g, m) = Some (g', m') \<and> sealed key sk m' \<and> auth_only sk m'
    \<and> size_total (sk_header m' sk) = size_total (sk_header m sk)
    \<and> (\<forall>j. j \<notin> {sk div 4 + 1 ..< sk div 4 + 8} \<longrightarrow> m' j = m j)"
proof -
  let ?sz = "unat (size_total (sk_header m sk))"
  obtain q where q: "?sz = 64 + FSL_BUFFER * q" using ok by (rule auth_only_size)
  have sk: "sk mod 8 = 0" and aad: "size_aad (sk_header m sk) = size_total (sk_header m sk)" using ok by (simp_all add: auth_only_def Let_def)
  obtain nonce g' where r: "hmac_drbg_random mb g 3 = Some (nonce, g')" "length nonce = 3" using mb(1) unfolding drbg_ok_def by blast
  let ?chunks = "[0xA5A5A5A5, 0, 0, 0, 0, 0, 0, 0] # mram_read m (sk + 32) 32 # map (\<lambda>k. mram_read m (sk + (64 + FSL_BUFFER * k)) FSL_BUFFER) [0..<q]"
  have chunks: "concat ?chunks = concat ([[0xA5A5A5A5, 0, 0, 0], [0, 0, 0, 0]] @ map (fetch_sk_chunk m sk) [2..<?sz div 16])" (is "_ = concat ?blocks")
  proof -
    have n: "?sz div 16 = 4 + 128 * q" by (simp add: q FSL_BUFFER_def)
    have hd: "mram_read m (sk + 32) 32 = concat (map (fetch_sk_chunk m sk) [2..<4])"
      using mram_read_chunks [OF sk, of m 2 2] by simp
    have body: "mram_read m (sk + (64 + FSL_BUFFER * k)) FSL_BUFFER = concat (map (fetch_sk_chunk m sk) [4 + 128 * k ..< 4 + 128 * k + 128])" for k
      using mram_read_chunks [OF sk, of m "4 + 128 * k" 128] by (simp add: FSL_BUFFER_def add.assoc)
    have "concat (map (\<lambda>k. mram_read m (sk + (64 + FSL_BUFFER * k)) FSL_BUFFER) [0..<q]) = concat (map (fetch_sk_chunk m sk) [4..<4 + 128 * q])"
      unfolding body by (simp add: concat_upt [symmetric] map_concat comp_def concat_concat_map)
    moreover have "[2..<4 + 128 * q] = [2..<4] @ [4..<4 + 128 * q]" using upt_add_eq_append [of 2 4 "128 * q"] by simp
    ultimately show ?thesis by (simp add: n hd)
  qed
  have b4: "\<forall>b \<in> set ?blocks. length b = 4" by simp
  have "4 * (4 * length ?blocks) = ?sz" by (simp add: q FSL_BUFFER_def)
  then have len: "4 * length (concat ?chunks) = ?sz" by (simp only: chunks length_concat4 [OF b4])
  have c4: "\<forall>c \<in> set ?chunks. length c mod 4 = 0" by (simp add: FSL_BUFFER_def)
  have "4 * length (concat ?chunks) < 2 ^ 32" unfolding len by simp
  then obtain ctx t where ctx: "feed_chunks mb ?chunks (chachapoly_starts mb key nonce) = Some ctx" "chachapoly_finish mb ctx = Some t" "length t = 4"
    "val32 t = poly1305_mac (chacha20_block key 0 nonce) (blocks4 (concat ?chunks) @ [[of_nat (4 * length (concat ?chunks)), 0, 0, 0]])"
    using mb(2) key r(2) c4 unfolding chachapoly_ok_def by blast
  define m' where "m' = fsl_store (sk div 4 + 5) 3 nonce (fsl_store (sk div 4 + 1) 4 t m)"
  obtain c1 c2 where c: "chachapoly_update_aad mb (chachapoly_starts mb key nonce) [0xA5A5A5A5, 0, 0, 0, 0, 0, 0, 0] = Some c1"
    "chachapoly_update_aad mb c1 (mram_read m (sk + 32) 32) = Some c2"
    "feed_chunks mb (map (\<lambda>k. mram_read m (sk + (64 + FSL_BUFFER * k)) FSL_BUFFER) [0..<q]) c2 = Some ctx"
    using ctx(1) unfolding feed_chunks_simps bind_eq_Some_conv by blast
  have enc: "enc_sk mb sk key (g, m) = Some (g', m')"
    by (simp add: enc_sk_def Let_def aad fsl_feed_aad_eq [OF q] fsl_feed_text_none c r(1) ctx(2) m'_def)
  have same: "m' j = m j" if "j \<notin> {sk div 4 + 1 ..< sk div 4 + 8}" for j using that by (auto simp: m'_def fsl_store_cell)
  note cong = auth_only_cong [OF ok, of m']
  have hdr: "tag (sk_header m' sk) = t" "iv (sk_header m' sk) = nonce"
    unfolding sk_header_words [OF sk] by (rule nth_equalityI; simp add: m'_def fsl_store_cell ctx(3) r(2))+
  have "image_blocks sk m' = ?blocks @ [[size_total (sk_header m sk), 0, 0, 0]]"
    using auth_only_blocks [of sk m'] cong same by auto
  then have "sealed key sk m'"
    using ctx(4) unfolding sealed_def hdr len unfolding chunks blocks4_concat [OF b4] by simp
  then show ?thesis using enc same cong by auto
qed

text \<open>
  Whatever the sizes in its header, the body of an image stays as it was: what \<open>chachapoly_update\<close>
  returns for the blocks behind \<open>size_aad\<close> is dropped.
\<close>

lemma enc_sk_leaves_plaintext:
  assumes "enc_sk mb sk key (g, m) = Some (g', m')" "j \<notin> {sk div 4 + 1 ..< sk div 4 + 8}"
  shows "m' j = m j"
proof -
  obtain nonce t where "m' = fsl_store (sk div 4 + 5) 3 nonce (fsl_store (sk div 4 + 1) 4 t m)"
    using assms(1) by (auto simp: enc_sk_def Let_def bind_eq_Some_conv)
  then show ?thesis using assms(2) by (auto simp: fsl_store_cell)
qed

section \<open>The start of a DPU\<close>

text \<open>Four images with authentication only, one after the other, and the key buffer of \<open>main\<close>.\<close>

definition fsl_images :: "fsl_symbols \<Rightarrow> nat list" where
  "fsl_images sy = [g_sk_xchg_1 sy, g_sk_xchg_2 sy, g_sk_xchg_3 sy, g_sk_msg sy]"

definition images_apart :: "nat set \<Rightarrow> cells \<Rightarrow> bool" where
  "images_apart A m \<longleftrightarrow> (\<forall>a \<in> A. \<forall>b \<in> A. a \<noteq> b \<longrightarrow>
     a + unat (size_total (sk_header m a)) \<le> b \<or> b + unat (size_total (sk_header m b)) \<le> a)"

definition fsl_ok :: "fsl_symbols \<Rightarrow> cells \<Rightarrow> bool" where
  "fsl_ok sy m \<longleftrightarrow> (\<forall>sk \<in> set (fsl_images sy). auth_only sk m)
     \<and> images_apart (set (fsl_images sy)) m
     \<and> distinct (fsl_images sy) \<and> sys_key_buf sy mod 8 = 0 \<and> 4096 \<le> sys_key_buf sy \<and> sys_key_buf sy + 32 \<le> 0x10000"

text \<open>Sealing one image leaves the others alone.\<close>

lemma enc_sk_others:
  assumes other: "auth_only b m" and a: "a mod 8 = 0" "64 \<le> n" and apart: "a + n \<le> b \<or> b + unat (size_total (sk_header m b)) \<le> a"
    and same: "\<And>j. j \<notin> {a div 4 + 1 ..< a div 4 + 8} \<Longrightarrow> m' j = m j"
  shows "auth_only b m'" "sealed key b m \<Longrightarrow> sealed key b m'" "size_total (sk_header m' b) = size_total (sk_header m b)"
proof -
  let ?sz = "unat (size_total (sk_header m b))"
  have b: "b mod 8 = 0" "64 \<le> ?sz" using other by (auto simp: auth_only_def Let_def)
  have eq: "m' (b div 4 + j) = m (b div 4 + j)" if "j < ?sz div 4" for j
  proof (rule same)
    show "b div 4 + j \<notin> {a div 4 + 1 ..< a div 4 + 8}" using apart a b that by auto
  qed
  note cong = auth_only_cong [OF other, of m']
  show ok': "auth_only b m'" "size_total (sk_header m' b) = size_total (sk_header m b)" using cong(1,3) eq by auto
  have hdr: "sk_header m' b = sk_header m b" by (rule sk_header_cong [OF b(1)]) (use eq b(2) in auto)
  have "image_blocks b m' = image_blocks b m"
    unfolding auth_only_blocks [OF other] auth_only_blocks [OF ok'(1)] hdr using cong(2) eq by auto
  then show "sealed key b m \<Longrightarrow> sealed key b m'" by (simp add: sealed_def hdr)
qed

fun seal_all :: "('c, 'g) mbedtls \<Rightarrow> u32 list \<Rightarrow> nat list \<Rightarrow> 'g \<times> cells \<Rightarrow> ('g \<times> cells) option" where
  "seal_all mb key [] gm = Some gm"
| "seal_all mb key (sk # sks) gm = Option.bind (enc_sk mb sk key gm) (seal_all mb key sks)"

lemma seal_all_seals:
  assumes mb: "drbg_ok mb" "chachapoly_ok mb" and key: "length key = 8"
    and "\<forall>sk \<in> D \<union> set sks. auth_only sk m" "images_apart (D \<union> set sks) m" "\<forall>sk \<in> D. sealed key sk m" "distinct sks" "D \<inter> set sks = {}"
  shows "\<exists>g' m'. seal_all mb key sks (g, m) = Some (g', m') \<and> (\<forall>sk \<in> D \<union> set sks. sealed key sk m' \<and> auth_only sk m')"
  using assms(4-8)
proof (induction sks arbitrary: D g m)
  case (Cons x sks)
  have ok: "auth_only x m" using Cons.prems(1) by simp
  obtain g1 m1 where enc: "enc_sk mb x key (g, m) = Some (g1, m1)" "sealed key x m1" "auth_only x m1"
      "size_total (sk_header m1 x) = size_total (sk_header m x)" "\<And>j. j \<notin> {x div 4 + 1 ..< x div 4 + 8} \<Longrightarrow> m1 j = m j"
    using enc_sk_seals [OF mb ok key, of g] by blast
  have x: "x mod 8 = 0" "64 \<le> unat (size_total (sk_header m x))" using ok by (auto simp: auth_only_def Let_def)
  have others: "auth_only b m1" "sealed key b m \<Longrightarrow> sealed key b m1" "size_total (sk_header m1 b) = size_total (sk_header m b)"
    if "b \<in> D \<union> set sks" for b
  proof -
    have b: "auth_only b m" "b \<noteq> x" using that Cons.prems by auto
    then have "x + unat (size_total (sk_header m x)) \<le> b \<or> b + unat (size_total (sk_header m b)) \<le> x"
      using Cons.prems(2) that unfolding images_apart_def by auto
    note other = enc_sk_others [where m = m and m' = m1, OF b(1) x this enc(5)]
    show "auth_only b m1" "sealed key b m \<Longrightarrow> sealed key b m1" "size_total (sk_header m1 b) = size_total (sk_header m b)"
      by (rule other; assumption)+
  qed
  have "\<exists>g' m'. seal_all mb key sks (g1, m1) = Some (g', m') \<and> (\<forall>sk \<in> insert x D \<union> set sks. sealed key sk m' \<and> auth_only sk m')"
  proof (rule Cons.IH)
    show "\<forall>sk \<in> insert x D \<union> set sks. auth_only sk m1" using others(1) enc(3) by auto
    show "images_apart (insert x D \<union> set sks) m1"
      using Cons.prems(2) others(3) enc(4) unfolding images_apart_def by auto
    show "\<forall>sk \<in> insert x D. sealed key sk m1" using others(2) enc(2) Cons.prems(3) by auto
    show "distinct sks" "insert x D \<inter> set sks = {}" using Cons.prems(4,5) by auto
  qed
  then show ?case by (simp add: enc(1))
qed auto

lemma fsl_main_eq:
  "fsl_main mb sy key_seed dpu_index m = do {
     g \<leftarrow> hmac_drbg_seed mb nop ''ime-first-stage-loader'';
     g \<leftarrow> hmac_drbg_update mb g key_seed;
     (sys_key, g) \<leftarrow> hmac_drbg_random mb g 8;
     gm \<leftarrow> seal_all mb sys_key (fsl_images sy) (g, m);
     Some (sys_key, dpu_index_seed dpu_index, snd gm) }"
  by (simp add: fsl_main_def fsl_images_def)

lemma fsl_key:
  assumes "length k = 8" "sys_key_buf sy mod 8 = 0" "4096 \<le> sys_key_buf sy" "sys_key_buf sy + 32 \<le> 0x10000"
  shows "User_Key k = selected_key t (of_nat (sys_key_buf sy)) ((wram_cells (ime_wipe_user 0 (fsl_state sy k m s)))(STACK_CANARY := 0xef11b0d9))"
proof -
  have a: "unat (of_nat (sys_key_buf sy) :: u32) = sys_key_buf sy" using assms(4) by (intro unat_of_nat32) simp
  then have "(of_nat (sys_key_buf sy) :: u32) \<noteq> 0" using assms(3) by (metis not_numeral_le_zero unat_0)
  moreover have "wram_cells (ime_wipe_user 0 (fsl_state sy k m s)) = wram_store k (sys_key_buf sy) 32 (wram_cells s)"
    by (simp add: ime_wipe_user_def fsl_state_def)
  moreover have "wram_load ((wram_store k (sys_key_buf sy) 32 w)(STACK_CANARY := x)) (sys_key_buf sy) 32 = k" for w x
    using assms(1,3) by (intro nth_equalityI) (auto simp: wram_load_def wram_store_def STACK_CANARY_def Let_def)
  ultimately show ?thesis by (simp add: selected_key_def a)
qed


text \<open>An mbedtls whose contexts are what has been fed to them, and four images of one chunk of zeros.\<close>

fun limbs :: "nat \<Rightarrow> nat \<Rightarrow> u32 list" where
  "limbs 0 x = []"
| "limbs (Suc n) x = of_nat x # limbs n (x div 2 ^ 32)"

lemma limbs_value: "length (limbs n x) = n" "val32 (limbs n x) = x mod 2 ^ (32 * n)"
proof -
  show "length (limbs n x) = n" by (induction n arbitrary: x) simp_all
  show "val32 (limbs n x) = x mod 2 ^ (32 * n)"
  proof (induction n arbitrary: x)
    case (Suc n)
    have "x mod (2 ^ 32 * 2 ^ (32 * n)) = 2 ^ 32 * (x div 2 ^ 32 mod 2 ^ (32 * n)) + x mod 2 ^ 32"
      by (rule mod_mult2_eq)
    then show ?case by (simp add: Suc unat_of_nat power_add take_bit_eq_mod)
  qed simp
qed

definition mbedtls_demo :: "(u32 list \<times> u32 list \<times> u32 list, unit) mbedtls" where
  "mbedtls_demo = \<lparr>hmac_drbg_seed = (\<lambda>_ _. Some ()), hmac_drbg_update = (\<lambda>_ _. Some ()),
     hmac_drbg_random = (\<lambda>g n. Some (replicate n 1, g)), chachapoly_starts = (\<lambda>k n. (k, n, [])),
     chachapoly_update_aad = (\<lambda>(k, n, a) c. Some (k, n, a @ c)), chachapoly_update = (\<lambda>x c. Some (c, x)),
     chachapoly_finish = (\<lambda>(k, n, a). Some (limbs 4 (poly1305_mac (chacha20_block k 0 n) (blocks4 a @ [[of_nat (4 * length a), 0, 0, 0]]))))\<rparr>"

lemma mbedtls_demo_ok: "drbg_ok mbedtls_demo" "chachapoly_ok mbedtls_demo"
proof -
  show "drbg_ok mbedtls_demo" by (simp add: drbg_ok_def mbedtls_demo_def)
  have feed: "feed_chunks mbedtls_demo cs (k, n, a) = Some (k, n, a @ concat cs)" for cs k n a
    by (induction cs arbitrary: a) (simp_all add: feed_chunks_simps mbedtls_demo_def)
  have "poly1305_mac k bs mod 2 ^ 128 = poly1305_mac k bs" for k bs by (simp add: poly1305_mac_def)
  then show "chachapoly_ok mbedtls_demo"
    unfolding chachapoly_ok_def using feed [of _ _ _ "[]"] limbs_value [of 4] by (auto simp: mbedtls_demo_def)
qed

definition fsl_demo_symbols :: fsl_symbols where
  "fsl_demo_symbols = \<lparr>g_sk_xchg_1 = 4160, g_sk_xchg_2 = 8256, g_sk_xchg_3 = 12352, g_sk_msg = 64, g_tl = 16384, sys_key_buf = 4096\<rparr>"

definition fsl_demo :: cells where
  "fsl_demo j = (let r = j mod 1024 in if 4096 \<le> j then 0 else if r = 16 then 0xA5A5A5A5 else if r = 24 \<or> r = 25 then 2112 else if r = 26 then 1 else 0)"

lemma fsl_demo_image:
  assumes "sk div 4 = 1024 * q + 16" "q < 4" "sk mod 8 = 0"
  shows "auth_only sk fsl_demo" "unat (size_total (sk_header fsl_demo sk)) = 2112"
proof -
  have cell: "fsl_demo (sk div 4 + j) = (if j = 0 then 0xA5A5A5A5 else if j = 8 \<or> j = 9 then 2112 else if j = 10 then 1 else 0)" if "j < 1008" for j
  proof -
    have "(sk div 4 + j) mod 1024 = 16 + j" "sk div 4 + j < 4096" using assms(1,2) that by (simp_all add: add.assoc)
    then show ?thesis by (simp add: fsl_demo_def Let_def)
  qed
  note hdr = sk_header_words [OF assms(3), of fsl_demo]
  have "read_u64 fsl_demo (sk + 64 + 8 * i) = 0" if "i < 256" for i
    unfolding read_body [OF assms(3)] using cell [of "16 + 2 * i"] cell [of "16 + 2 * i + 1"] that by simp
  moreover have "\<not> banned 0" by (simp add: banned_def is_ldmai_def is_thread_ctrl_def is_banned_reg_def Let_def)
  moreover have "sk < 16384" using assms(1,2) by linarith
  ultimately show "auth_only sk fsl_demo"
    using assms(3) cell [of 0] cell [of 8] cell [of 9] cell [of 10] cell [of 11]
    by (simp add: auth_only_def Let_def hdr ime_scratch_a_def FSL_BUFFER_def)
  show "unat (size_total (sk_header fsl_demo sk)) = 2112" using cell [of 9] by (simp add: hdr)
qed

lemma fsl_demo_ok: "fsl_ok fsl_demo_symbols fsl_demo"
proof -
  have im: "auth_only sk fsl_demo" "unat (size_total (sk_header fsl_demo sk)) = 2112" if "sk \<in> {64, 4160, 8256, 12352}" for sk
    using that fsl_demo_image [of sk "sk div 4096"] by auto
  then show ?thesis
    unfolding fsl_ok_def images_apart_def by (simp add: fsl_images_def fsl_demo_symbols_def)
qed


end
