(* ===== verification/Kernel_NW.thy ===== *)
theory Kernel_NW imports SPMD
begin

text \<open>
  Needleman-Wunsch, \<^verbatim>\<open>src/src/NW/main.c\<close>: a service that fills score matrices of 16 by 16 in blocks of
  4 by 4, one anti-diagonal of blocks after the other, with a barrier between them. The blocks of a
  diagonal are shared out to the tasklets; a block is one action: reads of its upper and left
  border and of the scores, the recurrence, and four rows written back. A written row is six
  words long: the first is the border's, as it was read, and the sixth is what the
  cache held from before, here the argument \<open>stale\<close>; it lands in the column that the next block
  computes, or in the padding.
\<close>

section \<open>The code\<close>

record nw_arguments =
  nw_nblocks :: u32
  nw_active_blocks :: u32
  nw_penalty :: u32

record nw_ctrl =
  nw_cmd :: u32
  nw_job_id :: u32
  nw_status :: u32
  nw_pad :: u32

definition NW_ARG_OFFSET :: nat where "NW_ARG_OFFSET = 0x4000"
definition NW_CTRL_OFFSET :: nat where "NW_CTRL_OFFSET = NW_ARG_OFFSET + 0x40"
definition HEAP_BASE :: nat where "HEAP_BASE = NW_ARG_OFFSET + 0x100"
definition BL :: nat where "BL = 16"
definition BL_IN :: nat where "BL_IN = 4"
definition REP :: nat where "REP = BL div BL_IN"
definition NW_CMD_EXIT :: u32 where "NW_CMD_EXIT = 2"
definition NW_ST_RUNNING :: u32 where "NW_ST_RUNNING = 1"
definition NW_ST_DONE :: u32 where "NW_ST_DONE = 2"

definition maximum :: "u32 \<Rightarrow> u32 \<Rightarrow> u32 \<Rightarrow> u32" where
  "maximum a b c = (let k = (if sint a \<le> sint b then b else a) in if sint k \<le> sint c then c else k)"

definition nw_fetch_ctrl :: "cells \<Rightarrow> nw_ctrl" where
  "nw_fetch_ctrl m = (let buf = mram_read m NW_CTRL_OFFSET 16
     in \<lparr>nw_cmd = buf ! 0, nw_job_id = buf ! 1, nw_status = buf ! 2, nw_pad = buf ! 3\<rparr>)"

definition nw_set_status :: "u32 \<Rightarrow> nw_ctrl \<Rightarrow> cells \<Rightarrow> nw_ctrl \<times> cells" where
  "nw_set_status st g m =
     (let g = g\<lparr>nw_status := st\<rparr>
      in (g, mram_write [nw_cmd g, nw_job_id g, nw_status g, nw_pad g] NW_CTRL_OFFSET 16 m))"

definition nw_read_args :: "cells \<Rightarrow> nw_arguments" where
  "nw_read_args m = (let buf = mram_read m NW_ARG_OFFSET 16
     in \<lparr>nw_nblocks = buf ! 0, nw_active_blocks = buf ! 1, nw_penalty = buf ! 2\<rparr>)"

text \<open>A block: the caches are functions from word offsets.\<close>

definition buf_store :: "nat \<Rightarrow> u32 list \<Rightarrow> (nat \<Rightarrow> u32) \<Rightarrow> nat \<Rightarrow> u32" where
  "buf_store off xs c = (\<lambda>k. if off \<le> k \<and> k < off + length xs then xs ! (k - off) else c k)"

definition nw_fetch_input :: "nat \<Rightarrow> cells \<Rightarrow> (nat \<Rightarrow> u32) \<Rightarrow> nat \<Rightarrow> u32" where
  "nw_fetch_input addr_input m cache_input =
     fold (\<lambda>i c. buf_store (i * (BL_IN + 2)) (mram_read m (addr_input + i * ((BL + 2) * 4)) (2 * 4)) c) [1..<BL_IN + 1]
       (buf_store 0 (mram_read m addr_input ((BL_IN + 2) * 4)) cache_input)"

definition nw_fetch_ref :: "nat \<Rightarrow> cells \<Rightarrow> (nat \<Rightarrow> u32) \<Rightarrow> nat \<Rightarrow> u32" where
  "nw_fetch_ref addr_ref m cache_ref =
     fold (\<lambda>i c. buf_store (i * BL_IN) (mram_read m (addr_ref + i * (BL * 4)) (BL_IN * 4)) c) [0..<BL_IN] cache_ref"

definition nw_cell :: "u32 \<Rightarrow> (nat \<Rightarrow> u32) \<Rightarrow> nat \<Rightarrow> nat \<Rightarrow> (nat \<Rightarrow> u32) \<Rightarrow> nat \<Rightarrow> u32" where
  "nw_cell penalty cache_ref i j c = c(i * (BL_IN + 2) + j :=
     maximum (c ((i - 1) * (BL_IN + 2) + j - 1) + cache_ref ((i - 1) * BL_IN + j - 1))
       (c (i * (BL_IN + 2) + j - 1) - penalty) (c ((i - 1) * (BL_IN + 2) + j) - penalty))"

definition nw_compute :: "u32 \<Rightarrow> (nat \<Rightarrow> u32) \<Rightarrow> (nat \<Rightarrow> u32) \<Rightarrow> nat \<Rightarrow> u32" where
  "nw_compute penalty cache_ref c =
     fold (\<lambda>i c. fold (\<lambda>j c. nw_cell penalty cache_ref i j c) [1..<BL_IN + 1] c) [1..<BL_IN + 1] c"

definition nw_write_output :: "nat \<Rightarrow> (nat \<Rightarrow> u32) \<Rightarrow> cells \<Rightarrow> cells" where
  "nw_write_output addr_input c m =
     fold (\<lambda>i m. mram_write (map (\<lambda>k. c (i * (BL_IN + 2) + k)) [0..<BL_IN + 2]) (addr_input + i * ((BL + 2) * 4)) ((BL_IN + 2) * 4) m)
       [1..<BL_IN + 1] m"

definition nw_block :: "u32 \<Rightarrow> nat \<Rightarrow> nat \<Rightarrow> (nat \<Rightarrow> u32) \<Rightarrow> nat \<Rightarrow> nat \<Rightarrow> cells \<Rightarrow> cells" where
  "nw_block penalty base_input base_ref stale t_index_x t_index_y m =
     (let addr_input = base_input + t_index_x * (BL + 2) * BL_IN * 4 + t_index_y * BL_IN * 4;
          addr_ref = base_ref + t_index_x * BL * BL_IN * 4 + t_index_y * BL_IN * 4;
          cache_input = nw_fetch_input addr_input m stale;
          cache_ref = nw_fetch_ref addr_ref m stale
      in nw_write_output addr_input (nw_compute penalty cache_ref cache_input) m)"

text \<open>The shares of the tasklets in \<open>n\<close> blocks.\<close>

definition nw_share :: "nat \<Rightarrow> nat \<Rightarrow> nat list" where
  "nw_share n tasklet_id =
     (let chunks = n div NR_TASKLETS; md = n mod NR_TASKLETS;
          chunks = (if tasklet_id < md then chunks + 1 else chunks);
          start = (if 0 < md then if tasklet_id < md then tasklet_id * chunks
                     else md * (chunks + 1) + (tasklet_id - md) * chunks
                   else tasklet_id * chunks)
      in [start..<start + chunks])"

definition nw_base_input :: "nat \<Rightarrow> nat" where
  "nw_base_input bl = HEAP_BASE + bl * ((BL + 1) * (BL + 2) * 4)"

definition nw_base_ref :: "nw_arguments \<Rightarrow> nat \<Rightarrow> nat" where
  "nw_base_ref args bl =
     (let base = (if nw_nblocks args \<noteq> nw_active_blocks args then HEAP_BASE + unat (nw_active_blocks args) * (BL + 1) * (BL + 2) * 4
                  else HEAP_BASE + unat (nw_nblocks args) * (BL + 1) * (BL + 2) * 4)
      in base + bl * (BL * BL * 4))"

text \<open>A diagonal of the upper left half, and one of the lower right half.\<close>

definition nw_top_left :: "nw_arguments \<Rightarrow> (nat \<Rightarrow> nat \<Rightarrow> nat \<Rightarrow> nat \<Rightarrow> u32) \<Rightarrow> nat \<Rightarrow> nat \<Rightarrow> cells \<Rightarrow> cells \<Rightarrow> bool" where
  "nw_top_left args stale bl blk =
     phase (map (\<lambda>t. map (\<lambda>x. nw_block (nw_penalty args) (nw_base_input bl) (nw_base_ref args bl) (stale bl (blk - 1) x) x (blk - 1 - x))
       (nw_share blk t)) [0..<NR_TASKLETS])"

definition nw_bottom_right :: "nw_arguments \<Rightarrow> (nat \<Rightarrow> nat \<Rightarrow> nat \<Rightarrow> nat \<Rightarrow> u32) \<Rightarrow> nat \<Rightarrow> nat \<Rightarrow> cells \<Rightarrow> cells \<Rightarrow> bool" where
  "nw_bottom_right args stale bl blk =
     phase (map (\<lambda>t. map (\<lambda>x. nw_block (nw_penalty args) (nw_base_input bl) (nw_base_ref args bl) (stale bl (REP + blk - 2) x) x (REP + blk - 2 - x))
       (map (\<lambda>s. blk - 1 + s) (nw_share (REP - blk + 1) t))) [0..<NR_TASKLETS])"

text \<open>Barriers separate the diagonals.\<close>

fun run_phases :: "('s \<Rightarrow> 's \<Rightarrow> bool) list \<Rightarrow> 's \<Rightarrow> 's \<Rightarrow> bool" where
  "run_phases [] m m' \<longleftrightarrow> m' = m"
| "run_phases (P # Ps) m m' \<longleftrightarrow> (\<exists>m1. P m m1 \<and> run_phases Ps m1 m')"

definition nw_matrix :: "nw_arguments \<Rightarrow> (nat \<Rightarrow> nat \<Rightarrow> nat \<Rightarrow> nat \<Rightarrow> u32) \<Rightarrow> nat \<Rightarrow> cells \<Rightarrow> cells \<Rightarrow> bool" where
  "nw_matrix args stale bl =
     run_phases (map (nw_top_left args stale bl) [0..<REP + 1] @ map (nw_bottom_right args stale bl) [2..<REP + 1])"

definition nw_compute_all :: "nw_arguments \<Rightarrow> (nat \<Rightarrow> nat \<Rightarrow> nat \<Rightarrow> nat \<Rightarrow> u32) \<Rightarrow> cells \<Rightarrow> cells \<Rightarrow> bool" where
  "nw_compute_all args stale = run_phases (map (nw_matrix args stale) [0..<unat (nw_nblocks args)])"

text \<open>A job marks itself as running, computes, and marks itself as done; without blocks it is done at once.\<close>

definition nw_job :: "(nat \<Rightarrow> nat \<Rightarrow> nat \<Rightarrow> nat \<Rightarrow> u32) \<Rightarrow> nw_ctrl \<Rightarrow> cells \<Rightarrow> cells \<Rightarrow> bool" where
  "nw_job stale g m m' \<longleftrightarrow>
     (let (g, m) = nw_set_status NW_ST_RUNNING g m; args = nw_read_args m
      in if nw_nblocks args = 0 then m' = snd (nw_set_status NW_ST_DONE g m)
         else \<exists>m1. nw_compute_all args stale m m1 \<and> m' = snd (nw_set_status NW_ST_DONE g m1))"

inductive nw_loop :: "(cells \<Rightarrow> cells \<Rightarrow> bool) \<Rightarrow> nw_ctrl \<Rightarrow> cells \<Rightarrow> (cells \<times> cells) list \<Rightarrow> cells \<Rightarrow> bool" for host where
  exit: "nw_cmd g = NW_CMD_EXIT \<Longrightarrow> nw_loop host g m [] m"
| job: "nw_cmd g \<noteq> NW_CMD_EXIT \<Longrightarrow> nw_job stale g m m1 \<Longrightarrow> host m1 m2 \<Longrightarrow>
    nw_loop host (nw_fetch_ctrl m2) m2 js m' \<Longrightarrow> nw_loop host g m ((m, m1) # js) m'"

definition nw_main :: "(cells \<Rightarrow> cells \<Rightarrow> bool) \<Rightarrow> cells \<Rightarrow> (cells \<times> cells) list \<Rightarrow> cells \<Rightarrow> bool" where
  "nw_main host m js m' \<longleftrightarrow> (\<exists>m1. host m m1 \<and> nw_loop host (nw_fetch_ctrl m1) m1 js m')"

section \<open>The recurrence\<close>

fun nw_rec :: "u32 \<Rightarrow> (nat \<Rightarrow> nat \<Rightarrow> u32) \<Rightarrow> (nat \<Rightarrow> nat \<Rightarrow> u32) \<Rightarrow> nat \<Rightarrow> nat \<Rightarrow> u32" where
  "nw_rec p b r 0 j = b 0 j"
| "nw_rec p b r (Suc i) 0 = b (Suc i) 0"
| "nw_rec p b r (Suc i) (Suc j) =
     maximum (nw_rec p b r i j + r i j) (nw_rec p b r (Suc i) j - p) (nw_rec p b r i (Suc j) - p)"

text \<open>Inside a matrix the recurrence can start again from any row and column.\<close>

lemma nw_rec_shift:
  "nw_rec p (\<lambda>i j. nw_rec p b r (a + i) (c + j)) (\<lambda>i j. r (a + i) (c + j)) i j = nw_rec p b r (a + i) (c + j)"
  by (induction i j rule: nw_rec.induct [of _ p b r]) simp_all

lemma nw_rec_cong:
  "(\<And>k. k \<le> j \<Longrightarrow> b 0 k = b' 0 k) \<Longrightarrow> (\<And>k. k \<le> i \<Longrightarrow> b k 0 = b' k 0) \<Longrightarrow>
   (\<And>k l. k < i \<Longrightarrow> l < j \<Longrightarrow> r k l = r' k l) \<Longrightarrow> nw_rec p b r i j = nw_rec p b' r' i j"
proof (induction p b r i j rule: nw_rec.induct)
  case (3 p b r i j)
  have "nw_rec p b r i j = nw_rec p b' r' i j" "nw_rec p b r (Suc i) j = nw_rec p b' r' (Suc i) j"
    "nw_rec p b r i (Suc j) = nw_rec p b' r' i (Suc j)" by (rule "3.IH"; use "3.prems" in simp)+
  then show ?case using "3.prems"(3) [of i j] by simp
qed simp_all

text \<open>
  A loop that sets one word after the other, each to the value it is meant to have, as long as the
  words it is computed from have theirs.
\<close>

lemma fold_settles:
  assumes "\<And>x. x \<in> V \<Longrightarrow> c x = val x"
    and "\<And>ks k c ks'. xs = ks @ k # ks' \<Longrightarrow> (\<And>x. x \<in> V \<union> h ` set ks \<Longrightarrow> c x = val x) \<Longrightarrow> f k c = c(h k := val (h k))"
  shows "x \<in> V \<union> h ` set xs \<Longrightarrow> fold f xs c x = val x" "x \<notin> h ` set xs \<Longrightarrow> fold f xs c x = c x"
proof -
  have "(\<forall>x \<in> V \<union> h ` set ys. fold f ys c x = val x) \<and> (\<forall>x. x \<notin> h ` set ys \<longrightarrow> fold f ys c x = c x)"
    if "xs = ys @ zs" for ys zs
    using that
  proof (induction ys arbitrary: zs rule: rev_induct)
    case (snoc k ks)
    have IH: "\<And>x. x \<in> V \<union> h ` set ks \<Longrightarrow> fold f ks c x = val x" "\<And>x. x \<notin> h ` set ks \<Longrightarrow> fold f ks c x = c x"
      using snoc.IH [of "k # zs"] snoc.prems by auto
    have "f k (fold f ks c) = (fold f ks c)(h k := val (h k))" using assms(2) [of ks k zs] IH(1) snoc.prems by auto
    then show ?case using IH by auto
  qed (use assms(1) in auto)
  from this [of xs "[]"] show "x \<in> V \<union> h ` set xs \<Longrightarrow> fold f xs c x = val x" "x \<notin> h ` set xs \<Longrightarrow> fold f xs c x = c x" by auto
qed

section \<open>A block\<close>

definition nw_idx :: "(nat \<times> nat) list" where
  "nw_idx = [(1, 1), (1, 2), (1, 3), (1, 4), (2, 1), (2, 2), (2, 3), (2, 4), (3, 1), (3, 2), (3, 3), (3, 4), (4, 1), (4, 2), (4, 3), (4, 4)]"

lemma nw_compute_flat: "nw_compute p cr c = fold (\<lambda>(i, j). nw_cell p cr i j) nw_idx c"
  by (simp add: nw_compute_def nw_idx_def BL_IN_def upt_rec numeral_eq_Suc)

lemma mram_read_at: "mram_read m (8 * h + 8 * k) (8 * n) = map (\<lambda>i. m (2 * h + 2 * k + i)) [0..<2 * n]"
proof -
  have "(8 * h + 8 * k) mod 8 = 0" "8 * n mod 8 = 0" "(8 * h + 8 * k) div 4 = 2 * h + 2 * k" "8 * n div 4 = 2 * n" by auto
  then show ?thesis by (simp only: mram_read_cells)
qed

lemma mram_write_at:
  "mram_write xs (8 * h + 8 * k) (8 * n) m j = (if 2 * h + 2 * k \<le> j \<and> j < 2 * h + 2 * k + 2 * n then xs ! (j - (2 * h + 2 * k)) else m j)"
proof -
  have "(8 * h + 8 * k) mod 8 = 0" "8 * n mod 8 = 0" "(8 * h + 8 * k) div 4 = 2 * h + 2 * k" "8 * n div 4 = 2 * n" by auto
  then show ?thesis by (simp only: mram_write_cells)
qed

lemma upt_1_5: "[1..<BL_IN + 1] = [1, 2, 3, 4]" "[0..<BL_IN] = [0, 1, 2, 3]"
  by (simp_all add: BL_IN_def upt_rec)

lemma nw_fetch_input_cells:
  assumes "i \<le> 4" "j < 6"
  shows "nw_fetch_input (8 * h) m s (6 * i + j) = (if i = 0 \<or> j < 2 then m (2 * h + 18 * i + j) else s (6 * i + j))"
proof -
  have e: "nw_fetch_input (8 * h) m s = buf_store 24 (mram_read m (8 * h + 8 * 36) (8 * 1)) (buf_store 18 (mram_read m (8 * h + 8 * 27) (8 * 1))
      (buf_store 12 (mram_read m (8 * h + 8 * 18) (8 * 1)) (buf_store 6 (mram_read m (8 * h + 8 * 9) (8 * 1)) (buf_store 0 (mram_read m (8 * h + 8 * 0) (8 * 3)) s))))"
    unfolding nw_fetch_input_def upt_1_5 by (simp add: BL_IN_def BL_def)
  have "i = 0 \<or> i = 1 \<or> i = 2 \<or> i = 3 \<or> i = 4" using assms(1) by arith
  then show ?thesis unfolding e mram_read_at buf_store_def using assms(2) by (elim disjE) auto
qed

lemma nw_fetch_ref_cells:
  assumes "i < 4" "j < 4"
  shows "nw_fetch_ref (8 * h) m s (4 * i + j) = m (2 * h + 16 * i + j)"
proof -
  have e: "nw_fetch_ref (8 * h) m s = buf_store 12 (mram_read m (8 * h + 8 * 24) (8 * 2)) (buf_store 8 (mram_read m (8 * h + 8 * 16) (8 * 2))
      (buf_store 4 (mram_read m (8 * h + 8 * 8) (8 * 2)) (buf_store 0 (mram_read m (8 * h + 8 * 0) (8 * 2)) s)))"
    unfolding nw_fetch_ref_def upt_1_5 by (simp add: BL_IN_def BL_def)
  have "i = 0 \<or> i = 1 \<or> i = 2 \<or> i = 3" using assms(1) by arith
  then show ?thesis unfolding e mram_read_at buf_store_def using assms(2) by (elim disjE) auto
qed

lemma nw_write_cells:
  shows "1 \<le> i \<Longrightarrow> i \<le> 4 \<Longrightarrow> q < 6 \<Longrightarrow> nw_write_output (8 * h) c m (2 * h + 18 * i + q) = c (6 * i + q)"
    and "(\<And>i q. 1 \<le> i \<Longrightarrow> i \<le> 4 \<Longrightarrow> q < 6 \<Longrightarrow> k \<noteq> 2 * h + 18 * i + q) \<Longrightarrow> nw_write_output (8 * h) c m k = m k"
proof -
  let ?w = "\<lambda>i. map (\<lambda>k. c (6 * i + k)) [0..<6]"
  have e: "nw_write_output (8 * h) c m = mram_write (?w 4) (8 * h + 8 * 36) (8 * 3) (mram_write (?w 3) (8 * h + 8 * 27) (8 * 3)
      (mram_write (?w 2) (8 * h + 8 * 18) (8 * 3) (mram_write (?w 1) (8 * h + 8 * 9) (8 * 3) m)))"
    unfolding nw_write_output_def upt_1_5 by (simp add: BL_IN_def BL_def del: upt_rec_numeral)
  show "nw_write_output (8 * h) c m (2 * h + 18 * i + q) = c (6 * i + q)" if "1 \<le> i" "i \<le> 4" "q < 6" for i q
  proof -
    have "i = 1 \<or> i = 2 \<or> i = 3 \<or> i = 4" using that by arith
    then show ?thesis unfolding e mram_write_at using that(3) by (elim disjE) (simp_all del: upt_rec_numeral)
  qed
  show "nw_write_output (8 * h) c m k = m k" if out: "\<And>i q. 1 \<le> i \<Longrightarrow> i \<le> 4 \<Longrightarrow> q < 6 \<Longrightarrow> k \<noteq> 2 * h + 18 * i + q" for k
  proof -
    have "\<not> (2 * h + 2 * (9 * i) \<le> k \<and> k < 2 * h + 2 * (9 * i) + 6)" if "1 \<le> i" "i \<le> 4" for i
      using out [OF that, of "k - (2 * h + 18 * i)"] by arith
    from this [of 1] this [of 2] this [of 3] this [of 4] show ?thesis unfolding e mram_write_at by auto
  qed
qed

lemma nw_idx_order:
  assumes "nw_idx = ks @ (i, j) # ks'"
  shows "1 \<le> i" "i \<le> 4" "1 \<le> j" "j \<le> 4"
    "i - 1 = 0 \<or> j - 1 = 0 \<or> (i - 1, j - 1) \<in> set ks" "j - 1 = 0 \<or> (i, j - 1) \<in> set ks" "i - 1 = 0 \<or> (i - 1, j) \<in> set ks"
proof -
  have all: "list_all (\<lambda>n. case nw_idx ! n of (i, j) \<Rightarrow> 1 \<le> i \<and> i \<le> 4 \<and> 1 \<le> j \<and> j \<le> 4
      \<and> (i - 1 = 0 \<or> j - 1 = 0 \<or> (i - 1, j - 1) \<in> set (take n nw_idx)) \<and> (j - 1 = 0 \<or> (i, j - 1) \<in> set (take n nw_idx))
      \<and> (i - 1 = 0 \<or> (i - 1, j) \<in> set (take n nw_idx))) [0..<16]" by code_simp
  have "length ks < 16" using arg_cong [OF assms, of length] by (simp add: nw_idx_def)
  then have *: "case nw_idx ! length ks of (i, j) \<Rightarrow> 1 \<le> i \<and> i \<le> 4 \<and> 1 \<le> j \<and> j \<le> 4
      \<and> (i - 1 = 0 \<or> j - 1 = 0 \<or> (i - 1, j - 1) \<in> set (take (length ks) nw_idx)) \<and> (j - 1 = 0 \<or> (i, j - 1) \<in> set (take (length ks) nw_idx))
      \<and> (i - 1 = 0 \<or> (i - 1, j) \<in> set (take (length ks) nw_idx))"
    by (intro bspec [OF all [unfolded list_all_iff]]) simp
  have "nw_idx ! length ks = (i, j)" "take (length ks) nw_idx = ks" by (simp_all add: assms)
  with * show "1 \<le> i" "i \<le> 4" "1 \<le> j" "j \<le> 4"
    "i - 1 = 0 \<or> j - 1 = 0 \<or> (i - 1, j - 1) \<in> set ks" "j - 1 = 0 \<or> (i, j - 1) \<in> set ks" "i - 1 = 0 \<or> (i - 1, j) \<in> set ks"
    by simp_all
qed

lemma set_nw_idx: "(i, j) \<in> set nw_idx \<longleftrightarrow> 1 \<le> i \<and> i \<le> 4 \<and> 1 \<le> j \<and> j \<le> 4"
proof -
  have "i = 1 \<or> i = 2 \<or> i = 3 \<or> i = 4" "j = 1 \<or> j = 2 \<or> j = 3 \<or> j = 4" if "1 \<le> i" "i \<le> 4" "1 \<le> j" "j \<le> 4"
    using that by arith+
  then have "(i, j) \<in> set nw_idx" if "1 \<le> i" "i \<le> 4" "1 \<le> j" "j \<le> 4"
    using that unfolding nw_idx_def by (elim meta_impE disjE) simp_all
  moreover have "\<forall>x \<in> set nw_idx. 1 \<le> fst x \<and> fst x \<le> 4 \<and> 1 \<le> snd x \<and> snd x \<le> 4" by (simp add: nw_idx_def)
  ultimately show ?thesis by force
qed

lemma nw_compute_cells:
  fixes c cr :: "nat \<Rightarrow> u32" and p :: u32
  defines "rec \<equiv> nw_rec p (\<lambda>i j. c (6 * i + j)) (\<lambda>i j. cr (4 * i + j))"
  shows "i \<le> 4 \<Longrightarrow> j \<le> 4 \<Longrightarrow> nw_compute p cr c (6 * i + j) = rec i j"
    and "(\<And>i j. 1 \<le> i \<Longrightarrow> i \<le> 4 \<Longrightarrow> 1 \<le> j \<Longrightarrow> j \<le> 4 \<Longrightarrow> k \<noteq> 6 * i + j) \<Longrightarrow> nw_compute p cr c k = c k"
proof -
  define h :: "nat \<times> nat \<Rightarrow> nat" where "h = (\<lambda>(i, j). 6 * i + j)"
  define val :: "nat \<Rightarrow> u32" where "val k = rec (k div 6) (k mod 6)" for k
  define V :: "nat set" where "V = {6 * i + j | i j. i \<le> 4 \<and> j \<le> 4 \<and> (i = 0 \<or> j = 0)}"
  have val: "val (6 * i + j) = rec i j" if "j \<le> 4" for i j
    using that by (simp add: val_def)
  have V: "c x = val x" if "x \<in> V" for x :: nat
  proof -
    from that obtain i j where x: "x = 6 * i + j" "i \<le> 4" "j \<le> 4" "i = 0 \<or> j = 0" unfolding V_def by blast
    then show ?thesis using val [of j i] by (cases i) (auto simp: rec_def)
  qed
  have step: "(case k of (i, j) \<Rightarrow> nw_cell p cr i j) c' = c'(h k := val (h k))"
    if idx: "nw_idx = ks @ k # ks'" and prior: "\<And>x. x \<in> V \<union> h ` set ks \<Longrightarrow> c' x = val x" for ks k c' ks'
  proof -
    obtain i j where k: "k = (i, j)" by (cases k)
    note o = nw_idx_order [OF idx [unfolded k]]
    have get: "c' (6 * a + b) = rec a b" if "a \<le> 4" "b \<le> 4" "a = 0 \<or> b = 0 \<or> (a, b) \<in> set ks" for a b
    proof -
      have "6 * a + b \<in> V \<union> h ` set ks" using that unfolding V_def h_def by force
      then show ?thesis using prior val that(2) by simp
    qed
    obtain a b where ab: "i = Suc a" "j = Suc b" using o(1,3) by (cases i; cases j) auto
    have get3: "c' (6 * a + b) = rec a b" "c' (6 * a + Suc b) = rec a (Suc b)" "c' (6 * Suc a + b) = rec (Suc a) b"
      by (rule get; use o ab in force)+
    have idx: "(i - 1) * (BL_IN + 2) + j - 1 = 6 * a + b" "(i - 1) * BL_IN + j - 1 = 4 * a + b"
      "i * (BL_IN + 2) + j - 1 = 6 * Suc a + b" "(i - 1) * (BL_IN + 2) + j = 6 * a + Suc b" "i * (BL_IN + 2) + j = h (i, j)"
      by (simp_all add: ab h_def BL_IN_def)
    have v: "val (h (i, j)) = maximum (rec a b + cr (4 * a + b)) (rec (Suc a) b - p) (rec a (Suc b) - p)"
      using val [of j i] o(4) by (simp add: ab h_def rec_def)
    show ?thesis unfolding k nw_cell_def prod.case unfolding idx(1-3) unfolding idx(4,5) v get3 ..
  qed
  have img: "h ` set nw_idx = {6 * i + j | i j. 1 \<le> i \<and> i \<le> 4 \<and> 1 \<le> j \<and> j \<le> 4}"
    unfolding h_def using set_nw_idx by force
  show "nw_compute p cr c (6 * i + j) = rec i j" if "i \<le> 4" "j \<le> 4"
  proof -
    have "6 * i + j \<in> V" if "i = 0 \<or> j = 0" using that \<open>i \<le> 4\<close> \<open>j \<le> 4\<close> unfolding V_def by blast
    moreover have "6 * i + j \<in> h ` set nw_idx" if "1 \<le> i" "1 \<le> j" using that \<open>i \<le> 4\<close> \<open>j \<le> 4\<close> unfolding img by blast
    ultimately have "6 * i + j \<in> V \<union> h ` set nw_idx" by (cases "i = 0 \<or> j = 0") auto
    then have "fold (\<lambda>(i, j). nw_cell p cr i j) nw_idx c (6 * i + j) = val (6 * i + j)"
      by (rule fold_settles(1) [where V = V and val = val and h = h and f = "\<lambda>(i, j). nw_cell p cr i j", rotated 2]) (fact V step)+
    then show ?thesis unfolding nw_compute_flat val [OF that(2)] .
  qed
  show "nw_compute p cr c k = c k" if "\<And>i j. 1 \<le> i \<Longrightarrow> i \<le> 4 \<Longrightarrow> 1 \<le> j \<Longrightarrow> j \<le> 4 \<Longrightarrow> k \<noteq> 6 * i + j"
  proof -
    have "k \<notin> h ` set nw_idx" unfolding img using that by blast
    then show ?thesis unfolding nw_compute_flat
      by (rule fold_settles(2) [where V = V and val = val and h = h and f = "\<lambda>(i, j). nw_cell p cr i j", rotated 2]) (fact V step)+
  qed
qed

text \<open>What a block does to the words of MRAM, from the matrix at \<open>8 * h\<close> and the scores at \<open>8 * f\<close>.\<close>

lemma nw_block_cells:
  fixes h f x y m
  defines "a \<equiv> 2 * h + 72 * x + 4 * y" and "b \<equiv> 2 * f + 64 * x + 4 * y"
  shows "1 \<le> i \<Longrightarrow> i \<le> 4 \<Longrightarrow> j \<le> 4 \<Longrightarrow> nw_block p (8 * h) (8 * f) s x y m (a + 18 * i + j) =
      nw_rec p (\<lambda>i j. m (a + 18 * i + j)) (\<lambda>i j. m (b + 16 * i + j)) i j"
    and "1 \<le> i \<Longrightarrow> i \<le> 4 \<Longrightarrow> nw_block p (8 * h) (8 * f) s x y m (a + 18 * i + 5) = s (6 * i + 5)"
    and "(\<And>i j. 1 \<le> i \<Longrightarrow> i \<le> 4 \<Longrightarrow> 1 \<le> j \<Longrightarrow> j \<le> 5 \<Longrightarrow> k \<noteq> a + 18 * i + j) \<Longrightarrow>
      nw_block p (8 * h) (8 * f) s x y m k = m k"
proof -
  define h' where "h' = h + 36 * x + 2 * y"
  define f' where "f' = f + 32 * x + 2 * y"
  let ?ci = "nw_fetch_input (8 * h') m s" and ?cr = "nw_fetch_ref (8 * f') m s"
  have e: "nw_block p (8 * h) (8 * f) s x y m = nw_write_output (8 * h') (nw_compute p ?cr ?ci) m"
    by (simp add: nw_block_def Let_def BL_def BL_IN_def h'_def f'_def algebra_simps)
  have a: "a = 2 * h'" and b: "b = 2 * f'" by (simp_all add: a_def b_def h'_def f'_def)
  have cell: "nw_block p (8 * h) (8 * f) s x y m (a + 18 * i + j) =
      nw_rec p (\<lambda>i j. m (a + 18 * i + j)) (\<lambda>i j. m (b + 16 * i + j)) i j" if "1 \<le> i" "i \<le> 4" "j \<le> 4" for i j
  proof -
    have "nw_block p (8 * h) (8 * f) s x y m (a + 18 * i + j) = nw_compute p ?cr ?ci (6 * i + j)"
      unfolding e a by (rule nw_write_cells(1)) (use that in auto)
    also have "\<dots> = nw_rec p (\<lambda>i j. ?ci (6 * i + j)) (\<lambda>i j. ?cr (4 * i + j)) i j"
      by (rule nw_compute_cells(1)) (use that in auto)
    also have "\<dots> = nw_rec p (\<lambda>i j. m (a + 18 * i + j)) (\<lambda>i j. m (b + 16 * i + j)) i j"
    proof (rule nw_rec_cong)
      show "?ci (6 * 0 + k) = m (a + 18 * 0 + k)" if "k \<le> j" for k
        using nw_fetch_input_cells [of 0 k] that \<open>j \<le> 4\<close> by (simp add: a)
      show "?ci (6 * k + 0) = m (a + 18 * k + 0)" if "k \<le> i" for k
        using nw_fetch_input_cells [of k 0] that \<open>i \<le> 4\<close> by (simp add: a)
      show "?cr (4 * k + l) = m (b + 16 * k + l)" if "k < i" "l < j" for k l
        using nw_fetch_ref_cells [of k l] that \<open>i \<le> 4\<close> \<open>j \<le> 4\<close> by (simp add: b)
    qed
    finally show ?thesis .
  qed
  then show "1 \<le> i \<Longrightarrow> i \<le> 4 \<Longrightarrow> j \<le> 4 \<Longrightarrow> nw_block p (8 * h) (8 * f) s x y m (a + 18 * i + j) =
      nw_rec p (\<lambda>i j. m (a + 18 * i + j)) (\<lambda>i j. m (b + 16 * i + j)) i j" .
  show "nw_block p (8 * h) (8 * f) s x y m (a + 18 * i + 5) = s (6 * i + 5)" if "1 \<le> i" "i \<le> 4"
  proof -
    have "nw_block p (8 * h) (8 * f) s x y m (a + 18 * i + 5) = nw_compute p ?cr ?ci (6 * i + 5)"
      unfolding e a by (rule nw_write_cells(1)) (use that in auto)
    also have "\<dots> = ?ci (6 * i + 5)" by (rule nw_compute_cells(2)) presburger
    also have "\<dots> = s (6 * i + 5)" using nw_fetch_input_cells [of i 5] that by simp
    finally show ?thesis .
  qed
  show "nw_block p (8 * h) (8 * f) s x y m k = m k"
    if out: "\<And>i j. 1 \<le> i \<Longrightarrow> i \<le> 4 \<Longrightarrow> 1 \<le> j \<Longrightarrow> j \<le> 5 \<Longrightarrow> k \<noteq> a + 18 * i + j"
  proof (cases "\<exists>i. 1 \<le> i \<and> i \<le> 4 \<and> k = a + 18 * i")
    case True
    then obtain i where "1 \<le> i" "i \<le> 4" "k = a + 18 * i" by blast
    then show ?thesis using cell [of i 0] by (cases i) auto
  next
    case False
    show ?thesis unfolding e
    proof (rule nw_write_cells(2))
      fix i q :: nat
      assume iq: "1 \<le> i" "i \<le> 4" "q < 6"
      then show "k \<noteq> 2 * h' + 18 * i + q"
        using out [of i q] False by (cases q) (auto simp: a)
    qed
  qed
qed

section \<open>A diagonal\<close>

text \<open>The words a block writes and reads; \<open>d\<close> is the number of its diagonal.\<close>

definition nw_writes :: "nat \<Rightarrow> nat \<Rightarrow> nat \<Rightarrow> nat set" where
  "nw_writes h d x = {2 * h + 18 * (4 * x + i) + (4 * (d - x) + j) | i j. 1 \<le> i \<and> i \<le> 4 \<and> 1 \<le> j \<and> j \<le> 5}"

definition nw_reads :: "nat \<Rightarrow> nat \<Rightarrow> nat \<Rightarrow> nat \<Rightarrow> nat set" where
  "nw_reads h f d x = {2 * h + 18 * (4 * x) + (4 * (d - x) + j) | j. j \<le> 4} \<union> {2 * h + 18 * (4 * x + i) + 4 * (d - x) | i. 1 \<le> i \<and> i \<le> 4}
    \<union> {2 * f + 16 * (4 * x + i) + (4 * (d - x) + j) | i j. i < 4 \<and> j < 4}"

definition nw_diag :: "nat \<Rightarrow> nat set" where
  "nw_diag d = {x. x \<le> d \<and> x < 4 \<and> d < x + 4}"

lemma row_col:
  assumes "18 * a + b = 18 * c + e" "b < 18" "e < (18 :: nat)"
  shows "a = c \<and> b = e"
proof -
  have "a = (18 * a + b) div 18" "c = (18 * c + e) div 18" using assms(2,3) by simp_all
  then have "a = c" using assms(1) by metis
  then show ?thesis using assms(1) by simp
qed

lemma row_colE:
  assumes "h + 18 * a + b = h + 18 * c + e" "b < 18" "e < (18 :: nat)"
  obtains "a = c" "b = e"
  using row_col [of a b c e] assms by auto

definition scores_apart :: "nat \<Rightarrow> nat \<Rightarrow> bool" where
  "scores_apart h f \<longleftrightarrow> 2 * h + 306 \<le> 2 * f \<or> 2 * f + 256 \<le> 2 * h"

lemma nw_writes_apart:
  assumes apart: "scores_apart h f" and xz: "x \<in> nw_diag d" "z \<in> nw_diag d" "x \<noteq> z"
  shows "nw_writes h d x \<inter> (nw_writes h d z \<union> nw_reads h f d z) = {}"
proof -
  have "False" if k: "k \<in> nw_writes h d x" and k': "k \<in> nw_writes h d z \<union> nw_reads h f d z" for k
  proof -
    from k obtain i j where ij: "1 \<le> i" "i \<le> 4" "1 \<le> j" "j \<le> 5" and kx: "k = 2 * h + 18 * (4 * x + i) + (4 * (d - x) + j)"
      unfolding nw_writes_def by blast
    have c: "4 * (d - x) + j < 18" "x < 4" "x \<le> d" using xz(1) ij(4) by (auto simp: nw_diag_def)
    have cz: "d - z < 4" "z < 4" "z \<le> d" using xz(2) by (auto simp: nw_diag_def)
    from k' consider
        (w) i' j' where "1 \<le> i'" "i' \<le> 4" "1 \<le> j'" "j' \<le> 5" "k = 2 * h + 18 * (4 * z + i') + (4 * (d - z) + j')"
      | (row) j' where "j' \<le> 4" "k = 2 * h + 18 * (4 * z) + (4 * (d - z) + j')"
      | (col) i' where "1 \<le> i'" "i' \<le> 4" "k = 2 * h + 18 * (4 * z + i') + 4 * (d - z)"
      | (ref) i' j' where "i' < 4" "j' < 4" "k = 2 * f + 16 * (4 * z + i') + (4 * (d - z) + j')"
      unfolding nw_writes_def nw_reads_def by blast
    then show False
    proof cases
      case w
      have "4 * x + i = 4 * z + i'" using kx w cz c by (elim row_colE [OF trans [OF kx [symmetric] w(5)]]) auto
      then show False using ij w(1,2) xz(3) by presburger
    next
      case row
      have "4 * x + i = 4 * z" "4 * (d - x) + j = 4 * (d - z) + j'"
        using cz c row(1) by (auto elim: row_colE [OF trans [OF kx [symmetric] row(2)]])
      moreover have z: "z = x + 1" using calculation(1) ij(1,2) by arith
      ultimately have "4 * (d - x) + j = 4 * (d - (x + 1)) + j'" by simp
      moreover have "d - x = Suc (d - (x + 1))" using cz(3) z by arith
      ultimately show False using row(1) ij(3) by simp
    next
      case col
      have "4 * x + i = 4 * z + i'" using cz c by (auto elim: row_colE [OF trans [OF kx [symmetric] col(3)]])
      then show False using ij col(1,2) xz(3) by presburger
    next
      case ref
      have "k < 2 * h + 306" "2 * h \<le> k" unfolding kx using ij c by auto
      moreover have "2 * f \<le> k" "k < 2 * f + 256" unfolding ref(3) using ref(1,2) cz by auto
      ultimately show False using apart by (auto simp: scores_apart_def)
    qed
  qed
  then show "nw_writes h d x \<inter> (nw_writes h d z \<union> nw_reads h f d z) = {}" by blast
qed

lemma nw_disjoint:
  assumes "scores_apart h f"
  shows "disjoint_steps (\<lambda>x. nw_block p (8 * h) (8 * f) (s x) x (d - x)) (nw_diag d) (nw_writes h d) (nw_reads h f d)"
proof
  fix x k m
  assume "x \<in> nw_diag d" "k \<notin> nw_writes h d x"
  then show "nw_block p (8 * h) (8 * f) (s x) x (d - x) m k = m k"
    by (intro nw_block_cells(3)) (auto simp: nw_writes_def)
next
  fix x k and m m' :: cells
  assume x: "x \<in> nw_diag d" and eq: "\<And>i. i \<in> nw_reads h f d x \<Longrightarrow> m i = m' i" and k: "k \<in> nw_writes h d x"
  let ?B = "nw_block p (8 * h) (8 * f) (s x) x (d - x)" and ?a = "2 * h + 72 * x + 4 * (d - x)" and ?b = "2 * f + 64 * x + 4 * (d - x)"
  from k obtain i j where ij: "1 \<le> i" "i \<le> 4" "1 \<le> j" "j \<le> 5" and k': "k = ?a + 18 * i + j"
    unfolding nw_writes_def by (auto simp: algebra_simps)
  show "?B m k = ?B m' k"
  proof (cases "j = 5")
    case True
    show ?thesis unfolding k' True by (simp only: nw_block_cells(2) [OF ij(1,2)])
  next
    case False
    then have j: "j \<le> 4" using ij(4) by simp
    show ?thesis unfolding k' nw_block_cells(1) [OF ij(1,2) j]
    proof (rule nw_rec_cong)
      show "m (?a + 18 * 0 + l) = m' (?a + 18 * 0 + l)" if "l \<le> j" for l
        by (rule eq) (use that j in \<open>auto simp: nw_reads_def\<close>)
      show "m (?a + 18 * l + 0) = m' (?a + 18 * l + 0)" if "l \<le> i" for l
      proof (rule eq)
        show "?a + 18 * l + 0 \<in> nw_reads h f d x"
          using that ij(2) by (cases "l = 0") (auto simp: nw_reads_def)
      qed
      show "m (?b + 16 * l + n) = m' (?b + 16 * l + n)" if "l < i" "n < j" for l n
      proof (rule eq)
        have "?b + 16 * l + n = 2 * f + 16 * (4 * x + l) + (4 * (d - x) + n)" by simp
        then show "?b + 16 * l + n \<in> nw_reads h f d x"
          unfolding nw_reads_def using that ij(2) j by (intro UnI2 CollectI exI [of _ l] exI [of _ n]) simp
      qed
    qed
  qed
next
  fix x z
  assume "x \<in> nw_diag d" "z \<in> nw_diag d" "x \<noteq> z"
  then show "nw_writes h d x \<inter> (nw_writes h d z \<union> nw_reads h f d z) = {}" by (rule nw_writes_apart [OF assms])
qed

text \<open>
  The matrix before diagonal \<open>d\<close>, against the memory \<open>m0\<close> it was in at the start: the blocks on earlier
  diagonals hold their scores, and nothing outside the interior has changed.
\<close>

definition nw_score :: "u32 \<Rightarrow> nat \<Rightarrow> nat \<Rightarrow> cells \<Rightarrow> nat \<Rightarrow> nat \<Rightarrow> u32" where
  "nw_score p h f m = nw_rec p (\<lambda>i j. m (2 * h + 18 * i + j)) (\<lambda>i j. m (2 * f + 16 * i + j))"

definition nw_interior :: "nat \<Rightarrow> nat set" where
  "nw_interior h = {2 * h + 18 * i + j | i j. 1 \<le> i \<and> i \<le> 16 \<and> 1 \<le> j \<and> j \<le> 17}"

definition nw_done :: "u32 \<Rightarrow> nat \<Rightarrow> nat \<Rightarrow> cells \<Rightarrow> nat \<Rightarrow> cells \<Rightarrow> bool" where
  "nw_done p h f m0 d m \<longleftrightarrow>
     (\<forall>i j. 1 \<le> i \<longrightarrow> i \<le> 16 \<longrightarrow> 1 \<le> j \<longrightarrow> j \<le> 16 \<longrightarrow> (i - 1) div 4 + (j - 1) div 4 < d \<longrightarrow>
        m (2 * h + 18 * i + j) = nw_score p h f m0 i j)
     \<and> (\<forall>k. k \<notin> nw_interior h \<longrightarrow> m k = m0 k)"

lemma nw_done_score:
  assumes "nw_done p h f m0 d m" "i \<le> 16" "j \<le> 16" "i = 0 \<or> j = 0 \<or> (i - 1) div 4 + (j - 1) div 4 < d"
  shows "m (2 * h + 18 * i + j) = nw_score p h f m0 i j"
proof (cases "i = 0 \<or> j = 0")
  case True
  have "2 * h + 18 * i + j \<notin> nw_interior h"
  proof
    assume "2 * h + 18 * i + j \<in> nw_interior h"
    then obtain i' j' where "2 * h + 18 * i + j = 2 * h + 18 * i' + j'" "1 \<le> i'" "1 \<le> j'" "j' \<le> 17" unfolding nw_interior_def by blast
    then show False using True assms(3) row_colE [of "2 * h" i j i' j' False] by auto
  qed
  then show ?thesis using assms(1) True by (cases i) (auto simp: nw_done_def nw_score_def)
qed (use assms in \<open>auto simp: nw_done_def\<close>)

lemma interior_bounds: "k \<in> nw_interior h \<Longrightarrow> 2 * h \<le> k \<and> k < 2 * h + 306"
  by (auto simp: nw_interior_def)

lemma nw_earlier_kept:
  assumes z: "z \<in> nw_diag d" and xy: "x + y < d" "y < 4" and a: "1 \<le> a" "a \<le> 4" and b: "1 \<le> b" "b \<le> 4"
  shows "2 * h + 18 * (4 * x + a) + (4 * y + b) \<notin> nw_writes h d z"
proof
  assume "2 * h + 18 * (4 * x + a) + (4 * y + b) \<in> nw_writes h d z"
  then obtain a' b' where *: "1 \<le> a'" "a' \<le> 4" "1 \<le> b'" "b' \<le> 5"
      "2 * h + 18 * (4 * x + a) + (4 * y + b) = 2 * h + 18 * (4 * z + a') + (4 * (d - z) + b')"
    unfolding nw_writes_def by blast
  have "4 * y + b < 18" "4 * (d - z) + b' < 18" using xy(2) b(2) *(4) z by (auto simp: nw_diag_def)
  then have eq: "4 * x + a = 4 * z + a'" "4 * y + b = 4 * (d - z) + b'" using row_colE [OF *(5)] by blast+
  then have "z = x" using a *(1,2) by arith
  then have "Suc y \<le> d - z" using xy(1) by arith
  then show False using eq(2) *(3) b(2) by linarith
qed

lemma border_earlier:
  assumes "l \<le> 4"
  shows "x = 0 \<or> (4 * x - 1) div 4 + (4 * y + l - 1) div 4 < x + (y :: nat)"
proof (cases "x = 0")
  case False
  have "(4 * x - 1) div 4 < x" by (rule less_mult_imp_div_less) (use False in simp)
  moreover have "(4 * y + l - 1) div 4 < y + 1" by (rule less_mult_imp_div_less) (use assms in simp)
  ultimately show ?thesis by simp
qed simp

lemma nw_block_scores:
  assumes apart: "scores_apart h f" and inv: "nw_done p h f m0 d m" and xy: "x < 4" "y < 4" "d = x + y"
    and a: "1 \<le> a" "a \<le> 4" and b: "1 \<le> b" "b \<le> 4"
  shows "nw_block p (8 * h) (8 * f) s x y m (2 * h + 72 * x + 4 * y + 18 * a + b) = nw_score p h f m0 (4 * x + a) (4 * y + b)"
proof -
  let ?a = "2 * h + 72 * x + 4 * y" and ?b = "2 * f + 64 * x + 4 * y"
  have "nw_block p (8 * h) (8 * f) s x y m (?a + 18 * a + b) = nw_rec p (\<lambda>i j. m (?a + 18 * i + j)) (\<lambda>i j. m (?b + 16 * i + j)) a b"
    by (rule nw_block_cells(1) [OF a b(2)])
  also have "\<dots> = nw_rec p (\<lambda>i j. nw_score p h f m0 (4 * x + i) (4 * y + j)) (\<lambda>i j. m0 (2 * f + 16 * (4 * x + i) + (4 * y + j))) a b"
  proof (rule nw_rec_cong)
    show "m (?a + 18 * 0 + l) = nw_score p h f m0 (4 * x + 0) (4 * y + l)" if l: "l \<le> b" for l
    proof -
      have "m (2 * h + 18 * (4 * x) + (4 * y + l)) = nw_score p h f m0 (4 * x) (4 * y + l)"
      proof (rule nw_done_score [OF inv])
        show "4 * x = 0 \<or> 4 * y + l = 0 \<or> (4 * x - 1) div 4 + (4 * y + l - 1) div 4 < d"
          using border_earlier [of l x y] l b(2) unfolding xy(3) by auto
      qed (use l b xy in auto)
      then show ?thesis by (simp add: algebra_simps)
    qed
    show "m (?a + 18 * l + 0) = nw_score p h f m0 (4 * x + l) (4 * y + 0)" if l: "l \<le> a" for l
    proof -
      have "m (2 * h + 18 * (4 * x + l) + 4 * y) = nw_score p h f m0 (4 * x + l) (4 * y)"
      proof (rule nw_done_score [OF inv])
        show "4 * x + l = 0 \<or> 4 * y = 0 \<or> (4 * x + l - 1) div 4 + (4 * y - 1) div 4 < d"
          using border_earlier [of l y x] l a(2) unfolding xy(3) by (auto simp: add.commute)
      qed (use l a xy in auto)
      then show ?thesis by (simp add: algebra_simps)
    qed
    show "m (?b + 16 * l + n) = m0 (2 * f + 16 * (4 * x + l) + (4 * y + n))" if ln: "l < a" "n < b" for l n
    proof -
      let ?k = "2 * f + 16 * (4 * x + l) + (4 * y + n)"
      have "2 * f \<le> ?k" "?k < 2 * f + 256" using ln a(2) b(2) xy by auto
      then have "?k \<notin> nw_interior h" using apart interior_bounds [of ?k h] unfolding scores_apart_def by arith
      then have "m ?k = m0 ?k" using inv by (simp add: nw_done_def)
      moreover have eq: "?b + 16 * l + n = ?k" by simp
      ultimately show ?thesis unfolding eq by simp
    qed
  qed
  also have "\<dots> = nw_score p h f m0 (4 * x + a) (4 * y + b)" unfolding nw_score_def
    using nw_rec_shift [of p "\<lambda>i j. m0 (2 * h + 18 * i + j)" "\<lambda>i j. m0 (2 * f + 16 * i + j)" "4 * x" "4 * y" a b]
    by (simp only: add.assoc)
  finally show ?thesis .
qed

lemma nw_diagonal:
  assumes apart: "scores_apart h f" and inv: "nw_done p h f m0 d m"
    and ph: "phase (map (\<lambda>t. map (\<lambda>x. nw_block p (8 * h) (8 * f) (s x) x (d - x)) (idx t)) ts) m m'"
    and idx: "distinct (concat (map idx ts))" "(\<Union>t \<in> set ts. set (idx t)) = nw_diag d"
  shows "nw_done p h f m0 (Suc d) m'"
proof -
  note ds = nw_disjoint [OF apart, of p s d]
  have sub: "set (idx t) \<subseteq> nw_diag d" if "t \<in> set ts" for t using idx(2) that by blast
  note res = disjoint_steps.phase_blocks [OF ds ph sub idx(1)]
  have wr: "m' k = nw_block p (8 * h) (8 * f) (s x) x (d - x) m k" if x: "x \<in> nw_diag d" and k: "k \<in> nw_writes h d x" for x k
  proof -
    from x idx(2) obtain t where "t \<in> set ts" "x \<in> set (idx t)" by blast
    then show ?thesis by (intro res(1) [OF _ _ _ k]) simp_all
  qed
  have keep: "m' k = m k" if "\<And>x. x \<in> nw_diag d \<Longrightarrow> k \<notin> nw_writes h d x" for k
  proof (rule res(2))
    fix t x assume "t \<in> set ts" "x \<in> set (idx t)"
    then have "x \<in> nw_diag d" using sub by blast
    then show "k \<notin> nw_writes h d x" by (rule that)
  qed simp
  have row: "4 * x + i \<le> 16" "4 * (d - x) + j \<le> 17" if "x \<in> nw_diag d" "i \<le> 4" "j \<le> 5" for x i j
    using that by (auto simp: nw_diag_def)
  have W: "nw_writes h d x \<subseteq> nw_interior h" if x: "x \<in> nw_diag d" for x
  proof
    fix k assume "k \<in> nw_writes h d x"
    then obtain i j where "1 \<le> i" "i \<le> 4" "1 \<le> j" "j \<le> 5" and k: "k = 2 * h + 18 * (4 * x + i) + (4 * (d - x) + j)"
      unfolding nw_writes_def by blast
    then show "k \<in> nw_interior h" unfolding nw_interior_def k using row [OF x, of i j]
      by (intro CollectI exI [of _ "4 * x + i"] exI [of _ "4 * (d - x) + j"]) simp
  qed
  show ?thesis unfolding nw_done_def
  proof (intro conjI allI impI)
    fix k assume k: "k \<notin> nw_interior h"
    have "m' k = m k" using W k by (intro keep) blast
    then show "m' k = m0 k" using inv k by (simp add: nw_done_def)
  next
    fix i j :: nat
    assume ij: "1 \<le> i" "i \<le> 16" "1 \<le> j" "j \<le> 16" "(i - 1) div 4 + (j - 1) div 4 < Suc d"
    define x where "x = (i - 1) div 4"
    define y where "y = (j - 1) div 4"
    define a where "a = i - 4 * x"
    define b where "b = j - 4 * y"
    have ia: "i = 4 * x + a" "1 \<le> a" "a \<le> 4" and jb: "j = 4 * y + b" "1 \<le> b" "b \<le> 4" and xy: "x < 4" "y < 4"
      using ij(1-4) mult_div_mod_eq [of 4 "i - 1"] mult_div_mod_eq [of 4 "j - 1"] mod_less_divisor [of 4 "i - 1"] mod_less_divisor [of 4 "j - 1"]
      unfolding a_def b_def x_def [symmetric] y_def [symmetric] by linarith+
    show "m' (2 * h + 18 * i + j) = nw_score p h f m0 i j"
    proof (cases "x + y < d")
      case True
      have "2 * h + 18 * i + j \<notin> nw_writes h d z" if "z \<in> nw_diag d" for z
        unfolding ia(1) jb(1) by (rule nw_earlier_kept [OF that True xy(2) ia(2,3) jb(2,3)])
      then have "m' (2 * h + 18 * i + j) = m (2 * h + 18 * i + j)" by (rule keep)
      also have "\<dots> = nw_score p h f m0 i j"
        by (rule nw_done_score [OF inv ij(2,4)]) (use True in \<open>simp add: x_def y_def\<close>)
      finally show ?thesis .
    next
      case False
      then have d: "d = x + y" using ij(5) by (simp add: x_def y_def)
      have xd: "x \<in> nw_diag d" and y: "d - x = y" using xy by (auto simp: nw_diag_def d)
      have kW: "2 * h + 18 * i + j \<in> nw_writes h d x"
        unfolding nw_writes_def y using ia jb by (intro CollectI exI [of _ a] exI [of _ b]) simp
      have "m' (2 * h + 18 * i + j) = nw_block p (8 * h) (8 * f) (s x) x (d - x) m (2 * h + 72 * x + 4 * y + 18 * a + b)"
        unfolding wr [OF xd kW] by (simp add: ia(1) jb(1) algebra_simps)
      also have "\<dots> = nw_score p h f m0 i j"
        unfolding y ia(1) jb(1) by (rule nw_block_scores [OF apart inv xy d ia(2,3) jb(2,3)])
      finally show ?thesis .
    qed
  qed
qed

section \<open>A matrix\<close>

lemma nw_share_small:
  assumes "n \<le> 4"
  shows "nw_share n t = (if t < n then [t] else [])"
proof -
  have "n div NR_TASKLETS = 0" "n mod NR_TASKLETS = n" using assms by (simp_all add: NR_TASKLETS_def)
  then show ?thesis by (simp add: nw_share_def Let_def)
qed

lemma nw_shares:
  assumes "n \<le> 4"
  shows "concat (map (nw_share n) [0..<NR_TASKLETS]) = [0..<n]"
proof -
  have "concat (map (\<lambda>t. if t < n then [t] else []) [0..<k]) = [0..<min n k]" for k
  proof (induction k)
    case (Suc k)
    show ?case by (cases "k < n") (simp_all add: Suc min.absorb1 min.absorb2)
  qed simp
  moreover have "nw_share n = (\<lambda>t. if t < n then [t] else [])" by (rule ext) (rule nw_share_small [OF assms])
  moreover have "min n NR_TASKLETS = n" using assms by (simp add: NR_TASKLETS_def)
  ultimately show ?thesis by simp
qed

lemma nw_shares_from:
  assumes "n \<le> 4"
  shows "distinct (concat (map (\<lambda>t. map (\<lambda>s. a + s) (nw_share n t)) [0..<NR_TASKLETS]))"
    "(\<Union>t \<in> set [0..<NR_TASKLETS]. set (map (\<lambda>s. a + s) (nw_share n t))) = {a..<a + n}"
proof -
  have *: "concat (map (\<lambda>t. map (\<lambda>s. a + s) (nw_share n t)) [0..<NR_TASKLETS]) = map (\<lambda>s. a + s) [0..<n]"
    unfolding nw_shares [OF assms, symmetric] by (simp only: map_concat map_map comp_def)
  then show "distinct (concat (map (\<lambda>t. map (\<lambda>s. a + s) (nw_share n t)) [0..<NR_TASKLETS]))" by (simp add: distinct_map)
  have "(\<Union>t \<in> set [0..<NR_TASKLETS]. set (map (\<lambda>s. a + s) (nw_share n t)))
      = set (concat (map (\<lambda>t. map (\<lambda>s. a + s) (nw_share n t)) [0..<NR_TASKLETS]))" by simp
  also have "\<dots> = {a..<a + n}" unfolding * by (simp add: add.commute)
  finally show "(\<Union>t \<in> set [0..<NR_TASKLETS]. set (map (\<lambda>s. a + s) (nw_share n t))) = {a..<a + n}" .
qed

definition nw_mat :: "nat \<Rightarrow> nat" where "nw_mat bl = 2080 + 153 * bl"
definition nw_ref :: "nw_arguments \<Rightarrow> nat \<Rightarrow> nat" where "nw_ref args bl = 2080 + 153 * unat (nw_active_blocks args) + 128 * bl"

lemma nw_bases: "nw_base_input bl = 8 * nw_mat bl" "nw_base_ref args bl = 8 * nw_ref args bl"
  by (simp_all add: nw_base_input_def nw_base_ref_def nw_mat_def nw_ref_def HEAP_BASE_def NW_ARG_OFFSET_def BL_def)

lemma nw_top_left_step:
  assumes "scores_apart (nw_mat bl) (nw_ref args bl)" "nw_done (nw_penalty args) (nw_mat bl) (nw_ref args bl) m0 d m"
    "nw_top_left args stale bl (Suc d) m m'" "d < 4"
  shows "nw_done (nw_penalty args) (nw_mat bl) (nw_ref args bl) m0 (Suc d) m'"
proof (rule nw_diagonal [OF assms(1,2)])
  show "phase (map (\<lambda>t. map (\<lambda>x. nw_block (nw_penalty args) (8 * nw_mat bl) (8 * nw_ref args bl) (stale bl d x) x (d - x))
      (nw_share (Suc d) t)) [0..<NR_TASKLETS]) m m'"
    using assms(3) by (simp add: nw_top_left_def nw_bases)
  show "distinct (concat (map (nw_share (Suc d)) [0..<NR_TASKLETS]))" "(\<Union>t \<in> set [0..<NR_TASKLETS]. set (nw_share (Suc d) t)) = nw_diag d"
    using nw_shares_from [of "Suc d" 0] assms(4) by (auto simp: nw_diag_def)
qed

lemma nw_bottom_right_step:
  assumes "scores_apart (nw_mat bl) (nw_ref args bl)" "nw_done (nw_penalty args) (nw_mat bl) (nw_ref args bl) m0 (blk + 2) m"
    "nw_bottom_right args stale bl blk m m'" "2 \<le> blk" "blk \<le> 4"
  shows "nw_done (nw_penalty args) (nw_mat bl) (nw_ref args bl) m0 (blk + 3) m'"
proof -
  let ?d = "blk + 2" and ?idx = "\<lambda>t. map (\<lambda>s. blk - 1 + s) (nw_share (5 - blk) t)"
  have R: "REP + blk - 2 = ?d" "REP - blk + 1 = 5 - blk" using assms(4,5) by (simp_all add: REP_def BL_def BL_IN_def)
  have "nw_done (nw_penalty args) (nw_mat bl) (nw_ref args bl) m0 (Suc ?d) m'"
  proof (rule nw_diagonal [OF assms(1,2)])
    show "phase (map (\<lambda>t. map (\<lambda>x. nw_block (nw_penalty args) (8 * nw_mat bl) (8 * nw_ref args bl) (stale bl ?d x) x (?d - x)) (?idx t))
        [0..<NR_TASKLETS]) m m'"
      using assms(3) unfolding nw_bottom_right_def nw_bases R .
    have "nw_diag ?d = {blk - 1..<blk - 1 + (5 - blk)}" using assms(4,5) by (auto simp: nw_diag_def)
    then show "distinct (concat (map ?idx [0..<NR_TASKLETS]))" "(\<Union>t \<in> set [0..<NR_TASKLETS]. set (?idx t)) = nw_diag ?d"
      using nw_shares_from [of "5 - blk" "blk - 1"] assms(4) by (simp_all del: set_map)
  qed
  then show ?thesis by (simp add: numeral_eq_Suc)
qed

lemma run_phases_append: "run_phases (Ps @ Qs) m m' \<longleftrightarrow> (\<exists>m1. run_phases Ps m m1 \<and> run_phases Qs m1 m')"
  by (induction Ps arbitrary: m) auto

lemma nw_matrix_done:
  assumes ap: "scores_apart (nw_mat bl) (nw_ref args bl)" and run: "nw_matrix args stale bl m m'"
  shows "nw_done (nw_penalty args) (nw_mat bl) (nw_ref args bl) m 7 m'"
proof -
  let ?D = "nw_done (nw_penalty args) (nw_mat bl) (nw_ref args bl) m"
  have R: "[0..<REP + 1] = [0, Suc 0, Suc 1, Suc 2, Suc 3]" "[2..<REP + 1] = [2, 3, 4]" by (simp_all add: REP_def BL_def BL_IN_def upt_rec)
  from run obtain m1 m2 m3 m4 m5 m6 m7 where
    t: "nw_top_left args stale bl 0 m m1" "nw_top_left args stale bl (Suc 0) m1 m2" "nw_top_left args stale bl (Suc 1) m2 m3"
      "nw_top_left args stale bl (Suc 2) m3 m4" "nw_top_left args stale bl (Suc 3) m4 m5" and
    b: "nw_bottom_right args stale bl 2 m5 m6" "nw_bottom_right args stale bl 3 m6 m7" "nw_bottom_right args stale bl 4 m7 m'"
    unfolding nw_matrix_def R run_phases_append list.map run_phases.simps by blast
  have nil: "concat (map (\<lambda>t. [] :: (cells \<Rightarrow> cells) list) ts) = []" for ts :: "nat list" by simp
  then have "m1 = m" using phase_commute [OF t(1) [unfolded nw_top_left_def]] by (simp add: nw_share_small nil)
  then have "?D 0 m1" by (simp add: nw_done_def)
  then have "?D (Suc 0) m2" by (rule nw_top_left_step [OF ap _ t(2)]) simp
  then have "?D (Suc 1) m3" by (intro nw_top_left_step [OF ap _ t(3)]) simp_all
  then have "?D (Suc 2) m4" by (intro nw_top_left_step [OF ap _ t(4)]) (simp_all add: numeral_eq_Suc)
  then have "?D (Suc 3) m5" by (intro nw_top_left_step [OF ap _ t(5)]) (simp_all add: numeral_eq_Suc)
  then have "?D (2 + 3) m6" by (intro nw_bottom_right_step [OF ap _ b(1)]) (simp_all add: numeral_eq_Suc)
  then have "?D (3 + 3) m7" by (intro nw_bottom_right_step [OF ap _ b(2)]) simp_all
  then have "?D (4 + 3) m'" by (intro nw_bottom_right_step [OF ap _ b(3)]) simp_all
  then show ?thesis by simp
qed

section \<open>The job\<close>

lemma run_phases_invariant:
  assumes "run_phases (map P [0..<n]) m m'" "I 0 m" "\<And>k m m'. k < n \<Longrightarrow> I k m \<Longrightarrow> P k m m' \<Longrightarrow> I (Suc k) m'"
  shows "I n m'"
  using assms
proof (induction n arbitrary: m')
  case (Suc n)
  from Suc.prems(1) obtain m1 where m1: "run_phases (map P [0..<n]) m m1" "P n m1 m'" by (auto simp: run_phases_append)
  have "I n m1" by (rule Suc.IH [OF m1(1) Suc.prems(2)]) (use Suc.prems(3) in auto)
  then show ?case using Suc.prems(3) [of n] m1(2) by simp
qed simp

text \<open>The heap of a job: the matrices, and behind them the scores of the pairs.\<close>

definition nw_fits :: "nw_arguments \<Rightarrow> bool" where
  "nw_fits args \<longleftrightarrow> nw_nblocks args \<le> nw_active_blocks args
     \<and> HEAP_BASE + unat (nw_active_blocks args) * 1224 + unat (nw_nblocks args) * 1024 \<le> 0x4000000"

lemma nw_compute_all_cells:
  assumes fits: "nw_fits args" and run: "nw_compute_all args stale m m'"
  shows "bl < unat (nw_nblocks args) \<Longrightarrow> i \<le> 16 \<Longrightarrow> j \<le> 16 \<Longrightarrow>
      m' (2 * nw_mat bl + 18 * i + j) = nw_score (nw_penalty args) (nw_mat bl) (nw_ref args bl) m i j"
    and "k < 4160 \<Longrightarrow> m' k = m k"
proof -
  let ?n = "unat (nw_nblocks args)" and ?a = "unat (nw_active_blocks args)"
  let ?score = "\<lambda>bl. nw_score (nw_penalty args) (nw_mat bl) (nw_ref args bl)"
  define I where "I b m1 \<longleftrightarrow> (\<forall>bl i j. bl < b \<longrightarrow> i \<le> 16 \<longrightarrow> j \<le> 16 \<longrightarrow> m1 (2 * nw_mat bl + 18 * i + j) = ?score bl m i j)
      \<and> (\<forall>k. k < 2 * nw_mat 0 \<or> 2 * nw_mat b \<le> k \<longrightarrow> m1 k = m k)" for b and m1 :: cells
  have na: "?n \<le> ?a" using fits by (simp add: nw_fits_def word_le_nat_alt)
  have base: "2 * nw_mat 0 = 4160" "2 * nw_mat (Suc b) = 2 * nw_mat b + 306" for b by (simp_all add: nw_mat_def)
  have mono: "2 * nw_mat b + 306 \<le> 2 * nw_mat c" if "b < c" for b c using that by (simp add: nw_mat_def)
  have "I ?n m'"
  proof (rule run_phases_invariant [OF run [unfolded nw_compute_all_def]])
    show "I 0 m" by (simp add: I_def base)
    fix b m1 m2
    assume b: "b < ?n" and inv: "I b m1" and st: "nw_matrix args stale b m1 m2"
    have ref: "2 * nw_mat (Suc b) \<le> 2 * nw_ref args b" using b na by (simp add: nw_mat_def nw_ref_def)
    then have "scores_apart (nw_mat b) (nw_ref args b)" by (simp add: scores_apart_def base)
    then have d: "nw_done (nw_penalty args) (nw_mat b) (nw_ref args b) m1 7 m2" by (rule nw_matrix_done [OF _ st])
    have same: "m1 k = m k" if "2 * nw_mat b \<le> k" for k using inv that by (simp add: I_def)
    have out: "m2 k = m1 k" if "k < 2 * nw_mat b \<or> 2 * nw_mat (Suc b) \<le> k" for k
    proof -
      have "k \<notin> nw_interior (nw_mat b)" using interior_bounds [of k "nw_mat b"] that unfolding base by linarith
      then show ?thesis using d by (simp add: nw_done_def)
    qed
    have new: "m2 (2 * nw_mat b + 18 * i + j) = ?score b m i j" if ij: "i \<le> 16" "j \<le> 16" for i j
    proof -
      have "(i - 1) div 4 + (j - 1) div 4 < 7" using ij by presburger
      then have "m2 (2 * nw_mat b + 18 * i + j) = ?score b m1 i j" by (intro nw_done_score [OF d ij]) simp
      also have "\<dots> = ?score b m i j" unfolding nw_score_def
        by (rule nw_rec_cong; rule same; use ref base(2) [of b] in linarith)
      finally show ?thesis .
    qed
    have old: "m2 (2 * nw_mat bl + 18 * i + j) = ?score bl m i j" if "bl < b" "i \<le> 16" "j \<le> 16" for bl i j
    proof -
      have "2 * nw_mat bl + 18 * i + j < 2 * nw_mat b" using mono [OF that(1)] that by linarith
      then show ?thesis using out inv that by (simp add: I_def)
    qed
    show "I (Suc b) m2" unfolding I_def
    proof (intro conjI allI impI)
      show "m2 (2 * nw_mat bl + 18 * i + j) = ?score bl m i j" if "bl < Suc b" "i \<le> 16" "j \<le> 16" for bl i j
        using that old new by (cases "bl = b") auto
      show "m2 k = m k" if k: "k < 2 * nw_mat 0 \<or> 2 * nw_mat (Suc b) \<le> k" for k
      proof -
        have "2 * nw_mat 0 \<le> 2 * nw_mat b" by (simp add: nw_mat_def)
        then have "m2 k = m1 k" using k by (intro out) linarith
        also have "k < 2 * nw_mat 0 \<or> 2 * nw_mat b \<le> k" using k base(2) [of b] by linarith
        then have "m1 k = m k" using inv unfolding I_def by blast
        finally show ?thesis .
      qed
    qed
  qed
  then show "bl < ?n \<Longrightarrow> i \<le> 16 \<Longrightarrow> j \<le> 16 \<Longrightarrow> m' (2 * nw_mat bl + 18 * i + j) = ?score bl m i j" "k < 4160 \<Longrightarrow> m' k = m k"
    by (simp_all add: I_def base)
qed

lemma nw_set_status_cells:
  "snd (nw_set_status st g m) k = (if 0x1010 \<le> k \<and> k < 0x1014 then [nw_cmd g, nw_job_id g, st, nw_pad g] ! (k - 0x1010) else m k)"
proof -
  have "mram_write xs NW_CTRL_OFFSET 16 m k = (if 0x1010 \<le> k \<and> k < 0x1014 then xs ! (k - 0x1010) else m k)" for xs
    using mram_write_at [of xs 2056 0 2 m k] by (simp add: NW_CTRL_OFFSET_def NW_ARG_OFFSET_def)
  then show ?thesis unfolding nw_set_status_def Let_def snd_conv by simp
qed

lemma nw_read_args_cong:
  assumes "\<And>k. 0x1000 \<le> k \<Longrightarrow> k < 0x1004 \<Longrightarrow> m k = m' k"
  shows "nw_read_args m = nw_read_args m'"
proof -
  have rd: "mram_read m NW_ARG_OFFSET 16 = map (\<lambda>i. m (4096 + i)) [0..<4]" for m
    using mram_read_at [of m 2048 0 2] by (simp add: NW_ARG_OFFSET_def del: upt_rec_numeral)
  have "map (\<lambda>i. m (4096 + i)) [0..<4] = map (\<lambda>i. m' (4096 + i)) [0..<4]" by (rule map_cong [OF refl]) (rule assms, simp_all)
  then show ?thesis unfolding nw_read_args_def rd by (simp only:)
qed

text \<open>After a job every matrix that was asked for is filled, and the job is marked as done.\<close>

lemma nw_job_correct:
  assumes job: "nw_job stale g m m'" and fits: "nw_fits (nw_read_args m)"
  shows "bl < unat (nw_nblocks (nw_read_args m)) \<Longrightarrow> i \<le> 16 \<Longrightarrow> j \<le> 16 \<Longrightarrow>
      m' (2 * nw_mat bl + 18 * i + j) = nw_score (nw_penalty (nw_read_args m)) (nw_mat bl) (nw_ref (nw_read_args m) bl) m i j"
    and "m' 0x1012 = NW_ST_DONE"
proof -
  define gm where "gm = nw_set_status NW_ST_RUNNING g m"
  obtain g1 m1 where gm1: "gm = (g1, m1)" by (cases gm)
  have m1: "m1 k = m k" if "k < 0x1010 \<or> 0x1014 \<le> k" for k
    using nw_set_status_cells [of NW_ST_RUNNING g m k] that gm1 by (auto simp: gm_def)
  let ?args = "nw_read_args m"
  have args: "nw_read_args m1 = ?args" by (rule nw_read_args_cong) (rule m1, simp)
  have m': "(nw_nblocks ?args = 0 \<and> m' = snd (nw_set_status NW_ST_DONE g1 m1))
      \<or> (nw_nblocks ?args \<noteq> 0 \<and> (\<exists>m2. nw_compute_all ?args stale m1 m2 \<and> m' = snd (nw_set_status NW_ST_DONE g1 m2)))"
    using job gm1 args unfolding nw_job_def gm_def [symmetric] by (simp add: Let_def split: if_splits)
  then show "m' 0x1012 = NW_ST_DONE" by (auto simp: nw_set_status_cells)
  show "m' (2 * nw_mat bl + 18 * i + j) = nw_score (nw_penalty ?args) (nw_mat bl) (nw_ref ?args bl) m i j"
    if bl: "bl < unat (nw_nblocks ?args)" and ij: "i \<le> 16" "j \<le> 16"
  proof -
    from bl have "nw_nblocks ?args \<noteq> 0" by auto
    then obtain m2 where m2: "nw_compute_all ?args stale m1 m2" "m' = snd (nw_set_status NW_ST_DONE g1 m2)" using m' by blast
    have "m' (2 * nw_mat bl + 18 * i + j) = m2 (2 * nw_mat bl + 18 * i + j)"
      unfolding m2(2) nw_set_status_cells by (simp add: nw_mat_def)
    also have "\<dots> = nw_score (nw_penalty ?args) (nw_mat bl) (nw_ref ?args bl) m1 i j"
      by (rule nw_compute_all_cells(1) [OF fits m2(1) bl ij])
    also have "\<dots> = nw_score (nw_penalty ?args) (nw_mat bl) (nw_ref ?args bl) m i j"
      unfolding nw_score_def by (rule nw_rec_cong; rule m1; simp add: nw_mat_def nw_ref_def)
    finally show ?thesis .
  qed
qed

section \<open>The service\<close>

lemma nw_loop_jobs:
  assumes "nw_loop host g m js m'" "(m1, m2) \<in> set js"
  shows "\<exists>stale g. nw_job stale g m1 m2"
  using assms by induction auto

lemma run_phases_exists:
  assumes "\<And>P m. P \<in> set Ps \<Longrightarrow> \<exists>m'. P m m'"
  shows "\<exists>m'. run_phases Ps m m'"
  using assms
proof (induction Ps arbitrary: m)
  case (Cons P Ps)
  then obtain m1 where "P m m1" by (meson list.set_intros(1))
  moreover obtain m' where "run_phases Ps m1 m'" using Cons.IH [of m1] Cons.prems by (meson list.set_intros(2))
  ultimately show ?case by auto
next
  case Nil
  show ?case by (rule exI [of _ m]) simp
qed

lemma nw_job_exists: "\<exists>m'. nw_job stale g m m'"
proof -
  have P: "\<exists>m'. phase progs m m'" for progs and m :: cells by (intro exI) (rule phase_seq)
  have "\<exists>m'. nw_matrix args stale bl m m'" for args bl m unfolding nw_matrix_def
    by (rule run_phases_exists) (auto simp: nw_top_left_def nw_bottom_right_def intro: P)
  then have c: "\<exists>m'. nw_compute_all args stale m m'" for args m unfolding nw_compute_all_def
    by (intro run_phases_exists) auto
  obtain g1 m1 where s: "nw_set_status NW_ST_RUNNING g m = (g1, m1)" by (cases "nw_set_status NW_ST_RUNNING g m")
  obtain m2 where "nw_compute_all (nw_read_args m1) stale m1 m2" using c by blast
  then show ?thesis unfolding nw_job_def s Let_def prod.case by auto
qed

text \<open>
  C38: whatever the host does between the jobs, when the matrices and the scores of a job fit into MRAM, every matrix
  is filled with the scores of the recurrence at the end of the job, border included, and the job is marked as done.
\<close>

theorem nw_main_correct:
  assumes "nw_main host m js m'" "(m1, m2) \<in> set js" "nw_fits (nw_read_args m1)"
  shows "m2 (NW_CTRL_OFFSET div 4 + 2) = NW_ST_DONE \<and> (\<forall>bl < unat (nw_nblocks (nw_read_args m1)). \<forall>i \<le> BL. \<forall>j \<le> BL.
      m2 (2 * nw_mat bl + (BL + 2) * i + j)
      = nw_score (nw_penalty (nw_read_args m1)) (nw_mat bl) (nw_ref (nw_read_args m1) bl) m1 i j)"
proof -
  from assms(1) obtain m0 where "nw_loop host (nw_fetch_ctrl m0) m0 js m'" unfolding nw_main_def by blast
  from nw_loop_jobs [OF this assms(2)] obtain stale g where job: "nw_job stale g m1 m2" by blast
  have c: "NW_CTRL_OFFSET div 4 + 2 = 0x1012" "BL = 16" "(16 :: nat) + 2 = 18" by (simp_all add: NW_CTRL_OFFSET_def NW_ARG_OFFSET_def BL_def)
  show ?thesis unfolding c using nw_job_correct [OF job assms(3)] by blast
qed

definition nw_host :: "cells \<Rightarrow> cells \<Rightarrow> bool" where
  "nw_host m m' \<longleftrightarrow> m' = m(0x1010 := (if m 0x1012 = NW_ST_DONE then NW_CMD_EXIT else 1))"

definition nw_example :: cells where
  "nw_example = (\<lambda>k. if k = 0x1000 \<or> k = 0x1001 \<or> k = 0x1002 then 1 else if k = 4160 + 19 then 7 else 0)"

lemma nw_example_args: "nw_read_args (nw_example(0x1010 := 1)) = \<lparr>nw_nblocks = 1, nw_active_blocks = 1, nw_penalty = 1\<rparr>"
proof -
  have "mram_read m NW_ARG_OFFSET 16 = map (\<lambda>i. m (4096 + i)) [0..<4]" for m
    using mram_read_at [of m 2048 0 2] by (simp add: NW_ARG_OFFSET_def del: upt_rec_numeral)
  then show ?thesis by (simp add: nw_read_args_def nw_example_def upt_rec)
qed

lemma nw_example_run:
  "\<exists>m2 m'. nw_main nw_host nw_example [(nw_example(0x1010 := 1), m2)] m'"
proof -
  let ?m = "nw_example(0x1010 := 1)"
  have h: "nw_host nw_example ?m" by (simp add: nw_host_def nw_example_def NW_ST_DONE_def)
  obtain m2 where m2: "nw_job (\<lambda>_ _ _ _. 0) (nw_fetch_ctrl ?m) ?m m2" using nw_job_exists by blast
  have rd: "mram_read m NW_CTRL_OFFSET 16 = map (\<lambda>i. m (0x1010 + i)) [0..<4]" for m
    using mram_read_at [of m 2056 0 2] by (simp add: NW_CTRL_OFFSET_def NW_ARG_OFFSET_def del: upt_rec_numeral)
  have cmd: "nw_cmd (nw_fetch_ctrl m) = m 0x1010" for m unfolding nw_fetch_ctrl_def rd by (simp add: Let_def)
  let ?m3 = "m2(0x1010 := NW_CMD_EXIT)"
  have "nw_fits (nw_read_args ?m)" by (simp add: nw_example_args nw_fits_def HEAP_BASE_def NW_ARG_OFFSET_def)
  then have "m2 0x1012 = NW_ST_DONE" by (rule nw_job_correct(2) [OF m2])
  then have h2: "nw_host m2 ?m3" by (simp add: nw_host_def)
  have last: "nw_loop nw_host (nw_fetch_ctrl ?m3) ?m3 [] ?m3" by (rule nw_loop.exit) (simp add: cmd)
  have "nw_loop nw_host (nw_fetch_ctrl ?m) ?m [(?m, m2)] ?m3"
    by (rule nw_loop.job [where host = nw_host and ?m1.0 = m2 and ?m2.0 = ?m3])
      (simp add: cmd NW_CMD_EXIT_def, rule m2, rule h2, rule last)
  then show ?thesis using h unfolding nw_main_def by blast
qed

theorem nw_main_correct_witness:
  "\<exists>m2 m'. nw_main nw_host nw_example [(nw_example(0x1010 := 1), m2)] m' \<and> m2 (NW_CTRL_OFFSET div 4 + 2) = NW_ST_DONE
     \<and> m2 (2 * nw_mat 0 + (BL + 2) * 1 + 1) = nw_score 1 (nw_mat 0) (nw_ref (nw_read_args (nw_example(0x1010 := 1))) 0) (nw_example(0x1010 := 1)) 1 1"
proof -
  let ?m = "nw_example(0x1010 := 1)"
  obtain m2 m' where run: "nw_main nw_host nw_example [(?m, m2)] m'" using nw_example_run by blast
  have "nw_fits (nw_read_args ?m)" by (simp add: nw_example_args nw_fits_def HEAP_BASE_def NW_ARG_OFFSET_def)
  have n: "0 < unat (nw_nblocks (nw_read_args ?m))" "1 \<le> BL" by (simp_all add: nw_example_args BL_def)
  have "(?m, m2) \<in> set [(?m, m2)]" by simp
  note res = nw_main_correct [OF run this \<open>nw_fits (nw_read_args ?m)\<close>]
  have p: "nw_penalty (nw_read_args ?m) = 1" by (simp add: nw_example_args)
  have "m2 (2 * nw_mat 0 + (BL + 2) * 1 + 1) = nw_score 1 (nw_mat 0) (nw_ref (nw_read_args ?m) 0) ?m 1 1"
    using res [THEN conjunct2, rule_format, OF n(1) n(2) n(2)] unfolding p .
  then show ?thesis using run res [THEN conjunct1] by blast
qed

end
