(* ===== verification/Kernel_SpMV.thy ===== *)
theory Kernel_SpMV imports SPMD
begin

text \<open>
  Sparse matrix-vector product, \<^verbatim>\<open>src/src/SpMV\<close>. \<open>coo2csr\<close> of \<^verbatim>\<open>support/matrix.h\<close> turns a list of
  entries into the compressed rows that the kernel reads; \<^verbatim>\<open>main.c\<close> multiplies them with a vector. The
  arithmetic on floats is that of the compiler's runtime and a parameter, \<open>float_ops\<close>, over their bit
  patterns; the sequential readers of the SDK are the parameter \<open>seqread\<close>, with what their
  documentation promises as the hypothesis \<open>seqread_ok\<close>. The field \<open>numNonzeros\<close> of a matrix is the
  length of its lists.
\<close>

section \<open>Compressed rows\<close>

record nonzero =
  nz_col :: u32
  nz_value :: u32

record coo_matrix =
  coo_numRows :: u32
  coo_numCols :: u32
  coo_rowIdxs :: "u32 list"
  coo_nonzeros :: "nonzero list"

record csr_matrix =
  csr_numRows :: u32
  csr_numCols :: u32
  csr_rowPtrs :: "u32 list"
  csr_nonzeros :: "nonzero list"

definition coo_histogram :: "u32 list \<Rightarrow> u32 list \<Rightarrow> u32 list" where
  "coo_histogram idx rowPtrs =
     fold (\<lambda>i rp. let rowIdx = unat (idx ! i) in rp[rowIdx := rp ! rowIdx + 1]) [0..<length idx] rowPtrs"

definition csr_prefix_sum :: "nat \<Rightarrow> u32 list \<Rightarrow> u32 list" where
  "csr_prefix_sum numRows rowPtrs =
     (let (sumBeforeNextRow, rowPtrs) = fold (\<lambda>rowIdx (sumBeforeNextRow, rp).
            let sumBeforeRow = sumBeforeNextRow; sumBeforeNextRow = sumBeforeNextRow + rp ! rowIdx
            in (sumBeforeNextRow, rp[rowIdx := sumBeforeRow])) [0..<numRows] (0, rowPtrs)
      in rowPtrs[numRows := sumBeforeNextRow])"

definition csr_bin :: "u32 list \<Rightarrow> nonzero list \<Rightarrow> u32 list \<times> nonzero list \<Rightarrow> u32 list \<times> nonzero list" where
  "csr_bin idx nz s = fold (\<lambda>i (rp, out). let rowIdx = unat (idx ! i); nnzIdx = rp ! rowIdx
     in (rp[rowIdx := nnzIdx + 1], out[unat nnzIdx := nz ! i])) [0..<length idx] s"

definition csr_restore :: "nat \<Rightarrow> u32 list \<Rightarrow> u32 list" where
  "csr_restore numRows rowPtrs = (fold (\<lambda>rowIdx rp. rp[rowIdx := rp ! (rowIdx - 1)]) (rev [1..<numRows]) rowPtrs)[0 := 0]"

text \<open>
  The nonzeros start as whatever \<open>malloc\<close> returns, \<open>fresh\<close>. Without rows the last loop
  starts at \<open>2\<^sup>3\<^sup>2 - 1\<close>, and a row number above the number of rows is an access outside of the
  array: no result.
\<close>

definition coo2csr :: "nonzero list \<Rightarrow> coo_matrix \<Rightarrow> csr_matrix option" where
  "coo2csr fresh coo =
     (let numRows = unat (coo_numRows coo); idx = coo_rowIdxs coo
      in if numRows = 0 \<or> (\<exists>i \<in> set idx. numRows < unat i) then None
         else (let rowPtrs = coo_histogram idx (replicate (numRows + 1) 0);
                   rowPtrs = csr_prefix_sum numRows rowPtrs;
                   (rowPtrs, nonzeros) = csr_bin idx (coo_nonzeros coo) (rowPtrs, fresh)
               in Some \<lparr>csr_numRows = coo_numRows coo, csr_numCols = coo_numCols coo,
                       csr_rowPtrs = csr_restore numRows rowPtrs, csr_nonzeros = nonzeros\<rparr>))"

text \<open>The entries of a row, in both representations; and what a well-formed matrix is.\<close>

definition coo_row :: "coo_matrix \<Rightarrow> nat \<Rightarrow> nonzero list" where
  "coo_row coo r = map (\<lambda>i. coo_nonzeros coo ! i) (filter (\<lambda>i. unat (coo_rowIdxs coo ! i) = r) [0..<length (coo_rowIdxs coo)])"

definition csr_row :: "csr_matrix \<Rightarrow> nat \<Rightarrow> nonzero list" where
  "csr_row csr r = map (\<lambda>k. csr_nonzeros csr ! k) [unat (csr_rowPtrs csr ! r)..<unat (csr_rowPtrs csr ! Suc r)]"

definition coo_wf :: "coo_matrix \<Rightarrow> bool" where
  "coo_wf coo \<longleftrightarrow> 0 < coo_numRows coo \<and> length (coo_nonzeros coo) = length (coo_rowIdxs coo)
     \<and> length (coo_rowIdxs coo) < 2 ^ 32 \<and> (\<forall>i \<in> set (coo_rowIdxs coo). i < coo_numRows coo)"

definition csr_wf :: "csr_matrix \<Rightarrow> bool" where
  "csr_wf csr \<longleftrightarrow> length (csr_rowPtrs csr) = unat (csr_numRows csr) + 1 \<and> csr_rowPtrs csr ! 0 = 0
     \<and> sorted (map unat (csr_rowPtrs csr)) \<and> unat (csr_rowPtrs csr ! unat (csr_numRows csr)) = length (csr_nonzeros csr)"

section \<open>The conversion\<close>

text \<open>How many of the first \<open>k\<close> entries lie in row \<open>r\<close>, and how many entries lie in the rows before.\<close>

definition in_row :: "u32 list \<Rightarrow> nat \<Rightarrow> nat \<Rightarrow> nat" where
  "in_row idx k r = length (filter (\<lambda>i. unat (idx ! i) = r) [0..<k])"

definition row_start :: "u32 list \<Rightarrow> nat \<Rightarrow> nat" where
  "row_start idx r = length (filter (\<lambda>i. unat (idx ! i) < r) [0..<length idx])"

lemma in_row_0 [simp]: "in_row idx 0 r = 0"
  by (simp add: in_row_def)

lemma in_row_Suc [simp]: "in_row idx (Suc k) r = (if unat (idx ! k) = r then Suc (in_row idx k r) else in_row idx k r)"
  by (simp add: in_row_def)

lemma in_row_mono: "k \<le> n \<Longrightarrow> in_row idx k r \<le> in_row idx n r"
  by (induction rule: dec_induct) auto

lemma row_start_0 [simp]: "row_start idx 0 = 0"
  by (simp add: row_start_def)

lemma row_start_Suc: "row_start idx (Suc r) = row_start idx r + in_row idx (length idx) r"
proof -
  have "length (filter (\<lambda>i. unat (idx ! i) < Suc r) [0..<k]) = length (filter (\<lambda>i. unat (idx ! i) < r) [0..<k]) + in_row idx k r" for k
    by (induction k) (auto simp: less_Suc_eq)
  then show ?thesis by (simp add: row_start_def)
qed

lemma row_start_mono: "r \<le> s \<Longrightarrow> row_start idx r \<le> row_start idx s"
  by (induction rule: dec_induct) (auto simp: row_start_Suc)

lemma row_start_le: "row_start idx r \<le> length idx"
  unfolding row_start_def using length_filter_le [of _ "[0..<length idx]"] by simp

lemma row_start_all: "(\<And>i. i < length idx \<Longrightarrow> unat (idx ! i) < n) \<Longrightarrow> row_start idx n = length idx"
  unfolding row_start_def by (subst filter_True) auto

text \<open>The place of entry \<open>k\<close>: inside the rows, and apart from the earlier places of every row.\<close>

lemma place_less:
  assumes "k < length idx"
  shows "row_start idx (unat (idx ! k)) + in_row idx k (unat (idx ! k)) < row_start idx (Suc (unat (idx ! k)))"
  using in_row_mono [of "Suc k" "length idx" idx "unat (idx ! k)"] assms by (simp add: row_start_Suc)

lemma place_apart:
  assumes "k < length idx" "j < in_row idx k r"
  shows "row_start idx r + j \<noteq> row_start idx (unat (idx ! k)) + in_row idx k (unat (idx ! k))"
proof -
  let ?r = "unat (idx ! k)"
  have j: "row_start idx r + j < row_start idx (Suc r)"
    using in_row_mono [of k "length idx" idx r] assms by (simp add: row_start_Suc)
  consider "r = ?r" | "r < ?r" | "?r < r" by (meson linorder_neqE_nat)
  then show ?thesis
  proof cases
    case 2
    then show ?thesis using j row_start_mono [of "Suc r" ?r idx] by simp
  next
    case 3
    then show ?thesis using place_less [OF assms(1)] row_start_mono [of "Suc ?r" r idx] by simp
  qed (use assms(2) in simp)
qed

lemma fold_length: "(\<And>x s. length (f x s) = length s) \<Longrightarrow> length (fold f xs s) = length s"
  by (induction xs arbitrary: s) simp_all

lemma coo_histogram_nth:
  assumes "r < length rp"
  shows "coo_histogram idx rp ! r = rp ! r + of_nat (in_row idx (length idx) r)"
    and "length (coo_histogram idx rp) = length rp"
proof -
  let ?f = "\<lambda>i rp. let rowIdx = unat (idx ! i) in rp[rowIdx := rp ! rowIdx + (1 :: u32)]"
  have len: "length (fold ?f xs rp) = length rp" for xs by (rule fold_length) (simp add: Let_def)
  have "fold ?f [0..<k] rp ! r = rp ! r + of_nat (in_row idx k r)" for k
    by (induction k) (use assms in \<open>auto simp: Let_def len nth_list_update\<close>)
  then show "coo_histogram idx rp ! r = rp ! r + of_nat (in_row idx (length idx) r)"
    "length (coo_histogram idx rp) = length rp"
    by (simp_all add: coo_histogram_def len)
qed

lemma csr_prefix_sum_nth:
  assumes len: "length rp = n + 1" and cnt: "\<And>r. r < n \<Longrightarrow> rp ! r = of_nat (in_row idx (length idx) r)"
  shows "r \<le> n \<Longrightarrow> csr_prefix_sum n rp ! r = of_nat (row_start idx r)" "length (csr_prefix_sum n rp) = n + 1"
proof -
  define f where "f = (\<lambda>rowIdx (s, rp). let b = s; s = s + rp ! rowIdx in (s, rp[rowIdx := (b :: u32)]))"
  have f: "f k (s, rp) = (s + rp ! k, rp[k := s])" for k s rp by (simp add: f_def Let_def)
  have inv: "fst (fold f [0..<k] (0, rp)) = of_nat (row_start idx k) \<and> length (snd (fold f [0..<k] (0, rp))) = n + 1
      \<and> (\<forall>r \<le> n. snd (fold f [0..<k] (0, rp)) ! r = (if r < k then of_nat (row_start idx r) else rp ! r))"
    if "k \<le> n" for k
    using that
  proof (induction k)
    case (Suc k)
    obtain s rp' where s: "fold f [0..<k] (0, rp) = (s, rp')" by (cases "fold f [0..<k] (0, rp)")
    have IH: "s = of_nat (row_start idx k)" "length rp' = n + 1" "\<And>r. r \<le> n \<Longrightarrow> rp' ! r = (if r < k then of_nat (row_start idx r) else rp ! r)"
      using Suc s by auto
    have "fold f [0..<Suc k] (0, rp) = (s + rp' ! k, rp'[k := s])" by (simp add: s f)
    then show ?case using IH Suc.prems cnt [of k] by (auto simp: row_start_Suc nth_list_update)
  qed (use len in auto)
  obtain s rp' where s: "fold f [0..<n] (0, rp) = (s, rp')" by (cases "fold f [0..<n] (0, rp)")
  have e: "csr_prefix_sum n rp = rp'[n := s]" unfolding csr_prefix_sum_def unfolding f_def [symmetric] unfolding s by simp
  show "length (csr_prefix_sum n rp) = n + 1" using inv [of n] s e by simp
  show "csr_prefix_sum n rp ! r = of_nat (row_start idx r)" if "r \<le> n"
    using inv [of n] s e that by (cases "r = n") auto
qed

lemma csr_bin_result:
  fixes nz out :: "nonzero list"
  assumes idx: "\<And>i. i < length idx \<Longrightarrow> unat (idx ! i) < n" and small: "length idx < 2 ^ 32"
    and rp: "length rp = n + 1" "\<And>r. r \<le> n \<Longrightarrow> rp ! r = of_nat (row_start idx r)" and nz: "length out = length idx"
  defines "s \<equiv> csr_bin idx nz (rp, out)"
  shows "length (fst s) = n + 1" "length (snd s) = length idx"
    "r < n \<Longrightarrow> fst s ! r = of_nat (row_start idx (Suc r))" "fst s ! n = of_nat (row_start idx n)"
    "r < n \<Longrightarrow> map (\<lambda>j. snd s ! (row_start idx r + j)) [0..<in_row idx (length idx) r]
       = map (\<lambda>i. nz ! i) (filter (\<lambda>i. unat (idx ! i) = r) [0..<length idx])"
proof -
  define f where "f = (\<lambda>i (rp :: u32 list, out). let rowIdx = unat (idx ! i); nnzIdx = rp ! rowIdx in (rp[rowIdx := nnzIdx + 1], out[unat nnzIdx := nz ! i]))"
  have f: "f i (rp, out) = (rp[unat (idx ! i) := rp ! unat (idx ! i) + 1], out[unat (rp ! unat (idx ! i)) := nz ! i])" for i rp out
    by (simp add: f_def Let_def)
  define I where "I k rp' out' \<longleftrightarrow> length rp' = n + 1 \<and> length out' = length idx
      \<and> (\<forall>r \<le> n. rp' ! r = of_nat (row_start idx r + in_row idx k r))
      \<and> (\<forall>r < n. map (\<lambda>j. out' ! (row_start idx r + j)) [0..<in_row idx k r] = map (\<lambda>i. nz ! i) (filter (\<lambda>i. unat (idx ! i) = r) [0..<k]))"
    for k and rp' :: "u32 list" and out'
  have inv: "case fold f [0..<k] (rp, out) of (rp', out') \<Rightarrow> I k rp' out'" if "k \<le> length idx" for k
    using that
  proof (induction k)
    case (Suc k)
    obtain rp' out' where s: "fold f [0..<k] (rp, out) = (rp', out')" by (cases "fold f [0..<k] (rp, out)")
    have k: "k < length idx" using Suc.prems by simp
    have IH: "length rp' = n + 1" "length out' = length idx" "\<And>r. r \<le> n \<Longrightarrow> rp' ! r = of_nat (row_start idx r + in_row idx k r)"
      "\<And>r. r < n \<Longrightarrow> map (\<lambda>j. out' ! (row_start idx r + j)) [0..<in_row idx k r] = map (\<lambda>i. nz ! i) (filter (\<lambda>i. unat (idx ! i) = r) [0..<k])"
      using Suc s by (auto simp: I_def)
    let ?r = "unat (idx ! k)"
    let ?p = "row_start idx ?r + in_row idx k ?r"
    have r: "?r < n" by (rule idx [OF k])
    have p: "?p < length idx" using place_less [OF k] row_start_le [of idx "Suc ?r"] by simp
    have "unat (rp' ! ?r) = ?p" using IH(3) [of ?r] r p small by (simp add: unat_of_nat32 del: of_nat_add)
    then have st: "fold f [0..<Suc k] (rp, out) = (rp'[?r := rp' ! ?r + 1], out'[?p := nz ! k])" by (simp add: s f)
    have "map (\<lambda>j. out'[?p := nz ! k] ! (row_start idx q + j)) [0..<in_row idx (Suc k) q]
        = map (\<lambda>i. nz ! i) (filter (\<lambda>i. unat (idx ! i) = q) [0..<Suc k])" if q: "q < n" for q
    proof -
      have "map (\<lambda>j. out'[?p := nz ! k] ! (row_start idx q + j)) [0..<in_row idx k q] = map (\<lambda>j. out' ! (row_start idx q + j)) [0..<in_row idx k q]"
      proof (rule map_cong [OF refl])
        fix x assume "x \<in> set [0..<in_row idx k q]"
        then have "?p \<noteq> row_start idx q + x" using place_apart [OF k, of x q] by simp
        then show "out'[?p := nz ! k] ! (row_start idx q + x) = out' ! (row_start idx q + x)" by simp
      qed
      then show ?thesis using IH(4) [OF q] p IH(2) by auto
    qed
    then show ?case unfolding st prod.case I_def using IH r by (auto simp: nth_list_update)
  qed (use rp nz in \<open>auto simp: I_def\<close>)
  obtain rp' out' where s: "s = (rp', out')" by (cases s)
  have I: "I (length idx) rp' out'" using inv [of "length idx"] s unfolding s_def csr_bin_def f_def by simp
  show "length (fst s) = n + 1" "length (snd s) = length idx" using I by (simp_all add: I_def s)
  show "fst s ! r = of_nat (row_start idx (Suc r))" if "r < n" using I that by (simp add: I_def s row_start_Suc)
  have "unat (idx ! i) \<noteq> n" if "i < length idx" for i using idx [OF that] by simp
  then have "in_row idx (length idx) n = 0" by (simp add: in_row_def filter_empty_conv)
  then show "fst s ! n = of_nat (row_start idx n)" using I by (simp add: I_def s)
  show "map (\<lambda>j. snd s ! (row_start idx r + j)) [0..<in_row idx (length idx) r]
       = map (\<lambda>i. nz ! i) (filter (\<lambda>i. unat (idx ! i) = r) [0..<length idx])" if "r < n"
    using I that by (simp add: I_def s)
qed

lemma csr_restore_nth:
  assumes "n < length rp"
  shows "csr_restore n rp ! k = (if k = 0 then 0 else if k < n then rp ! (k - 1) else rp ! k)" "length (csr_restore n rp) = length rp"
proof -
  let ?f = "\<lambda>r rp. rp[r := rp ! (r - 1)] :: u32 list"
  have len: "length (fold ?f xs rp) = length rp" for xs and rp :: "u32 list" by (rule fold_length) simp
  have nth: "fold ?f (rev [1..<m]) rp ! k = (if 1 \<le> k \<and> k < m then rp ! (k - 1) else rp ! k)" if "m \<le> length rp" for m and rp :: "u32 list"
    using that
  proof (induction m arbitrary: rp)
    case (Suc m)
    show ?case
    proof (cases "m = 0")
      case False
      then have "fold ?f (rev [1..<Suc m]) rp ! k = fold ?f (rev [1..<m]) (?f m rp) ! k" by simp
      also have "\<dots> = (if 1 \<le> k \<and> k < m then ?f m rp ! (k - 1) else ?f m rp ! k)" by (rule Suc.IH) (use Suc.prems in simp)
      also have "\<dots> = (if 1 \<le> k \<and> k < Suc m then rp ! (k - 1) else rp ! k)" using Suc.prems by (auto simp: nth_list_update)
      finally show ?thesis .
    qed auto
  qed auto
  have e: "csr_restore n rp = (fold ?f (rev [1..<n]) rp)[0 := 0]" by (simp only: csr_restore_def)
  show "length (csr_restore n rp) = length rp" unfolding e by (simp add: len)
  show "csr_restore n rp ! k = (if k = 0 then 0 else if k < n then rp ! (k - 1) else rp ! k)"
  proof (cases "k = 0")
    case True
    have "0 < length (fold ?f (rev [1..<n]) rp)" unfolding len using assms by linarith
    then show ?thesis unfolding e True by simp
  next
    case False
    have "csr_restore n rp ! k = fold ?f (rev [1..<n]) rp ! k" unfolding e using False by simp
    also have "\<dots> = (if 1 \<le> k \<and> k < n then rp ! (k - 1) else rp ! k)" by (rule nth) (use assms in simp)
    finally show ?thesis using False by simp
  qed
qed

lemma coo2csr_rows:
  assumes wf: "coo_wf coo" and fresh: "length fresh = length (coo_nonzeros coo)"
  obtains csr where "coo2csr fresh coo = Some csr" "csr_numRows csr = coo_numRows coo"
    "length (csr_rowPtrs csr) = unat (coo_numRows coo) + 1" "length (csr_nonzeros csr) = length (coo_rowIdxs coo)"
    "\<And>r. r \<le> unat (coo_numRows coo) \<Longrightarrow> csr_rowPtrs csr ! r = of_nat (row_start (coo_rowIdxs coo) r)"
    "\<And>r. r < unat (coo_numRows coo) \<Longrightarrow> csr_row csr r = coo_row coo r"
proof -
  let ?idx = "coo_rowIdxs coo" and ?n = "unat (coo_numRows coo)"
  have n: "?n \<noteq> 0" and idx: "\<And>i. i < length ?idx \<Longrightarrow> unat (?idx ! i) < ?n" and idx': "\<And>i. i \<in> set ?idx \<Longrightarrow> unat i < ?n"
    and small: "length ?idx < 2 ^ 32" and len: "length fresh = length ?idx"
    using wf fresh by (auto simp: coo_wf_def word_less_nat_alt)
  let ?h = "coo_histogram ?idx (replicate (?n + 1) 0)"
  let ?p = "csr_prefix_sum ?n ?h"
  let ?s = "csr_bin ?idx (coo_nonzeros coo) (?p, fresh)"
  let ?rp = "csr_restore ?n (fst ?s)"
  have hist: "coo_histogram ?idx (replicate k 0) ! r = of_nat (in_row ?idx (length ?idx) r)" "length (coo_histogram ?idx (replicate k 0)) = k"
    if "r < k" for k r using coo_histogram_nth [of r "replicate k 0" ?idx] that by simp_all
  have h: "length ?h = ?n + 1" "?h ! r = of_nat (in_row ?idx (length ?idx) r)" if "r < ?n" for r
    using hist [of r "?n + 1"] that by simp_all
  have p: "length ?p = ?n + 1" "\<And>r. r \<le> ?n \<Longrightarrow> ?p ! r = of_nat (row_start ?idx r)"
    using csr_prefix_sum_nth [of ?h ?n ?idx] h n by auto
  note bin = csr_bin_result [OF idx small p len, where nz = "coo_nonzeros coo"]
  let ?csr = "\<lparr>csr_numRows = coo_numRows coo, csr_numCols = coo_numCols coo, csr_rowPtrs = ?rp, csr_nonzeros = snd ?s\<rparr>"
  have "\<not> (?n = 0 \<or> (\<exists>i \<in> set ?idx. ?n < unat i))" using n idx' by (meson less_asym)
  then have some: "coo2csr fresh coo = Some ?csr" by (simp add: coo2csr_def Let_def split_beta)
  have rp: "?rp ! r = of_nat (row_start ?idx r)" if "r \<le> ?n" for r
  proof -
    have "?rp ! r = (if r = 0 then 0 else if r < ?n then fst ?s ! (r - 1) else fst ?s ! r)"
      by (rule csr_restore_nth) (use bin(1) in simp)
    moreover have "fst ?s ! (r - 1) = of_nat (row_start ?idx r)" if "r \<noteq> 0" "r < ?n" using bin(3) [of "r - 1"] that by simp
    ultimately show ?thesis using bin(4) that by (cases "r = ?n") auto
  qed
  have nat: "unat (?rp ! r) = row_start ?idx r" if "r \<le> ?n" for r
    unfolding rp [OF that] by (rule unat_of_nat32) (use row_start_le [of ?idx r] small in simp)
  have row: "csr_row ?csr r = coo_row coo r" if r: "r < ?n" for r
  proof -
    have "csr_row ?csr r = map (\<lambda>k. snd ?s ! k) [row_start ?idx r..<row_start ?idx r + in_row ?idx (length ?idx) r]"
      using nat [of r] nat [of "Suc r"] r by (simp add: csr_row_def row_start_Suc)
    also have "\<dots> = map (\<lambda>j. snd ?s ! (row_start ?idx r + j)) [0..<in_row ?idx (length ?idx) r]"
      by (rule nth_equalityI) simp_all
    also have "\<dots> = coo_row coo r" unfolding coo_row_def by (rule bin(5)) (use r in simp_all)
    finally show ?thesis .
  qed
  show ?thesis
    by (rule that [OF some]) (use row rp bin(1,2) csr_restore_nth(2) [of ?n "fst ?s"] in simp_all)
qed

lemma coo2csr_well_formed:
  assumes wf: "coo_wf coo" and fresh: "length fresh = length (coo_nonzeros coo)"
  shows "\<exists>csr. coo2csr fresh coo = Some csr \<and> csr_wf csr \<and> csr_numRows csr = coo_numRows coo
    \<and> (\<forall>r < unat (coo_numRows coo). csr_row csr r = coo_row coo r)"
proof -
  let ?idx = "coo_rowIdxs coo" and ?n = "unat (coo_numRows coo)"
  obtain csr where csr: "coo2csr fresh coo = Some csr" "csr_numRows csr = coo_numRows coo" "length (csr_rowPtrs csr) = ?n + 1"
    "length (csr_nonzeros csr) = length ?idx" "\<And>r. r \<le> ?n \<Longrightarrow> csr_rowPtrs csr ! r = of_nat (row_start ?idx r)"
    "\<And>r. r < ?n \<Longrightarrow> csr_row csr r = coo_row coo r" using coo2csr_rows [OF assms] by blast
  have small: "length ?idx < 2 ^ 32" and idx: "\<And>i. i < length ?idx \<Longrightarrow> unat (?idx ! i) < ?n" using wf by (auto simp: coo_wf_def word_less_nat_alt)
  have nat: "unat (csr_rowPtrs csr ! r) = row_start ?idx r" if "r \<le> ?n" for r
    unfolding csr(5) [OF that] by (rule unat_of_nat32) (use row_start_le [of ?idx r] small in simp)
  have "sorted (map unat (csr_rowPtrs csr))"
    using nat csr(3) by (auto simp: sorted_iff_nth_mono intro!: row_start_mono)
  then have "csr_wf csr" using nat [of 0] nat [of ?n] csr(2-4) row_start_all [OF idx] by (simp add: csr_wf_def unat_eq_0)
  then show ?thesis using csr(1,2,6) by blast
qed

section \<open>The kernel\<close>

record spmv_params =
  dpuNumRows :: u32
  dpuRowPtrsOffset :: u32
  dpuRowPtrs_m :: u32
  dpuNonzeros_m :: u32
  dpuInVector_m :: u32
  dpuOutVector_m :: u32

record float_ops =
  f_add :: "u32 \<Rightarrow> u32 \<Rightarrow> u32"
  f_mul :: "u32 \<Rightarrow> u32 \<Rightarrow> u32"

text \<open>A reader of the SDK: \<open>sr_init\<close> at an address, \<open>sr_get\<close> some bytes further, \<open>sr_word\<close> what lies under the pointer.\<close>

record 'r seqread =
  sr_init :: "cells \<Rightarrow> nat \<Rightarrow> 'r"
  sr_get :: "cells \<Rightarrow> 'r \<Rightarrow> nat \<Rightarrow> 'r"
  sr_word :: "'r \<Rightarrow> nat \<Rightarrow> u32"

text \<open>
  What the documentation says of it: as long as the words in \<open>X\<close> keep the values they have in \<open>m\<close>, a
  reader delivers these values; \<open>at r a\<close> says that \<open>r\<close> has been moved to address \<open>a\<close>.
\<close>

definition seqread_ok :: "'r seqread \<Rightarrow> ('r \<Rightarrow> nat \<Rightarrow> bool) \<Rightarrow> cells \<Rightarrow> nat set \<Rightarrow> bool" where
  "seqread_ok sr at m X \<longleftrightarrow>
     (\<forall>m' a. (\<forall>k \<in> X. m' k = m k) \<longrightarrow> at (sr_init sr m' a) a)
     \<and> (\<forall>m' r a n. (\<forall>k \<in> X. m' k = m k) \<longrightarrow> at r a \<longrightarrow> at (sr_get sr m' r n) (a + n))
     \<and> (\<forall>r a k. at r a \<longrightarrow> a div 4 + k \<in> X \<longrightarrow> sr_word sr r k = m (a div 4 + k))"

definition ROUND_UP_TO_MULTIPLE_OF_2 :: "nat \<Rightarrow> nat" where "ROUND_UP_TO_MULTIPLE_OF_2 x = (x + 1) div 2 * 2"
definition ROUND_UP_TO_MULTIPLE_OF_8 :: "nat \<Rightarrow> nat" where "ROUND_UP_TO_MULTIPLE_OF_8 x = (x + 7) div 8 * 8"
definition SPMV_ARG_OFFSET :: nat where "SPMV_ARG_OFFSET = 0x3000"

definition spmv_read_params :: "cells \<Rightarrow> spmv_params" where
  "spmv_read_params m = (let buf = mram_read m SPMV_ARG_OFFSET (ROUND_UP_TO_MULTIPLE_OF_8 24)
     in \<lparr>dpuNumRows = buf ! 0, dpuRowPtrsOffset = buf ! 1, dpuRowPtrs_m = buf ! 2, dpuNonzeros_m = buf ! 3,
         dpuInVector_m = buf ! 4, dpuOutVector_m = buf ! 5\<rparr>)"

text \<open>The first row of a tasklet and the number of its rows.\<close>

definition spmv_rows :: "spmv_params \<Rightarrow> nat \<Rightarrow> nat \<times> nat" where
  "spmv_rows p tid =
     (let numRows = unat (dpuNumRows p);
          numRowsPerTasklet = (if 0 < numRows then ROUND_UP_TO_MULTIPLE_OF_2 ((numRows - 1) div NR_TASKLETS + 1) else 0);
          taskletRowsStart = tid * numRowsPerTasklet
      in (taskletRowsStart,
          if numRows < taskletRowsStart then 0
          else if numRows < taskletRowsStart + numRowsPerTasklet then numRows - taskletRowsStart
          else numRowsPerTasklet))"

record 'r spmv_locals =
  sp_rowPtrs :: 'r
  sp_nonzeros :: 'r
  sp_inTile :: "u32 list"
  sp_inTileIdx :: nat
  sp_outTile :: "u32 list"
  sp_nextRowPtr :: u32

definition spmv_nonzero :: "float_ops \<Rightarrow> 'r seqread \<Rightarrow> spmv_params \<Rightarrow> cells \<Rightarrow> 'r spmv_locals \<times> u32 \<Rightarrow> 'r spmv_locals \<times> u32" where
  "spmv_nonzero fl sr p m = (\<lambda>(s, outValue).
     let matValue = sr_word sr (sp_nonzeros s) 1; col = unat (sr_word sr (sp_nonzeros s) 0);
         inVectorTileIdx = col div 64; inVectorTileOffset = col mod 64;
         s = (if inVectorTileIdx \<noteq> sp_inTileIdx s
              then s\<lparr>sp_inTile := mram_read m (unat (dpuInVector_m p) + inVectorTileIdx * 64 * 4) 256, sp_inTileIdx := inVectorTileIdx\<rparr>
              else s);
         outValue = f_add fl outValue (f_mul fl matValue (sp_inTile s ! inVectorTileOffset))
     in (s\<lparr>sp_nonzeros := sr_get sr m (sp_nonzeros s) 8\<rparr>, outValue))"

definition spmv_store :: "nat \<Rightarrow> nat \<Rightarrow> nat \<Rightarrow> u32 list \<Rightarrow> cells \<Rightarrow> cells" where
  "spmv_store out n row tile m =
     (if row mod 64 = 64 - 1 then mram_write tile (out + row div 64 * 64 * 4) 256 m
      else if row = n - 1 then mram_write tile (out + row div 64 * 64 * 4) (n mod 64 * 4) m
      else m)"

definition spmv_row :: "float_ops \<Rightarrow> 'r seqread \<Rightarrow> spmv_params \<Rightarrow> nat \<Rightarrow> nat \<Rightarrow> nat \<Rightarrow> 'r spmv_locals \<times> cells \<Rightarrow> 'r spmv_locals \<times> cells" where
  "spmv_row fl sr p start n row = (\<lambda>(s, m).
     let s = s\<lparr>sp_rowPtrs := sr_get sr m (sp_rowPtrs s) 4\<rparr>; rowPtr = sp_nextRowPtr s;
         s = s\<lparr>sp_nextRowPtr := sr_word sr (sp_rowPtrs s) 0\<rparr>; taskletNNZ = sp_nextRowPtr s - rowPtr;
         (s, outValue) = (spmv_nonzero fl sr p m ^^ unat taskletNNZ) (s, 0);
         s = s\<lparr>sp_outTile := (sp_outTile s)[row mod 64 := outValue]\<rparr>
     in (s, spmv_store (unat (dpuOutVector_m p) + start * 4) n row (sp_outTile s) m))"

definition spmv_start :: "'r seqread \<Rightarrow> spmv_params \<Rightarrow> u32 list \<Rightarrow> nat \<Rightarrow> cells \<Rightarrow> 'r spmv_locals" where
  "spmv_start sr p stale start m =
     (let rowPtrReader = sr_init sr m (unat (dpuRowPtrs_m p) + start * 4); firstRowPtr = sr_word sr rowPtrReader 0;
          taskletNonzerosStart = unat (firstRowPtr - dpuRowPtrsOffset p)
      in \<lparr>sp_rowPtrs = rowPtrReader, sp_nonzeros = sr_init sr m (unat (dpuNonzeros_m p) + taskletNonzerosStart * 8),
          sp_inTile = mram_read m (unat (dpuInVector_m p)) 256, sp_inTileIdx = 0, sp_outTile = stale, sp_nextRowPtr = firstRowPtr\<rparr>)"

definition spmv_tasklet :: "float_ops \<Rightarrow> 'r seqread \<Rightarrow> spmv_params \<Rightarrow> u32 list \<Rightarrow> nat \<Rightarrow> cells \<Rightarrow> cells" where
  "spmv_tasklet fl sr p stale tid m =
     (let (start, n) = spmv_rows p tid
      in if 0 < n then snd (fold (spmv_row fl sr p start n) [0..<n] (spmv_start sr p stale start m, m)) else m)"

text \<open>The tasklets share only what none of them writes: a tasklet is one action.\<close>

definition spmv_main :: "float_ops \<Rightarrow> 'r seqread \<Rightarrow> (nat \<Rightarrow> u32 list) \<Rightarrow> cells \<Rightarrow> cells \<Rightarrow> bool" where
  "spmv_main fl sr stale m m' \<longleftrightarrow>
     (let m = sk_log_init m in phase (map (\<lambda>t. [spmv_tasklet fl sr (spmv_read_params m) (stale t) t]) [0..<NR_TASKLETS]) m m')"

section \<open>The product\<close>

definition spmv_ptr :: "cells \<Rightarrow> spmv_params \<Rightarrow> nat \<Rightarrow> nat" where
  "spmv_ptr m p r = unat (m (unat (dpuRowPtrs_m p) div 4 + r)) - unat (dpuRowPtrsOffset p)"

definition spmv_nz :: "cells \<Rightarrow> spmv_params \<Rightarrow> nat \<Rightarrow> nonzero" where
  "spmv_nz m p k = \<lparr>nz_col = m (unat (dpuNonzeros_m p) div 4 + 2 * k), nz_value = m (unat (dpuNonzeros_m p) div 4 + 2 * k + 1)\<rparr>"

definition spmv_in :: "cells \<Rightarrow> spmv_params \<Rightarrow> nat \<Rightarrow> u32" where
  "spmv_in m p c = m (unat (dpuInVector_m p) div 4 + c)"

definition spmv_sum :: "float_ops \<Rightarrow> (nat \<Rightarrow> u32) \<Rightarrow> nonzero list \<Rightarrow> u32" where
  "spmv_sum fl x nzs = foldl (\<lambda>acc nz. f_add fl acc (f_mul fl (nz_value nz) (x (unat (nz_col nz))))) 0 nzs"

definition spmv_row_entries :: "cells \<Rightarrow> spmv_params \<Rightarrow> nat \<Rightarrow> nonzero list" where
  "spmv_row_entries m p r = map (spmv_nz m p) [spmv_ptr m p r..<spmv_ptr m p (Suc r)]"

definition spmv_inputs :: "cells \<Rightarrow> spmv_params \<Rightarrow> nat set" where
  "spmv_inputs m p = (let n = unat (dpuNumRows p); nnz = spmv_ptr m p n in
     {unat (dpuRowPtrs_m p) div 4 + r | r. r \<le> n} \<union> {unat (dpuNonzeros_m p) div 4 + k | k. k < 2 * nnz}
     \<union> {unat (dpuInVector_m p) div 4 + unat (nz_col (spmv_nz m p k)) | k. k < nnz})"

definition spmv_outputs :: "spmv_params \<Rightarrow> nat set" where
  "spmv_outputs p = {unat (dpuOutVector_m p) div 4 + r | r. r < unat (dpuNumRows p)}"

definition spmv_ok :: "cells \<Rightarrow> spmv_params \<Rightarrow> bool" where
  "spmv_ok m p \<longleftrightarrow> unat (dpuNumRows p) mod 2 = 0 \<and> spmv_inputs m p \<inter> spmv_outputs p = {}
     \<and> unat (dpuRowPtrs_m p) mod 8 = 0 \<and> unat (dpuNonzeros_m p) mod 8 = 0 \<and> unat (dpuInVector_m p) mod 8 = 0 \<and> unat (dpuOutVector_m p) mod 8 = 0
     \<and> (\<forall>k \<in> spmv_inputs m p \<union> spmv_outputs p. k < SK_LOG_OFFSET div 4)
     \<and> dpuRowPtrsOffset p \<le> m (unat (dpuRowPtrs_m p) div 4)
     \<and> (\<forall>r < unat (dpuNumRows p). m (unat (dpuRowPtrs_m p) div 4 + r) \<le> m (unat (dpuRowPtrs_m p) div 4 + Suc r))"

section \<open>A row\<close>

text \<open>A state of the memory in which the matrix and the vector are still those of \<open>m0\<close>.\<close>

definition spmv_same :: "cells \<Rightarrow> spmv_params \<Rightarrow> cells \<Rightarrow> bool" where
  "spmv_same m0 p m \<longleftrightarrow> (\<forall>k \<in> spmv_inputs m0 p. m k = m0 k)"

definition in_tile_ok :: "cells \<Rightarrow> spmv_params \<Rightarrow> 'r spmv_locals \<Rightarrow> bool" where
  "in_tile_ok m0 p s \<longleftrightarrow> (\<forall>i < 64. unat (dpuInVector_m p) div 4 + (64 * sp_inTileIdx s + i) \<in> spmv_inputs m0 p \<longrightarrow>
     sp_inTile s ! i = spmv_in m0 p (64 * sp_inTileIdx s + i))"

lemma spmv_okD:
  assumes "spmv_ok m p"
  shows "unat (dpuNumRows p) mod 2 = 0" "spmv_inputs m p \<inter> spmv_outputs p = {}"
    "unat (dpuRowPtrs_m p) mod 8 = 0" "unat (dpuNonzeros_m p) mod 8 = 0" "unat (dpuInVector_m p) mod 8 = 0" "unat (dpuOutVector_m p) mod 8 = 0"
    "dpuRowPtrsOffset p \<le> m (unat (dpuRowPtrs_m p) div 4)"
  using assms by (simp_all add: spmv_ok_def)

lemma spmv_inputs_in:
  "r \<le> unat (dpuNumRows p) \<Longrightarrow> unat (dpuRowPtrs_m p) div 4 + r \<in> spmv_inputs m p"
  "k < 2 * spmv_ptr m p (unat (dpuNumRows p)) \<Longrightarrow> unat (dpuNonzeros_m p) div 4 + k \<in> spmv_inputs m p"
  "k < spmv_ptr m p (unat (dpuNumRows p)) \<Longrightarrow> unat (dpuInVector_m p) div 4 + unat (nz_col (spmv_nz m p k)) \<in> spmv_inputs m p"
  unfolding spmv_inputs_def Let_def by blast+

lemma div4_add: "(a + 8 * k) div 4 = a div 4 + 2 * k" "(a + 4 * k) div 4 = a div 4 + (k :: nat)"
  using div_mult_self2 [of 4 a "2 * k"] by simp_all

lemma seqread_okD:
  assumes "seqread_ok sr at m0 (spmv_inputs m0 p)"
  shows "spmv_same m0 p m \<Longrightarrow> at (sr_init sr m a) a"
    "spmv_same m0 p m \<Longrightarrow> at r a \<Longrightarrow> at (sr_get sr m r n) (a + n)"
    "at r a \<Longrightarrow> a div 4 + k \<in> spmv_inputs m0 p \<Longrightarrow> sr_word sr r k = m0 (a div 4 + k)"
  using assms by (auto simp: seqread_ok_def spmv_same_def)

lemma in_tile_load:
  assumes "spmv_ok m0 p" "spmv_same m0 p m" "k = 64 * i"
  shows "in_tile_ok m0 p (s\<lparr>sp_inTile := mram_read m (unat (dpuInVector_m p) + k * 4) 256, sp_inTileIdx := i\<rparr>)"
proof -
  let ?a = "unat (dpuInVector_m p)"
  have "(?a + k * 4) mod 8 = 0" "(256 :: nat) mod 8 = 0" "(256 :: nat) div 4 = 64" using spmv_okD(5) [OF assms(1)] by (simp_all add: assms(3) dma_simps)
  then have "mram_read m (?a + k * 4) 256 = map (\<lambda>j. m (?a div 4 + k + j)) [0..<64]"
    by (simp add: mram_read_cells mult.commute [of k 4] div4_add del: upt_rec_numeral)
  then show ?thesis using assms(2,3) by (auto simp: in_tile_ok_def spmv_same_def spmv_in_def add.assoc simp del: upt_rec_numeral)
qed

lemma spmv_nonzero_step:
  assumes ok: "spmv_ok m0 p" and rd: "seqread_ok sr at m0 (spmv_inputs m0 p)" and same: "spmv_same m0 p m"
    and k: "k < spmv_ptr m0 p (unat (dpuNumRows p))" and s: "at (sp_nonzeros s) (unat (dpuNonzeros_m p) + 8 * k)" "in_tile_ok m0 p s"
  obtains s' where "spmv_nonzero fl sr p m (s, acc)
      = (s', f_add fl acc (f_mul fl (nz_value (spmv_nz m0 p k)) (spmv_in m0 p (unat (nz_col (spmv_nz m0 p k))))))"
    "at (sp_nonzeros s') (unat (dpuNonzeros_m p) + 8 * Suc k)" "in_tile_ok m0 p s'"
    "sp_rowPtrs s' = sp_rowPtrs s" "sp_outTile s' = sp_outTile s" "sp_nextRowPtr s' = sp_nextRowPtr s"
proof -
  let ?z = "unat (dpuNonzeros_m p)" and ?c = "unat (nz_col (spmv_nz m0 p k))"
  have w: "sr_word sr (sp_nonzeros s) i = m0 (?z div 4 + 2 * k + i)" if "i < 2" for i
    using seqread_okD(3) [OF rd s(1), of i] spmv_inputs_in(2) [of "2 * k + i" m0 p] k that by (simp add: div4_add add.assoc)
  have val: "sr_word sr (sp_nonzeros s) 1 = nz_value (spmv_nz m0 p k)" and col: "sr_word sr (sp_nonzeros s) 0 = nz_col (spmv_nz m0 p k)"
    using w [of 0] w [of 1] by (simp_all add: spmv_nz_def)
  define s1 where "s1 = (if ?c div 64 \<noteq> sp_inTileIdx s
      then s\<lparr>sp_inTile := mram_read m (unat (dpuInVector_m p) + ?c div 64 * 64 * 4) 256, sp_inTileIdx := ?c div 64\<rparr> else s)"
  have t: "in_tile_ok m0 p s1" "sp_inTileIdx s1 = ?c div 64"
    using s(2) in_tile_load [OF ok same, of "?c div 64 * 64" "?c div 64" s] by (auto simp: s1_def)
  have "sp_inTile s1 ! (?c mod 64) = spmv_in m0 p ?c"
    using t(1) spmv_inputs_in(3) [OF k] unfolding in_tile_ok_def t(2) by (metis mod_less_divisor mult_div_mod_eq zero_less_numeral)
  then have e: "spmv_nonzero fl sr p m (s, acc)
      = (s1\<lparr>sp_nonzeros := sr_get sr m (sp_nonzeros s1) 8\<rparr>, f_add fl acc (f_mul fl (nz_value (spmv_nz m0 p k)) (spmv_in m0 p ?c)))"
    unfolding spmv_nonzero_def prod.case val col Let_def s1_def by simp
  have "sp_nonzeros s1 = sp_nonzeros s" by (simp add: s1_def)
  then have "at (sr_get sr m (sp_nonzeros s1) 8) (?z + 8 * Suc k)"
    using seqread_okD(2) [OF rd same s(1), of 8] by (simp add: algebra_simps)
  then show ?thesis by (intro that [OF e]) (use t(1) in \<open>simp_all add: s1_def in_tile_ok_def\<close>)
qed

lemma spmv_sum_snoc:
  "spmv_sum fl x (nzs @ [nz]) = f_add fl (spmv_sum fl x nzs) (f_mul fl (nz_value nz) (x (unat (nz_col nz))))"
  by (simp add: spmv_sum_def)

lemma spmv_nonzeros:
  assumes ok: "spmv_ok m0 p" and rd: "seqread_ok sr at m0 (spmv_inputs m0 p)" and same: "spmv_same m0 p m"
    and k: "k + j \<le> spmv_ptr m0 p (unat (dpuNumRows p))" and s: "at (sp_nonzeros s) (unat (dpuNonzeros_m p) + 8 * k)" "in_tile_ok m0 p s"
  obtains s' where "(spmv_nonzero fl sr p m ^^ j) (s, 0) = (s', spmv_sum fl (spmv_in m0 p) (map (spmv_nz m0 p) [k..<k + j]))"
    "at (sp_nonzeros s') (unat (dpuNonzeros_m p) + 8 * (k + j))" "in_tile_ok m0 p s'"
    "sp_rowPtrs s' = sp_rowPtrs s" "sp_outTile s' = sp_outTile s" "sp_nextRowPtr s' = sp_nextRowPtr s"
  using k
proof (induction j arbitrary: thesis)
  case 0
  show ?case by (rule "0.prems"(1) [of s]) (use s in \<open>simp_all add: spmv_sum_def\<close>)
next
  case (Suc j)
  obtain s1 where s1: "(spmv_nonzero fl sr p m ^^ j) (s, 0) = (s1, spmv_sum fl (spmv_in m0 p) (map (spmv_nz m0 p) [k..<k + j]))"
    "at (sp_nonzeros s1) (unat (dpuNonzeros_m p) + 8 * (k + j))" "in_tile_ok m0 p s1"
    "sp_rowPtrs s1 = sp_rowPtrs s" "sp_outTile s1 = sp_outTile s" "sp_nextRowPtr s1 = sp_nextRowPtr s"
    using Suc.IH Suc.prems(2) by (metis add_Suc_right Suc_leD)
  obtain s2 where s2: "spmv_nonzero fl sr p m (s1, spmv_sum fl (spmv_in m0 p) (map (spmv_nz m0 p) [k..<k + j]))
      = (s2, f_add fl (spmv_sum fl (spmv_in m0 p) (map (spmv_nz m0 p) [k..<k + j]))
          (f_mul fl (nz_value (spmv_nz m0 p (k + j))) (spmv_in m0 p (unat (nz_col (spmv_nz m0 p (k + j)))))))"
    "at (sp_nonzeros s2) (unat (dpuNonzeros_m p) + 8 * Suc (k + j))" "in_tile_ok m0 p s2"
    "sp_rowPtrs s2 = sp_rowPtrs s1" "sp_outTile s2 = sp_outTile s1" "sp_nextRowPtr s2 = sp_nextRowPtr s1"
    by (rule spmv_nonzero_step [OF ok rd same _ s1(2,3)]) (use Suc.prems(2) in auto)
  show ?case by (rule Suc.prems(1) [of s2]) (use s1 s2 in \<open>simp_all add: spmv_sum_snoc [symmetric]\<close>)
qed

text \<open>How many of its \<open>n\<close> rows a tasklet has stored when it is at row \<open>r\<close>.\<close>

definition spmv_stored :: "nat \<Rightarrow> nat \<Rightarrow> nat" where
  "spmv_stored n r = (if r = n then n else r div 64 * 64)"

lemma spmv_store_cells:
  assumes r: "r < n" and n: "n mod 2 = 0" and a: "a mod 8 = 0" and tile: "\<And>j. j \<le> r mod 64 \<Longrightarrow> tile ! j = v (r div 64 * 64 + j)"
    and m: "\<And>k. m k = (if a div 4 \<le> k \<and> k < a div 4 + spmv_stored n r then v (k - a div 4) else m1 k)"
  shows "spmv_store a n r tile m k = (if a div 4 \<le> k \<and> k < a div 4 + spmv_stored n (Suc r) then v (k - a div 4) else m1 k)"
proof -
  let ?t = "r div 64 * 64"
  have st: "spmv_stored n r = ?t" using r by (simp add: spmv_stored_def)
  have rq: "r = ?t + r mod 64" by simp
  have wr: "mram_write tile (a + ?t * 4) (c * 4) m k = (if a div 4 \<le> k \<and> k < a div 4 + (?t + c) then v (k - a div 4) else m1 k)"
    if c: "c mod 2 = 0" "c \<le> r mod 64 + 1" for c
  proof -
    from c(1) obtain d where d: "c = 2 * d" by (auto elim!: evenE simp: mod_eq_0_iff_dvd)
    have al: "(a + ?t * 4) mod 8 = 0" "c * 4 mod 8 = 0" "(a + ?t * 4) div 4 = a div 4 + ?t" "c * 4 div 4 = c"
      using a div4_add(2) [of a ?t] by (simp_all add: d mult.commute [of 4] dma_simps)
    show ?thesis
    proof (cases "a div 4 + ?t \<le> k \<and> k < a div 4 + ?t + c")
      case True
      then have "k - (a div 4 + ?t) \<le> r mod 64" using c(2) by linarith
      then have "tile ! (k - (a div 4 + ?t)) = v (?t + (k - (a div 4 + ?t)))" by (rule tile)
      moreover have "?t + (k - (a div 4 + ?t)) = k - a div 4" using True by linarith
      ultimately show ?thesis using True unfolding mram_write_cells [OF al(1,2)] al(3,4) by simp
    next
      case False
      then show ?thesis unfolding mram_write_cells [OF al(1,2)] al(3,4) m st by auto
    qed
  qed
  consider (full) "r mod 64 = 63" | (last) "r mod 64 \<noteq> 63" "Suc r = n" | (keep) "r mod 64 \<noteq> 63" "Suc r \<noteq> n" by blast
  then show ?thesis
  proof cases
    case full
    have S: "Suc r = ?t + 64" using rq full by linarith
    have "Suc r mod 64 = 0" using full by (simp add: mod_Suc)
    then have d: "Suc r div 64 * 64 = ?t + 64" by (simp add: div_Suc)
    have "spmv_stored n (Suc r) = ?t + 64" unfolding spmv_stored_def d using S by auto
    then show ?thesis using wr [of 64] full by (simp add: spmv_store_def)
  next
    case last
    have c: "n mod 64 = r mod 64 + 1" unfolding last(2) [symmetric] using last(1) by (simp add: mod_Suc)
    have e: "spmv_stored n (Suc r) = ?t + n mod 64" using last(2) rq c by (simp add: spmv_stored_def)
    have "n mod 64 mod 2 = 0" using n by (simp add: mod_mod_cancel)
    moreover have no: "\<not> r mod 64 = 64 - 1" and yes: "r = n - 1" using last by simp_all
    ultimately show ?thesis unfolding spmv_store_def if_not_P [OF no] if_P [OF yes] e by (intro wr) (use c in simp_all)
  next
    case keep
    have "Suc r div 64 = r div 64" using keep(1) by (simp add: div_Suc mod_Suc)
    then have "spmv_stored n (Suc r) = ?t" using keep(2) by (simp add: spmv_stored_def)
    moreover have "r \<noteq> n - 1" using keep(2) r by simp
    then have "spmv_store a n r tile m = m" using keep(1) by (simp add: spmv_store_def)
    ultimately show ?thesis using m [of k] st by simp
  qed
qed

lemma spmv_ptr_word:
  assumes ok: "spmv_ok m p" and r: "r \<le> unat (dpuNumRows p)"
  shows "dpuRowPtrsOffset p \<le> m (unat (dpuRowPtrs_m p) div 4 + r)"
    "unat (m (unat (dpuRowPtrs_m p) div 4 + r) - dpuRowPtrsOffset p) = spmv_ptr m p r"
proof -
  show off: "dpuRowPtrsOffset p \<le> m (unat (dpuRowPtrs_m p) div 4 + r)"
    using r
  proof (induction r)
    case (Suc r)
    then have "m (unat (dpuRowPtrs_m p) div 4 + r) \<le> m (unat (dpuRowPtrs_m p) div 4 + Suc r)" using ok by (simp add: spmv_ok_def)
    then show ?case using Suc by (meson Suc_leD order_trans)
  qed (use spmv_okD(7) [OF ok] in simp)
  then show "unat (m (unat (dpuRowPtrs_m p) div 4 + r) - dpuRowPtrsOffset p) = spmv_ptr m p r"
    by (simp add: spmv_ptr_def unat_sub)
qed

lemma spmv_ptr_Suc:
  assumes ok: "spmv_ok m p" and r: "r < unat (dpuNumRows p)"
  shows "unat (m (unat (dpuRowPtrs_m p) div 4 + Suc r) - m (unat (dpuRowPtrs_m p) div 4 + r)) = spmv_ptr m p (Suc r) - spmv_ptr m p r"
    "spmv_ptr m p r \<le> spmv_ptr m p (Suc r)"
proof -
  let ?p = "\<lambda>r. m (unat (dpuRowPtrs_m p) div 4 + r)"
  have mono: "?p r \<le> ?p (Suc r)" using ok r by (simp add: spmv_ok_def)
  show "unat (?p (Suc r) - ?p r) = spmv_ptr m p (Suc r) - spmv_ptr m p r"
    using mono spmv_ptr_word(1) [OF ok, of r] r by (simp add: spmv_ptr_def unat_sub word_le_nat_alt)
  show "spmv_ptr m p r \<le> spmv_ptr m p (Suc r)" using mono by (simp add: spmv_ptr_def word_le_nat_alt diff_le_mono)
qed

lemma spmv_ptr_mono:
  assumes ok: "spmv_ok m p"
  shows "r \<le> s \<Longrightarrow> s \<le> unat (dpuNumRows p) \<Longrightarrow> spmv_ptr m p r \<le> spmv_ptr m p s"
proof (induction s rule: dec_induct)
  case (step s)
  then show ?case using spmv_ptr_Suc(2) [OF ok, of s] by simp
qed simp

definition spmv_value :: "float_ops \<Rightarrow> cells \<Rightarrow> spmv_params \<Rightarrow> nat \<Rightarrow> u32" where
  "spmv_value fl m p r = spmv_sum fl (spmv_in m p) (spmv_row_entries m p r)"

definition spmv_inv :: "float_ops \<Rightarrow> ('r \<Rightarrow> nat \<Rightarrow> bool) \<Rightarrow> cells \<Rightarrow> spmv_params \<Rightarrow> nat \<Rightarrow> nat \<Rightarrow> 'r spmv_locals \<Rightarrow> bool" where
  "spmv_inv fl at m0 p start r s \<longleftrightarrow>
     at (sp_rowPtrs s) (unat (dpuRowPtrs_m p) + 4 * (start + r)) \<and> sp_nextRowPtr s = m0 (unat (dpuRowPtrs_m p) div 4 + (start + r))
     \<and> at (sp_nonzeros s) (unat (dpuNonzeros_m p) + 8 * spmv_ptr m0 p (start + r)) \<and> in_tile_ok m0 p s
     \<and> length (sp_outTile s) = 64 \<and> (\<forall>j < r mod 64. sp_outTile s ! j = spmv_value fl m0 p (start + (r div 64 * 64 + j)))"

definition spmv_mem :: "float_ops \<Rightarrow> cells \<Rightarrow> spmv_params \<Rightarrow> nat \<Rightarrow> nat \<Rightarrow> cells \<Rightarrow> cells \<Rightarrow> bool" where
  "spmv_mem fl m0 p start c m1 m \<longleftrightarrow> (\<forall>k. m k = (let a = unat (dpuOutVector_m p) div 4 + start in
     if a \<le> k \<and> k < a + c then spmv_value fl m0 p (start + (k - a)) else m1 k))"

lemma spmv_mem_same:
  assumes "spmv_ok m0 p" "spmv_same m0 p m1" "spmv_mem fl m0 p start c m1 m" "start + c \<le> unat (dpuNumRows p)"
  shows "spmv_same m0 p m"
  unfolding spmv_same_def
proof
  fix k assume k: "k \<in> spmv_inputs m0 p"
  have "\<not> (unat (dpuOutVector_m p) div 4 + start \<le> k \<and> k < unat (dpuOutVector_m p) div 4 + start + c)"
  proof
    assume a: "unat (dpuOutVector_m p) div 4 + start \<le> k \<and> k < unat (dpuOutVector_m p) div 4 + start + c"
    then have "k = unat (dpuOutVector_m p) div 4 + (k - unat (dpuOutVector_m p) div 4)" "k - unat (dpuOutVector_m p) div 4 < unat (dpuNumRows p)"
      using assms(4) by linarith+
    then have "k \<in> spmv_outputs p" unfolding spmv_outputs_def by blast
    then show False using spmv_okD(2) [OF assms(1)] k by blast
  qed
  then show "m k = m0 k" using assms(2,3) k by (auto simp: spmv_mem_def spmv_same_def Let_def)
qed

lemma spmv_row_step:
  assumes ok: "spmv_ok m0 p" and rd: "seqread_ok sr at m0 (spmv_inputs m0 p)" and m1: "spmv_same m0 p m1"
    and r: "r < n" "start + n \<le> unat (dpuNumRows p)" "n mod 2 = 0" "start mod 2 = 0"
    and s: "spmv_inv fl at m0 p start r s" and m: "spmv_mem fl m0 p start (spmv_stored n r) m1 m"
  obtains s' m' where "spmv_row fl sr p start n r (s, m) = (s', m')" "spmv_inv fl at m0 p start (Suc r) s'"
    "spmv_mem fl m0 p start (spmv_stored n (Suc r)) m1 m'"
proof -
  let ?R = "unat (dpuRowPtrs_m p)" and ?N = "unat (dpuNumRows p)" and ?q = "start + r" and ?out = "unat (dpuOutVector_m p)"
  have q: "?q < ?N" using r by simp
  have "spmv_stored n r \<le> n" using r(1) by (simp add: spmv_stored_def)
  then have same: "spmv_same m0 p m" using spmv_mem_same [OF ok m1 m] r(2) by simp
  have s': "at (sp_rowPtrs s) (?R + 4 * ?q)" "sp_nextRowPtr s = m0 (?R div 4 + ?q)" "at (sp_nonzeros s) (unat (dpuNonzeros_m p) + 8 * spmv_ptr m0 p ?q)"
    "in_tile_ok m0 p s" "length (sp_outTile s) = 64" "\<And>j. j < r mod 64 \<Longrightarrow> sp_outTile s ! j = spmv_value fl m0 p (start + (r div 64 * 64 + j))"
    using s by (simp_all add: spmv_inv_def)
  let ?rp = "sr_get sr m (sp_rowPtrs s) 4"
  have at: "at ?rp (?R + 4 * Suc ?q)" using seqread_okD(2) [OF rd same s'(1), of 4] by (simp add: algebra_simps)
  have nx: "sr_word sr ?rp 0 = m0 (?R div 4 + Suc ?q)"
    by (rule seqread_okD(3) [OF rd at, of 0, unfolded add_0_right div4_add(2)]) (rule spmv_inputs_in(1), use q in simp)
  define s1 where "s1 = s\<lparr>sp_rowPtrs := ?rp, sp_nextRowPtr := m0 (?R div 4 + Suc ?q)\<rparr>"
  let ?P = "spmv_ptr m0 p ?q" and ?J = "spmv_ptr m0 p (Suc ?q) - spmv_ptr m0 p ?q"
  have J: "?P + ?J = spmv_ptr m0 p (Suc ?q)" using spmv_ptr_Suc(2) [OF ok q] by simp
  have le: "?P + ?J \<le> spmv_ptr m0 p ?N" unfolding J by (rule spmv_ptr_mono [OF ok]) (use q in simp_all)
  obtain s2 where s2: "(spmv_nonzero fl sr p m ^^ ?J) (s1, 0) = (s2, spmv_sum fl (spmv_in m0 p) (map (spmv_nz m0 p) [?P..<?P + ?J]))"
    "at (sp_nonzeros s2) (unat (dpuNonzeros_m p) + 8 * (?P + ?J))" "in_tile_ok m0 p s2"
    "sp_rowPtrs s2 = sp_rowPtrs s1" "sp_outTile s2 = sp_outTile s1" "sp_nextRowPtr s2 = sp_nextRowPtr s1"
    by (rule spmv_nonzeros [OF ok rd same le, where s = s1 and fl = fl]) (use s'(3,4) in \<open>simp_all add: s1_def in_tile_ok_def\<close>)
  have v: "spmv_sum fl (spmv_in m0 p) (map (spmv_nz m0 p) [?P..<?P + ?J]) = spmv_value fl m0 p ?q"
    unfolding J by (simp add: spmv_value_def spmv_row_entries_def)
  let ?tile = "(sp_outTile s)[r mod 64 := spmv_value fl m0 p ?q]"
  have o2: "sp_outTile s2 = sp_outTile s" using s2(5) by (simp add: s1_def)
  have tile: "?tile ! j = spmv_value fl m0 p (start + (r div 64 * 64 + j))" if "j \<le> r mod 64" for j
    using s'(5,6) that by (cases "j = r mod 64") (simp_all add: nth_list_update)
  have nnz: "unat (m0 (?R div 4 + Suc ?q) - m0 (?R div 4 + ?q)) = ?J" by (rule spmv_ptr_Suc(1) [OF ok q])
  have e: "spmv_row fl sr p start n r (s, m) = (s2\<lparr>sp_outTile := ?tile\<rparr>, spmv_store (?out + start * 4) n r ?tile m)"
  proof -
    have "spmv_row fl sr p start n r (s, m) = (let (s, outValue) = (spmv_nonzero fl sr p m ^^ ?J) (s1, 0);
        s = s\<lparr>sp_outTile := (sp_outTile s)[r mod 64 := outValue]\<rparr> in (s, spmv_store (?out + start * 4) n r (sp_outTile s) m))"
      unfolding spmv_row_def prod.case Let_def s1_def nnz [symmetric] using nx s'(2) by simp
    then show ?thesis unfolding s2(1) v by (simp add: o2)
  qed
  have base: "(?out + start * 4) mod 8 = 0" "(?out + start * 4) div 4 = ?out div 4 + start"
  proof -
    have "start * 4 mod 8 = 0" using r(4) by (auto elim!: evenE simp: mod_eq_0_iff_dvd)
    then show "(?out + start * 4) mod 8 = 0" using spmv_okD(6) [OF ok] by (rule aligned_add(3) [rotated])
    show "(?out + start * 4) div 4 = ?out div 4 + start" using div4_add(2) [of ?out start] by (simp add: mult.commute)
  qed
  have mem: "m k = (if (?out + start * 4) div 4 \<le> k \<and> k < (?out + start * 4) div 4 + spmv_stored n r
      then spmv_value fl m0 p (start + (k - (?out + start * 4) div 4)) else m1 k)" for k
    using m unfolding spmv_mem_def Let_def base(2) by blast
  have "spmv_mem fl m0 p start (spmv_stored n (Suc r)) m1 (spmv_store (?out + start * 4) n r ?tile m)"
    unfolding spmv_mem_def Let_def base(2) [symmetric]
    by (intro allI spmv_store_cells [where v = "\<lambda>j. spmv_value fl m0 p (start + j)", OF r(1,3) base(1) _ mem]) (rule tile)
  moreover have "spmv_inv fl at m0 p start (Suc r) (s2\<lparr>sp_outTile := ?tile\<rparr>)"
  proof -
    have "?tile ! j = spmv_value fl m0 p (start + (Suc r div 64 * 64 + j))" if j: "j < Suc r mod 64" for j
    proof -
      have "Suc r mod 64 = Suc (r mod 64)" "Suc r div 64 = r div 64" using j by (auto simp: mod_Suc div_Suc split: if_splits)
      then show ?thesis using tile [of j] j by simp
    qed
    moreover have "length ?tile = 64" using s'(5) by simp
    ultimately show ?thesis using s2(2-4,6) at unfolding spmv_inv_def J by (simp add: s1_def in_tile_ok_def)
  qed
  ultimately show ?thesis using that e by blast
qed

section \<open>The tasklets\<close>

lemma spmv_rows_bounds:
  assumes "spmv_rows p t = (start, n)" "unat (dpuNumRows p) mod 2 = 0"
  shows "0 < n \<Longrightarrow> start + n \<le> unat (dpuNumRows p)" "n mod 2 = 0" "start mod 2 = 0"
proof -
  define per where "per = (if 0 < unat (dpuNumRows p) then ROUND_UP_TO_MULTIPLE_OF_2 ((unat (dpuNumRows p) - 1) div NR_TASKLETS + 1) else 0)"
  have s: "start = t * per" and n: "n = (if unat (dpuNumRows p) < start then 0 else if unat (dpuNumRows p) < start + per then unat (dpuNumRows p) - start else per)"
    using assms(1) by (auto simp: spmv_rows_def Let_def per_def)
  have per: "even per" by (simp add: per_def ROUND_UP_TO_MULTIPLE_OF_2_def)
  then have ev: "even start" unfolding s by simp
  have "even (unat (dpuNumRows p))" using assms(2) by (simp add: even_iff_mod_2_eq_zero)
  then have "even n" unfolding n using per ev by auto
  then show "n mod 2 = 0" by (simp add: even_iff_mod_2_eq_zero)
  show "start mod 2 = 0" using ev by (simp add: even_iff_mod_2_eq_zero)
  show "0 < n \<Longrightarrow> start + n \<le> unat (dpuNumRows p)" unfolding n by (auto split: if_splits)
qed

text \<open>Every row belongs to a tasklet.\<close>

lemma spmv_rows_cover:
  assumes "r < unat (dpuNumRows p)"
  obtains t start n where "t < NR_TASKLETS" "spmv_rows p t = (start, n)" "start \<le> r" "r < start + n"
proof -
  define N where "N = unat (dpuNumRows p)"
  define per where "per = ROUND_UP_TO_MULTIPLE_OF_2 ((N - 1) div NR_TASKLETS + 1)"
  have N: "0 < N" "r < N" using assms by (auto simp: N_def)
  have "(N - 1) div NR_TASKLETS + 1 \<le> per" unfolding per_def ROUND_UP_TO_MULTIPLE_OF_2_def by simp
  moreover have "N - 1 < NR_TASKLETS * ((N - 1) div NR_TASKLETS + 1)"
    by (metis NR_TASKLETS_pos Suc_eq_plus1 dividend_less_times_div mult.commute mult_Suc_right add.commute)
  moreover have "NR_TASKLETS * ((N - 1) div NR_TASKLETS + 1) \<le> NR_TASKLETS * per" by (rule mult_le_mono2) (rule calculation(1))
  ultimately have big: "N \<le> NR_TASKLETS * per" "0 < per" using N(1) by linarith+
  let ?t = "r div per"
  have "?t < NR_TASKLETS" using big N by (simp add: div_less_iff_less_mult mult.commute)
  moreover have rows: "spmv_rows p ?t = (?t * per, if N < ?t * per then 0 else if N < ?t * per + per then N - ?t * per else per)"
    using N by (simp add: spmv_rows_def Let_def per_def N_def)
  moreover have lo: "?t * per \<le> r" by simp
  moreover have "r < ?t * per + per" using big(2) by (metis dividend_less_div_times add.commute)
  moreover have "\<not> N < ?t * per" using lo N by linarith
  ultimately show ?thesis using that [OF _ rows] N by auto
qed

lemma spmv_tasklet_cells:
  assumes ok: "spmv_ok m0 p" and rd: "seqread_ok sr at m0 (spmv_inputs m0 p)" and m1: "spmv_same m0 p m1"
    and rows: "spmv_rows p t = (start, n)" and stale: "length stale = 64"
  shows "spmv_tasklet fl sr p stale t m1 k = (let a = unat (dpuOutVector_m p) div 4 in
     if a + start \<le> k \<and> k < a + start + n then spmv_value fl m0 p (k - a) else m1 k)"
proof (cases "0 < n")
  case True
  note b = spmv_rows_bounds [OF rows spmv_okD(1) [OF ok]]
  let ?R = "unat (dpuRowPtrs_m p)"
  let ?st = "spmv_start sr p stale start m1"
  have at: "at (sr_init sr m1 (?R + start * 4)) (?R + 4 * start)" using seqread_okD(1) [OF rd m1, of "?R + start * 4"] by (simp add: mult.commute)
  have w: "sr_word sr (sr_init sr m1 (?R + start * 4)) 0 = m0 (?R div 4 + start)"
    using seqread_okD(3) [OF rd at, of 0] spmv_inputs_in(1) [of start p m0] b(1) [OF True] by (simp add: div4_add)
  have nz: "unat (m0 (?R div 4 + start) - dpuRowPtrsOffset p) = spmv_ptr m0 p start" by (rule spmv_ptr_word(2) [OF ok]) (use True b(1) in simp)
  have tile: "in_tile_ok m0 p (s\<lparr>sp_inTile := mram_read m1 (unat (dpuInVector_m p)) 256, sp_inTileIdx := 0\<rparr>)" for s :: "'a spmv_locals"
    using in_tile_load [OF ok m1, of 0 0 s] by simp
  have st: "spmv_inv fl at m0 p start 0 ?st"
    using at seqread_okD(1) [OF rd m1, of "unat (dpuNonzeros_m p) + spmv_ptr m0 p start * 8"] stale tile [of ?st]
    by (simp add: spmv_inv_def spmv_start_def Let_def w nz mult.commute [of _ 8] in_tile_ok_def)
  have m0': "spmv_mem fl m0 p start (spmv_stored n 0) m1 m1" using True by (auto simp: spmv_mem_def spmv_stored_def Let_def)
  have inv: "\<exists>s m. fold (spmv_row fl sr p start n) [0..<r] (?st, m1) = (s, m) \<and> spmv_inv fl at m0 p start r s
      \<and> spmv_mem fl m0 p start (spmv_stored n r) m1 m" if "r \<le> n" for r
    using that
  proof (induction r)
    case (Suc r)
    then obtain s m where s: "fold (spmv_row fl sr p start n) [0..<r] (?st, m1) = (s, m)" "spmv_inv fl at m0 p start r s"
      "spmv_mem fl m0 p start (spmv_stored n r) m1 m" by auto
    obtain s' m' where "spmv_row fl sr p start n r (s, m) = (s', m')" "spmv_inv fl at m0 p start (Suc r) s'"
      "spmv_mem fl m0 p start (spmv_stored n (Suc r)) m1 m'"
      by (rule spmv_row_step [OF ok rd m1 _ b(1) [OF True] b(2,3) s(2,3)]) (use Suc.prems in auto)
    then show ?case using s(1) by simp
  qed (use st m0' in simp)
  obtain s m where s: "fold (spmv_row fl sr p start n) [0..<n] (?st, m1) = (s, m)" "spmv_mem fl m0 p start n m1 m"
    using inv [of n] by (auto simp: spmv_stored_def)
  then have "spmv_tasklet fl sr p stale t m1 = m" using True by (simp add: spmv_tasklet_def rows)
  then show ?thesis using s(2) by (auto simp: spmv_mem_def Let_def)
qed (auto simp: spmv_tasklet_def rows Let_def)

text \<open>A row of the result is the sum over its entries, in their order, for every interleaving.\<close>

lemma spmv_main_rows:
  assumes run: "spmv_main fl sr stale m m'" and m0: "m0 = sk_log_init m" and p: "p = spmv_read_params m0"
    and ok: "spmv_ok m0 p" and rd: "seqread_ok sr at m0 (spmv_inputs m0 p)" and stale: "\<And>t. length (stale t) = 64"
    and r: "r < unat (dpuNumRows p)"
  shows "m' (unat (dpuOutVector_m p) div 4 + r) = spmv_sum fl (spmv_in m0 p) (spmv_row_entries m0 p r)"
proof -
  let ?a = "unat (dpuOutVector_m p) div 4" and ?progs = "map (\<lambda>t. [spmv_tasklet fl sr p (stale t) t]) [0..<NR_TASKLETS]"
  obtain zs where zs: "zs \<in> interleavings ?progs" "m' = run_seq zs m0"
    using run unfolding spmv_main_def Let_def phase_def m0 [symmetric] p [symmetric] by blast
  have set: "set zs = (\<lambda>t. spmv_tasklet fl sr p (stale t) t) ` {0..<NR_TASKLETS}" using set_interleavings [OF zs(1)] by auto
  have cell: "spmv_tasklet fl sr p (stale t) t m1 k = (case spmv_rows p t of (start, n) \<Rightarrow>
      if ?a + start \<le> k \<and> k < ?a + start + n then spmv_value fl m0 p (k - ?a) else m1 k)" if "spmv_same m0 p m1" for t m1 k
    using spmv_tasklet_cells [OF ok rd that _ stale] by (cases "spmv_rows p t") (simp add: Let_def)
  have part: "?a + start + n \<le> ?a + unat (dpuNumRows p)" if "spmv_rows p t = (start, n)" "0 < n" for t start n
    using spmv_rows_bounds(1) [OF that(1) spmv_okD(1) [OF ok] that(2)] by simp
  have keep: "spmv_same m0 p (spmv_tasklet fl sr p (stale t) t m1)" if same: "spmv_same m0 p m1" for t m1
    unfolding spmv_same_def
  proof
    fix k assume k: "k \<in> spmv_inputs m0 p"
    obtain start n where rows: "spmv_rows p t = (start, n)" by (cases "spmv_rows p t")
    have no: "\<not> (?a + start \<le> k \<and> k < ?a + start + n)"
    proof
      assume c: "?a + start \<le> k \<and> k < ?a + start + n"
      then have "k = ?a + (k - ?a)" "k - ?a < unat (dpuNumRows p)" using part [OF rows] by linarith+
      then have "k \<in> spmv_outputs p" unfolding spmv_outputs_def by blast
      then show False using spmv_okD(2) [OF ok] k by blast
    qed
    then show "spmv_tasklet fl sr p (stale t) t m1 k = m0 k"
      unfolding cell [OF same] rows prod.case if_not_P [OF no] using same k by (simp add: spmv_same_def)
  qed
  obtain t start n where t: "t < NR_TASKLETS" "spmv_rows p t = (start, n)" "start \<le> r" "r < start + n" using spmv_rows_cover [OF r] by blast
  let ?f = "spmv_tasklet fl sr p (stale t) t"
  have "run_seq fs m1 (?a + r) = spmv_value fl m0 p r"
    if "set fs \<subseteq> set zs" "spmv_same m0 p m1" "?f \<in> set fs \<or> m1 (?a + r) = spmv_value fl m0 p r" for fs m1
    using that
  proof (induction fs arbitrary: m1)
    case (Cons f fs)
    from Cons.prems(1) obtain u where f: "f = spmv_tasklet fl sr p (stale u) u" unfolding set by auto
    have "spmv_same m0 p (f m1)" unfolding f by (rule keep) (rule Cons.prems(2))
    moreover have "?f \<in> set fs \<or> f m1 (?a + r) = spmv_value fl m0 p r"
      using Cons.prems(2,3) cell [OF Cons.prems(2), of u "?a + r"] cell [OF Cons.prems(2), of t "?a + r"] t(2-4) f
      by (auto split: prod.splits if_splits)
    ultimately show ?case using Cons.IH [of "f m1"] Cons.prems(1) by simp
  qed simp
  from this [of zs m0] show ?thesis unfolding zs(2) spmv_value_def using set t(1) by (auto simp: spmv_same_def)
qed

section \<open>From the list of entries to the product\<close>

text \<open>The rows of a matrix from \<open>r0\<close> on, laid out for one DPU.\<close>

definition csr_at :: "csr_matrix \<Rightarrow> nat \<Rightarrow> spmv_params \<Rightarrow> cells \<Rightarrow> bool" where
  "csr_at csr r0 p m \<longleftrightarrow> r0 + unat (dpuNumRows p) \<le> unat (csr_numRows csr) \<and> dpuRowPtrsOffset p = csr_rowPtrs csr ! r0
     \<and> (\<forall>r \<le> unat (dpuNumRows p). m (unat (dpuRowPtrs_m p) div 4 + r) = csr_rowPtrs csr ! (r0 + r))
     \<and> (\<forall>k. unat (csr_rowPtrs csr ! r0) + k < length (csr_nonzeros csr) \<longrightarrow> spmv_nz m p k = csr_nonzeros csr ! (unat (csr_rowPtrs csr ! r0) + k))"

lemma csr_row_entries:
  assumes wf: "csr_wf csr" and at: "csr_at csr r0 p m" and r: "r < unat (dpuNumRows p)"
  shows "spmv_row_entries m p r = csr_row csr (r0 + r)"
proof -
  let ?o = "unat (csr_rowPtrs csr ! r0)" and ?q = "\<lambda>r. unat (csr_rowPtrs csr ! (r0 + r))"
  have sorted: "sorted (map unat (csr_rowPtrs csr))" and len: "length (csr_rowPtrs csr) = unat (csr_numRows csr) + 1"
    and last: "unat (csr_rowPtrs csr ! unat (csr_numRows csr)) = length (csr_nonzeros csr)" using wf by (simp_all add: csr_wf_def)
  have mono: "unat (csr_rowPtrs csr ! a) \<le> unat (csr_rowPtrs csr ! b)" if "a \<le> b" "b \<le> unat (csr_numRows csr)" for a b
    using sorted_nth_mono [OF sorted, of a b] that len by simp
  have n: "r0 + Suc r \<le> unat (csr_numRows csr)" using at r by (simp add: csr_at_def)
  have lo: "?o \<le> ?q r" and hi: "?q (Suc r) \<le> length (csr_nonzeros csr)" using mono [of r0 "r0 + r"] mono [OF n order_refl] n last by simp_all
  have ptr: "spmv_ptr m p s = ?q s - ?o" if "s \<le> Suc r" for s using at r that by (simp add: spmv_ptr_def csr_at_def)
  have "map (spmv_nz m p) [?q r - ?o..<?q (Suc r) - ?o] = map (\<lambda>k. csr_nonzeros csr ! k) [?q r..<?q (Suc r)]"
  proof (rule nth_equalityI)
    fix i assume "i < length (map (spmv_nz m p) [?q r - ?o..<?q (Suc r) - ?o])"
    then have i: "?q r + i < ?q (Suc r)" using lo by simp
    have "spmv_nz m p (?q r - ?o + i) = csr_nonzeros csr ! (?o + (?q r - ?o + i))"
      using at i hi lo by (simp add: csr_at_def)
    then show "map (spmv_nz m p) [?q r - ?o..<?q (Suc r) - ?o] ! i = map (\<lambda>k. csr_nonzeros csr ! k) [?q r..<?q (Suc r)] ! i"
      using i lo by simp
  qed (use lo in simp)
  then show ?thesis by (simp add: spmv_row_entries_def csr_row_def ptr)
qed

text \<open>
  C39: the conversion of a well-formed list of entries has a result, a well-formed matrix of compressed rows, and each of
  its rows holds the entries of that row in the order of the list.
\<close>

theorem coo2csr_correct:
  assumes "coo_wf coo" "length fresh = length (coo_nonzeros coo)"
  shows "\<exists>csr. coo2csr fresh coo = Some csr \<and> csr_wf csr \<and> csr_numRows csr = coo_numRows coo
    \<and> (\<forall>r < unat (coo_numRows coo). csr_row csr r = coo_row coo r)"
  by (rule coo2csr_well_formed [OF assms])

text \<open>
  C40: when a DPU holds the rows from \<open>r0\<close> on of a converted matrix, the kernel writes the product with the vector: row
  \<open>r\<close> of the result is the sum over the entries of that row in the list, in their order, for every interleaving of
  the tasklets and every arithmetic on floats.
\<close>

theorem spmv_coo_product:
  assumes coo: "coo_wf coo" "length fresh = length (coo_nonzeros coo)" "coo2csr fresh coo = Some csr"
    and run: "spmv_main fl sr stale m m'" and m0: "m0 = sk_log_init m" and p: "p = spmv_read_params m0"
    and at: "csr_at csr r0 p m0" and ok: "spmv_ok m0 p" and rd: "seqread_ok sr at m0 (spmv_inputs m0 p)"
    and stale: "\<And>t. length (stale t) = 64" and r: "r < unat (dpuNumRows p)"
  shows "m' (unat (dpuOutVector_m p) div 4 + r) = spmv_sum fl (spmv_in m0 p) (coo_row coo (r0 + r))"
proof -
  have csr: "csr_wf csr" "csr_numRows csr = coo_numRows coo" "\<And>r. r < unat (coo_numRows coo) \<Longrightarrow> csr_row csr r = coo_row coo r"
    using coo2csr_well_formed [OF coo(1,2)] coo(3) by auto
  have "r0 + r < unat (coo_numRows coo)" using at r csr(2) by (simp add: csr_at_def)
  then have "spmv_row_entries m0 p r = coo_row coo (r0 + r)" using csr_row_entries [OF csr(1) at r] csr(3) by simp
  then show ?thesis using spmv_main_rows [OF run m0 p ok rd stale r] by simp
qed

section \<open>An example\<close>

definition spmv_demo_coo :: coo_matrix where
  "spmv_demo_coo = \<lparr>coo_numRows = 2, coo_numCols = 2, coo_rowIdxs = [1, 0, 0],
     coo_nonzeros = [\<lparr>nz_col = 0, nz_value = 7\<rparr>, \<lparr>nz_col = 1, nz_value = 5\<rparr>, \<lparr>nz_col = 0, nz_value = 3\<rparr>]\<rparr>"

definition spmv_demo_csr :: csr_matrix where
  "spmv_demo_csr = \<lparr>csr_numRows = 2, csr_numCols = 2, csr_rowPtrs = [0, 2, 3],
     csr_nonzeros = [\<lparr>nz_col = 1, nz_value = 5\<rparr>, \<lparr>nz_col = 0, nz_value = 3\<rparr>, \<lparr>nz_col = 0, nz_value = 7\<rparr>]\<rparr>"

definition spmv_demo_fresh :: "nonzero list" where
  "spmv_demo_fresh = [\<lparr>nz_col = 0, nz_value = 0\<rparr>, \<lparr>nz_col = 0, nz_value = 0\<rparr>, \<lparr>nz_col = 0, nz_value = 0\<rparr>]"

definition spmv_demo_params :: spmv_params where
  "spmv_demo_params = \<lparr>dpuNumRows = 2, dpuRowPtrsOffset = 0, dpuRowPtrs_m = 0x4000, dpuNonzeros_m = 0x5000,
     dpuInVector_m = 0x6000, dpuOutVector_m = 0x7000\<rparr>"

text \<open>The vector is \<open>(2, 10)\<close>.\<close>

definition spmv_demo :: cells where
  "spmv_demo k =
     (if 0xC00 \<le> k \<and> k < 0xC06 then [2, 0, 0x4000, 0x5000, 0x6000, 0x7000] ! (k - 0xC00)
      else if 0x1000 \<le> k \<and> k < 0x1003 then [0, 2, 3] ! (k - 0x1000)
      else if 0x1400 \<le> k \<and> k < 0x1406 then [1, 5, 0, 3, 0, 7] ! (k - 0x1400)
      else if 0x1800 \<le> k \<and> k < 0x1802 then [2, 10] ! (k - 0x1800) else 0)"

definition spmv_demo_float :: float_ops where
  "spmv_demo_float = \<lparr>f_add = (+), f_mul = (*)\<rparr>"

text \<open>A reader that keeps its address and the memory it last saw.\<close>

definition spmv_demo_reader :: "(nat \<times> cells) seqread" where
  "spmv_demo_reader = \<lparr>sr_init = (\<lambda>m a. (a, m)), sr_get = (\<lambda>m r n. (fst r + n, m)), sr_word = (\<lambda>r k. snd r (fst r div 4 + k))\<rparr>"

lemma spmv_demo_reader_ok:
  "seqread_ok spmv_demo_reader (\<lambda>r a. fst r = a \<and> (\<forall>k \<in> X. snd r k = m k)) m X"
  by (simp add: seqread_ok_def spmv_demo_reader_def)

lemma spmv_demo_converted: "coo2csr spmv_demo_fresh spmv_demo_coo = Some spmv_demo_csr"
proof -
  let ?idx = "coo_rowIdxs spmv_demo_coo"
  have up: "[0..<length ?idx] = [0, 1, 2]" "[0..<2] = [0, 1 :: nat]" "rev [1..<2] = [1 :: nat]" by (simp_all add: spmv_demo_coo_def upt_rec)
  have "coo_histogram ?idx (replicate (2 + 1) 0) = [2, 1, 0]"
    unfolding coo_histogram_def up by (simp add: spmv_demo_coo_def Let_def numeral_3_eq_3)
  moreover have "csr_prefix_sum 2 [2, 1, 0] = [0, 2, 3]" unfolding csr_prefix_sum_def up by (simp add: Let_def)
  moreover have "csr_bin ?idx (coo_nonzeros spmv_demo_coo) ([0, 2, 3], spmv_demo_fresh) = ([2, 3, 3], csr_nonzeros spmv_demo_csr)"
    unfolding csr_bin_def up by (simp add: spmv_demo_coo_def spmv_demo_csr_def spmv_demo_fresh_def Let_def)
  moreover have "csr_restore 2 [2, 3, 3] = [0, 2, 3]" unfolding csr_restore_def up by simp
  moreover have "unat (coo_numRows spmv_demo_coo) = 2" "\<not> (\<exists>i \<in> set ?idx. 2 < unat i)" by (simp_all add: spmv_demo_coo_def)
  ultimately show ?thesis unfolding coo2csr_def Let_def by (simp add: spmv_demo_csr_def) (simp add: spmv_demo_coo_def)
qed

lemma spmv_demo_log [simp]: "j < 0x2000 \<Longrightarrow> sk_log_init spmv_demo j = spmv_demo j"
  by (rule sk_log_init_below) (simp add: SK_LOG_OFFSET_def)

lemma spmv_demo_read: "spmv_read_params (sk_log_init spmv_demo) = spmv_demo_params"
proof -
  have "mram_read m SPMV_ARG_OFFSET (ROUND_UP_TO_MULTIPLE_OF_8 24) = map (\<lambda>i. m (0xC00 + i)) [0..<6]" for m
    using mram_read_cells [of SPMV_ARG_OFFSET 24 m]
    by (simp add: SPMV_ARG_OFFSET_def ROUND_UP_TO_MULTIPLE_OF_8_def del: upt_rec_numeral)
  then have "mram_read (sk_log_init spmv_demo) SPMV_ARG_OFFSET (ROUND_UP_TO_MULTIPLE_OF_8 24) = [2, 0, 0x4000, 0x5000, 0x6000, 0x7000]"
    by (simp add: upt_rec spmv_demo_def)
  then show ?thesis by (simp add: spmv_read_params_def Let_def spmv_demo_params_def)
qed

lemma spmv_demo_nz: "k < 3 \<Longrightarrow> spmv_nz (sk_log_init spmv_demo) spmv_demo_params k = csr_nonzeros spmv_demo_csr ! k"
proof -
  assume "k < 3"
  then have "k = 0 \<or> k = 1 \<or> k = 2" by arith
  then show ?thesis by (elim disjE) (simp_all add: spmv_nz_def spmv_demo_params_def spmv_demo_def spmv_demo_csr_def)
qed

lemma spmv_demo_ptr: "spmv_ptr (sk_log_init spmv_demo) spmv_demo_params 2 = 3"
  by (simp add: spmv_ptr_def spmv_demo_params_def spmv_demo_def)

lemma spmv_demo_at: "csr_at spmv_demo_csr 0 spmv_demo_params (sk_log_init spmv_demo)"
  unfolding csr_at_def
proof (intro conjI allI impI)
  fix r assume "r \<le> unat (dpuNumRows spmv_demo_params)"
  then have "r = 0 \<or> r = 1 \<or> r = 2" by (auto simp: spmv_demo_params_def)
  then show "sk_log_init spmv_demo (unat (dpuRowPtrs_m spmv_demo_params) div 4 + r) = csr_rowPtrs spmv_demo_csr ! (0 + r)"
    by (elim disjE) (simp_all add: spmv_demo_params_def spmv_demo_csr_def spmv_demo_def)
next
  fix k assume "unat (csr_rowPtrs spmv_demo_csr ! 0) + k < length (csr_nonzeros spmv_demo_csr)"
  then show "spmv_nz (sk_log_init spmv_demo) spmv_demo_params k
      = csr_nonzeros spmv_demo_csr ! (unat (csr_rowPtrs spmv_demo_csr ! 0) + k)"
    using spmv_demo_nz [of k] by (simp add: spmv_demo_csr_def)
qed (simp_all add: spmv_demo_params_def spmv_demo_csr_def)

lemma spmv_demo_inputs:
  "spmv_inputs (sk_log_init spmv_demo) spmv_demo_params \<subseteq> {0x1000..<0x1003} \<union> {0x1400..<0x1406} \<union> {0x1800..<0x1802}"
proof -
  have "unat (nz_col (spmv_nz (sk_log_init spmv_demo) spmv_demo_params k)) < 2" if "k < 3" for k
  proof -
    have "k = 0 \<or> k = 1 \<or> k = 2" using that by arith
    then show ?thesis by (elim disjE) (simp_all add: spmv_demo_nz spmv_demo_csr_def)
  qed
  then show ?thesis using spmv_demo_ptr by (auto simp: spmv_inputs_def spmv_demo_params_def Let_def)
qed

lemma spmv_demo_ok: "spmv_ok (sk_log_init spmv_demo) spmv_demo_params"
proof -
  have out: "spmv_outputs spmv_demo_params \<subseteq> {0x1C00..<0x1C02}" by (auto simp: spmv_outputs_def spmv_demo_params_def)
  have "\<forall>r < 2. sk_log_init spmv_demo (0x1000 + r) \<le> sk_log_init spmv_demo (0x1000 + Suc r)"
  proof (intro allI impI)
    fix r :: nat assume "r < 2"
    then have "r = 0 \<or> r = 1" by arith
    then show "sk_log_init spmv_demo (0x1000 + r) \<le> sk_log_init spmv_demo (0x1000 + Suc r)"
      by (elim disjE) (simp_all add: spmv_demo_def)
  qed
  moreover have "spmv_inputs (sk_log_init spmv_demo) spmv_demo_params \<inter> spmv_outputs spmv_demo_params = {}"
    using spmv_demo_inputs out by fastforce
  moreover have "\<forall>k \<in> spmv_inputs (sk_log_init spmv_demo) spmv_demo_params \<union> spmv_outputs spmv_demo_params. k < SK_LOG_OFFSET div 4"
    using spmv_demo_inputs out by (fastforce simp: SK_LOG_OFFSET_def)
  ultimately show ?thesis by (simp add: spmv_ok_def) (simp add: spmv_demo_params_def)
qed

lemma spmv_demo_runs: "\<exists>m'. spmv_main spmv_demo_float spmv_demo_reader (\<lambda>_. replicate 64 0) spmv_demo m'"
  unfolding spmv_main_def Let_def by (intro exI) (rule phase_seq)

theorem coo2csr_correct_witness:
  "\<exists>csr. coo2csr spmv_demo_fresh spmv_demo_coo = Some csr \<and> csr_wf csr \<and> csr_row csr 0 = coo_row spmv_demo_coo 0"
proof -
  have "coo_wf spmv_demo_coo" "length spmv_demo_fresh = length (coo_nonzeros spmv_demo_coo)"
    by (simp_all add: coo_wf_def spmv_demo_coo_def spmv_demo_fresh_def)
  from coo2csr_correct [OF this] show ?thesis by (auto simp: spmv_demo_coo_def)
qed

theorem spmv_coo_product_witness:
  "\<exists>m'. spmv_main spmv_demo_float spmv_demo_reader (\<lambda>_. replicate 64 0) spmv_demo m' \<and> m' 0x1C00 = 56"
proof -
  let ?m0 = "sk_log_init spmv_demo" and ?p = "spmv_demo_params"
  obtain m' where run: "spmv_main spmv_demo_float spmv_demo_reader (\<lambda>_. replicate 64 0) spmv_demo m'" using spmv_demo_runs by blast
  have wf: "coo_wf spmv_demo_coo" "length spmv_demo_fresh = length (coo_nonzeros spmv_demo_coo)"
    by (simp_all add: coo_wf_def spmv_demo_coo_def spmv_demo_fresh_def)
  have "m' (unat (dpuOutVector_m ?p) div 4 + 0) = spmv_sum spmv_demo_float (spmv_in ?m0 ?p) (coo_row spmv_demo_coo (0 + 0))"
    by (rule spmv_coo_product [OF wf spmv_demo_converted run refl spmv_demo_read [symmetric] spmv_demo_at spmv_demo_ok spmv_demo_reader_ok])
      (simp_all add: spmv_demo_params_def)
  moreover have "coo_row spmv_demo_coo 0 = [\<lparr>nz_col = 1, nz_value = 5\<rparr>, \<lparr>nz_col = 0, nz_value = 3\<rparr>]" by code_simp
  moreover have "unat (dpuOutVector_m ?p) div 4 = 0x1C00" "spmv_in ?m0 ?p 0 = 2" "spmv_in ?m0 ?p (Suc 0) = 10"
    by (simp_all add: spmv_in_def spmv_demo_params_def spmv_demo_def)
  ultimately have "m' 0x1C00 = 56" by (simp add: spmv_sum_def spmv_demo_float_def)
  then show ?thesis using run by blast
qed

end
